(* ===== verification/Prelude.thy ===== *)
theory Prelude
  imports Complex_Main "HOL-Library.AList" "HOL-Library.Sublist" "HOL-Library.Word"
begin

text \<open>
  What the components share: the JavaScript containers and string operations the
  source is written in, with the laws the component proofs use.

  A JavaScript \<open>Map\<close> keeps its entries in insertion order, replaces a value in
  place, and appends a new key at the end: that is \<open>AList.update\<close> and
  \<open>AList.delete\<close> on an association list, read by \<open>map_of\<close>.  A string is a list of
  characters.  \<open>split_on\<close> is \<open>String.prototype.split\<close> with a one character
  separator (so its result is never empty), \<open>join_with\<close> is \<open>Array.prototype.join\<close>,
  \<open>last_index_of\<close> and \<open>index_of\<close> are the string searches with \<open>-1\<close> for none.
\<close>

named_theorems js_simps \<open>laws of the JavaScript containers and strings\<close>
named_theorems path_simps \<open>laws of path segments\<close>
named_theorems vfs_simps \<open>laws of the file system's store\<close>

type_synonym byte = "8 word"
type_synonym bytes = "8 word list"

subsection \<open>Maps in insertion order\<close>

text \<open>The interface a JavaScript \<open>Map\<close> offers its users, over an abstract lookup.\<close>

locale js_map =
  fixes lookup :: "'m \<Rightarrow> 'k \<Rightarrow> 'v option"
    and insert_at :: "'k \<Rightarrow> 'v \<Rightarrow> 'm \<Rightarrow> 'm"
    and remove_at :: "'k \<Rightarrow> 'm \<Rightarrow> 'm"
    and empty_map :: "'m"
    and well_formed :: "'m \<Rightarrow> bool"
  assumes lookup_empty: "lookup empty_map k = None"
    and lookup_insert: "lookup (insert_at k v m) k' = (if k' = k then Some v else lookup m k')"
    and lookup_remove: "lookup (remove_at k m) k' = (if k' = k then None else lookup m k')"
    and wf_empty: "well_formed empty_map"
    and wf_insert: "well_formed m \<Longrightarrow> well_formed (insert_at k v m)"
    and wf_remove: "well_formed m \<Longrightarrow> well_formed (remove_at k m)"
begin

lemma insert_remove_other: "k' \<noteq> k \<Longrightarrow> lookup (insert_at k v (remove_at k m)) k' = lookup m k'"
  by (simp add: lookup_insert lookup_remove)

lemma remove_insert: "lookup (remove_at k (insert_at k v m)) k' = lookup (remove_at k m) k'"
  by (simp add: lookup_insert lookup_remove)

lemma move_entry:
  "lookup (insert_at n v (remove_at k m)) k' =
     (if k' = n then Some v else if k' = k then None else lookup m k')"
  by (simp add: lookup_insert lookup_remove)

end

abbreviation distinct_keys :: "('k \<times> 'v) list \<Rightarrow> bool" where
  "distinct_keys m \<equiv> distinct (map fst m)"

lemma map_of_update [js_simps, simp]:
  "map_of (AList.update k v m) k' = (if k' = k then Some v else map_of m k')"
  by (simp add: update_conv')

lemma map_of_delete [js_simps, simp]:
  "map_of (AList.delete k m) k' = (if k' = k then None else map_of m k')"
  by (simp add: delete_conv')

interpretation alist_map:
  js_map map_of AList.update AList.delete "[]" distinct_keys
  by unfold_locales (simp_all add: distinct_update distinct_delete)

subsection \<open>Splitting and joining\<close>

fun split_on :: "'a \<Rightarrow> 'a list \<Rightarrow> 'a list list" where
  "split_on c [] = [[]]"
| "split_on c (x # xs) =
     (if x = c then [] # split_on c xs
      else (case split_on c xs of [] \<Rightarrow> [[x]] | y # ys \<Rightarrow> (x # y) # ys))"

fun join_with :: "'a list \<Rightarrow> 'a list list \<Rightarrow> 'a list" where
  "join_with sep [] = []"
| "join_with sep [x] = x"
| "join_with sep (x # y # zs) = x @ sep @ join_with sep (y # zs)"

lemma split_on_not_Nil [simp]: "split_on c s \<noteq> []"
  by (induction s) (auto split: list.splits)

lemma split_on_no_sep: "c \<notin> set s \<Longrightarrow> split_on c s = [s]"
  by (induction s) auto

lemma split_on_append_sep:
  "c \<notin> set s \<Longrightarrow> split_on c (s @ c # t) = s # split_on c t"
  by (induction s) auto

lemma in_split_on_no_sep: "p \<in> set (split_on c s) \<Longrightarrow> c \<notin> set p"
proof (induction s arbitrary: p)
  case (Cons x s)
  show ?case
  proof (cases "split_on c s")
    case Nil
    then show ?thesis by simp
  next
    case (Cons q qs)
    with Cons.IH have "\<And>r. r = q \<or> r \<in> set qs \<Longrightarrow> c \<notin> set r" by simp
    with Cons Cons.prems show ?thesis by (auto split: if_splits)
  qed
qed simp

lemma join_split [js_simps]: "join_with [c] (split_on c s) = s"
proof (induction s)
  case (Cons x s)
  show ?case
  proof (cases "split_on c s")
    case Nil
    then show ?thesis by simp
  next
    case (Cons q qs)
    with Cons.IH show ?thesis by (cases qs) auto
  qed
qed simp

lemma split_join:
  "ps \<noteq> [] \<Longrightarrow> \<forall>p \<in> set ps. c \<notin> set p \<Longrightarrow> split_on c (join_with [c] ps) = ps"
proof (induction ps)
  case (Cons p ps)
  then show ?case
    by (cases ps) (auto simp: split_on_no_sep split_on_append_sep)
qed simp

lemma join_with_snoc:
  "ps \<noteq> [] \<Longrightarrow> join_with sep (ps @ [p]) = join_with sep ps @ sep @ p"
  by (induction sep ps rule: join_with.induct) auto

lemma split_on_append:
  "split_on c (s @ c # t) = split_on c s @ split_on c t"
  by (induction s) (auto split: list.splits)

subsection \<open>String searches\<close>

fun index_of :: "'a \<Rightarrow> 'a list \<Rightarrow> int" where
  "index_of c [] = -1"
| "index_of c (x # xs) =
     (if x = c then 0 else let i = index_of c xs in if i < 0 then -1 else i + 1)"

fun last_index_of :: "'a \<Rightarrow> 'a list \<Rightarrow> int" where
  "last_index_of c [] = -1"
| "last_index_of c (x # xs) =
     (let i = last_index_of c xs
      in if 0 \<le> i then i + 1 else if x = c then 0 else -1)"

lemma last_index_of_none [js_simps]: "c \<notin> set s \<Longrightarrow> last_index_of c s = -1"
  by (induction s) (auto simp: Let_def)

lemma last_index_of_ge: "-1 \<le> last_index_of c s"
  by (induction s) (auto simp: Let_def)

lemma last_index_of_append [js_simps]:
  "c \<notin> set t \<Longrightarrow> last_index_of c (s @ c # t) = int (length s)"
  by (induction s) (auto simp: Let_def last_index_of_none)

lemma last_index_of_less: "last_index_of c s < int (length s)"
  by (induction s) (auto simp: Let_def)

lemma last_index_of_nth:
  "0 \<le> last_index_of c s \<Longrightarrow> s ! nat (last_index_of c s) = c"
  by (induction s) (auto simp: Let_def nat_add_distrib split: if_splits)

lemma last_index_of_member: "0 \<le> last_index_of c s \<longleftrightarrow> c \<in> set s"
proof
  assume "0 \<le> last_index_of c s"
  then show "c \<in> set s"
    by (metis last_index_of_less last_index_of_nth nat_less_iff nth_mem)
next
  show "c \<in> set s \<Longrightarrow> 0 \<le> last_index_of c s"
    by (induction s) (auto simp: Let_def)
qed

end
