(* ===== verification/Paths.thy ===== *)
theory Paths
  imports Prelude
begin

text \<open>
  The path arithmetic of \<open>src/virtual-fs.ts\<close> (\<open>normalizePath\<close>,
  \<open>getPathSegments\<close>, \<open>getParentPath\<close>, \<open>getBasename\<close>): lexical, over characters,
  with \<open>.\<close> and \<open>..\<close> resolved and a leading slash supplied.  The lemmas show that
  the three string functions are the list operations on a path's segments, which is
  what the file system's proofs use.
\<close>

abbreviation slash :: char where "slash \<equiv> CHR ''/''"

subsection \<open>The source's functions\<close>

definition nonempty_parts :: "string \<Rightarrow> string list" where
  "nonempty_parts p = filter (\<lambda>q. q \<noteq> []) (split_on slash p)"

fun resolve_parts :: "string list \<Rightarrow> string list \<Rightarrow> string list" where
  "resolve_parts resolved [] = resolved"
| "resolve_parts resolved (part # parts) =
     (if part = ''..'' then resolve_parts (butlast resolved) parts
      else if part \<noteq> ''.'' then resolve_parts (resolved @ [part]) parts
      else resolve_parts resolved parts)"

definition normalize_path :: "string \<Rightarrow> string" where
  "normalize_path path =
     (let path = (if prefix ''/'' path then path else ''/'' @ path)
      in ''/'' @ join_with ''/'' (resolve_parts [] (nonempty_parts path)))"

definition path_segments :: "string \<Rightarrow> string list" where
  "path_segments path = nonempty_parts (normalize_path path)"

definition parent_path :: "string \<Rightarrow> string" where
  "parent_path path =
     (let normalized = normalize_path path; last_slash = last_index_of slash normalized
      in if last_slash \<le> 0 then ''/'' else take (nat last_slash) normalized)"

definition base_name :: "string \<Rightarrow> string" where
  "base_name path =
     (let normalized = normalize_path path; last_slash = last_index_of slash normalized
      in drop (nat (last_slash + 1)) normalized)"

subsection \<open>Segments\<close>

text \<open>A name a directory entry can have, and the path a list of names spells.\<close>

definition clean_name :: "string \<Rightarrow> bool" where
  "clean_name n \<longleftrightarrow> n \<noteq> [] \<and> slash \<notin> set n \<and> n \<noteq> ''.'' \<and> n \<noteq> ''..''"

definition render :: "string list \<Rightarrow> string" where
  "render segs = ''/'' @ join_with ''/'' segs"

lemma nonempty_parts_no_slash: "p \<in> set (nonempty_parts s) \<Longrightarrow> p \<noteq> [] \<and> slash \<notin> set p"
  by (auto simp: nonempty_parts_def dest: in_split_on_no_sep)

lemma clean_butlast: "Ball (set segs) clean_name \<Longrightarrow> Ball (set (butlast segs)) clean_name"
  by (blast dest: in_set_butlastD)

lemma resolve_parts_clean:
  "Ball (set acc) clean_name \<Longrightarrow> \<forall>p \<in> set parts. p \<noteq> [] \<and> slash \<notin> set p \<Longrightarrow>
     Ball (set (resolve_parts acc parts)) clean_name"
proof (induction acc parts rule: resolve_parts.induct)
  case (2 resolved part parts)
  have rest: "\<forall>p \<in> set parts. p \<noteq> [] \<and> slash \<notin> set p" using "2.prems"(2) by simp
  consider "part = ''..''" | "part = ''.''" | "part \<noteq> ''..''" "part \<noteq> ''.''" by blast
  then show ?case
  proof cases
    case 1
    with "2.IH"(1) "2.prems"(1) rest show ?thesis by (simp add: clean_butlast)
  next
    case 2
    with "2.IH"(3) "2.prems"(1) rest show ?thesis by simp
  next
    case 3
    with "2.prems"(2) have "clean_name part" by (simp add: clean_name_def)
    with 3 "2.IH"(2) "2.prems"(1) rest show ?thesis by simp
  qed
qed simp

lemma resolve_parts_clean_id:
  "\<forall>p \<in> set parts. clean_name p \<Longrightarrow> resolve_parts acc parts = acc @ parts"
  by (induction acc parts rule: resolve_parts.induct) (auto simp: clean_name_def)

lemma nonempty_parts_render [path_simps]:
  assumes "\<forall>p \<in> set segs. clean_name p"
  shows "nonempty_parts (render segs) = segs"
proof (cases "segs = []")
  case True
  then show ?thesis by (simp add: render_def nonempty_parts_def)
next
  case False
  with assms have "split_on slash (join_with ''/'' segs) = segs"
    by (auto intro!: split_join simp: clean_name_def)
  with assms show ?thesis
    by (auto simp: render_def nonempty_parts_def clean_name_def intro: filter_True)
qed

lemma nonempty_parts_slash [path_simps]: "nonempty_parts (slash # s) = nonempty_parts s"
  by (simp add: nonempty_parts_def)

text \<open>What \<open>normalizePath\<close> resolves, as a list.\<close>

definition norm_segs :: "string \<Rightarrow> string list" where
  "norm_segs path = resolve_parts [] (nonempty_parts path)"

lemma norm_segs_clean: "\<forall>p \<in> set (norm_segs path). clean_name p"
  unfolding norm_segs_def
  by (rule resolve_parts_clean) (auto dest: nonempty_parts_no_slash)

lemma normalize_path_render: "normalize_path path = render (norm_segs path)"
  by (simp add: normalize_path_def render_def norm_segs_def Let_def nonempty_parts_slash)

lemma path_segments_norm [path_simps]: "path_segments path = norm_segs path"
  by (simp add: path_segments_def normalize_path_render nonempty_parts_render norm_segs_clean)

lemma norm_segs_render [path_simps]:
  "\<forall>p \<in> set segs. clean_name p \<Longrightarrow> norm_segs (render segs) = segs"
  by (simp add: norm_segs_def nonempty_parts_render resolve_parts_clean_id)

lemma norm_segs_normalize [path_simps]: "norm_segs (normalize_path p) = norm_segs p"
  by (simp add: normalize_path_render norm_segs_render norm_segs_clean)

lemma normalize_path_idem: "normalize_path (normalize_path p) = normalize_path p"
  by (simp add: normalize_path_render norm_segs_render norm_segs_clean)

lemma clean_no_slash: "clean_name n \<Longrightarrow> slash \<notin> set n"
  by (simp add: clean_name_def)

lemma render_snoc: "render (segs @ [n]) = (if segs = [] then ''/'' @ n else render segs @ ''/'' @ n)"
  by (simp add: render_def join_with_snoc)

lemma last_slash_render:
  assumes "slash \<notin> set n"
  shows "last_index_of slash (render (segs @ [n])) =
           (if segs = [] then 0 else int (length (render segs)))"
proof (cases "segs = []")
  case True
  then show ?thesis
    using last_index_of_append [OF assms, of "[]"] by (simp add: render_def)
next
  case False
  then show ?thesis
    using last_index_of_append [OF assms, of "render segs"] by (simp add: render_snoc)
qed

lemma render_not_Nil [simp]: "render segs \<noteq> []"
  by (simp add: render_def)

lemma parent_path_segs: "parent_path p = render (butlast (norm_segs p))"
proof (cases "norm_segs p" rule: rev_cases)
  case Nil
  then show ?thesis
    by (simp add: parent_path_def normalize_path_render Let_def render_def)
next
  case (snoc segs n)
  then have n: "slash \<notin> set n"
    using norm_segs_clean [of p] by (auto simp: clean_name_def)
  show ?thesis
    unfolding parent_path_def normalize_path_render snoc Let_def last_slash_render [OF n]
    by (simp add: render_snoc) (simp add: render_def)
qed

lemma base_name_segs:
  "base_name p = (if norm_segs p = [] then [] else last (norm_segs p))"
proof (cases "norm_segs p" rule: rev_cases)
  case Nil
  then show ?thesis
    by (simp add: base_name_def normalize_path_render Let_def render_def)
next
  case (snoc segs n)
  then have n: "slash \<notin> set n"
    using norm_segs_clean [of p] by (auto simp: clean_name_def)
  show ?thesis
    unfolding base_name_def normalize_path_render snoc Let_def last_slash_render [OF n]
    by (simp add: render_snoc nat_add_distrib)
qed

lemma norm_segs_parent [path_simps]: "norm_segs (parent_path p) = butlast (norm_segs p)"
  unfolding parent_path_segs
  by (rule norm_segs_render [OF clean_butlast [OF norm_segs_clean]])

lemma base_name_Nil [path_simps]: "base_name p = [] \<longleftrightarrow> norm_segs p = []"
  using norm_segs_clean [of p]
  by (auto simp: base_name_segs clean_name_def dest: last_in_set)

lemma norm_segs_split:
  assumes "base_name p \<noteq> []"
  shows "norm_segs p = norm_segs (parent_path p) @ [base_name p]"
proof -
  from assms have "norm_segs p \<noteq> []" by (simp add: base_name_Nil)
  then show ?thesis
    unfolding norm_segs_parent base_name_segs by simp
qed

lemma render_root [simp]: "render [] = ''/''"
  by (simp add: render_def)

lemma render_eq_root: "Ball (set segs) clean_name \<Longrightarrow> render segs = ''/'' \<longleftrightarrow> segs = []"
proof (cases segs rule: rev_cases)
  case (snoc xs n)
  assume "Ball (set segs) clean_name"
  with snoc have "n \<noteq> []" by (simp add: clean_name_def)
  then have "length (render segs) \<noteq> length ''/''"
    unfolding snoc render_snoc by (simp add: render_def)
  with snoc show ?thesis by auto
qed simp

lemma normalize_split:
  assumes "base_name p \<noteq> []"
  shows "normalize_path p =
           (if parent_path p = ''/'' then ''/'' @ base_name p else parent_path p @ ''/'' @ base_name p)"
proof -
  have "parent_path p = ''/'' \<longleftrightarrow> butlast (norm_segs p) = []"
    unfolding parent_path_segs by (rule render_eq_root [OF clean_butlast [OF norm_segs_clean]])
  then show ?thesis
    unfolding normalize_path_render norm_segs_split [OF assms] render_snoc
    by (simp add: norm_segs_parent) (simp add: parent_path_segs)
qed

end
