(* ===== verification/TypedArrays.thy ===== *)
theory TypedArrays
  imports Prelude
begin

text \<open>
  \<open>Uint8Array\<close> values as the file system uses them: a view names an
  \<open>ArrayBuffer\<close>, a byte offset and a length, and two views of one buffer share its
  bytes.  A store holds the buffers.  \<open>u8_set\<close> is \<open>TypedArray.prototype.set\<close>
  (None is its RangeError), \<open>u8_fill0\<close> is \<open>fill(0, from, to)\<close>, \<open>subarray\<close>
  makes a view of the same buffer, \<open>u8_slice\<close> copies into a new one.
\<close>

record view =
  buffer :: nat
  byte_offset :: nat
  byte_length :: nat

record u8store =
  buf_data :: "nat \<Rightarrow> bytes"
  next_buf :: nat

definition view_bytes :: "u8store \<Rightarrow> view \<Rightarrow> bytes" where
  "view_bytes st v = take (byte_length v) (drop (byte_offset v) (buf_data st (buffer v)))"

definition new_u8 :: "bytes \<Rightarrow> u8store \<Rightarrow> view \<times> u8store" where
  "new_u8 bs st =
     (\<lparr>buffer = next_buf st, byte_offset = 0, byte_length = length bs\<rparr>,
      st\<lparr>buf_data := (buf_data st)(next_buf st := bs), next_buf := Suc (next_buf st)\<rparr>)"

definition zeroed_u8 :: "nat \<Rightarrow> u8store \<Rightarrow> view \<times> u8store" where
  "zeroed_u8 n st = new_u8 (replicate n 0) st"

definition overwrite :: "bytes \<Rightarrow> nat \<Rightarrow> bytes \<Rightarrow> bytes" where
  "overwrite old pos bs = take pos old @ bs @ drop (pos + length bs) old"

definition u8_set :: "view \<Rightarrow> bytes \<Rightarrow> nat \<Rightarrow> u8store \<Rightarrow> u8store option" where
  "u8_set v bs pos st =
     (if pos + length bs \<le> byte_length v
      then Some (st\<lparr>buf_data := (buf_data st)
             (buffer v := overwrite (buf_data st (buffer v)) (byte_offset v + pos) bs)\<rparr>)
      else None)"

definition u8_fill0 :: "view \<Rightarrow> nat \<Rightarrow> nat \<Rightarrow> u8store \<Rightarrow> u8store" where
  "u8_fill0 v from to st =
     (let from = min from (byte_length v); to = min to (byte_length v)
      in if from < to
         then st\<lparr>buf_data := (buf_data st)
                (buffer v := overwrite (buf_data st (buffer v)) (byte_offset v + from)
                   (replicate (to - from) 0))\<rparr>
         else st)"

definition subarray :: "view \<Rightarrow> nat \<Rightarrow> nat \<Rightarrow> view" where
  "subarray v from to =
     (let from = min from (byte_length v); to = max from (min to (byte_length v))
      in \<lparr>buffer = buffer v, byte_offset = byte_offset v + from, byte_length = to - from\<rparr>)"

definition u8_slice :: "view \<Rightarrow> u8store \<Rightarrow> view \<times> u8store" where
  "u8_slice v st = new_u8 (view_bytes st v) st"

text \<open>A view the store holds: its buffer exists and covers it.\<close>

definition valid_view :: "u8store \<Rightarrow> view \<Rightarrow> bool" where
  "valid_view st v \<longleftrightarrow>
     buffer v < next_buf st \<and> byte_offset v + byte_length v \<le> length (buf_data st (buffer v))"

subsection \<open>Laws\<close>

lemma length_overwrite [simp]:
  "pos + length bs \<le> length old \<Longrightarrow> length (overwrite old pos bs) = length old"
  by (simp add: overwrite_def)

lemma take_overwrite [simp]: "n \<le> pos \<Longrightarrow> pos \<le> length old \<Longrightarrow> take n (overwrite old pos bs) = take n old"
  by (simp add: overwrite_def min_def)

lemma overwrite_covers:
  "pos + length bs \<le> length old \<Longrightarrow>
     take (pos + length bs) (overwrite old pos bs) = take pos old @ bs"
  by (simp add: overwrite_def)

lemma nth_overwrite:
  "pos + length bs \<le> length old \<Longrightarrow> i < length old \<Longrightarrow>
     overwrite old pos bs ! i =
       (if i < pos then old ! i else if i < pos + length bs then bs ! (i - pos) else old ! i)"
  by (auto simp: overwrite_def nth_append min_def)

lemma length_view_bytes [simp]: "valid_view st v \<Longrightarrow> length (view_bytes st v) = byte_length v"
  by (auto simp: valid_view_def view_bytes_def)

lemma view_bytes_nth:
  "valid_view st v \<Longrightarrow> i < byte_length v \<Longrightarrow>
     view_bytes st v ! i = buf_data st (buffer v) ! (byte_offset v + i)"
  by (simp add: valid_view_def view_bytes_def)

lemma new_u8_valid: "new_u8 bs st = (v, st') \<Longrightarrow> valid_view st' v \<and> view_bytes st' v = bs"
  by (auto simp: new_u8_def valid_view_def view_bytes_def)

lemma new_u8_keeps:
  "new_u8 bs st = (v, st') \<Longrightarrow> valid_view st w \<Longrightarrow>
     valid_view st' w \<and> view_bytes st' w = view_bytes st w"
  by (auto simp: new_u8_def valid_view_def view_bytes_def)

lemma u8_set_other_buffer:
  "u8_set v bs pos st = Some st' \<Longrightarrow> buffer w \<noteq> buffer v \<Longrightarrow> view_bytes st' w = view_bytes st w"
  by (auto simp: u8_set_def view_bytes_def split: if_splits)

lemma u8_set_valid:
  "u8_set v bs pos st = Some st' \<Longrightarrow> valid_view st v \<Longrightarrow> valid_view st w \<Longrightarrow> valid_view st' w"
  by (auto simp: u8_set_def valid_view_def split: if_splits)

text \<open>Bytes written past the end of a view of the same buffer leave that view alone.\<close>

lemma u8_set_beyond:
  assumes "u8_set v bs pos st = Some st'" and "valid_view st v" and "valid_view st w"
    and "buffer w = buffer v" and "byte_offset w + byte_length w \<le> byte_offset v + pos"
  shows "view_bytes st' w = view_bytes st w"
proof -
  from assms(1) have fit: "pos + length bs \<le> byte_length v"
    and st': "buf_data st' (buffer v) = overwrite (buf_data st (buffer v)) (byte_offset v + pos) bs"
    by (auto simp: u8_set_def split: if_splits)
  show ?thesis
  proof (rule nth_equalityI)
    have valid': "valid_view st' w" using u8_set_valid [OF assms(1-3)] .
    with assms(3) show "length (view_bytes st' w) = length (view_bytes st w)" by simp
    fix i assume "i < length (view_bytes st' w)"
    with valid' have i: "i < byte_length w" by simp
    have "byte_offset v + pos + length bs \<le> length (buf_data st (buffer v))"
      using assms(2) fit by (simp add: valid_view_def)
    moreover have "byte_offset w + i < byte_offset v + pos" using i assms(5) by simp
    ultimately show "view_bytes st' w ! i = view_bytes st w ! i"
      using i valid' assms(3,4) by (simp add: view_bytes_nth st' nth_overwrite)
  qed
qed

text \<open>Bytes written into the view itself, read back through a prefix of it.\<close>

lemma u8_set_read:
  assumes "u8_set v bs pos st = Some st'" and "valid_view st v"
    and w: "buffer w = buffer v" "byte_offset w = byte_offset v"
       "byte_length w = max n (pos + length bs)" "n \<le> byte_length v" "pos \<le> n"
  shows "view_bytes st' w = overwrite (take n (view_bytes st v)) pos bs"
proof -
  let ?old = "drop (byte_offset v) (buf_data st (buffer v))"
  from assms(1) have fit: "pos + length bs \<le> byte_length v"
    and st': "buf_data st' (buffer v) = overwrite (buf_data st (buffer v)) (byte_offset v + pos) bs"
    by (auto simp: u8_set_def split: if_splits)
  have room: "byte_offset v + byte_length v \<le> length (buf_data st (buffer v))"
    using assms(2) by (simp add: valid_view_def)
  have "drop (byte_offset v) (buf_data st' (buffer v)) =
          drop (byte_offset v) (take (byte_offset v + pos) (buf_data st (buffer v))) @ bs
            @ drop (byte_offset v + pos + length bs) (buf_data st (buffer v))"
    using room fit by (simp add: st' overwrite_def)
  also have "drop (byte_offset v) (take (byte_offset v + pos) (buf_data st (buffer v))) = take pos ?old"
    by (simp add: take_drop add.commute)
  also have "drop (byte_offset v + pos + length bs) (buf_data st (buffer v)) = drop (pos + length bs) ?old"
    by (simp add: add.commute add.left_commute)
  finally have "view_bytes st' w = take (max n (pos + length bs)) (take pos ?old @ bs @ drop (pos + length bs) ?old)"
    using w by (simp add: view_bytes_def)
  also have "\<dots> = take pos ?old @ bs @ take (n - (pos + length bs)) (drop (pos + length bs) ?old)"
  proof -
    have len: "length (take pos ?old) = pos" using room fit by simp
    show ?thesis
    proof (cases "n \<le> pos + length bs")
      case True
      with len show ?thesis by (simp add: max_def)
    next
      case False
      then have "pos \<le> n" "length bs \<le> n - pos" by simp_all
      with False len show ?thesis by (simp add: max_def)
    qed
  qed
  also have "\<dots> = overwrite (take n ?old) pos bs"
    using w(5) by (simp add: overwrite_def drop_take min_def)
  also have "take n ?old = take n (view_bytes st v)"
    using w(4) by (simp add: view_bytes_def min_def)
  finally show ?thesis .
qed

subsection \<open>What a change of the store leaves alone\<close>

text \<open>
  \<open>store_ext\<close>: nothing visible changed, there may be new buffers.  \<open>writes_past r p\<close>:
  only bytes of \<open>r\<close>'s buffer from position \<open>p\<close> on may have changed.
\<close>

definition store_ext :: "u8store \<Rightarrow> u8store \<Rightarrow> bool" where
  "store_ext st st' \<longleftrightarrow> next_buf st \<le> next_buf st' \<and>
     (\<forall>w. valid_view st w \<longrightarrow> valid_view st' w \<and> view_bytes st' w = view_bytes st w)"

definition writes_past :: "view \<Rightarrow> nat \<Rightarrow> u8store \<Rightarrow> u8store \<Rightarrow> bool" where
  "writes_past r p st st' \<longleftrightarrow> next_buf st' = next_buf st \<and>
     (\<forall>w. valid_view st w \<longrightarrow> valid_view st' w \<and>
        (buffer w \<noteq> buffer r \<or> byte_offset w + byte_length w \<le> p \<longrightarrow>
           view_bytes st' w = view_bytes st w))"

lemma store_ext_refl [simp]: "store_ext st st"
  by (simp add: store_ext_def)

lemma store_ext_trans: "store_ext r s \<Longrightarrow> store_ext s t \<Longrightarrow> store_ext r t"
  by (auto simp: store_ext_def)

lemma store_ext_new: "new_u8 bs st = (v, st') \<Longrightarrow> store_ext st st'"
  using new_u8_keeps [of bs st v st'] by (auto simp: store_ext_def new_u8_def)

lemma store_extD:
  "store_ext st st' \<Longrightarrow> valid_view st w \<Longrightarrow> valid_view st' w \<and> view_bytes st' w = view_bytes st w"
  by (simp add: store_ext_def)

lemma valid_view_buffer: "valid_view st w \<Longrightarrow> buffer w < next_buf st"
  by (simp add: valid_view_def)

lemma writes_past_set:
  assumes "u8_set r bs pos st = Some st'" and "valid_view st r" and "byte_offset r = 0"
  shows "writes_past r pos st st'"
  unfolding writes_past_def
proof (intro conjI allI impI)
  show "next_buf st' = next_buf st" using assms(1) by (auto simp: u8_set_def split: if_splits)
  fix w assume w: "valid_view st w"
  show "valid_view st' w" using assms(1,2) w by (rule u8_set_valid)
  assume "buffer w \<noteq> buffer r \<or> byte_offset w + byte_length w \<le> pos"
  then show "view_bytes st' w = view_bytes st w"
    using u8_set_other_buffer [OF assms(1)] u8_set_beyond [OF assms(1,2) w] assms(3) by auto
qed

lemma writes_past_trans:
  "writes_past r p s t \<Longrightarrow> writes_past r q t u \<Longrightarrow> writes_past r (min p q) s u"
  by (auto simp: writes_past_def)

lemma writes_past_mono: "writes_past r p s t \<Longrightarrow> q \<le> p \<Longrightarrow> writes_past r q s t"
  by (auto simp: writes_past_def)

lemma u8_fill0_set:
  "from < to \<Longrightarrow> to \<le> byte_length r \<Longrightarrow>
     u8_set r (replicate (to - from) 0) from st = Some (u8_fill0 r from to st)"
  by (simp add: u8_set_def u8_fill0_def Let_def)

lemma subarray_prefix [simp]:
  "len \<le> byte_length r \<Longrightarrow>
     subarray r 0 len = \<lparr>buffer = buffer r, byte_offset = byte_offset r, byte_length = len\<rparr>"
  by (simp add: subarray_def)

lemma valid_view_prefix:
  "valid_view st r \<Longrightarrow> len \<le> byte_length r \<Longrightarrow> valid_view st (subarray r 0 len)"
  by (simp add: valid_view_def)

lemma view_bytes_prefix:
  "len \<le> byte_length r \<Longrightarrow> view_bytes st (subarray r 0 len) = take len (view_bytes st r)"
  by (simp add: view_bytes_def min_def)

lemma u8_set_prefix:
  assumes "u8_set r bs pos st = Some st'" and "valid_view st r"
    and "pos \<le> n" "n \<le> byte_length r" "len = max n (pos + length bs)" "len \<le> byte_length r"
  shows "view_bytes st' (subarray r 0 len) = overwrite (take n (view_bytes st r)) pos bs"
  using u8_set_read [OF assms(1,2) _ _ _ assms(4,3), of "subarray r 0 len"] assms(5,6) by simp

end
