(* ===== verification/VfsState.thy ===== *)
theory VfsState
  imports Paths TypedArrays
begin

text \<open>
  The state of \<open>class VirtualFS\<close> (\<open>src/virtual-fs.ts\<close>) and everything that reads
  it: \<open>createNodeError\<close>, \<open>unixMs\<close>, the node lookup \<open>__substrateNode\<close> with its
  symlinks and mounts, \<open>assertWritable\<close>, the watchers and the change and delete
  listeners.

  An \<open>FSNode\<close> is an object: operations share it, rename moves it and an inode is its
  identity.  So nodes live in a heap, addressed by numbers, and a directory's
  \<open>children\<close> map names addresses.  A \<open>MountedTree\<close> is the host's: a function from
  a path below the mount to the node it answers, whose objects are in the same heap.
  \<open>Date.now()\<close> is the field \<open>now\<close>.  The engine's call stack, which bounds the
  recursions of the source that nothing else bounds, is the field \<open>stack_depth\<close>.
  Listeners are the host's code: a delivery to one is an entry of the trace \<open>events\<close>.
\<close>

subsection \<open>Errors\<close>

datatype code = ENOENT | ENOTDIR | EISDIR | EEXIST | ENOTEMPTY | ELOOP | EINVAL | EROFS

fun code_text :: "code \<Rightarrow> string" where
  "code_text ENOENT = ''ENOENT''"
| "code_text ENOTDIR = ''ENOTDIR''"
| "code_text EISDIR = ''EISDIR''"
| "code_text EEXIST = ''EEXIST''"
| "code_text ENOTEMPTY = ''ENOTEMPTY''"
| "code_text ELOOP = ''ELOOP''"
| "code_text EINVAL = ''EINVAL''"
| "code_text EROFS = ''EROFS''"

text \<open>The two tables of \<open>createNodeError\<close>; a code they leave out reads undefined.\<close>

fun code_errno :: "code \<Rightarrow> int option" where
  "code_errno ENOENT = Some (-2)"
| "code_errno ENOTDIR = Some (-20)"
| "code_errno EISDIR = Some (-21)"
| "code_errno EEXIST = Some (-17)"
| "code_errno ENOTEMPTY = Some (-39)"
| "code_errno EROFS = Some (-30)"
| "code_errno _ = None"

fun code_message :: "code \<Rightarrow> string option" where
  "code_message ENOENT = Some ''no such file or directory''"
| "code_message ENOTDIR = Some ''not a directory''"
| "code_message EISDIR = Some ''is a directory''"
| "code_message EEXIST = Some ''file already exists''"
| "code_message ENOTEMPTY = Some ''directory not empty''"
| "code_message EROFS = Some ''read-only file system''"
| "code_message _ = None"

record node_error =
  err_code :: code
  err_errno :: "int option"
  err_syscall :: string
  err_path :: string
  err_message :: string

definition create_node_error :: "code \<Rightarrow> string \<Rightarrow> string \<Rightarrow> node_error" where
  "create_node_error c syscall path =
     \<lparr>err_code = c, err_errno = code_errno c, err_syscall = syscall, err_path = path,
      err_message = code_text c @ '': ''
        @ (case code_message c of Some m \<Rightarrow> m | None \<Rightarrow> ''undefined'')
        @ '', '' @ syscall @ '' '' @ [CHR 0x27] @ path @ [CHR 0x27]\<rparr>"

text \<open>
  What an operation can throw: a Node error, a bare \<open>Error\<close> with a message and no
  code, the TypeError of \<open>unixMs\<close> for the named argument, the RangeError of a typed
  array's \<open>set\<close>, or the engine's own RangeError when a recursion exhausts the stack.
\<close>

datatype err =
    NodeErr node_error
  | PlainErr string
  | InvalidArgType string
  | OffsetOutOfBounds
  | StackOverflow

abbreviation node_err :: "code \<Rightarrow> string \<Rightarrow> string \<Rightarrow> err" where
  "node_err c syscall path \<equiv> NodeErr (create_node_error c syscall path)"

text \<open>
  A time argument of \<open>utimesSync\<close>, by the cases \<open>unixMs\<close> distinguishes: a string
  equal to its number, a finite number, a Date, and anything else.
\<close>

datatype time_arg = NumericText rat | FiniteNumber rat | DateValue rat | OtherValue

fun unix_ms :: "rat \<Rightarrow> time_arg \<Rightarrow> string \<Rightarrow> err + rat" where
  "unix_ms now (NumericText t) name = Inr (t * 1000)"
| "unix_ms now (FiniteNumber t) name = Inr (if t < 0 then now else t * 1000)"
| "unix_ms now (DateValue t) name = Inr t"
| "unix_ms now OtherValue name = Inl (InvalidArgType name)"

subsection \<open>Nodes and the file system\<close>

type_synonym addr = nat

datatype ntype = File | Directory | Symlink

type_synonym mtree = "string \<Rightarrow> addr option"

record fsnode =
  ntype :: ntype
  content :: "view option"
  target :: string
  children :: "(string \<times> addr) list"
  mtime :: rat
  mode :: "nat option"
  atime :: "rat option"
  mount :: "mtree option"
  room :: "view option"
  lent :: bool

datatype watch_type = Change | Rename

record watcher =
  listener :: nat
  recursive :: bool
  closed :: bool

datatype delivery =
    ToWatcher nat watch_type string
  | ToChange nat string bytes
  | ToDelete nat string

record fs =
  nodes :: "addr \<Rightarrow> fsnode"
  next_node :: addr
  root :: addr
  arrays :: u8store
  now :: rat
  inodes :: "addr \<Rightarrow> nat option"
  next_inode :: nat
  watchers :: "(string \<times> watcher list) list"
  change_listeners :: "nat list"
  delete_listeners :: "nat list"
  events :: "delivery list"
  stack_depth :: nat

text \<open>
  A directory node always carries its map, a file or a link never uses one: the map of
  both is the list \<open>children\<close>, empty where the source has none.
\<close>

definition new_directory :: "rat \<Rightarrow> fsnode" where
  "new_directory t = \<lparr>ntype = Directory, content = None, target = [], children = [], mtime = t,
     mode = None, atime = None, mount = None, room = None, lent = False\<rparr>"

definition new_file :: "view \<Rightarrow> rat \<Rightarrow> fsnode" where
  "new_file v t = (new_directory t)\<lparr>ntype := File, content := Some v\<rparr>"

definition new_symlink :: "string \<Rightarrow> rat \<Rightarrow> fsnode" where
  "new_symlink tgt t = (new_directory t)\<lparr>ntype := Symlink, target := tgt\<rparr>"

text \<open>
  The constructor: an empty root directory.  Buffer 0 is an empty one that was there before.
\<close>

definition new_fs :: "rat \<Rightarrow> nat \<Rightarrow> fs" where
  "new_fs t stack =
     \<lparr>nodes = (\<lambda>_. new_directory t), next_node = 1, root = 0,
      arrays = \<lparr>buf_data = (\<lambda>_. []), next_buf = 1\<rparr>, now = t, inodes = (\<lambda>_. None), next_inode = 1,
      watchers = [], change_listeners = [], delete_listeners = [], events = [],
      stack_depth = stack\<rparr>"

definition alloc_node :: "fsnode \<Rightarrow> fs \<Rightarrow> addr \<times> fs" where
  "alloc_node n fs = (next_node fs, fs\<lparr>nodes := (nodes fs)(next_node fs := n), next_node := Suc (next_node fs)\<rparr>)"

definition update_node :: "addr \<Rightarrow> (fsnode \<Rightarrow> fsnode) \<Rightarrow> fs \<Rightarrow> fs" where
  "update_node a f fs = fs\<lparr>nodes := (nodes fs)(a := f (nodes fs a))\<rparr>"

lemma update_node_fields [simp]:
  "next_node (update_node a f fs) = next_node fs" "root (update_node a f fs) = root fs"
  "arrays (update_node a f fs) = arrays fs" "stack_depth (update_node a f fs) = stack_depth fs"
  "now (update_node a f fs) = now fs" "events (update_node a f fs) = events fs"
  "change_listeners (update_node a f fs) = change_listeners fs"
  "delete_listeners (update_node a f fs) = delete_listeners fs"
  "watchers (update_node a f fs) = watchers fs"
  by (simp_all add: update_node_def)

lemma update_node_same [simp]: "nodes (update_node a f fs) a = f (nodes fs a)"
  by (simp add: update_node_def)

lemma update_node_other [simp]: "b \<noteq> a \<Longrightarrow> nodes (update_node a f fs) b = nodes fs b"
  by (simp add: update_node_def)

definition child_at :: "fs \<Rightarrow> addr \<Rightarrow> string \<Rightarrow> addr option" where
  "child_at fs a name = map_of (children (nodes fs a)) name"

definition set_child :: "addr \<Rightarrow> string \<Rightarrow> addr \<Rightarrow> fs \<Rightarrow> fs" where
  "set_child a name c = update_node a (\<lambda>n. n\<lparr>children := AList.update name c (children n)\<rparr>)"

definition delete_child :: "addr \<Rightarrow> string \<Rightarrow> fs \<Rightarrow> fs" where
  "delete_child a name = update_node a (\<lambda>n. n\<lparr>children := AList.delete name (children n)\<rparr>)"

definition inode_for :: "addr \<Rightarrow> fs \<Rightarrow> nat \<times> fs" where
  "inode_for a fs =
     (case inodes fs a of
        Some i \<Rightarrow> (i, fs)
      | None \<Rightarrow> (next_inode fs,
          fs\<lparr>inodes := (inodes fs)(a \<mapsto> next_inode fs), next_inode := Suc (next_inode fs)\<rparr>))"

text \<open>An operation answers a value or throws, and leaves a state in both cases.\<close>

type_synonym 'a outcome = "(err + 'a) \<times> fs"

definition and_then :: "'a outcome \<Rightarrow> ('a \<Rightarrow> fs \<Rightarrow> 'b outcome) \<Rightarrow> 'b outcome" where
  "and_then r k = (case r of (Inl e, s) \<Rightarrow> (Inl e, s) | (Inr x, s) \<Rightarrow> k x s)"

lemma and_then_simps [simp]:
  "and_then (Inl e, s) k = (Inl e, s)"
  "and_then (Inr x, s) k = k x s"
  by (simp_all add: and_then_def)

lemma outcome_ok: "\<not> isl (fst r) \<Longrightarrow> r = (Inr (projr (fst r)), snd r)"
  by (cases r; cases "fst r") simp_all

lemma and_then_Inr:
  "and_then r k = (Inr y, s') \<longleftrightarrow> (\<exists>x s. r = (Inr x, s) \<and> k x s = (Inr y, s'))"
  by (auto simp: and_then_def split: prod.splits sum.splits)

subsection \<open>Looking a node up\<close>

definition link_target :: "string \<Rightarrow> string \<Rightarrow> string" where
  "link_target link_path tgt =
     normalize_path (if prefix ''/'' tgt then tgt else parent_path link_path @ ''/'' @ tgt)"

text \<open>Where the path of a link leads: its target, then the segments after the link.\<close>

definition link_jump :: "string list \<Rightarrow> string \<Rightarrow> string list \<Rightarrow> string" where
  "link_jump passed tgt rest =
     (let tgt' = link_target (render passed) tgt
      in if rest \<noteq> [] then tgt' @ ''/'' @ join_with ''/'' rest else tgt')"

datatype walk_end = Found "addr option" | Jump string

text \<open>
  One step of a walk: the child a segment names, from the mounted tree the walk is in
  (with the index of its mount point) or from the directory's own map; and the node to
  go on from, which is the tree's own root where the child is a mount point.
\<close>

definition child_on_walk :: "fs \<Rightarrow> string list \<Rightarrow> string \<Rightarrow> addr \<Rightarrow> (mtree \<times> nat) option \<Rightarrow> addr option" where
  "child_on_walk fs passed seg current mounted =
     (case mounted of
        Some (tree, start) \<Rightarrow> tree (render (drop (start + 1) (passed @ [seg])))
      | None \<Rightarrow> child_at fs current seg)"

definition enter_child :: "fs \<Rightarrow> nat \<Rightarrow> addr \<Rightarrow> (mtree \<times> nat) option \<Rightarrow> addr \<times> (mtree \<times> nat) option" where
  "enter_child fs index child mounted =
     (case (mounted, mount (nodes fs child)) of
        (None, Some tree) \<Rightarrow>
          ((case tree ''/'' of Some a \<Rightarrow> a | None \<Rightarrow> child), Some (tree, index))
      | _ \<Rightarrow> (child, mounted))"

text \<open>The loop of \<open>__substrateNode\<close>; \<open>passed\<close> are the segments behind.\<close>

fun node_loop :: "fs \<Rightarrow> bool \<Rightarrow> string list \<Rightarrow> string list \<Rightarrow> addr \<Rightarrow> (mtree \<times> nat) option \<Rightarrow> walk_end" where
  "node_loop fs follow passed [] current mounted = Found (Some current)"
| "node_loop fs follow passed (seg # rest) current mounted =
     (if ntype (nodes fs current) \<noteq> Directory then Found None
      else case child_on_walk fs passed seg current mounted of
          None \<Rightarrow> Found None
        | Some child \<Rightarrow>
            if ntype (nodes fs child) = Symlink \<and> (follow \<or> rest \<noteq> [])
            then Jump (link_jump (passed @ [seg]) (target (nodes fs child)) rest)
            else node_loop fs follow (passed @ [seg]) rest
                   (fst (enter_child fs (length passed) child mounted))
                   (snd (enter_child fs (length passed) child mounted)))"

function substrate_node :: "fs \<Rightarrow> string \<Rightarrow> bool \<Rightarrow> nat \<Rightarrow> err + addr option" where
  "substrate_node fs path follow depth =
     (if 40 < depth then Inl (node_err ELOOP ''stat'' path)
      else case node_loop fs follow [] (path_segments path) (root fs) None of
          Found r \<Rightarrow> Inr r
        | Jump p \<Rightarrow> substrate_node fs p follow (depth + 1))"
  by pat_completeness auto
termination
  by (relation "measure (\<lambda>(fs, path, follow, depth). 41 - depth)") auto

declare substrate_node.simps [simp del]

definition get_node :: "fs \<Rightarrow> string \<Rightarrow> err + addr option" where
  "get_node fs path = substrate_node fs path True 0"

text \<open>The walk of \<open>assertWritable\<close>: whether a mount point is on the path as written.\<close>

fun crosses_mount :: "fs \<Rightarrow> addr \<Rightarrow> string list \<Rightarrow> bool" where
  "crosses_mount fs current [] = False"
| "crosses_mount fs current (seg # rest) =
     (case child_at fs current seg of
        None \<Rightarrow> False
      | Some c \<Rightarrow> mount (nodes fs c) \<noteq> None \<or> crosses_mount fs c rest)"

definition assert_writable :: "string \<Rightarrow> string \<Rightarrow> fs \<Rightarrow> unit outcome" where
  "assert_writable path syscall fs =
     (if crosses_mount fs (root fs) (path_segments path)
      then (Inl (node_err EROFS syscall path), fs)
      else (Inr (), fs))"

subsection \<open>Watchers and listeners\<close>

text \<open>The deliveries to the watchers at one directory or file.\<close>

definition deliver_at :: "fs \<Rightarrow> string \<Rightarrow> (watcher \<Rightarrow> bool) \<Rightarrow> watch_type \<Rightarrow> string \<Rightarrow> delivery list" where
  "deliver_at fs path wants ev name =
     (case map_of (watchers fs) path of
        None \<Rightarrow> []
      | Some ws \<Rightarrow> map (\<lambda>w. ToWatcher (listener w) ev name)
          (filter (\<lambda>w. \<not> closed w \<and> wants w) ws))"

function deliver_up :: "fs \<Rightarrow> string \<Rightarrow> watch_type \<Rightarrow> string \<Rightarrow> string \<Rightarrow> delivery list" where
  "deliver_up fs normalized ev current relative =
     deliver_at fs current (\<lambda>w. recursive w \<or> parent_path normalized = current) ev relative @
     (if current = ''/'' then []
      else deliver_up fs normalized ev (parent_path current) (base_name current @ ''/'' @ relative))"
  by pat_completeness auto
termination
proof (relation "measure (\<lambda>(fs, normalized, ev, current, relative).
    if current = ''/'' then 0 else Suc (length (norm_segs current)))", goal_cases)
  case (2 fs normalized ev current relative)
  have "butlast (norm_segs current) = [] \<Longrightarrow> parent_path current = ''/''"
    by (simp add: parent_path_segs)
  moreover have "length (norm_segs (parent_path current)) \<le> length (norm_segs current) - 1"
    by (simp add: norm_segs_parent)
  ultimately show ?case using 2 by (cases "norm_segs current") (auto simp: norm_segs_parent)
qed simp

declare deliver_up.simps [simp del]

definition notify_watchers :: "string \<Rightarrow> watch_type \<Rightarrow> fs \<Rightarrow> fs" where
  "notify_watchers path ev fs =
     (let normalized = normalize_path path; name = base_name normalized
      in fs\<lparr>events := events fs @ deliver_at fs normalized (\<lambda>_. True) ev name
            @ deliver_up fs normalized ev (parent_path normalized) name\<rparr>)"

definition emit_change :: "string \<Rightarrow> bytes \<Rightarrow> fs \<Rightarrow> fs" where
  "emit_change path text fs =
     fs\<lparr>events := events fs @ map (\<lambda>l. ToChange l path text) (change_listeners fs)\<rparr>"

definition emit_delete :: "string \<Rightarrow> fs \<Rightarrow> fs" where
  "emit_delete path fs =
     fs\<lparr>events := events fs @ map (\<lambda>l. ToDelete l path) (delete_listeners fs)\<rparr>"

definition file_bytes :: "fs \<Rightarrow> addr \<Rightarrow> bytes" where
  "file_bytes fs a =
     (case content (nodes fs a) of None \<Rightarrow> [] | Some v \<Rightarrow> view_bytes (arrays fs) v)"

definition emit_changed :: "string \<Rightarrow> fs \<Rightarrow> unit outcome" where
  "emit_changed path fs =
     (if change_listeners fs = [] then (Inr (), fs)
      else case substrate_node fs path False 0 of
          Inl e \<Rightarrow> (Inl e, fs)
        | Inr None \<Rightarrow> (Inr (), emit_change path [] fs)
        | Inr (Some a) \<Rightarrow>
            (Inr (), emit_change path
               (if ntype (nodes fs a) = File then file_bytes fs a else []) fs))"

text \<open>\<open>on\<close> and \<open>off\<close> for the two events: a listener is in the set at most once.\<close>

definition on_change :: "nat \<Rightarrow> fs \<Rightarrow> fs" where
  "on_change l fs = fs\<lparr>change_listeners := List.insert l (change_listeners fs)\<rparr>"

definition on_delete :: "nat \<Rightarrow> fs \<Rightarrow> fs" where
  "on_delete l fs = fs\<lparr>delete_listeners := List.insert l (delete_listeners fs)\<rparr>"

definition off_change :: "nat \<Rightarrow> fs \<Rightarrow> fs" where
  "off_change l fs = fs\<lparr>change_listeners := filter (\<lambda>x. x \<noteq> l) (change_listeners fs)\<rparr>"

definition off_delete :: "nat \<Rightarrow> fs \<Rightarrow> fs" where
  "off_delete l fs = fs\<lparr>delete_listeners := filter (\<lambda>x. x \<noteq> l) (delete_listeners fs)\<rparr>"

text \<open>\<open>watch\<close> adds an entry to the set of its path; its \<open>close\<close> takes the entry out.\<close>

definition watch :: "string \<Rightarrow> nat \<Rightarrow> bool \<Rightarrow> fs \<Rightarrow> fs" where
  "watch filename l rec fs =
     (let normalized = normalize_path filename;
          entry = \<lparr>listener = l, recursive = rec, closed = False\<rparr>;
          old = (case map_of (watchers fs) normalized of None \<Rightarrow> [] | Some ws \<Rightarrow> ws)
      in fs\<lparr>watchers := AList.update normalized (old @ [entry]) (watchers fs)\<rparr>)"

text \<open>
  \<open>close\<close> of the watcher whose entry stands at place \<open>k\<close> of the path's set: that entry alone,
  whoever else has its listener; a place past the end is an entry closed before.
\<close>

definition close_watcher :: "string \<Rightarrow> nat \<Rightarrow> fs \<Rightarrow> fs" where
  "close_watcher filename k fs =
     (let normalized = normalize_path filename
      in case map_of (watchers fs) normalized of
           None \<Rightarrow> fs
         | Some ws \<Rightarrow>
             (let left = take k ws @ drop (Suc k) ws
              in if left = [] then fs\<lparr>watchers := AList.delete normalized (watchers fs)\<rparr>
                 else fs\<lparr>watchers := AList.update normalized left (watchers fs)\<rparr>))"

end
