(* ===== verification/VfsOps.thy ===== *)
theory VfsOps
  imports VfsState
begin

text \<open>
  The operations of \<open>class VirtualFS\<close> (\<open>src/virtual-fs.ts\<close>): creating, reading,
  writing, linking, mounting, renaming and removing, each with its checks in the
  source's order.  The branches of \<open>appendFileSync\<close> and \<open>writeAtSync\<close> for a subclass
  that overrides \<open>writeFileSync\<close> are not this class's and are not here.
\<close>

subsection \<open>Creating directories\<close>

datatype ensure_end = EnsuredAt addr | EnsureJump string | EnsureErr err

text \<open>
  The loop of \<open>ensureDirectory\<close>: a missing segment is created, announced to the
  watchers and to the listeners; a link restarts at its target.
\<close>

fun ensure_loop :: "string \<Rightarrow> string list \<Rightarrow> string list \<Rightarrow> addr \<Rightarrow> fs \<Rightarrow> ensure_end \<times> fs" where
  "ensure_loop path passed [] current fs = (EnsuredAt current, fs)"
| "ensure_loop path passed (seg # rest) current fs =
     (case child_at fs current seg of
        None \<Rightarrow>
          (let (child, fs1) = alloc_node (new_directory (now fs)) fs;
               fs2 = set_child current seg child fs1;
               here = render (passed @ [seg]);
               fs3 = notify_watchers here Rename fs2
           in case emit_changed here fs3 of
                (Inl e, fs4) \<Rightarrow> (EnsureErr e, fs4)
              | (Inr _, fs4) \<Rightarrow> ensure_loop path (passed @ [seg]) rest child fs4)
      | Some child \<Rightarrow>
          if ntype (nodes fs child) = Symlink
          then (EnsureJump (link_jump (passed @ [seg]) (target (nodes fs child)) rest), fs)
          else if ntype (nodes fs child) \<noteq> Directory
          then (EnsureErr (PlainErr (''ENOTDIR: not a directory, '' @ [CHR 0x27] @ path @ [CHR 0x27])), fs)
          else ensure_loop path (passed @ [seg]) rest child fs)"

text \<open>Each link is one more call of \<open>ensureDirectory\<close>; only the stack bounds them.\<close>

fun ensure_directory :: "nat \<Rightarrow> string \<Rightarrow> fs \<Rightarrow> addr outcome" where
  "ensure_directory 0 path fs = (Inl StackOverflow, fs)"
| "ensure_directory (Suc calls) path fs =
     (case ensure_loop path [] (path_segments path) (root fs) fs of
        (EnsuredAt a, fs') \<Rightarrow> (Inr a, fs')
      | (EnsureErr e, fs') \<Rightarrow> (Inl e, fs')
      | (EnsureJump p, fs') \<Rightarrow> ensure_directory calls p fs')"

definition ensure_dir :: "string \<Rightarrow> fs \<Rightarrow> addr outcome" where
  "ensure_dir path fs = ensure_directory (stack_depth fs) path fs"

definition is_directory :: "fs \<Rightarrow> addr \<Rightarrow> bool" where
  "is_directory fs a \<longleftrightarrow> ntype (nodes fs a) = Directory"

text \<open>The parent directory an operation works in, found or refused.\<close>

definition require_parent :: "string \<Rightarrow> string \<Rightarrow> fs \<Rightarrow> addr outcome" where
  "require_parent path syscall fs =
     (case get_node fs (parent_path (normalize_path path)) of
        Inl e \<Rightarrow> (Inl e, fs)
      | Inr None \<Rightarrow> (Inl (node_err ENOENT syscall path), fs)
      | Inr (Some a) \<Rightarrow>
          if is_directory fs a then (Inr a, fs) else (Inl (node_err ENOENT syscall path), fs))"

definition announce :: "string \<Rightarrow> fs \<Rightarrow> unit outcome" where
  "announce normalized fs = emit_changed normalized (notify_watchers normalized Rename fs)"

definition mkdir_sync :: "string \<Rightarrow> bool \<Rightarrow> fs \<Rightarrow> unit outcome" where
  "mkdir_sync path rec fs =
     (let normalized = normalize_path path;
          there = (if rec then get_node fs normalized else Inr None)
      in case there of
           Inl e \<Rightarrow> (Inl e, fs)
         | Inr found \<Rightarrow>
           if (case found of Some a \<Rightarrow> is_directory fs a | None \<Rightarrow> False) then (Inr (), fs)
           else and_then (assert_writable normalized ''mkdir'' fs) (\<lambda>_ fs.
             if rec then and_then (ensure_dir normalized fs) (\<lambda>_ fs. (Inr (), fs))
             else
               let parent = parent_path normalized; name = base_name normalized
               in if name = [] then (Inr (), fs)
                  else case get_node fs parent of
                      Inl e \<Rightarrow> (Inl e, fs)
                    | Inr None \<Rightarrow> (Inl (node_err ENOENT ''mkdir'' parent), fs)
                    | Inr (Some p) \<Rightarrow>
                        if \<not> is_directory fs p then (Inl (node_err ENOTDIR ''mkdir'' parent), fs)
                        else if child_at fs p name \<noteq> None then (Inl (node_err EEXIST ''mkdir'' path), fs)
                        else
                          (let (child, fs) = alloc_node (new_directory (now fs)) fs
                           in announce normalized (set_child p name child fs))))"

subsection \<open>Writing whole files\<close>

text \<open>The data of a write: a string, as the bytes it encodes to, or the caller's array.\<close>

datatype data = Text bytes | Array view

definition data_view :: "data \<Rightarrow> fs \<Rightarrow> view \<times> fs" where
  "data_view d fs =
     (case d of
        Text bs \<Rightarrow> (let (v, st) = new_u8 bs (arrays fs) in (v, fs\<lparr>arrays := st\<rparr>))
      | Array v \<Rightarrow> (v, fs))"

text \<open>
  The entry a write leaves in the parent directory: an existing file takes the bytes, and
  keeps its identity; anything else under that name is replaced by a new file.
\<close>

definition put_file :: "addr \<Rightarrow> string \<Rightarrow> view \<Rightarrow> fs \<Rightarrow> fs" where
  "put_file parent name v fs =
     (let fresh = (let (b, fs') = alloc_node (new_file v (now fs)) fs in set_child parent name b fs')
      in case child_at fs parent name of
           None \<Rightarrow> fresh
         | Some a \<Rightarrow>
             if ntype (nodes fs a) = File
             then update_node a (\<lambda>n. n\<lparr>content := Some v, mtime := now fs, room := None, lent := True\<rparr>) fs
             else fresh)"

definition announce_write :: "string \<Rightarrow> bool \<Rightarrow> view \<Rightarrow> fs \<Rightarrow> fs" where
  "announce_write normalized existed v fs =
     emit_change normalized (view_bytes (arrays fs) v)
       (notify_watchers normalized (if existed then Change else Rename) fs)"

definition write_file_internal :: "string \<Rightarrow> data \<Rightarrow> bool \<Rightarrow> fs \<Rightarrow> unit outcome" where
  "write_file_internal path d emit fs =
     (let normalized = normalize_path path; name = base_name normalized
      in and_then (assert_writable normalized ''open'' fs) (\<lambda>_ fs.
        if name = []
        then (Inl (PlainErr (''EISDIR: illegal operation on a directory, '' @ [CHR 0x27] @ path @ [CHR 0x27])), fs)
        else and_then (ensure_dir (parent_path normalized) fs) (\<lambda>parent fs.
          let existed = (child_at fs parent name \<noteq> None);
              (v, fs) = data_view d fs;
              fs = put_file parent name v fs
          in (Inr (), if emit then announce_write normalized existed v fs else fs))))"

definition write_file_sync :: "string \<Rightarrow> data \<Rightarrow> fs \<Rightarrow> unit outcome" where
  "write_file_sync path d fs = write_file_internal path d True fs"

subsection \<open>Reading files\<close>

text \<open>
  \<open>readFileSync\<close> without an encoding hands out the file's own array and marks the file
  lent; with one it decodes a copy (here: the bytes it decodes).
\<close>

definition open_file :: "string \<Rightarrow> fs \<Rightarrow> err + addr" where
  "open_file path fs =
     (case get_node fs path of
        Inl e \<Rightarrow> Inl e
      | Inr None \<Rightarrow> Inl (node_err ENOENT ''open'' path)
      | Inr (Some a) \<Rightarrow>
          if ntype (nodes fs a) = File then Inr a else Inl (node_err EISDIR ''read'' path))"

definition read_file_sync :: "string \<Rightarrow> fs \<Rightarrow> view outcome" where
  "read_file_sync path fs =
     (case open_file path fs of
        Inl e \<Rightarrow> (Inl e, fs)
      | Inr a \<Rightarrow>
          (let (v, st) = (case content (nodes fs a) of
                 Some v \<Rightarrow> (v, arrays fs) | None \<Rightarrow> new_u8 [] (arrays fs))
           in (Inr v, update_node a (\<lambda>n. n\<lparr>lent := True\<rparr>) (fs\<lparr>arrays := st\<rparr>))))"

definition read_text_sync :: "string \<Rightarrow> fs \<Rightarrow> bytes outcome" where
  "read_text_sync path fs =
     (case open_file path fs of Inl e \<Rightarrow> (Inl e, fs) | Inr a \<Rightarrow> (Inr (file_bytes fs a), fs))"

definition exists_sync :: "string \<Rightarrow> fs \<Rightarrow> err + bool" where
  "exists_sync path fs = (case get_node fs path of Inl e \<Rightarrow> Inl e | Inr r \<Rightarrow> Inr (r \<noteq> None))"

definition access_sync :: "string \<Rightarrow> fs \<Rightarrow> unit outcome" where
  "access_sync path fs =
     (case exists_sync path fs of
        Inl e \<Rightarrow> (Inl e, fs)
      | Inr False \<Rightarrow> (Inl (node_err ENOENT ''access'' path), fs)
      | Inr True \<Rightarrow> (Inr (), fs))"

definition copy_file_sync :: "string \<Rightarrow> string \<Rightarrow> fs \<Rightarrow> unit outcome" where
  "copy_file_sync src dest fs =
     and_then (read_file_sync src fs) (\<lambda>v fs. write_file_sync dest (Array v) fs)"

definition readdir_sync :: "string \<Rightarrow> fs \<Rightarrow> (string list) outcome" where
  "readdir_sync path fs =
     (case get_node fs path of
        Inl e \<Rightarrow> (Inl e, fs)
      | Inr None \<Rightarrow> (Inl (node_err ENOENT ''scandir'' path), fs)
      | Inr (Some a) \<Rightarrow>
          if \<not> is_directory fs a then (Inl (node_err ENOTDIR ''scandir'' path), fs)
          else (Inr (map fst (children (nodes fs a))), fs))"

definition readlink_sync :: "string \<Rightarrow> fs \<Rightarrow> string outcome" where
  "readlink_sync path fs =
     (case substrate_node fs path False 0 of
        Inl e \<Rightarrow> (Inl e, fs)
      | Inr None \<Rightarrow> (Inl (node_err ENOENT ''readlink'' path), fs)
      | Inr (Some a) \<Rightarrow>
          if ntype (nodes fs a) \<noteq> Symlink then (Inl (node_err EINVAL ''readlink'' path), fs)
          else (Inr (target (nodes fs a)), fs))"

subsection \<open>Writing into a file in place\<close>

text \<open>
  A file grown a piece at a time keeps a buffer with room.  \<open>own_room\<close> answers the room
  the node may write into, where \<open>fits\<close> is the part of the source's test the two
  callers differ in; \<open>fresh_room\<close> makes a new one holding the current bytes.
\<close>

definition own_room :: "fsnode \<Rightarrow> view \<Rightarrow> bool \<Rightarrow> nat \<Rightarrow> view option" where
  "own_room n current refused len =
     (case room n of
        None \<Rightarrow> None
      | Some r \<Rightarrow>
          if refused \<or> buffer current \<noteq> buffer r \<or> byte_offset current \<noteq> 0 \<or> byte_length r < len
          then None else Some r)"

definition fresh_room :: "view \<Rightarrow> nat \<Rightarrow> u8store \<Rightarrow> view \<times> u8store option" where
  "fresh_room current len st =
     (let (r, st') = zeroed_u8 (max len (max (byte_length current * 2) 4096)) st
      in (r, u8_set r (view_bytes st current) 0 st'))"

definition current_view :: "fsnode \<Rightarrow> u8store \<Rightarrow> view \<times> u8store" where
  "current_view n st = (case content n of Some v \<Rightarrow> (v, st) | None \<Rightarrow> new_u8 [] st)"

definition store_in_room :: "addr \<Rightarrow> view \<Rightarrow> nat \<Rightarrow> bool \<Rightarrow> bytes \<Rightarrow> nat \<Rightarrow> u8store \<Rightarrow> fs \<Rightarrow> unit outcome" where
  "store_in_room a r len lent' bs pos st fs =
     (case u8_set r bs pos st of
        None \<Rightarrow> (Inl OffsetOutOfBounds, fs\<lparr>arrays := st\<rparr>)
      | Some st' \<Rightarrow>
          (Inr (), update_node a
             (\<lambda>n. n\<lparr>content := Some (subarray r 0 len), room := Some r, mtime := now fs, lent := lent'\<rparr>)
             (fs\<lparr>arrays := st'\<rparr>)))"

definition announce_bytes :: "string \<Rightarrow> addr \<Rightarrow> fs \<Rightarrow> unit outcome" where
  "announce_bytes normalized a fs =
     (Inr (), emit_change normalized (file_bytes fs a) (notify_watchers normalized Change fs))"

text \<open>The bytes of \<open>appendFileSync\<close> once the file node is found.\<close>

definition append_in_room :: "addr \<Rightarrow> bytes \<Rightarrow> fs \<Rightarrow> unit outcome" where
  "append_in_room a bs fs =
     (let n = nodes fs a; (current, st) = current_view n (arrays fs);
          len = byte_length current + length bs
      in case own_room n current False len of
           Some r \<Rightarrow> store_in_room a r len (lent n) bs (byte_length current) st fs
         | None \<Rightarrow>
             (case fresh_room current len st of
                (r, None) \<Rightarrow> (Inl OffsetOutOfBounds, fs)
              | (r, Some st) \<Rightarrow> store_in_room a r len (lent n) bs (byte_length current) st fs))"

definition append_file_sync :: "string \<Rightarrow> data \<Rightarrow> fs \<Rightarrow> unit outcome" where
  "append_file_sync path d fs =
     (let (v, fs) = data_view d fs; bs = view_bytes (arrays fs) v; normalized = normalize_path path
      in case get_node fs normalized of
           Inl e \<Rightarrow> (Inl e, fs)
         | Inr None \<Rightarrow>
             (let (copy, st) = u8_slice v (arrays fs)
              in write_file_internal normalized (Array copy) True (fs\<lparr>arrays := st\<rparr>))
         | Inr (Some a) \<Rightarrow>
             if ntype (nodes fs a) \<noteq> File then (Inl (node_err EISDIR ''open'' path), fs)
             else and_then (assert_writable normalized ''open'' fs) (\<lambda>_ fs.
               and_then (append_in_room a bs fs) (\<lambda>_ fs. announce_bytes normalized a fs)))"

text \<open>
  The bytes of \<open>writeAtSync\<close>: in place only into room nobody else holds (\<open>lent\<close>), a
  gap past the end filled with zeros.
\<close>

definition write_in_room :: "addr \<Rightarrow> bytes \<Rightarrow> nat \<Rightarrow> fs \<Rightarrow> unit outcome" where
  "write_in_room a bs pos fs =
     (let n = nodes fs a; (current, st) = current_view n (arrays fs);
          len = max (byte_length current) (pos + length bs)
      in case own_room n current (lent n) len of
           Some r \<Rightarrow>
             (let st = (if byte_length current < pos then u8_fill0 r (byte_length current) pos st else st)
              in store_in_room a r len (lent n) bs pos st fs)
         | None \<Rightarrow>
             (case fresh_room current len st of
                (r, None) \<Rightarrow> (Inl OffsetOutOfBounds, fs)
              | (r, Some st) \<Rightarrow> store_in_room a r len False bs pos st fs))"

definition write_at_sync :: "string \<Rightarrow> bytes \<Rightarrow> nat \<Rightarrow> fs \<Rightarrow> unit outcome" where
  "write_at_sync path bs pos fs =
     (let normalized = normalize_path path
      in case get_node fs normalized of
           Inl e \<Rightarrow> (Inl e, fs)
         | Inr None \<Rightarrow>
             (let (whole, st) = zeroed_u8 (pos + length bs) (arrays fs)
              in case u8_set whole bs pos st of
                   None \<Rightarrow> (Inl OffsetOutOfBounds, fs)
                 | Some st \<Rightarrow> write_file_internal normalized (Array whole) True (fs\<lparr>arrays := st\<rparr>))
         | Inr (Some a) \<Rightarrow>
             if ntype (nodes fs a) \<noteq> File then (Inl (node_err EISDIR ''open'' path), fs)
             else and_then (assert_writable normalized ''open'' fs) (\<lambda>_ fs.
               if bs = [] then (Inr (), fs)
               else and_then (write_in_room a bs pos fs) (\<lambda>_ fs. announce_bytes normalized a fs)))"

subsection \<open>Metadata\<close>

definition chmod_sync :: "string \<Rightarrow> nat \<Rightarrow> fs \<Rightarrow> unit outcome" where
  "chmod_sync path m fs =
     and_then (assert_writable path ''chmod'' fs) (\<lambda>_ fs.
       case get_node fs path of
         Inl e \<Rightarrow> (Inl e, fs)
       | Inr None \<Rightarrow> (Inl (node_err ENOENT ''chmod'' path), fs)
       | Inr (Some a) \<Rightarrow>
           emit_changed (normalize_path path) (update_node a (\<lambda>n. n\<lparr>mode := Some (m mod 0x1000)\<rparr>) fs))"

definition utimes_sync :: "string \<Rightarrow> time_arg \<Rightarrow> time_arg \<Rightarrow> fs \<Rightarrow> unit outcome" where
  "utimes_sync path at' mt fs =
     and_then (assert_writable path ''utime'' fs) (\<lambda>_ fs.
       case get_node fs path of
         Inl e \<Rightarrow> (Inl e, fs)
       | Inr None \<Rightarrow> (Inl (node_err ENOENT ''utimes'' path), fs)
       | Inr (Some a) \<Rightarrow>
           (case unix_ms (now fs) at' ''atime'' of
              Inl e \<Rightarrow> (Inl e, fs)
            | Inr t \<Rightarrow>
                (let fs = update_node a (\<lambda>n. n\<lparr>atime := Some t\<rparr>) fs
                 in case unix_ms (now fs) mt ''mtime'' of
                      Inl e \<Rightarrow> (Inl e, fs)
                    | Inr t' \<Rightarrow>
                        emit_changed (normalize_path path) (update_node a (\<lambda>n. n\<lparr>mtime := t'\<rparr>) fs))))"

record stats =
  st_type :: ntype
  st_size :: nat
  st_mode :: nat
  st_mtime :: rat
  st_atime :: rat
  st_ctime :: rat
  st_birthtime :: rat
  st_nlink :: nat
  st_uid :: nat
  st_gid :: nat
  st_dev :: nat
  st_ino :: nat
  st_rdev :: nat
  st_blksize :: nat
  st_blocks :: nat

definition stats_of :: "fsnode \<Rightarrow> nat \<Rightarrow> nat \<Rightarrow> nat \<Rightarrow> nat \<Rightarrow> stats" where
  "stats_of n sz m blocks ino =
     \<lparr>st_type = ntype n, st_size = sz, st_mode = m, st_mtime = mtime n,
      st_atime = (case atime n of Some t \<Rightarrow> t | None \<Rightarrow> mtime n),
      st_ctime = mtime n, st_birthtime = mtime n, st_nlink = 1, st_uid = 1000, st_gid = 1000,
      st_dev = 0, st_ino = ino, st_rdev = 0, st_blksize = 4096, st_blocks = blocks\<rparr>"

definition node_size :: "fs \<Rightarrow> addr \<Rightarrow> nat" where
  "node_size fs a =
     (case ntype (nodes fs a) of
        File \<Rightarrow> (case content (nodes fs a) of None \<Rightarrow> 0 | Some v \<Rightarrow> byte_length v)
      | _ \<Rightarrow> 0)"

definition node_mode :: "fsnode \<Rightarrow> nat" where
  "node_mode n =
     (case mode n of Some m \<Rightarrow> m | None \<Rightarrow> if ntype n = Directory then 493 else 420)"

text \<open>
  \<open>statSync\<close> and \<open>lstatSync\<close>, with the \<open>throwIfNoEntry\<close> option: None is the
  undefined they answer without it.
\<close>

definition stat_sync :: "string \<Rightarrow> bool \<Rightarrow> fs \<Rightarrow> (stats option) outcome" where
  "stat_sync path throwing fs =
     (case get_node fs path of
        Inl e \<Rightarrow> (Inl e, fs)
      | Inr None \<Rightarrow>
          (if throwing then Inl (node_err ENOENT ''stat'' path) else Inr None, fs)
      | Inr (Some a) \<Rightarrow>
          (let sz = node_size fs a; (ino, fs') = inode_for a fs; n = nodes fs a
           in (Inr (Some (stats_of n sz (node_mode n) ((sz + 511) div 512) ino)), fs')))"

definition lstat_sync :: "string \<Rightarrow> bool \<Rightarrow> fs \<Rightarrow> (stats option) outcome" where
  "lstat_sync path throwing fs =
     (case substrate_node fs path False 0 of
        Inl e \<Rightarrow> (Inl e, fs)
      | Inr None \<Rightarrow>
          (if throwing then Inl (node_err ENOENT ''lstat'' path) else Inr None, fs)
      | Inr (Some a) \<Rightarrow>
          if ntype (nodes fs a) \<noteq> Symlink then stat_sync path True fs
          else (let (ino, fs') = inode_for a fs; n = nodes fs a
                in (Inr (Some (stats_of n (length (target n)) 41471 0 ino)), fs')))"

end
