(* ===== verification/VfsTree.thy ===== *)
theory VfsTree
  imports VfsOps
begin

text \<open>
  The operations of \<open>class VirtualFS\<close> that change the shape of the tree: links,
  removal, rename, mounts; and \<open>realpathSync\<close> and the two stream constructors.
\<close>

definition symlink_sync :: "string \<Rightarrow> string \<Rightarrow> fs \<Rightarrow> unit outcome" where
  "symlink_sync tgt path fs =
     (let normalized = normalize_path path; name = base_name normalized
      in and_then (assert_writable normalized ''symlink'' fs) (\<lambda>_ fs.
        and_then (require_parent path ''symlink'' fs) (\<lambda>parent fs.
          if child_at fs parent name \<noteq> None then (Inl (node_err EEXIST ''symlink'' path), fs)
          else
            (let (b, fs) = alloc_node (new_symlink tgt (now fs)) fs
             in announce normalized (set_child parent name b fs)))))"

definition unlink_sync :: "string \<Rightarrow> fs \<Rightarrow> unit outcome" where
  "unlink_sync path fs =
     (let normalized = normalize_path path; name = base_name normalized
      in and_then (assert_writable normalized ''unlink'' fs) (\<lambda>_ fs.
        and_then (require_parent path ''unlink'' fs) (\<lambda>parent fs.
          case child_at fs parent name of
            None \<Rightarrow> (Inl (node_err ENOENT ''unlink'' path), fs)
          | Some a \<Rightarrow>
              if ntype (nodes fs a) \<noteq> File \<and> ntype (nodes fs a) \<noteq> Symlink
              then (Inl (node_err EISDIR ''unlink'' path), fs)
              else (Inr (), emit_delete normalized
                      (notify_watchers normalized Rename (delete_child parent name fs))))))"

definition rmdir_sync :: "string \<Rightarrow> fs \<Rightarrow> unit outcome" where
  "rmdir_sync path fs =
     (let normalized = normalize_path path; name = base_name normalized
      in and_then (assert_writable normalized ''rmdir'' fs) (\<lambda>_ fs.
        if name = []
        then (Inl (PlainErr (''EPERM: operation not permitted, '' @ [CHR 0x27] @ path @ [CHR 0x27])), fs)
        else and_then (require_parent path ''rmdir'' fs) (\<lambda>parent fs.
          case child_at fs parent name of
            None \<Rightarrow> (Inl (node_err ENOENT ''rmdir'' path), fs)
          | Some a \<Rightarrow>
              if \<not> is_directory fs a then (Inl (node_err ENOTDIR ''rmdir'' path), fs)
              else if children (nodes fs a) \<noteq> [] then (Inl (node_err ENOTEMPTY ''rmdir'' path), fs)
              else (Inr (), emit_delete normalized
                      (notify_watchers normalized Rename (delete_child parent name fs))))))"

subsection \<open>Rename\<close>

definition below :: "string \<Rightarrow> string \<Rightarrow> string" where
  "below path name = (if path = ''/'' then ''/'' @ name else path @ ''/'' @ name)"

text \<open>\<open>subtreePaths\<close>: None when the recursion exhausts the stack.\<close>

fun subtree_paths :: "nat \<Rightarrow> fs \<Rightarrow> string \<Rightarrow> addr \<Rightarrow> string list option" where
  "subtree_paths 0 fs path a = None"
| "subtree_paths (Suc calls) fs path a =
     (if is_directory fs a
      then map_option (\<lambda>pss. path # concat pss)
             (those (map (\<lambda>(name, c). subtree_paths calls fs (below path name) c) (children (nodes fs a))))
      else Some [path])"

fun emit_deletes :: "string list \<Rightarrow> fs \<Rightarrow> fs" where
  "emit_deletes [] fs = fs"
| "emit_deletes (p # ps) fs = emit_deletes ps (emit_delete p fs)"

fun emit_changes :: "string list \<Rightarrow> fs \<Rightarrow> unit outcome" where
  "emit_changes [] fs = (Inr (), fs)"
| "emit_changes (p # ps) fs = and_then (emit_changed p fs) (\<lambda>_ fs. emit_changes ps fs)"

text \<open>The paths a move took away: the moved subtree's, and the replaced entry's own.\<close>

definition gone_paths :: "string \<Rightarrow> string \<Rightarrow> addr \<Rightarrow> addr option \<Rightarrow> fs \<Rightarrow> string list option" where
  "gone_paths old_path new_path a replaced fs =
     (case subtree_paths (stack_depth fs) fs old_path a of
        None \<Rightarrow> None
      | Some gone \<Rightarrow>
          (case replaced of
             None \<Rightarrow> Some gone
           | Some b \<Rightarrow>
               if b = a then Some gone
               else (case (subtree_paths (stack_depth fs) fs new_path a,
                           subtree_paths (stack_depth fs) fs new_path b) of
                       (Some made, Some was) \<Rightarrow> Some (gone @ filter (\<lambda>p. p \<notin> set made) was)
                     | _ \<Rightarrow> None)))"

definition announce_move :: "string \<Rightarrow> string \<Rightarrow> addr \<Rightarrow> addr option \<Rightarrow> fs \<Rightarrow> unit outcome" where
  "announce_move old_path new_path a replaced fs =
     (let fs = notify_watchers new_path Rename (notify_watchers old_path Rename fs)
      in and_then
           (if delete_listeners fs = [] then (Inr (), fs)
            else case gone_paths old_path new_path a replaced fs of
                None \<Rightarrow> (Inl StackOverflow, fs)
              | Some gone \<Rightarrow> (Inr (), emit_deletes (rev gone) fs))
           (\<lambda>_ fs. case subtree_paths (stack_depth fs) fs new_path a of
                None \<Rightarrow> (Inl StackOverflow, fs)
              | Some made \<Rightarrow> emit_changes made fs))"

definition rename_sync :: "string \<Rightarrow> string \<Rightarrow> fs \<Rightarrow> unit outcome" where
  "rename_sync old_path new_path fs =
     (let normalized_old = normalize_path old_path; normalized_new = normalize_path new_path
      in and_then (assert_writable normalized_old ''rename'' fs) (\<lambda>_ fs.
        and_then (assert_writable normalized_new ''rename'' fs) (\<lambda>_ fs.
          and_then (require_parent old_path ''rename'' fs) (\<lambda>old_parent fs.
            case child_at fs old_parent (base_name normalized_old) of
              None \<Rightarrow> (Inl (node_err ENOENT ''rename'' old_path), fs)
            | Some a \<Rightarrow>
                and_then (ensure_dir (parent_path normalized_new) fs) (\<lambda>new_parent fs.
                  let replaced = child_at fs new_parent (base_name normalized_new);
                      fs = delete_child old_parent (base_name normalized_old) fs;
                      fs = set_child new_parent (base_name normalized_new) a fs
                  in announce_move normalized_old normalized_new a replaced fs)))))"

subsection \<open>Mounts\<close>

definition mount_tree :: "string \<Rightarrow> mtree \<Rightarrow> fs \<Rightarrow> (addr \<times> addr) outcome" where
  "mount_tree path tree fs =
     (let normalized = normalize_path path; name = base_name normalized
      in if name = [] then (Inl (node_err EINVAL ''mount'' path), fs)
         else and_then (ensure_dir (parent_path normalized) fs) (\<lambda>parent fs.
           if (case child_at fs parent name of
                 None \<Rightarrow> False
               | Some b \<Rightarrow> \<not> is_directory fs b \<or> mount (nodes fs b) \<noteq> None \<or> children (nodes fs b) \<noteq> [])
           then (Inl (node_err EEXIST ''mount'' path), fs)
           else
             (let (a, fs) = alloc_node
                    ((new_directory (now fs))\<lparr>mode := Some 365, mount := Some tree\<rparr>) fs
              in (Inr (parent, a), set_child parent name a fs))))"

text \<open>The unmount that \<open>mount\<close> answers, from the parent and the node it closed over.\<close>

definition unmount :: "string \<Rightarrow> addr \<times> addr \<Rightarrow> fs \<Rightarrow> fs" where
  "unmount path pa fs =
     (case pa of (parent, a) \<Rightarrow>
        if child_at fs parent (base_name (normalize_path path)) = Some a
        then delete_child parent (base_name (normalize_path path)) fs else fs)"

subsection \<open>Real paths\<close>

datatype real_end = Resolved | Missing | Linked string

fun real_loop :: "fs \<Rightarrow> string list \<Rightarrow> string list \<Rightarrow> addr \<Rightarrow> (mtree \<times> nat) option \<Rightarrow> real_end" where
  "real_loop fs passed [] current mounted = Resolved"
| "real_loop fs passed (seg # rest) current mounted =
     (case child_on_walk fs passed seg current mounted of
        None \<Rightarrow> Missing
      | Some child \<Rightarrow>
          if ntype (nodes fs child) = Symlink
          then Linked (normalize_path (link_jump (passed @ [seg]) (target (nodes fs child)) rest))
          else real_loop fs (passed @ [seg]) rest child
                 (snd (enter_child fs (length passed) child mounted)))"

function real_hops :: "fs \<Rightarrow> string \<Rightarrow> nat \<Rightarrow> string \<Rightarrow> err + string" where
  "real_hops fs path hops resolved =
     (if 40 < hops then Inl (node_err ELOOP ''realpath'' path)
      else case real_loop fs [] (nonempty_parts resolved) (root fs) None of
          Resolved \<Rightarrow> Inr resolved
        | Missing \<Rightarrow> Inl (node_err ENOENT ''realpath'' path)
        | Linked p \<Rightarrow> real_hops fs path (hops + 1) p)"
  by pat_completeness auto
termination
  by (relation "measure (\<lambda>(fs, path, hops, resolved). 41 - hops)") auto

declare real_hops.simps [simp del]

definition realpath_sync :: "string \<Rightarrow> fs \<Rightarrow> err + string" where
  "realpath_sync path fs = real_hops fs path 0 (normalize_path path)"

subsection \<open>Streams\<close>

text \<open>
  What a read stream delivers: the bytes from \<open>start\<close> up to and including \<open>end\<close>; and
  what \<open>end\<close> of a write stream writes: its chunks in order.
\<close>

definition read_stream_view :: "nat option \<Rightarrow> nat option \<Rightarrow> view \<Rightarrow> view" where
  "read_stream_view start final v =
     (let from = (case start of Some s \<Rightarrow> s | None \<Rightarrow> 0);
          to = (case final of Some e \<Rightarrow> e + 1 | None \<Rightarrow> byte_length v)
      in if 0 < from \<or> to < byte_length v then subarray v from (max from to) else v)"

definition create_read_stream :: "string \<Rightarrow> nat option \<Rightarrow> nat option \<Rightarrow> fs \<Rightarrow> bytes outcome" where
  "create_read_stream path start final fs =
     and_then (read_file_sync path fs) (\<lambda>v fs.
       (Inr (view_bytes (arrays fs) (read_stream_view start final v)), fs))"

definition write_stream_end :: "string \<Rightarrow> bytes list \<Rightarrow> fs \<Rightarrow> unit outcome" where
  "write_stream_end path chunks fs =
     (let (v, st) = new_u8 (concat chunks) (arrays fs)
      in write_file_sync path (Array v) (fs\<lparr>arrays := st\<rparr>))"

end
