(* ===== verification/VfsInv.thy ===== *)
theory VfsInv
  imports VfsTree
begin

text \<open>
  The invariant of the file system's heap and that every operation keeps it: the root is
  a directory nobody names, only directories have entries, no directory has two entries
  of one name, entries name existing nodes by clean names (or by the empty name, which
  \<open>symlinkSync\<close> and \<open>renameSync\<close> give an entry of the root), and no node has two
  entries.  Two different paths therefore never name one node.
\<close>

definition entry_name :: "string \<Rightarrow> bool" where
  "entry_name n \<longleftrightarrow> n = [] \<or> clean_name n"

definition has_entry :: "fs \<Rightarrow> addr \<Rightarrow> string \<Rightarrow> addr \<Rightarrow> bool" where
  "has_entry fs a n c \<longleftrightarrow> a < next_node fs \<and> child_at fs a n = Some c"

definition wf_node :: "fs \<Rightarrow> addr \<Rightarrow> bool" where
  "wf_node fs a \<longleftrightarrow>
     distinct_keys (children (nodes fs a)) \<and>
     (ntype (nodes fs a) \<noteq> Directory \<longrightarrow> children (nodes fs a) = [] \<and> mount (nodes fs a) = None) \<and>
     (\<forall>n c. child_at fs a n = Some c \<longrightarrow> entry_name n \<and> c < next_node fs \<and> c \<noteq> root fs) \<and>
     (\<forall>t p b. mount (nodes fs a) = Some t \<longrightarrow> t p = Some b \<longrightarrow> b < next_node fs)"

definition wf_fs :: "fs \<Rightarrow> bool" where
  "wf_fs fs \<longleftrightarrow>
     root fs < next_node fs \<and> ntype (nodes fs (root fs)) = Directory \<and>
     (\<forall>a < next_node fs. wf_node fs a) \<and>
     (\<forall>a m b n c. has_entry fs a m c \<longrightarrow> has_entry fs b n c \<longrightarrow> a = b \<and> m = n)"

lemma wf_fsD:
  assumes "wf_fs fs"
  shows wf_root: "root fs < next_node fs"
    and wf_root_dir: "ntype (nodes fs (root fs)) = Directory"
    and wf_nodes: "a < next_node fs \<Longrightarrow> wf_node fs a"
    and wf_unique: "has_entry fs a m c \<Longrightarrow> has_entry fs b n c \<Longrightarrow> a = b \<and> m = n"
  using assms unfolding wf_fs_def by blast+

declare wf_root [dest] wf_root_dir [dest]

lemma wf_mount_dir: "wf_fs fs \<Longrightarrow> a < next_node fs \<Longrightarrow> mount (nodes fs a) \<noteq> None \<Longrightarrow> ntype (nodes fs a) = Directory"
  using wf_nodes [of fs a] by (auto simp only: wf_node_def)

lemma wf_child:
  assumes "wf_fs fs" and "a < next_node fs" and "child_at fs a n = Some c"
  shows "c < next_node fs" and "c \<noteq> root fs" and "entry_name n"
    and "ntype (nodes fs a) = Directory"
proof -
  from assms(1,2) have w: "wf_node fs a" by (rule wf_nodes)
  with assms(3) show "c < next_node fs" and "c \<noteq> root fs" and "entry_name n"
    unfolding wf_node_def by blast+
  show "ntype (nodes fs a) = Directory"
  proof (rule ccontr)
    assume "ntype (nodes fs a) \<noteq> Directory"
    with w have "children (nodes fs a) = []" unfolding wf_node_def by blast
    with assms(3) show False by (simp add: child_at_def)
  qed
qed

subsection \<open>The store's primitives\<close>

text \<open>
  What an operation changes besides nodes does not concern the invariant: the nodes, the
  root and the next address decide it.
\<close>

definition same_tree :: "fs \<Rightarrow> fs \<Rightarrow> bool" where
  "same_tree s t \<longleftrightarrow> nodes s = nodes t \<and> next_node s = next_node t \<and> root s = root t"

lemma same_tree_refl [simp]: "same_tree s s"
  by (simp add: same_tree_def)

lemma same_treeD:
  assumes "same_tree s t"
  shows "nodes s = nodes t" and "next_node s = next_node t" and "root s = root t"
  using assms by (simp_all add: same_tree_def)

lemma child_at_same: "same_tree s t \<Longrightarrow> child_at s = child_at t"
  by (intro ext) (simp add: same_tree_def child_at_def)

lemma has_entry_same:
  assumes "same_tree s t"
  shows "has_entry s = has_entry t"
  unfolding has_entry_def child_at_same [OF assms] same_treeD [OF assms] ..

lemma wf_node_same:
  assumes "same_tree s t"
  shows "wf_node s = wf_node t"
  unfolding wf_node_def child_at_same [OF assms] same_treeD [OF assms] ..

lemma wf_same:
  assumes "same_tree s t"
  shows "wf_fs s \<longleftrightarrow> wf_fs t"
  unfolding wf_fs_def has_entry_same [OF assms] wf_node_same [OF assms] same_treeD [OF assms] ..

lemma same_tree_notify [simp]: "same_tree (notify_watchers p ev s) t \<longleftrightarrow> same_tree s t"
  by (simp add: same_tree_def notify_watchers_def Let_def)

lemma same_tree_emit [simp]:
  "same_tree (emit_change p bs s) t \<longleftrightarrow> same_tree s t"
  "same_tree (emit_delete p s) t \<longleftrightarrow> same_tree s t"
  by (simp_all add: same_tree_def emit_change_def emit_delete_def)

lemma same_tree_fields [simp]:
  "same_tree (s\<lparr>arrays := st\<rparr>) t \<longleftrightarrow> same_tree s t"
  "same_tree (s\<lparr>inodes := i\<rparr>) t \<longleftrightarrow> same_tree s t"
  "same_tree (s\<lparr>next_inode := k\<rparr>) t \<longleftrightarrow> same_tree s t"
  "same_tree (s\<lparr>watchers := w\<rparr>) t \<longleftrightarrow> same_tree s t"
  "same_tree (s\<lparr>change_listeners := l\<rparr>) t \<longleftrightarrow> same_tree s t"
  "same_tree (s\<lparr>delete_listeners := l\<rparr>) t \<longleftrightarrow> same_tree s t"
  "same_tree (s\<lparr>now := r\<rparr>) t \<longleftrightarrow> same_tree s t"
  by (simp_all add: same_tree_def)

lemma same_tree_emit_changed: "snd (emit_changed p s) = s' \<Longrightarrow> same_tree s' s"
  by (auto simp: emit_changed_def split: if_splits sum.splits option.splits)

lemma same_tree_emit_changes: "same_tree (snd (emit_changes ps s)) s"
proof (induction ps arbitrary: s)
  case (Cons p ps)
  obtain r s1 where 1: "emit_changed p s = (r, s1)" by fastforce
  then have "same_tree s1 s" using same_tree_emit_changed [of p s s1] by simp
  with 1 Cons.IH [of s1] show ?case by (cases r) (auto simp: same_tree_def)
qed simp

lemma same_tree_emit_deletes: "same_tree (emit_deletes ps s) s"
  by (induction ps arbitrary: s) (auto simp: same_tree_def emit_delete_def)

lemma same_tree_data_view: "data_view d s = (v, s') \<Longrightarrow> same_tree s' s"
  by (auto simp: data_view_def Let_def split: data.splits prod.splits)

subsection \<open>Allocation and entries\<close>

lemma alloc_node_simps:
  "alloc_node n fs = (c, fs') \<Longrightarrow>
     c = next_node fs \<and> nodes fs' = (nodes fs)(c := n) \<and> next_node fs' = Suc c \<and> root fs' = root fs"
  by (auto simp: alloc_node_def)

lemma wf_alloc:
  assumes wf: "wf_fs fs" and al: "alloc_node n fs = (c, fs')"
    and n: "children n = []" "ntype n \<noteq> Directory \<longrightarrow> mount n = None" "\<forall>t p b. mount n = Some t \<longrightarrow> t p = Some b \<longrightarrow> b < next_node fs"
  shows "wf_fs fs'"
proof -
  note a = alloc_node_simps [OF al]
  have old: "child_at fs' x = child_at fs x" if "x < next_node fs" for x
    using that a by (intro ext) (simp add: child_at_def)
  have new: "child_at fs' c = (\<lambda>_. None)"
    using a n by (intro ext) (simp add: child_at_def)
  have ent: "has_entry fs' x m y \<longleftrightarrow> has_entry fs x m y" for x m y
    using a old [of x] new by (auto simp: has_entry_def less_Suc_eq)
  have "wf_node fs' x" if "x < next_node fs'" for x
  proof (cases "x = c")
    case True
    with a n new show ?thesis by (auto simp: wf_node_def less_Suc_eq)
  next
    case False
    with that a have x: "x < next_node fs" by simp
    then have "wf_node fs x" using wf by (blast dest: wf_nodes)
    with False a old [OF x] show ?thesis by (auto simp: wf_node_def less_Suc_eq)
  qed
  with wf a show ?thesis unfolding wf_fs_def ent by auto
qed

lemma child_at_set_child [vfs_simps]:
  "child_at (set_child a n c fs) x m =
     (if x = a \<and> m = n then Some c else child_at fs x m)"
  by (simp add: child_at_def set_child_def update_node_def)

lemma child_at_delete_child [vfs_simps]:
  "child_at (delete_child a n fs) x m =
     (if x = a \<and> m = n then None else child_at fs x m)"
  by (simp add: child_at_def delete_child_def update_node_def)

lemma set_child_frame [vfs_simps]:
  "next_node (set_child a n c fs) = next_node fs" "root (set_child a n c fs) = root fs"
  "ntype (nodes (set_child a n c fs) x) = ntype (nodes fs x)"
  "mount (nodes (set_child a n c fs) x) = mount (nodes fs x)"
  "next_node (delete_child a n fs) = next_node fs" "root (delete_child a n fs) = root fs"
  "ntype (nodes (delete_child a n fs) x) = ntype (nodes fs x)"
  "mount (nodes (delete_child a n fs) x) = mount (nodes fs x)"
  by (simp_all add: set_child_def delete_child_def update_node_def)

lemma wf_set_child:
  assumes wf: "wf_fs fs" and a: "a < next_node fs" "ntype (nodes fs a) = Directory"
    and n: "entry_name n" and c: "c < next_node fs" "c \<noteq> root fs"
    and alone: "\<And>b m. has_entry fs b m c \<Longrightarrow> b = a \<and> m = n"
  shows "wf_fs (set_child a n c fs)"
proof -
  let ?fs = "set_child a n c fs"
  have "wf_node ?fs x" if "x < next_node fs" for x
  proof -
    from wf that have "wf_node fs x" by (rule wf_nodes)
    moreover have "distinct_keys (children (nodes ?fs x)) \<longleftrightarrow> distinct_keys (children (nodes fs x))
        \<or> x = a \<and> distinct_keys (AList.update n c (children (nodes fs a)))"
      if "distinct_keys (children (nodes fs x))"
      using that by (auto simp: set_child_def update_node_def distinct_update)
    ultimately show ?thesis
      using a n c by (auto simp: wf_node_def vfs_simps)
         (auto simp: set_child_def update_node_def)
  qed
  moreover have "x = y \<and> m = k" if "has_entry ?fs x m d" "has_entry ?fs y k d" for x m y k d
    using that wf_unique [OF wf] alone
    by (auto simp: has_entry_def vfs_simps split: if_splits)
  ultimately show ?thesis
    using wf unfolding wf_fs_def by (simp add: vfs_simps)
qed

lemma wf_delete_child:
  assumes wf: "wf_fs fs"
  shows "wf_fs (delete_child a n fs)"
proof -
  let ?fs = "delete_child a n fs"
  have "wf_node ?fs x" if "x < next_node fs" for x
  proof -
    from wf that have w: "wf_node fs x" by (rule wf_nodes)
    then have "distinct_keys (children (nodes ?fs x))"
      and "ntype (nodes fs x) \<noteq> Directory \<longrightarrow> children (nodes ?fs x) = [] \<and> mount (nodes ?fs x) = None"
      by (auto simp: wf_node_def delete_child_def update_node_def distinct_delete)
    with w show ?thesis by (auto simp: wf_node_def vfs_simps)
  qed
  moreover have "x = y \<and> m = k" if "has_entry ?fs x m d" "has_entry ?fs y k d" for x m y k d
    using that wf_unique [OF wf] by (auto simp: has_entry_def vfs_simps split: if_splits)
  ultimately show ?thesis
    using wf unfolding wf_fs_def by (simp add: vfs_simps)
qed

text \<open>A change of a node that keeps its kind, entries and mount.\<close>

lemma wf_update_node:
  assumes "wf_fs fs" and "\<And>n. ntype (f n) = ntype n" "\<And>n. children (f n) = children n"
    "\<And>n. mount (f n) = mount n"
  shows "wf_fs (update_node a f fs)"
proof -
  have ch: "child_at (update_node a f fs) = child_at fs"
    using assms(3) by (intro ext) (simp add: child_at_def update_node_def)
  have "wf_node (update_node a f fs) x \<longleftrightarrow> wf_node fs x" for x
    using assms(2-4) by (simp add: wf_node_def ch) (simp add: update_node_def)
  moreover have "has_entry (update_node a f fs) = has_entry fs"
    by (intro ext) (simp add: has_entry_def ch)
  ultimately show ?thesis
    using assms(1,2) by (simp add: wf_fs_def) (auto simp: update_node_def)
qed

lemma fresh_no_entry: "wf_fs fs \<Longrightarrow> \<not> has_entry fs b m (next_node fs)"
  using wf_child(1) [of fs b m "next_node fs"] by (auto simp: has_entry_def)

text \<open>A new node under a new or a replaced name: what creating one amounts to.\<close>

lemma wf_new_entry:
  assumes wf: "wf_fs fs" and a: "a < next_node fs" "ntype (nodes fs a) = Directory"
    and n: "entry_name n" and al: "alloc_node x fs = (c, fs')"
    and x: "children x = []" "ntype x \<noteq> Directory \<longrightarrow> mount x = None" "\<forall>t p b. mount x = Some t \<longrightarrow> t p = Some b \<longrightarrow> b < next_node fs"
  shows "wf_fs (set_child a n c fs')"
proof (rule wf_set_child)
  note s = alloc_node_simps [OF al]
  show wf': "wf_fs fs'" using wf al x by (rule wf_alloc)
  show "a < next_node fs'" using a s by simp
  show "ntype (nodes fs' a) = Directory" using a s by simp
  show "c < next_node fs'" using s by simp
  show "c \<noteq> root fs'" using s wf_root [OF wf] by simp
  show "entry_name n" by (rule n)
  fix b m assume "has_entry fs' b m c"
  moreover have "child_at fs' b m = (if b = c then None else child_at fs b m)"
    using s x by (simp add: child_at_def)
  ultimately have "has_entry fs b m c" using s by (auto simp: has_entry_def less_Suc_eq split: if_splits)
  then show "b = a \<and> m = n" using fresh_no_entry [OF wf] s by simp
qed

subsection \<open>Lookups read the tree only\<close>

lemma node_loop_same_tree:
  assumes "same_tree s t"
  shows "node_loop s follow passed segs a m = node_loop t follow passed segs a m"
proof (induction segs arbitrary: passed a m)
  case (Cons n ns)
  have "child_on_walk s passed n a m = child_on_walk t passed n a m"
    unfolding child_on_walk_def child_at_same [OF assms] ..
  moreover have "enter_child s k c m = enter_child t k c m" for k c
    unfolding enter_child_def same_treeD [OF assms] ..
  ultimately show ?case
    by (auto simp: Cons.IH same_treeD [OF assms] split: option.split)
qed simp

lemma substrate_node_same_tree:
  assumes "same_tree s t"
  shows "substrate_node s p follow depth = substrate_node t p follow depth"
proof (induction "41 - depth" arbitrary: p depth rule: less_induct)
  case less
  have "node_loop s follow [] (path_segments p) (root s) None =
      node_loop t follow [] (path_segments p) (root t) None"
    by (simp add: node_loop_same_tree [OF assms] same_treeD(3) [OF assms])
  with less show ?case
    by (simp add: substrate_node.simps [of _ p] split: walk_end.split)
qed

lemma get_node_same_tree: "same_tree s t \<Longrightarrow> get_node s p = get_node t p"
  by (simp add: get_node_def substrate_node_same_tree)

lemma crosses_mount_same_tree:
  assumes "same_tree s t"
  shows "crosses_mount s a ns = crosses_mount t a ns"
  by (induction ns arbitrary: a)
     (simp_all add: child_at_same [OF assms] same_treeD [OF assms] split: option.split)

end
