(* ===== verification/VfsPreserve.thy ===== *)
theory VfsPreserve
  imports VfsInv
begin

text \<open>
  Every operation keeps the heap invariant, whether it answers or throws; the file
  systems reachable from an empty one by any sequence of operations therefore all have
  it.
\<close>

subsection \<open>Lookups name existing nodes\<close>

definition mount_ok :: "fs \<Rightarrow> (mtree \<times> nat) option \<Rightarrow> bool" where
  "mount_ok fs m \<longleftrightarrow> (\<forall>t i p b. m = Some (t, i) \<longrightarrow> t p = Some b \<longrightarrow> b < next_node fs)"

lemma mount_ok_None [simp]: "mount_ok fs None"
  by (simp add: mount_ok_def)

lemma mount_ok_tree:
  assumes "wf_fs fs" and "a < next_node fs" and "mount (nodes fs a) = Some t"
  shows "mount_ok fs (Some (t, i))"
proof -
  from assms(1,2) have "wf_node fs a" by (rule wf_nodes)
  with assms(3) have "\<forall>p b. t p = Some b \<longrightarrow> b < next_node fs"
    unfolding wf_node_def by simp
  then show ?thesis by (simp add: mount_ok_def)
qed

lemma mount_okD: "mount_ok fs (Some (t, i)) \<Longrightarrow> t p = Some b \<Longrightarrow> b < next_node fs"
  by (simp add: mount_ok_def)

lemma child_on_walk_allocated:
  assumes "wf_fs fs" and "current < next_node fs" and ok: "mount_ok fs mounted"
    and c: "child_on_walk fs passed seg current mounted = Some c"
  shows "c < next_node fs"
proof (cases mounted)
  case None
  with c have "child_at fs current seg = Some c" by (simp add: child_on_walk_def)
  with assms(1,2) show ?thesis by (rule wf_child(1))
next
  case (Some m)
  obtain t i where "m = (t, i)" by fastforce
  with Some c ok show ?thesis by (auto simp: child_on_walk_def dest: mount_okD)
qed

lemma enter_child_allocated:
  assumes "wf_fs fs" and "c < next_node fs" and "mount_ok fs mounted"
  shows "fst (enter_child fs i c mounted) < next_node fs"
    and "mount_ok fs (snd (enter_child fs i c mounted))"
proof -
  have t: "mount (nodes fs c) = Some t \<Longrightarrow> mount_ok fs (Some (t, i))" for t
    using assms(1,2) by (rule mount_ok_tree)
  show "mount_ok fs (snd (enter_child fs i c mounted))"
    using assms(3) t by (cases mounted) (auto simp: enter_child_def split: option.split)
  show "fst (enter_child fs i c mounted) < next_node fs"
    using assms(2) mount_okD [OF t] by (simp add: enter_child_def split: option.split)
qed

lemma node_loop_allocated:
  "wf_fs fs \<Longrightarrow> current < next_node fs \<Longrightarrow> mount_ok fs mounted \<Longrightarrow>
     node_loop fs follow passed segs current mounted = Found (Some a) \<Longrightarrow> a < next_node fs"
proof (induction fs follow passed segs current mounted rule: node_loop.induct)
  case (2 fs follow passed seg rest current mounted)
  from "2.prems"(4) obtain c where dir: "ntype (nodes fs current) = Directory"
    and c: "child_on_walk fs passed seg current mounted = Some c"
    and go: "\<not> (ntype (nodes fs c) = Symlink \<and> (follow \<or> rest \<noteq> []))"
    by (auto split: if_splits option.splits)
  have "c < next_node fs" using "2.prems"(1-3) c by (rule child_on_walk_allocated)
  with "2.prems" show ?case
    using "2.IH" [OF _ c go] enter_child_allocated dir c go by (simp split: if_splits)
qed simp

lemma substrate_node_allocated:
  "wf_fs fs \<Longrightarrow> substrate_node fs path follow depth = Inr (Some a) \<Longrightarrow> a < next_node fs"
proof (induction fs path follow depth rule: substrate_node.induct)
  case (1 fs path follow depth)
  let ?r = "node_loop fs follow [] (path_segments path) (root fs) None"
  from "1.prems"(2) have "\<not> 40 < depth" by (auto simp: substrate_node.simps [of fs path])
  then have "?r = Found (Some a) \<or> (\<exists>p. ?r = Jump p \<and> substrate_node fs p follow (depth + 1) = Inr (Some a))"
    using "1.prems"(2) by (auto simp: substrate_node.simps [of fs path] split: walk_end.splits)
  then show ?case
    using "1.IH" \<open>\<not> 40 < depth\<close> "1.prems"(1)
      node_loop_allocated [OF _ wf_root mount_ok_None] by blast
qed

lemma get_node_allocated: "wf_fs fs \<Longrightarrow> get_node fs path = Inr (Some a) \<Longrightarrow> a < next_node fs"
  unfolding get_node_def by (rule substrate_node_allocated)

subsection \<open>Growing the tree\<close>

text \<open>\<open>fs'\<close> has all nodes of \<open>fs\<close> unchanged, but that directories may have more entries.\<close>

definition grows :: "fs \<Rightarrow> fs \<Rightarrow> bool" where
  "grows fs fs' \<longleftrightarrow>
     root fs' = root fs \<and> next_node fs \<le> next_node fs' \<and> arrays fs' = arrays fs \<and>
     stack_depth fs' = stack_depth fs \<and> now fs' = now fs \<and>
     change_listeners fs' = change_listeners fs \<and> delete_listeners fs' = delete_listeners fs \<and>
     (\<forall>a < next_node fs. (nodes fs' a)\<lparr>children := []\<rparr> = (nodes fs a)\<lparr>children := []\<rparr> \<and>
        (\<forall>n c. child_at fs a n = Some c \<longrightarrow> child_at fs' a n = Some c))"

lemma grows_refl [simp]: "grows fs fs"
  by (simp add: grows_def)

lemma grows_trans [trans]: "grows r s \<Longrightarrow> grows s t \<Longrightarrow> grows r t"
  by (auto simp: grows_def)

lemma grows_node:
  assumes "grows fs fs'" and "a < next_node fs"
  shows "ntype (nodes fs' a) = ntype (nodes fs a)" and "mount (nodes fs' a) = mount (nodes fs a)"
    and "content (nodes fs' a) = content (nodes fs a)" and "target (nodes fs' a) = target (nodes fs a)"
    and "room (nodes fs' a) = room (nodes fs a)" and "lent (nodes fs' a) = lent (nodes fs a)"
    and "child_at fs a n = Some c \<Longrightarrow> child_at fs' a n = Some c"
proof -
  from assms have eq: "(nodes fs' a)\<lparr>children := []\<rparr> = (nodes fs a)\<lparr>children := []\<rparr>"
    by (simp add: grows_def)
  show "ntype (nodes fs' a) = ntype (nodes fs a)" using arg_cong [OF eq, of ntype] by simp
  show "mount (nodes fs' a) = mount (nodes fs a)" using arg_cong [OF eq, of mount] by simp
  show "content (nodes fs' a) = content (nodes fs a)" using arg_cong [OF eq, of content] by simp
  show "target (nodes fs' a) = target (nodes fs a)" using arg_cong [OF eq, of target] by simp
  show "room (nodes fs' a) = room (nodes fs a)" using arg_cong [OF eq, of room] by simp
  show "lent (nodes fs' a) = lent (nodes fs a)" using arg_cong [OF eq, of lent] by simp
  show "child_at fs a n = Some c \<Longrightarrow> child_at fs' a n = Some c" using assms by (simp add: grows_def)
qed

lemma emit_changed_fields:
  "emit_changed p s = (r, s') \<Longrightarrow>
     nodes s' = nodes s \<and> next_node s' = next_node s \<and> root s' = root s \<and> arrays s' = arrays s \<and>
     stack_depth s' = stack_depth s \<and> now s' = now s \<and> change_listeners s' = change_listeners s \<and>
     delete_listeners s' = delete_listeners s"
  by (auto simp: emit_changed_def emit_change_def split: if_splits sum.splits option.splits)

lemma grows_new_dir:
  assumes "alloc_node (new_directory t) fs = (c, fs1)" and "child_at fs a n = None"
    and "emit_changed here (notify_watchers here Rename (set_child a n c fs1)) = (r, fs4)"
  shows "grows fs fs4"
  using alloc_node_simps [OF assms(1)] emit_changed_fields [OF assms(3)] assms(1,2)
  by (auto simp: grows_def notify_watchers_def Let_def set_child_def update_node_def child_at_def
      alloc_node_def new_directory_def)

lemma ensure_loop_keeps:
  "wf_fs fs \<Longrightarrow> current < next_node fs \<Longrightarrow> is_directory fs current \<Longrightarrow>
     \<forall>s \<in> set segs. clean_name s \<Longrightarrow>
     ensure_loop path passed segs current fs = (r, fs') \<Longrightarrow>
     wf_fs fs' \<and> grows fs fs' \<and> (\<forall>a. r = EnsuredAt a \<longrightarrow> a < next_node fs' \<and> is_directory fs' a)"
proof (induction path passed segs current fs arbitrary: r fs' rule: ensure_loop.induct)
  case (2 path passed seg rest current fs)
  show ?case
  proof (cases "child_at fs current seg")
    case None
    obtain child fs1 where al: "alloc_node (new_directory (now fs)) fs = (child, fs1)" by fastforce
    let ?fs2 = "set_child current seg child fs1"
    let ?here = "render (passed @ [seg])"
    obtain q fs4 where em: "emit_changed ?here (notify_watchers ?here Rename ?fs2) = (q, fs4)" by fastforce
    have "wf_fs ?fs2"
      using "2.prems" al
      by (intro wf_new_entry [of fs]) (auto simp: is_directory_def entry_name_def new_directory_def)
    then have wf4: "wf_fs fs4"
      using wf_same [of fs4 ?fs2] same_tree_emit_changed [of ?here "notify_watchers ?here Rename ?fs2" fs4] em
      by (simp add: same_tree_def notify_watchers_def Let_def)
    have g: "grows fs fs4" using al None em by (rule grows_new_dir)
    have c4: "child < next_node fs4" "is_directory fs4 child"
      using alloc_node_simps [OF al] emit_changed_fields [OF em]
      by (simp_all add: is_directory_def notify_watchers_def Let_def set_child_def update_node_def
          new_directory_def)
    show ?thesis
    proof (cases q)
      case (Inl e)
      with "2.prems"(5) None al em have "r = EnsureErr e" "fs' = fs4" by simp_all
      with wf4 g show ?thesis by simp
    next
      case (Inr u)
      with "2.prems"(5) None al em have "ensure_loop path (passed @ [seg]) rest child fs4 = (r, fs')"
        by simp
      with "2.IH"(1) None al em Inr wf4 c4 "2.prems"(4)
      have "wf_fs fs' \<and> grows fs4 fs' \<and> (\<forall>a. r = EnsuredAt a \<longrightarrow> a < next_node fs' \<and> is_directory fs' a)"
        by simp
      with g grows_trans show ?thesis by blast
    qed
  next
    case (Some child)
    have c: "child < next_node fs" using wf_child(1) "2.prems"(1,2) Some .
    consider "ntype (nodes fs child) = Symlink" | "ntype (nodes fs child) = File"
      | "ntype (nodes fs child) = Directory" by (cases "ntype (nodes fs child)") blast+
    then show ?thesis
    proof cases
      case 3
      with "2.prems"(5) Some have "ensure_loop path (passed @ [seg]) rest child fs = (r, fs')" by simp
      with "2.IH"(2) [OF Some] 3 c "2.prems" show ?thesis by (simp add: is_directory_def)
    qed (use "2.prems" Some in auto)
  qed
qed auto

lemma segments_clean: "\<forall>s \<in> set (path_segments p). clean_name s"
  by (simp add: path_segments_norm norm_segs_clean)

lemma ensure_directory_keeps:
  "wf_fs fs \<Longrightarrow> ensure_directory calls path fs = (r, fs') \<Longrightarrow>
     wf_fs fs' \<and> grows fs fs' \<and> (\<forall>a. r = Inr a \<longrightarrow> a < next_node fs' \<and> is_directory fs' a)"
proof (induction calls path fs arbitrary: r fs' rule: ensure_directory.induct)
  case (2 calls path fs)
  obtain e s where loop: "ensure_loop path [] (path_segments path) (root fs) fs = (e, s)" by fastforce
  then have k: "wf_fs s \<and> grows fs s \<and> (\<forall>a. e = EnsuredAt a \<longrightarrow> a < next_node s \<and> is_directory s a)"
    using "2.prems"(1) segments_clean
    by (intro ensure_loop_keeps) (auto simp: is_directory_def)
  show ?case
  proof (cases e)
    case (EnsureJump p)
    with "2.prems"(2) loop have "ensure_directory calls p s = (r, fs')" by simp
    with "2.IH" [OF loop [symmetric]] EnsureJump k
    have "wf_fs fs' \<and> grows s fs' \<and> (\<forall>a. r = Inr a \<longrightarrow> a < next_node fs' \<and> is_directory fs' a)"
      by simp
    with k grows_trans show ?thesis by blast
  qed (use "2.prems"(2) loop k in auto)
qed auto

lemma ensure_dir_keeps:
  "wf_fs fs \<Longrightarrow> ensure_dir path fs = (r, fs') \<Longrightarrow>
     wf_fs fs' \<and> grows fs fs' \<and> (\<forall>a. r = Inr a \<longrightarrow> a < next_node fs' \<and> is_directory fs' a)"
  unfolding ensure_dir_def by (rule ensure_directory_keeps)

subsection \<open>Every operation keeps the invariant\<close>

lemma wf_and_then:
  assumes "wf_fs (snd r)" and "\<And>x s. r = (Inr x, s) \<Longrightarrow> wf_fs (snd (k x s))"
  shows "wf_fs (snd (and_then r k))"
  using assms by (cases r rule: prod.exhaust; cases "fst r") (auto simp: and_then_def)

lemma snd_assert_writable [simp]: "snd (assert_writable p c fs) = fs"
  by (simp add: assert_writable_def)

lemma assert_writable_state: "assert_writable p c fs = (r, s) \<Longrightarrow> s = fs"
  by (auto simp: assert_writable_def split: if_splits)

lemma wf_assert_writable:
  assumes "wf_fs fs" and "wf_fs (snd (k () fs))"
  shows "wf_fs (snd (and_then (assert_writable p c fs) k))"
  using assms by (simp add: assert_writable_def)

lemma require_parent_keeps:
  "wf_fs fs \<Longrightarrow> require_parent p c fs = (r, s) \<Longrightarrow>
     s = fs \<and> (\<forall>a. r = Inr a \<longrightarrow> a < next_node fs \<and> is_directory fs a)"
  by (auto simp: require_parent_def split: sum.splits option.splits if_splits
      dest: get_node_allocated)

lemma wf_notify [simp]: "wf_fs (notify_watchers p ev fs) = wf_fs fs"
  by (rule wf_same) simp

lemma wf_emit [simp]:
  "wf_fs (emit_change p bs fs) = wf_fs fs" "wf_fs (emit_delete p fs) = wf_fs fs"
  by (rule wf_same, simp)+

lemma wf_fields [simp]:
  "wf_fs (s\<lparr>arrays := st\<rparr>) = wf_fs s" "wf_fs (s\<lparr>inodes := i\<rparr>) = wf_fs s"
  "wf_fs (s\<lparr>inodes := i, next_inode := k\<rparr>) = wf_fs s" "wf_fs (s\<lparr>watchers := w\<rparr>) = wf_fs s"
  "wf_fs (s\<lparr>change_listeners := l\<rparr>) = wf_fs s" "wf_fs (s\<lparr>delete_listeners := l\<rparr>) = wf_fs s"
  "wf_fs (s\<lparr>now := r\<rparr>) = wf_fs s"
  by (rule wf_same, simp)+

lemma wf_emit_changed [simp]: "wf_fs (snd (emit_changed p fs)) = wf_fs fs"
  by (rule wf_same) (rule same_tree_emit_changed [OF refl])

lemma wf_emit_changes [simp]: "wf_fs (snd (emit_changes ps fs)) = wf_fs fs"
  by (rule wf_same) (rule same_tree_emit_changes)

lemma wf_emit_deletes [simp]: "wf_fs (emit_deletes ps fs) = wf_fs fs"
  by (rule wf_same) (rule same_tree_emit_deletes)

lemma wf_announce [simp]: "wf_fs (snd (announce p fs)) = wf_fs fs"
  by (simp add: announce_def)

lemma wf_data_view: "data_view d fs = (v, fs') \<Longrightarrow> wf_fs fs' = wf_fs fs"
  by (rule wf_same) (rule same_tree_data_view)

lemma base_name_entry: "entry_name (base_name p)"
  using norm_segs_clean [of p] by (auto simp: entry_name_def base_name_segs)

lemmas wf_node_kinds = new_directory_def new_file_def new_symlink_def

lemma wf_mkdir: "wf_fs fs \<Longrightarrow> wf_fs (snd (mkdir_sync path rec fs))"
proof -
  assume wf: "wf_fs fs"
  have new: "wf_fs (snd (announce q (set_child p (base_name r) c s)))"
    if "alloc_node (new_directory t) fs = (c, s)" "p < next_node fs" "is_directory fs p" for q p r c s t
    using wf_new_entry [OF wf that(2) _ base_name_entry that(1)] that(3)
    by (simp add: is_directory_def new_directory_def)
  have deep: "wf_fs (snd (and_then (ensure_dir p fs) (\<lambda>_ s. (Inr (), s))))" for p
    using ensure_dir_keeps [OF wf, of p] by (intro wf_and_then) (cases "ensure_dir p fs"; simp)+
  show ?thesis
    unfolding mkdir_sync_def Let_def
    using wf deep new get_node_allocated [OF wf]
    by (auto split: sum.split option.split prod.split intro!: wf_assert_writable)
qed

lemma wf_put_file:
  assumes "wf_fs fs" and "parent < next_node fs" and "is_directory fs parent" and "entry_name name"
  shows "wf_fs (put_file parent name v fs)"
proof -
  obtain b u where al: "alloc_node (new_file v (now fs)) fs = (b, u)" by fastforce
  have "wf_fs (set_child parent name b u)"
    using assms(1,2) _ assms(4) al
    by (rule wf_new_entry) (use assms(3) in \<open>simp_all add: is_directory_def new_file_def new_directory_def\<close>)
  moreover have "wf_fs (update_node a (\<lambda>n. n\<lparr>content := Some v, mtime := now fs, room := None, lent := True\<rparr>) fs)" for a
    using assms(1) by (rule wf_update_node) simp_all
  ultimately show ?thesis using al by (simp add: put_file_def Let_def split: option.split)
qed

lemma wf_announce_write [simp]: "wf_fs (announce_write p ex v fs) = wf_fs fs"
  by (simp add: announce_write_def)

lemma wf_ensure_then:
  assumes "wf_fs fs"
    and "\<And>a s. wf_fs s \<Longrightarrow> grows fs s \<Longrightarrow> a < next_node s \<Longrightarrow> is_directory s a \<Longrightarrow> wf_fs (snd (k a s))"
  shows "wf_fs (snd (and_then (ensure_dir p fs) k))"
  using ensure_dir_keeps [OF assms(1), of p] assms(2)
  by (intro wf_and_then) (cases "ensure_dir p fs"; simp)+

lemma wf_require_then:
  assumes "wf_fs fs" and "\<And>a. a < next_node fs \<Longrightarrow> is_directory fs a \<Longrightarrow> wf_fs (snd (k a fs))"
  shows "wf_fs (snd (and_then (require_parent p c fs) k))"
  using require_parent_keeps [OF assms(1), of p c] assms
  by (intro wf_and_then) (cases "require_parent p c fs"; simp)+

lemma wf_write_internal: "wf_fs fs \<Longrightarrow> wf_fs (snd (write_file_internal path d emit fs))"
proof -
  assume wf: "wf_fs fs"
  have "wf_fs (snd (let existed = (child_at s a name \<noteq> None); (v, s) = data_view d s; s = put_file a name v s
          in (Inr () :: err + unit, if emit then announce_write q existed v s else s)))"
    if s: "wf_fs s" "a < next_node s" "is_directory s a" "entry_name name" for a s name q
  proof -
    obtain v t where dv: "data_view d s = (v, t)" by fastforce
    then have "wf_fs (put_file a name v t)"
      using s wf_data_view [OF dv] same_tree_data_view [OF dv]
      by (intro wf_put_file) (simp_all add: same_tree_def is_directory_def)
    with dv show ?thesis by (simp add: Let_def)
  qed
  then show ?thesis
    unfolding write_file_internal_def Let_def
    using wf base_name_entry by (auto intro!: wf_assert_writable wf_ensure_then)
qed


lemma wf_read_file: "wf_fs fs \<Longrightarrow> wf_fs (snd (read_file_sync path fs))"
  by (auto simp: read_file_sync_def split: sum.split prod.split intro!: wf_update_node)

lemma wf_store_in_room: "wf_fs fs \<Longrightarrow> wf_fs (snd (store_in_room a r len l bs pos st fs))"
  by (auto simp: store_in_room_def split: option.split intro!: wf_update_node)

lemma wf_in_room:
  "wf_fs fs \<Longrightarrow> wf_fs (snd (append_in_room a bs fs))"
  "wf_fs fs \<Longrightarrow> wf_fs (snd (write_in_room a bs pos fs))"
  by (auto simp: append_in_room_def write_in_room_def Let_def wf_store_in_room
      split: option.split prod.split)

lemma wf_announce_bytes [simp]: "wf_fs (snd (announce_bytes p a fs)) = wf_fs fs"
  by (simp add: announce_bytes_def)

lemma wf_in_room_then:
  "wf_fs fs \<Longrightarrow> wf_fs (snd (and_then (append_in_room a bs fs) (\<lambda>_ s. announce_bytes p a s)))"
  "wf_fs fs \<Longrightarrow> wf_fs (snd (and_then (write_in_room a bs pos fs) (\<lambda>_ s. announce_bytes p a s)))"
  using wf_in_room(1) [of fs a bs] wf_in_room(2) [of fs a bs pos]
  by (auto intro!: wf_and_then)

lemma wf_append: "wf_fs fs \<Longrightarrow> wf_fs (snd (append_file_sync path d fs))"
  by (auto simp: append_file_sync_def Let_def wf_data_view split: sum.split option.split prod.split
      intro!: wf_assert_writable wf_in_room_then wf_write_internal dest: wf_data_view)

lemma wf_write_at: "wf_fs fs \<Longrightarrow> wf_fs (snd (write_at_sync path bs pos fs))"
  by (auto simp: write_at_sync_def Let_def split: sum.split option.split prod.split
      intro!: wf_assert_writable wf_in_room_then wf_write_internal)

lemma wf_metadata:
  "wf_fs fs \<Longrightarrow> wf_fs (snd (chmod_sync path m fs))"
  "wf_fs fs \<Longrightarrow> wf_fs (snd (utimes_sync path t1 t2 fs))"
  by (auto simp: chmod_sync_def utimes_sync_def Let_def split: sum.split option.split
      intro!: wf_assert_writable wf_update_node)

lemma wf_stat:
  "wf_fs fs \<Longrightarrow> wf_fs (snd (stat_sync path th fs))"
  "wf_fs fs \<Longrightarrow> wf_fs (snd (lstat_sync path th fs))"
proof -
  have i: "wf_fs (snd (inode_for a s)) = wf_fs s" for a s
    by (auto simp: inode_for_def split: option.split)
  show st: "wf_fs fs \<Longrightarrow> wf_fs (snd (stat_sync path th fs))" for th
    using i by (auto simp: stat_sync_def Let_def split: sum.split option.split prod.split) (metis snd_conv)
  show "wf_fs fs \<Longrightarrow> wf_fs (snd (lstat_sync path th fs))"
    using i st by (auto simp: lstat_sync_def Let_def split: sum.split option.split prod.split) (metis snd_conv)
qed

lemma wf_symlink: "wf_fs fs \<Longrightarrow> wf_fs (snd (symlink_sync tgt path fs))"
proof -
  assume wf: "wf_fs fs"
  have "wf_fs (snd (announce q (set_child p (base_name r) c s)))"
    if "alloc_node (new_symlink tgt t) fs = (c, s)" "p < next_node fs" "is_directory fs p" for q p r c s t
    using wf_new_entry [OF wf that(2) _ base_name_entry that(1)] that(3)
    by (simp add: is_directory_def wf_node_kinds)
  with wf show ?thesis
    unfolding symlink_sync_def Let_def
    by (auto split: prod.split intro!: wf_assert_writable wf_require_then)
qed

lemma wf_remove:
  "wf_fs fs \<Longrightarrow> wf_fs (snd (unlink_sync path fs))"
  "wf_fs fs \<Longrightarrow> wf_fs (snd (rmdir_sync path fs))"
  by (auto simp: unlink_sync_def rmdir_sync_def Let_def split: option.split
      intro!: wf_assert_writable wf_require_then wf_delete_child)

lemma wf_announce_move: "wf_fs fs \<Longrightarrow> wf_fs (snd (announce_move p q a r fs))"
  unfolding announce_move_def Let_def
  by (intro wf_and_then) (auto split: option.splits if_splits)

text \<open>A moved node loses its old entry before it gets its new one.\<close>

lemma wf_move:
  assumes wf: "wf_fs fs" and p: "p < next_node fs" and a: "child_at fs p old = Some a"
    and q: "q < next_node fs" "is_directory fs q" and name: "entry_name new"
  shows "wf_fs (set_child q new a (delete_child p old fs))"
proof (rule wf_set_child)
  note c = wf_child [OF wf p a]
  show "wf_fs (delete_child p old fs)" using wf by (rule wf_delete_child)
  show "q < next_node (delete_child p old fs)" using q by (simp add: vfs_simps)
  show "ntype (nodes (delete_child p old fs) q) = Directory" using q by (simp add: vfs_simps is_directory_def)
  show "entry_name new" by (rule name)
  show "a < next_node (delete_child p old fs)" using c by (simp add: vfs_simps)
  show "a \<noteq> root (delete_child p old fs)" using c by (simp add: vfs_simps)
  fix b m assume e: "has_entry (delete_child p old fs) b m a"
  then have "has_entry fs b m a" by (auto simp: has_entry_def vfs_simps split: if_splits)
  moreover have "has_entry fs p old a" using p a by (simp add: has_entry_def)
  ultimately have "b = p \<and> m = old" by (rule wf_unique [OF wf])
  with e show "b = q \<and> m = new" by (simp add: has_entry_def vfs_simps)
qed

lemma wf_rename: "wf_fs fs \<Longrightarrow> wf_fs (snd (rename_sync old new fs))"
proof -
  assume wf: "wf_fs fs"
  have "wf_fs (snd (announce_move q1 q2 a r
          (set_child np (base_name new') a (delete_child p n s))))"
    if "wf_fs s" "grows fs s" "np < next_node s" "is_directory s np" "p < next_node fs"
      "child_at fs p n = Some a" for q1 q2 a r np new' p n s
  proof (rule wf_announce_move, rule wf_move)
    show "p < next_node s" using that(2,5) by (simp add: grows_def)
    show "child_at s p n = Some a" using that(2,5,6) by (rule grows_node(7))
  qed (use that base_name_entry in auto)
  with wf show ?thesis
    unfolding rename_sync_def Let_def
    by (auto split: option.split intro!: wf_assert_writable wf_require_then wf_ensure_then)
qed

lemma wf_mount:
  assumes wf: "wf_fs fs" and tree: "\<And>p b. tree p = Some b \<Longrightarrow> b < next_node fs"
  shows "wf_fs (snd (mount_tree path tree fs))"
proof -
  have "wf_fs (set_child p (base_name r) c t)"
    if s: "wf_fs s" "grows fs s" "p < next_node s" "is_directory s p"
      and al: "alloc_node ((new_directory (now s))\<lparr>mode := Some 365, mount := Some tree\<rparr>) s = (c, t)"
    for s p c t r
    using s(1,3) _ base_name_entry al
  proof (rule wf_new_entry)
    show "ntype (nodes s p) = Directory" using s(4) by (simp add: is_directory_def)
    show "\<forall>t' p b. mount ((new_directory (now s))\<lparr>mode := Some 365, mount := Some tree\<rparr>) = Some t' \<longrightarrow>
            t' p = Some b \<longrightarrow> b < next_node s"
      using tree s(2) by (auto simp: grows_def intro: less_le_trans)
  qed (simp_all add: new_directory_def)
  with wf show ?thesis
    unfolding mount_tree_def Let_def
    by (auto split: prod.split option.split intro!: wf_ensure_then)
qed

lemma wf_unmount: "wf_fs fs \<Longrightarrow> wf_fs (unmount path pa fs)"
  by (auto simp: unmount_def split: prod.split intro: wf_delete_child)

lemma wf_copy: "wf_fs fs \<Longrightarrow> wf_fs (snd (copy_file_sync src dest fs))"
  unfolding copy_file_sync_def write_file_sync_def
  using wf_read_file [of fs src] by (intro wf_and_then) (auto intro: wf_write_internal)

lemma wf_streams:
  "wf_fs fs \<Longrightarrow> wf_fs (snd (create_read_stream path s e fs))"
  "wf_fs fs \<Longrightarrow> wf_fs (snd (write_stream_end path chunks fs))"
  unfolding create_read_stream_def write_stream_end_def write_file_sync_def
  using wf_read_file [of fs path]
  by (auto intro!: wf_and_then wf_write_internal split: prod.split)

end
