(* ===== verification/VfsReach.thy ===== *)
theory VfsReach
  imports VfsPreserve
begin

text \<open>
  The file systems a program can reach: one step per operation of \<open>class VirtualFS\<close>,
  whether it answered or threw, and one per thing its environment does (the clock moves,
  a caller allocates an array, a host makes a node for a tree it mounts).  The parameter
  \<open>ok\<close> says which data a caller may pass to a write.  The heap
  invariant holds in all of them, and distinct paths name distinct nodes.
\<close>

inductive vfs_step :: "(fs \<Rightarrow> data \<Rightarrow> bool) \<Rightarrow> fs \<Rightarrow> fs \<Rightarrow> bool" for ok where
  step_mkdir: "vfs_step ok fs (snd (mkdir_sync path rec fs))"
| step_write: "ok fs d \<Longrightarrow> vfs_step ok fs (snd (write_file_sync path d fs))"
| step_restore: "ok fs d \<Longrightarrow> vfs_step ok fs (snd (write_file_internal path d False fs))"
| step_append: "ok fs d \<Longrightarrow> vfs_step ok fs (snd (append_file_sync path d fs))"
| step_write_at: "vfs_step ok fs (snd (write_at_sync path bs pos fs))"
| step_read: "vfs_step ok fs (snd (read_file_sync path fs))"
| step_copy: "vfs_step ok fs (snd (copy_file_sync path dest fs))"
| step_chmod: "vfs_step ok fs (snd (chmod_sync path m fs))"
| step_utimes: "vfs_step ok fs (snd (utimes_sync path t1 t2 fs))"
| step_stat: "vfs_step ok fs (snd (stat_sync path throwing fs))"
| step_lstat: "vfs_step ok fs (snd (lstat_sync path throwing fs))"
| step_symlink: "vfs_step ok fs (snd (symlink_sync tgt path fs))"
| step_unlink: "vfs_step ok fs (snd (unlink_sync path fs))"
| step_rmdir: "vfs_step ok fs (snd (rmdir_sync path fs))"
| step_rename: "vfs_step ok fs (snd (rename_sync path dest fs))"
| step_mount: "(\<And>p b. tree p = Some b \<Longrightarrow> b < next_node fs) \<Longrightarrow>
     vfs_step ok fs (snd (mount_tree path tree fs))"
| step_unmount: "vfs_step ok fs (unmount path pa fs)"
| step_write_stream: "vfs_step ok fs (snd (write_stream_end path chunks fs))"
| step_watch: "vfs_step ok fs (watch path l rec fs)"
| step_close: "vfs_step ok fs (close_watcher path k fs)"
| step_on: "vfs_step ok fs (on_delete k (on_change l fs))"
| step_off: "vfs_step ok fs (off_delete k (off_change l fs))"
| step_clock: "vfs_step ok fs (fs\<lparr>now := t\<rparr>)"
| step_array: "new_u8 bs (arrays fs) = (v, st) \<Longrightarrow> vfs_step ok fs (fs\<lparr>arrays := st\<rparr>)"
| step_host_node: "children n = [] \<Longrightarrow> mount n = None \<Longrightarrow> content n = None \<Longrightarrow> room n = None \<Longrightarrow>
     vfs_step ok fs (snd (alloc_node n fs))"

inductive vfs_reachable :: "(fs \<Rightarrow> data \<Rightarrow> bool) \<Rightarrow> fs \<Rightarrow> bool" for ok where
  reach_new: "vfs_reachable ok (new_fs t stack)"
| reach_step: "vfs_reachable ok fs \<Longrightarrow> vfs_step ok fs fs' \<Longrightarrow> vfs_reachable ok fs'"

lemma wf_new: "wf_fs (new_fs t stack)"
  by (simp add: wf_fs_def wf_node_def new_fs_def new_directory_def child_at_def has_entry_def)

lemma wf_watching:
  "wf_fs (watch path l rec fs) = wf_fs fs" "wf_fs (close_watcher path k fs) = wf_fs fs"
  "wf_fs (on_delete k fs) = wf_fs fs" "wf_fs (on_change k fs) = wf_fs fs"
  "wf_fs (off_delete k fs) = wf_fs fs" "wf_fs (off_change k fs) = wf_fs fs"
  by (auto simp: watch_def close_watcher_def on_delete_def on_change_def off_delete_def
      off_change_def Let_def split: option.split)

lemma vfs_step_wf: "vfs_step ok fs fs' \<Longrightarrow> wf_fs fs \<Longrightarrow> wf_fs fs'"
proof (induction rule: vfs_step.induct)
  case (step_host_node n fs)
  then show ?case
    using wf_alloc [of fs n] by (cases "alloc_node n fs") simp
qed (auto simp: write_file_sync_def wf_watching intro: wf_mkdir wf_write_internal wf_append
    wf_write_at wf_read_file wf_copy wf_metadata wf_stat wf_symlink wf_remove wf_rename wf_mount
    wf_unmount wf_streams)

text \<open>C5: Whatever sequence of file system operations runs, answering or throwing, the tree
  stays well formed: the root is a directory without an entry, only directories have
  entries, an entry names an existing node, and no node has two entries.\<close>

theorem reachable_wf: "vfs_reachable ok fs \<Longrightarrow> wf_fs fs"
  by (induction rule: vfs_reachable.induct) (auto intro: wf_new vfs_step_wf)

lemma reachable_wf_witness:
  "wf_fs (snd (rename_sync ''/a'' ''/d/b'' (snd (write_file_sync ''/a'' (Text [1]) (new_fs 0 9)))))"
  by (rule reachable_wf [where ok = "\<lambda>_ _. True"]) (intro reach_step [OF _ step_rename] reach_step [OF _ step_write] reach_new TrueI)

subsection \<open>Paths name nodes one to one\<close>

fun walk :: "fs \<Rightarrow> addr \<Rightarrow> string list \<Rightarrow> addr option" where
  "walk fs a [] = Some a"
| "walk fs a (n # ns) = (case child_at fs a n of None \<Rightarrow> None | Some c \<Rightarrow> walk fs c ns)"

lemma walk_snoc:
  "walk fs a (ns @ [n]) = (case walk fs a ns of None \<Rightarrow> None | Some b \<Rightarrow> child_at fs b n)"
  by (induction ns arbitrary: a) (auto split: option.split)

lemma walk_append:
  "walk fs a (ns @ ms) = (case walk fs a ns of None \<Rightarrow> None | Some b \<Rightarrow> walk fs b ms)"
  by (induction ns arbitrary: a) (auto split: option.split)

lemma walk_allocated:
  "wf_fs fs \<Longrightarrow> a < next_node fs \<Longrightarrow> walk fs a ns = Some b \<Longrightarrow> b < next_node fs"
  by (induction ns arbitrary: a) (auto split: option.splits dest: wf_child(1))

lemma walk_inj:
  assumes wf: "wf_fs fs"
  shows "walk fs (root fs) ms = Some a \<Longrightarrow> walk fs (root fs) ns = Some a \<Longrightarrow> ms = ns"
proof (induction ms arbitrary: ns a rule: rev_induct)
  case Nil
  then have a: "a = root fs" by simp
  show ?case
  proof (cases ns rule: rev_cases)
    case (snoc ns' n)
    with Nil.prems(2) obtain p where p: "walk fs (root fs) ns' = Some p" "child_at fs p n = Some a"
      by (auto simp: walk_snoc split: option.splits)
    then have "p < next_node fs" using walk_allocated [OF wf wf_root [OF wf]] by blast
    then have "a \<noteq> root fs" by (rule wf_child(2) [OF wf _ p(2)])
    with a show ?thesis by simp
  qed simp
next
  case (snoc m ms)
  obtain p where p: "walk fs (root fs) ms = Some p" "child_at fs p m = Some a"
    using snoc.prems(1) by (auto simp: walk_snoc split: option.splits)
  then have pa: "p < next_node fs" using walk_allocated [OF wf wf_root [OF wf]] by blast
  have "ns \<noteq> []" using snoc.prems(2) wf_child(2) [OF wf pa p(2)] by auto
  then obtain ns' n where ns: "ns = ns' @ [n]" by (cases ns rule: rev_cases) auto
  with snoc.prems(2) obtain q where q: "walk fs (root fs) ns' = Some q" "child_at fs q n = Some a"
    by (auto simp: walk_snoc split: option.splits)
  then have qa: "q < next_node fs" using walk_allocated [OF wf wf_root [OF wf]] by blast
  have "p = q \<and> m = n"
    using wf_unique [OF wf, of p m a q n] pa qa p(2) q(2) by (simp add: has_entry_def)
  with snoc.IH [OF p(1)] q(1) ns show ?case by simp
qed

end
