(* ===== verification/VfsFiles.thy ===== *)
theory VfsFiles
  imports VfsReach
begin

text \<open>
  What the operations do on paths whose directories are reached without links or mounts:
  the lookup is a walk through directory entries, \<open>ensureDirectory\<close> completes that
  walk, a written file reads back, and other files keep their bytes.
\<close>

subsection \<open>Walking through directories\<close>

text \<open>The directory a list of names leads to, through plain directories only.\<close>

fun dir_walk :: "fs \<Rightarrow> addr \<Rightarrow> string list \<Rightarrow> addr option" where
  "dir_walk fs a [] = Some a"
| "dir_walk fs a (n # ns) =
     (case child_at fs a n of
        None \<Rightarrow> None
      | Some c \<Rightarrow> if is_directory fs c \<and> mount (nodes fs c) = None then dir_walk fs c ns else None)"

text \<open>A list of names \<open>mkdir -p\<close> can create: what exists of it is plain directories.\<close>

fun creatable :: "fs \<Rightarrow> addr \<Rightarrow> string list \<Rightarrow> bool" where
  "creatable fs a [] = True"
| "creatable fs a (n # ns) =
     (case child_at fs a n of
        None \<Rightarrow> True
      | Some c \<Rightarrow> is_directory fs c \<and> mount (nodes fs c) = None \<and> creatable fs c ns)"

lemma dir_walk_append:
  "dir_walk fs a (ns @ ms) = (case dir_walk fs a ns of None \<Rightarrow> None | Some b \<Rightarrow> dir_walk fs b ms)"
  by (induction ns arbitrary: a) (auto split: option.split)

lemma dir_walk_walk: "dir_walk fs a ns = Some b \<Longrightarrow> walk fs a ns = Some b"
  by (induction ns arbitrary: a) (auto split: option.splits if_splits)

lemma dir_walk_dir:
  "dir_walk fs a ns = Some b \<Longrightarrow> is_directory fs a \<Longrightarrow> is_directory fs b"
  by (induction ns arbitrary: a) (auto split: option.splits if_splits)

lemma dir_walk_allocated:
  "wf_fs fs \<Longrightarrow> a < next_node fs \<Longrightarrow> dir_walk fs a ns = Some b \<Longrightarrow> b < next_node fs"
  using dir_walk_walk walk_allocated by blast

lemma creatable_dir_walk: "dir_walk fs a ns = Some b \<Longrightarrow> creatable fs a ns"
  by (induction ns arbitrary: a) (auto split: option.splits if_splits)

lemma dir_walk_grows:
  "grows fs fs' \<Longrightarrow> wf_fs fs \<Longrightarrow> a < next_node fs \<Longrightarrow> dir_walk fs a ns = Some b \<Longrightarrow>
     dir_walk fs' a ns = Some b"
proof (induction ns arbitrary: a)
  case (Cons n ns)
  then obtain c where c: "child_at fs a n = Some c" "is_directory fs c" "mount (nodes fs c) = None"
    "dir_walk fs c ns = Some b" by (auto split: option.splits if_splits)
  have "c < next_node fs" using wf_child(1) Cons.prems(2,3) c(1) .
  with Cons c show ?case
    using grows_node [OF Cons.prems(1)] by (simp add: is_directory_def)
qed simp

lemma node_loop_dirs:
  "is_directory fs a \<Longrightarrow> dir_walk fs a ns = Some b \<Longrightarrow>
     node_loop fs follow passed (ns @ ks) a None = node_loop fs follow (passed @ ns) ks b None"
  by (induction ns arbitrary: a passed)
     (auto simp: is_directory_def child_on_walk_def enter_child_def split: option.splits if_splits)

lemma root_directory: "wf_fs fs \<Longrightarrow> is_directory fs (root fs)"
  by (simp add: is_directory_def wf_root_dir)

text \<open>The lookup of a path whose directories are plain: the last name's entry.\<close>

definition plain_entry :: "fs \<Rightarrow> addr \<Rightarrow> string \<Rightarrow> bool" where
  "plain_entry fs a n \<longleftrightarrow>
     (\<forall>c. child_at fs a n = Some c \<longrightarrow> ntype (nodes fs c) \<noteq> Symlink \<and> mount (nodes fs c) = None)"

lemma substrate_entry:
  assumes "wf_fs fs" and "norm_segs p = ds @ [n]" and "dir_walk fs (root fs) ds = Some a"
    and "plain_entry fs a n"
  shows "substrate_node fs p follow 0 = Inr (child_at fs a n)"
proof -
  have dir: "ntype (nodes fs a) = Directory"
    using dir_walk_dir [OF assms(3) root_directory [OF assms(1)]] by (simp add: is_directory_def)
  have "node_loop fs follow [] (path_segments p) (root fs) None = node_loop fs follow ds [n] a None"
    using node_loop_dirs [OF root_directory [OF assms(1)] assms(3), of follow "[]" "[n]"] assms(2)
    by (simp add: path_segments_norm)
  also have "\<dots> = Found (child_at fs a n)"
    using dir assms(4)
    by (cases "child_at fs a n") (auto simp: child_on_walk_def enter_child_def plain_entry_def)
  finally show ?thesis by (simp add: substrate_node.simps)
qed

lemma get_node_entry:
  assumes "wf_fs fs" and "norm_segs p = ds @ [n]" and "dir_walk fs (root fs) ds = Some a"
    and "plain_entry fs a n"
  shows "get_node fs p = Inr (child_at fs a n)"
  unfolding get_node_def using assms by (rule substrate_entry)

lemma get_node_dir:
  assumes "wf_fs fs" and "dir_walk fs (root fs) (norm_segs p) = Some a"
  shows "get_node fs p = Inr (Some a)"
proof -
  have "node_loop fs True [] (path_segments p) (root fs) None = Found (Some a)"
    using node_loop_dirs [OF root_directory [OF assms(1)] assms(2), of True "[]" "[]"]
    by (simp add: path_segments_norm)
  then show ?thesis by (simp add: get_node_def substrate_node.simps)
qed

lemma crosses_mount_dirs:
  "dir_walk fs a ns = Some b \<Longrightarrow> crosses_mount fs a (ns @ ms) = crosses_mount fs b ms"
  by (induction ns arbitrary: a) (auto split: option.splits if_splits)

lemma creatable_not_crossing: "creatable fs a ns \<Longrightarrow> \<not> crosses_mount fs a ns"
  by (induction ns arbitrary: a) (auto split: option.splits)

lemma creatable_node_loop:
  "creatable fs a ns \<Longrightarrow> is_directory fs a \<Longrightarrow> \<exists>r. node_loop fs follow passed ns a None = Found r"
proof (induction ns arbitrary: a passed)
  case (Cons n ns)
  show ?case
  proof (cases "child_at fs a n")
    case None
    with Cons.prems show ?thesis by (simp add: is_directory_def child_on_walk_def)
  next
    case (Some c)
    with Cons.prems have c: "creatable fs c ns" "is_directory fs c" "mount (nodes fs c) = None" by simp_all
    with Cons.IH [OF c(1,2), of "passed @ [n]"] Some Cons.prems(2) show ?thesis
      by (simp add: is_directory_def child_on_walk_def enter_child_def)
  qed
qed simp

lemma creatable_get_node:
  "wf_fs fs \<Longrightarrow> creatable fs (root fs) (norm_segs p) \<Longrightarrow> \<exists>r. get_node fs p = Inr r"
  using creatable_node_loop [OF _ root_directory, of fs "norm_segs p" True "[]"]
  by (auto simp: get_node_def substrate_node.simps [where depth = 0] path_simps)

subsection \<open>\<open>ensureDirectory\<close> completes the walk\<close>

lemma new_directory_simps [simp]:
  "ntype (new_directory t) = Directory" "mount (new_directory t) = None"
  "children (new_directory t) = []" "content (new_directory t) = None" "room (new_directory t) = None"
  by (simp_all add: new_directory_def)

lemma emit_changed_ok:
  assumes "wf_fs fs" and "norm_segs p = ds @ [n]" and "dir_walk fs (root fs) ds = Some a"
    and "plain_entry fs a n"
  shows "\<exists>fs'. emit_changed p fs = (Inr (), fs')"
  using substrate_entry [OF assms, of False]
  by (auto simp: emit_changed_def split: option.split)

lemma dir_walk_same_tree: "same_tree s t \<Longrightarrow> dir_walk s a ns = dir_walk t a ns"
proof (induction ns arbitrary: a)
  case (Cons n ns)
  have "child_at s = child_at t" "nodes s = nodes t"
    using Cons.prems by (simp_all add: child_at_same same_treeD)
  with Cons show ?case by (simp add: is_directory_def split: option.split)
qed simp

lemma creatable_same_tree: "same_tree s t \<Longrightarrow> creatable s a ns = creatable t a ns"
proof (induction ns arbitrary: a)
  case (Cons n ns)
  have "child_at s = child_at t" "nodes s = nodes t"
    using Cons.prems by (simp_all add: child_at_same same_treeD)
  with Cons show ?case by (simp add: is_directory_def split: option.split)
qed simp

lemma create_segment:
  assumes wf: "wf_fs fs" and dw: "dir_walk fs (root fs) passed = Some a"
    and none: "child_at fs a n = None" and clean: "\<forall>s \<in> set (passed @ [n]). clean_name s"
    and al: "alloc_node (new_directory t) fs = (c, fs1)"
  obtains fs4 where
    "emit_changed (render (passed @ [n]))
       (notify_watchers (render (passed @ [n])) Rename (set_child a n c fs1)) = (Inr (), fs4)"
    "wf_fs fs4" "grows fs fs4" "dir_walk fs4 (root fs4) (passed @ [n]) = Some c"
    "same_tree fs4 (set_child a n c fs1)"
proof -
  let ?p = "render (passed @ [n])"
  let ?fs3 = "notify_watchers ?p Rename (set_child a n c fs1)"
  have a: "a < next_node fs" "ntype (nodes fs a) = Directory"
    using dir_walk_allocated [OF wf wf_root [OF wf] dw] dir_walk_dir [OF dw root_directory [OF wf]]
    by (simp_all add: is_directory_def)
  have wf3: "wf_fs ?fs3"
    using wf_new_entry [OF wf a _ al] clean by (simp add: entry_name_def)
  obtain r fs4 where em: "emit_changed ?p ?fs3 = (r, fs4)" by fastforce
  have same: "same_tree fs4 ?fs3" using same_tree_emit_changed [of ?p ?fs3] em by simp
  have g: "grows fs fs4" using al none em by (rule grows_new_dir)
  have dw4: "dir_walk fs4 (root fs) passed = Some a" using g wf wf_root [OF wf] dw by (rule dir_walk_grows)
  then have dw3: "dir_walk ?fs3 (root fs) passed = Some a"
    using dir_walk_same_tree [OF same] by simp
  have root: "root ?fs3 = root fs" "root fs4 = root fs"
    using same_treeD(3) [OF same] alloc_node_simps [OF al]
    by (simp_all add: notify_watchers_def Let_def vfs_simps)
  have child: "child_at ?fs3 a n = Some c" "nodes ?fs3 c = new_directory t"
    using alloc_node_simps [OF al] a
    by (simp_all add: notify_watchers_def Let_def child_at_def set_child_def update_node_def)
  have "plain_entry ?fs3 a n" using child by (simp add: plain_entry_def)
  then have "\<exists>s. emit_changed ?p ?fs3 = (Inr (), s)"
    using wf3 dw3 root clean by (intro emit_changed_ok [where ds = passed and a = a]) (simp_all add: norm_segs_render)
  with em have r: "r = Inr ()" by auto
  have "dir_walk fs4 (root fs4) (passed @ [n]) = Some c"
    using dw4 root child_at_same [OF same] same_treeD(1) [OF same] child
    by (simp add: dir_walk_append is_directory_def)
  moreover have "wf_fs fs4" using wf3 wf_same [OF same] by simp
  moreover have "same_tree fs4 (set_child a n c fs1)"
    using same by (auto simp: same_tree_def notify_watchers_def Let_def)
  ultimately show thesis using that em r g by blast
qed

lemma ensure_loop_completes:
  "wf_fs fs \<Longrightarrow> dir_walk fs (root fs) passed = Some a \<Longrightarrow> creatable fs a segs \<Longrightarrow>
     \<forall>s \<in> set (passed @ segs). clean_name s \<Longrightarrow>
     \<exists>b fs'. ensure_loop path passed segs a fs = (EnsuredAt b, fs') \<and> wf_fs fs' \<and> grows fs fs' \<and>
       dir_walk fs' (root fs') (passed @ segs) = Some b"
proof (induction segs arbitrary: passed a fs)
  case (Cons n ns)
  show ?case
  proof (cases "child_at fs a n")
    case (Some c)
    with Cons.prems(3) have c: "is_directory fs c" "mount (nodes fs c) = None" "creatable fs c ns" by simp_all
    with Cons.prems(2) Some have "dir_walk fs (root fs) (passed @ [n]) = Some c"
      by (simp add: dir_walk_append)
    from Cons.IH [OF Cons.prems(1) this c(3)] Cons.prems(4) Some c show ?thesis
      by (simp add: is_directory_def)
  next
    case None
    obtain c fs1 where al: "alloc_node (new_directory (now fs)) fs = (c, fs1)" by fastforce
    obtain fs4 where em: "emit_changed (render (passed @ [n]))
          (notify_watchers (render (passed @ [n])) Rename (set_child a n c fs1)) = (Inr (), fs4)"
      and 4: "wf_fs fs4" "grows fs fs4" "dir_walk fs4 (root fs4) (passed @ [n]) = Some c"
        "same_tree fs4 (set_child a n c fs1)"
      using create_segment [OF Cons.prems(1,2) None _ al] Cons.prems(4) by auto
    have "child_at (set_child a n c fs1) c m = None" for m
      using alloc_node_simps [OF al] dir_walk_allocated [OF Cons.prems(1) wf_root [OF Cons.prems(1)] Cons.prems(2)]
      by (auto simp: vfs_simps) (simp add: child_at_def)
    then have "creatable fs4 c ns"
      unfolding creatable_same_tree [OF 4(4)] by (cases ns) simp_all
    from Cons.IH [OF 4(1,3) this] Cons.prems(4) obtain b fs' where
      "ensure_loop path (passed @ [n]) ns c fs4 = (EnsuredAt b, fs')" "wf_fs fs'" "grows fs4 fs'"
      "dir_walk fs' (root fs') ((passed @ [n]) @ ns) = Some b" by auto
    with None al em 4(2) show ?thesis by (auto intro: grows_trans)
  qed
qed simp

lemma ensure_dir_completes:
  assumes "wf_fs fs" and "creatable fs (root fs) (norm_segs p)" and "0 < stack_depth fs"
  obtains b fs' where "ensure_dir p fs = (Inr b, fs')" "wf_fs fs'" "grows fs fs'"
    "dir_walk fs' (root fs') (norm_segs p) = Some b"
proof -
  obtain k where k: "stack_depth fs = Suc k" using assms(3) by (cases "stack_depth fs") auto
  have "dir_walk fs (root fs) [] = Some (root fs)" by simp
  from ensure_loop_completes [OF assms(1) this assms(2), of p] norm_segs_clean [of p]
  obtain b fs' where "ensure_loop p [] (norm_segs p) (root fs) fs = (EnsuredAt b, fs')"
    "wf_fs fs'" "grows fs fs'" "dir_walk fs' (root fs') (norm_segs p) = Some b" by auto
  with that k show thesis by (simp add: ensure_dir_def path_segments_norm)
qed

end
