(* ===== verification/VfsBuffers.thy ===== *)
theory VfsBuffers
  imports VfsBytes
begin

text \<open>
  Which arrays share a file's buffer, and why writing in place is sound: the bytes of an
  array the file system has handed out (a read's result, a copy's content) never change.
  \<open>appendFileSync\<close> and \<open>writeAtSync\<close> are shown to compute the plain functions on byte
  lists and never to run off their room.
\<close>

subsection \<open>The invariant of rooms and contents\<close>

text \<open>Node \<open>b\<close> will not write over the bytes of \<open>w\<close>: it is lent, and \<open>w\<close> ends where its content does.\<close>

definition heeds :: "fs \<Rightarrow> addr \<Rightarrow> view \<Rightarrow> bool" where
  "heeds fs b w \<longleftrightarrow>
     (\<forall>r. room (nodes fs b) = Some r \<longrightarrow> buffer r = buffer w \<longrightarrow>
        lent (nodes fs b) \<and>
        (\<forall>v. content (nodes fs b) = Some v \<longrightarrow> byte_offset w + byte_length w \<le> byte_length v))"

definition settled :: "fs \<Rightarrow> view \<Rightarrow> bool" where
  "settled fs w \<longleftrightarrow> valid_view (arrays fs) w \<and> (\<forall>b < next_node fs. heeds fs b w)"

definition room_ok :: "fs \<Rightarrow> addr \<Rightarrow> bool" where
  "room_ok fs a \<longleftrightarrow>
     (\<forall>r. room (nodes fs a) = Some r \<longrightarrow>
        valid_view (arrays fs) r \<and> byte_offset r = 0 \<and>
        (\<exists>v. content (nodes fs a) = Some v \<and> buffer v = buffer r \<and> byte_offset v = 0 \<and>
           byte_length v \<le> byte_length r))"

definition content_ok :: "fs \<Rightarrow> addr \<Rightarrow> bool" where
  "content_ok fs a \<longleftrightarrow>
     (\<forall>v. content (nodes fs a) = Some v \<longrightarrow>
        valid_view (arrays fs) v \<and> (\<forall>b < next_node fs. b \<noteq> a \<longrightarrow> heeds fs b v))"

definition rooms_apart :: "fs \<Rightarrow> bool" where
  "rooms_apart fs \<longleftrightarrow>
     (\<forall>a < next_node fs. \<forall>b < next_node fs. \<forall>r s.
        room (nodes fs a) = Some r \<longrightarrow> room (nodes fs b) = Some s \<longrightarrow> buffer r = buffer s \<longrightarrow> a = b)"

definition bytes_inv :: "fs \<Rightarrow> bool" where
  "bytes_inv fs \<longleftrightarrow> (\<forall>a < next_node fs. room_ok fs a \<and> content_ok fs a) \<and> rooms_apart fs"

text \<open>The file system has the invariant and will leave \<open>w\<close>, which reads \<open>bs\<close>, alone.\<close>

definition holds_bytes :: "view \<Rightarrow> bytes \<Rightarrow> fs \<Rightarrow> bool" where
  "holds_bytes w bs fs \<longleftrightarrow> bytes_inv fs \<and> settled fs w \<and> view_bytes (arrays fs) w = bs"

lemma bytes_invD:
  assumes "bytes_inv fs" and "a < next_node fs"
  shows "room_ok fs a" and "content_ok fs a"
  using assms by (simp_all add: bytes_inv_def)

lemma bytes_inv_apart:
  "bytes_inv fs \<Longrightarrow> a < next_node fs \<Longrightarrow> b < next_node fs \<Longrightarrow> room (nodes fs a) = Some r \<Longrightarrow>
     room (nodes fs b) = Some s \<Longrightarrow> buffer r = buffer s \<Longrightarrow> a = b"
  unfolding bytes_inv_def rooms_apart_def by blast

text \<open>The invariant only reads the store, the next address, and each node's content, room and lent mark.\<close>

lemma holds_bytes_cong:
  assumes "arrays fs' = arrays fs" and "next_node fs' = next_node fs"
    and "\<And>a. a < next_node fs \<Longrightarrow> content (nodes fs' a) = content (nodes fs a)"
    and "\<And>a. a < next_node fs \<Longrightarrow> room (nodes fs' a) = room (nodes fs a)"
    and "\<And>a. a < next_node fs \<Longrightarrow> lent (nodes fs a) \<Longrightarrow> lent (nodes fs' a)"
    and "holds_bytes w bs fs"
  shows "holds_bytes w bs fs'"
proof -
  have r: "heeds fs b v \<Longrightarrow> b < next_node fs \<Longrightarrow> heeds fs' b v" for b v
    unfolding heeds_def using assms(3-5) by simp
  have rm: "room_ok fs a \<Longrightarrow> a < next_node fs \<Longrightarrow> room_ok fs' a" for a
    unfolding room_ok_def using assms(1,3,4) by simp
  have ct: "content_ok fs a \<Longrightarrow> a < next_node fs \<Longrightarrow> content_ok fs' a" for a
    unfolding content_ok_def using assms(1-3) r by simp
  have ap: "rooms_apart fs \<Longrightarrow> rooms_apart fs'"
    unfolding rooms_apart_def using assms(2,4) by simp
  show ?thesis
    using assms(1,2,6) r rm ct ap unfolding holds_bytes_def bytes_inv_def settled_def by simp
qed

lemma holds_bytes_alloc:
  assumes "holds_bytes w bs fs" and "content n = None" and "room n = None"
  shows "holds_bytes w bs (snd (alloc_node n fs))"
proof -
  let ?fs = "snd (alloc_node n fs)"
  have new: "heeds ?fs (next_node fs) v" "room_ok ?fs (next_node fs)" "content_ok ?fs (next_node fs)" for v
    using assms(2,3) by (simp_all add: alloc_node_def heeds_def room_ok_def content_ok_def)
  have old: "heeds ?fs b v = heeds fs b v" "room_ok ?fs b = room_ok fs b" if "b < next_node fs" for b v
    using that by (simp_all add: alloc_node_def heeds_def room_ok_def)
  have ct: "content_ok ?fs a" if "a < next_node fs" "content_ok fs a" for a
    using that new(1) old(1)
    by (auto simp: content_ok_def alloc_node_def less_Suc_eq)
  have "rooms_apart ?fs" if "rooms_apart fs"
    using that assms(3) by (auto simp: rooms_apart_def alloc_node_def less_Suc_eq)
  with assms(1) new old ct show ?thesis
    by (auto simp: holds_bytes_def bytes_inv_def settled_def less_Suc_eq)
       (auto simp: alloc_node_def less_Suc_eq)
qed

interpretation kept: store_predicate "holds_bytes w bs" for w bs
proof
  fix fs and n :: fsnode assume "holds_bytes w bs fs" "content n = None" "room n = None"
  then show "holds_bytes w bs (snd (alloc_node n fs))" by (rule holds_bytes_alloc)
next
  fix fs and f :: "fsnode \<Rightarrow> fsnode" and a
  assume "holds_bytes w bs fs" and "\<And>n. content (f n) = content n" "\<And>n. room (f n) = room n"
    "\<And>n. lent n \<Longrightarrow> lent (f n)"
  then show "holds_bytes w bs (update_node a f fs)"
    by (intro holds_bytes_cong [of "update_node a f fs" fs]) (auto simp: update_node_def)
qed (rule iffI; rule holds_bytes_cong; simp)+

subsection \<open>Operations on content\<close>

text \<open>New arrays disturb nothing, and a new array is settled.\<close>

lemma heeds_arrays [simp]: "heeds (fs\<lparr>arrays := st\<rparr>) b w = heeds fs b w"
  by (simp add: heeds_def)

lemma holds_bytes_store_ext:
  assumes "holds_bytes w bs fs" and ext: "store_ext (arrays fs) st"
  shows "holds_bytes w bs (fs\<lparr>arrays := st\<rparr>)"
proof -
  have "room_ok fs a \<Longrightarrow> room_ok (fs\<lparr>arrays := st\<rparr>) a" for a
    using store_extD [OF ext] by (auto simp: room_ok_def)
  moreover have "content_ok fs a \<Longrightarrow> content_ok (fs\<lparr>arrays := st\<rparr>) a" for a
    using store_extD [OF ext] by (auto simp: content_ok_def)
  ultimately show ?thesis
    using assms(1) store_extD [OF ext]
    by (simp add: holds_bytes_def bytes_inv_def settled_def rooms_apart_def)
qed

lemma room_valid:
  assumes "bytes_inv fs" and "b < next_node fs" and "room (nodes fs b) = Some r"
  shows "valid_view (arrays fs) r"
  using bytes_invD(1) [OF assms(1,2)] assms(3) by (simp add: room_ok_def)

lemma fresh_settled:
  assumes "bytes_inv fs" and "valid_view st v" and "next_buf (arrays fs) \<le> buffer v"
  shows "settled (fs\<lparr>arrays := st\<rparr>) v"
  using assms(2,3) room_valid [OF assms(1)]
  by (fastforce simp: settled_def heeds_def dest: valid_view_buffer)

lemma new_u8_settled:
  assumes "bytes_inv fs" and "new_u8 bs (arrays fs) = (v, st)"
  shows "settled (fs\<lparr>arrays := st\<rparr>) v"
proof (rule fresh_settled [OF assms(1)])
  show "valid_view st v" using new_u8_valid [OF assms(2)] by simp
  have "v = fst (new_u8 bs (arrays fs))" using assms(2) by simp
  then show "next_buf (arrays fs) \<le> buffer v" by (simp add: new_u8_def)
qed

lemma holds_bytes_inv [dest]: "holds_bytes w bs fs \<Longrightarrow> bytes_inv fs"
  by (simp add: holds_bytes_def)

lemma holds_bytesI: "bytes_inv fs \<Longrightarrow> settled fs w \<Longrightarrow> holds_bytes w (view_bytes (arrays fs) w) fs"
  by (simp add: holds_bytes_def)

text \<open>A node that is given the array \<open>v\<close> as its content, with no room of its own.\<close>

lemma holds_bytes_replace:
  assumes h: "holds_bytes w bs fs" and v: "settled fs v"
    and f: "\<And>n. content (f n) = Some v" "\<And>n. room (f n) = None"
  shows "holds_bytes w bs (update_node a f fs)"
proof -
  let ?fs = "update_node a f fs"
  have heeds: "heeds ?fs b u" if "heeds fs b u" for b u
    using that f by (auto simp: heeds_def update_node_def)
  have room: "room_ok ?fs b" if "room_ok fs b" for b
    using that f by (auto simp: room_ok_def update_node_def)
  have content: "content_ok ?fs b" if "content_ok fs b" for b
    using that v heeds f by (auto simp: content_ok_def settled_def update_node_def)
  have "rooms_apart ?fs" if "rooms_apart fs"
    using that f by (auto simp: rooms_apart_def update_node_def split: if_splits)
  with h heeds room content show ?thesis
    by (simp add: holds_bytes_def bytes_inv_def settled_def)
qed

lemma holds_bytes_put_file:
  assumes h: "holds_bytes w bs fs" and v: "settled fs v"
  shows "holds_bytes w bs (put_file parent name v fs)"
proof -
  obtain b fs1 where al: "alloc_node (new_directory (now fs)) fs = (b, fs1)" by fastforce
  have vb: "holds_bytes v (view_bytes (arrays fs) v) fs" using h v by (auto intro: holds_bytesI)
  have v1: "settled fs1 v" using holds_bytes_alloc [OF vb, of "new_directory (now fs)"] al
    by (simp add: new_directory_def holds_bytes_def)
  have h1: "holds_bytes w bs fs1" using holds_bytes_alloc [OF h, of "new_directory (now fs)"] al
    by (simp add: new_directory_def)
  have eq: "alloc_node (new_file v (now fs)) fs =
      (b, update_node b (\<lambda>_. new_file v (now fs)) fs1)"
    using al by (auto simp: alloc_node_def update_node_def)
  have "holds_bytes w bs (update_node b (\<lambda>_. new_file v (now fs)) fs1)"
    using h1 v1 by (rule holds_bytes_replace) (simp_all add: new_file_def new_directory_def)
  then have "holds_bytes w bs (set_child parent name b (update_node b (\<lambda>_. new_file v (now fs)) fs1))"
    by (rule kept.P_children)
  moreover have "holds_bytes w bs (update_node a (\<lambda>n. n\<lparr>content := Some v, mtime := now fs, room := None, lent := True\<rparr>) fs)" for a
    using h v by (rule holds_bytes_replace) simp_all
  ultimately show ?thesis
    by (simp add: put_file_def Let_def eq split: option.split)
qed

lemma data_view_settled:
  assumes h: "holds_bytes w bs fs" and d: "\<And>v. d = Array v \<Longrightarrow> settled fs v"
    and dv: "data_view d fs = (v, fs')"
  shows "holds_bytes w bs fs' \<and> settled fs' v"
proof (cases d)
  case (Text bs')
  then obtain st where nu: "new_u8 bs' (arrays fs) = (v, st)" "fs' = fs\<lparr>arrays := st\<rparr>"
    using dv by (auto simp: data_view_def split: prod.splits)
  then show ?thesis
    using h new_u8_settled [OF _ nu(1)] holds_bytes_store_ext [OF h store_ext_new [OF nu(1)]] by auto
next
  case (Array u)
  with dv d h show ?thesis by (simp add: data_view_def)
qed

lemma holds_bytes_write_internal:
  assumes h: "holds_bytes w bs fs" and d: "\<And>v. d = Array v \<Longrightarrow> settled fs v"
  shows "holds_bytes w bs (snd (write_file_internal path d emit fs))"
proof -
  have "holds_bytes w bs (snd (let existed = (child_at s a name \<noteq> None); (v, s) = data_view d s; s = put_file a name v s
          in (Inr () :: err + unit, if emit then announce_write q existed v s else s)))"
    if s: "holds_bytes w bs s" "\<And>v. d = Array v \<Longrightarrow> settled s v" for a s name q
  proof -
    obtain v t where dv: "data_view d s = (v, t)" by fastforce
    then have "holds_bytes w bs t \<and> settled t v" using s by (rule data_view_settled [rotated 2])
    then have "holds_bytes w bs (put_file a name v t)" by (blast intro: holds_bytes_put_file)
    with dv show ?thesis by (simp add: Let_def announce_write_def)
  qed
  moreover have "settled s v" if "settled fs v" "ensure_dir p fs = (r, s)" for p v r s
    using kept.P_ensure_directory [OF holds_bytesI [OF holds_bytes_inv [OF h] that(1)], of "stack_depth fs" p] that(2)
    by (simp add: ensure_dir_def holds_bytes_def)
  ultimately have inner: "holds_bytes w bs (snd (let existed = (child_at s a name \<noteq> None); (v, s) = data_view d s; s = put_file a name v s
          in (Inr () :: err + unit, if emit then announce_write q existed v s else s)))"
    if "holds_bytes w bs s" "ensure_dir p fs = (Inr a, s)" for p a s name q
    using that d by blast
  have "holds_bytes w bs (snd (ensure_dir p fs))" for p
    using kept.P_ensure_directory [OF h] by (simp add: ensure_dir_def)
  then have "holds_bytes w bs (snd (and_then (ensure_dir p fs) (\<lambda>a s.
      let existed = (child_at s a name \<noteq> None); (v, s) = data_view d s; s = put_file a name v s
      in (Inr (), if emit then announce_write q existed v s else s))))" for p q name
    using inner by (intro kept.P_and_then)
  with h show ?thesis
    unfolding write_file_internal_def Let_def by (auto intro!: kept.P_assert)
qed


lemma lent_read:
  assumes inv: "bytes_inv fs" and a: "a < next_node fs" and v: "content (nodes fs a) = Some v"
  shows "settled (update_node a (\<lambda>n. n\<lparr>lent := True\<rparr>) fs) v"
proof -
  have ok: "valid_view (arrays fs) v" "\<And>b. b < next_node fs \<Longrightarrow> b \<noteq> a \<Longrightarrow> heeds fs b v"
    using bytes_invD(2) [OF inv a] v unfolding content_ok_def by blast+
  have room: "byte_offset v = 0" if "room (nodes fs a) = Some r" for r
    using bytes_invD(1) [OF inv a] v that unfolding room_ok_def by auto
  have "heeds (update_node a (\<lambda>n. n\<lparr>lent := True\<rparr>) fs) b v" if b: "b < next_node fs" for b
  proof (cases "b = a")
    case True
    with v room show ?thesis by (auto simp: heeds_def)
  next
    case False
    with ok(2) [OF b] show ?thesis by (simp add: heeds_def)
  qed
  with ok(1) show ?thesis unfolding settled_def by simp
qed

text \<open>Whatever a read hands out is settled from then on.\<close>

lemma read_settled:
  assumes inv: "bytes_inv fs" and wf: "wf_fs fs" and rd: "read_file_sync path fs = (Inr v, fs')"
  shows "settled fs' v"
proof -
  obtain a where op: "open_file path fs = Inr a"
    using rd by (cases "open_file path fs") (auto simp: read_file_sync_def)
  then have a: "a < next_node fs"
    using get_node_allocated [OF wf] by (auto simp: open_file_def split: sum.splits option.splits if_splits)
  show ?thesis
  proof (cases "content (nodes fs a)")
    case None
    obtain u st where nu: "new_u8 [] (arrays fs) = (u, st)" by fastforce
    with rd op None have v: "v = u" and fs': "fs' = update_node a (\<lambda>n. n\<lparr>lent := True\<rparr>) (fs\<lparr>arrays := st\<rparr>)"
      by (simp_all add: read_file_sync_def)
    have "settled (fs\<lparr>arrays := st\<rparr>) u" using inv nu by (rule new_u8_settled)
    then show ?thesis unfolding v fs' by (auto simp: settled_def heeds_def update_node_def)
  next
    case (Some u)
    with rd op have v: "v = u" and fs': "fs' = update_node a (\<lambda>n. n\<lparr>lent := True\<rparr>) fs"
      by (simp_all add: read_file_sync_def)
    show ?thesis unfolding v fs' using inv a Some by (rule lent_read)
  qed
qed

lemma holds_bytes_read: "holds_bytes w bs fs \<Longrightarrow> holds_bytes w bs (snd (read_file_sync path fs))"
  unfolding read_file_sync_def
  by (auto split: sum.split option.split prod.split simp: Let_def
      intro!: kept.P_update holds_bytes_store_ext store_ext_new)

subsection \<open>Writing in a room\<close>

text \<open>
  The state after a write of room \<open>r\<close> of node \<open>a\<close>, from position \<open>p\<close> of the store \<open>st\<close>:
  either the room is new, or it is the node's own and the write starts past everything
  lent of it.
\<close>

definition room_written :: "addr \<Rightarrow> view \<Rightarrow> nat \<Rightarrow> bool \<Rightarrow> u8store \<Rightarrow> fs \<Rightarrow> fs" where
  "room_written a r len l st fs =
     update_node a (\<lambda>n. n\<lparr>content := Some (subarray r 0 len), room := Some r, mtime := now fs, lent := l\<rparr>)
       (fs\<lparr>arrays := st\<rparr>)"

definition room_usable :: "fs \<Rightarrow> addr \<Rightarrow> view \<Rightarrow> nat \<Rightarrow> nat \<Rightarrow> bool \<Rightarrow> bool" where
  "room_usable fs a r p len l \<longleftrightarrow>
     next_buf (arrays fs) \<le> buffer r \<or>
     (\<exists>v. content (nodes fs a) = Some v \<and> room (nodes fs a) = Some r \<and> byte_length v \<le> len \<and>
        (lent (nodes fs a) \<longrightarrow> l \<and> byte_length v \<le> p))"

lemma room_written_view:
  assumes "a < next_node fs" and "store_ext (arrays fs) st" and "valid_view st r" "byte_offset r = 0"
    and "len \<le> byte_length r" and "writes_past r p st st'" and us: "room_usable fs a r p len l"
    and w: "valid_view (arrays fs) w" and heed: "heeds fs a w"
  shows "valid_view st' w \<and> view_bytes st' w = view_bytes (arrays fs) w \<and>
         heeds (room_written a r len l st' fs) a w"
proof -
  have w1: "valid_view st w" "view_bytes st w = view_bytes (arrays fs) w"
    using store_extD [OF assms(2) w] by simp_all
  have shared: "buffer w = buffer r \<Longrightarrow>
      l \<and> byte_offset w + byte_length w \<le> p \<and> byte_offset w + byte_length w \<le> len"
  proof -
    assume b: "buffer w = buffer r"
    with w have "\<not> next_buf (arrays fs) \<le> buffer r" by (auto dest: valid_view_buffer)
    with us obtain v where "content (nodes fs a) = Some v" "room (nodes fs a) = Some r"
      "byte_length v \<le> len" "lent (nodes fs a) \<longrightarrow> l \<and> byte_length v \<le> p"
      by (auto simp: room_usable_def)
    with heed b show ?thesis by (force simp: heeds_def)
  qed
  have "valid_view st' w \<and> view_bytes st' w = view_bytes st w"
    using assms(6) w1(1) shared by (auto simp: writes_past_def)
  moreover have "heeds (room_written a r len l st' fs) a w"
    using shared assms(4,5) by (auto simp: heeds_def room_written_def update_node_def)
  ultimately show ?thesis using w1 by simp
qed

lemma holds_bytes_room_written:
  assumes h: "holds_bytes w bs fs" and a: "a < next_node fs"
    and ext: "store_ext (arrays fs) st" and r: "valid_view st r" "byte_offset r = 0" "len \<le> byte_length r"
    and past: "writes_past r p st st'" and us: "room_usable fs a r p len l"
  shows "holds_bytes w bs (room_written a r len l st' fs)"
proof -
  let ?fs = "room_written a r len l st' fs"
  note view = room_written_view [OF a ext r past us]
  have inv: "bytes_inv fs" using h by blast
  have other: "nodes ?fs b = nodes fs b" if "b \<noteq> a" for b
    using that by (simp add: room_written_def update_node_def)
  have fields: "next_node ?fs = next_node fs" "arrays ?fs = st'"
    by (simp_all add: room_written_def update_node_def)
  have node: "content (nodes ?fs a) = Some (subarray r 0 len)" "room (nodes ?fs a) = Some r"
    by (simp_all add: room_written_def update_node_def)
  have heeds: "heeds ?fs b u" if "heeds fs b u" "valid_view (arrays fs) u" for b u
  proof (cases "b = a")
    case True
    with that view [of u] show ?thesis by blast
  next
    case False
    show ?thesis using that(1) unfolding heeds_def other [OF False] .
  qed
  have apart: "b = a" if "b < next_node fs" "room (nodes fs b) = Some s" "buffer s = buffer r" for b s
  proof (rule ccontr)
    assume "b \<noteq> a"
    have "valid_view (arrays fs) s" using inv that(1,2) by (rule room_valid)
    with that(3) us have "room (nodes fs a) = Some r"
      by (auto simp: room_usable_def dest: valid_view_buffer)
    then have "b = a" using bytes_inv_apart [OF inv that(1) a that(2)] that(3) by blast
    with \<open>b \<noteq> a\<close> show False ..
  qed
  have valid: "valid_view st' u" if "valid_view (arrays fs) u" for u
    using that store_extD [OF ext] past by (auto simp: writes_past_def)
  have rv: "valid_view st' r" using past r(1) by (simp add: writes_past_def)
  have rooms: "room_ok ?fs b" if b: "b < next_node fs" for b
  proof (cases "b = a")
    case True
    with rv r node show ?thesis by (simp add: room_ok_def fields)
  next
    case False
    with bytes_invD(1) [OF inv b] valid show ?thesis
      unfolding room_ok_def other [OF False] fields by blast
  qed
  have contents: "content_ok ?fs b" if b: "b < next_node fs" for b
  proof (cases "b = a")
    case True
    have "heeds ?fs c (subarray r 0 len)" if c: "c < next_node fs" "c \<noteq> a" for c
      using apart [OF c(1)] c(2) r(3) unfolding heeds_def other [OF c(2)] by auto
    then show ?thesis using valid_view_prefix [OF rv r(3)]
      unfolding True content_ok_def node fields by blast
  next
    case False
    with bytes_invD(2) [OF inv b] valid heeds show ?thesis
      unfolding content_ok_def other [OF False] fields by blast
  qed
  have own: "s = r" if "room (nodes ?fs a) = Some s" for s using that node by simp
  have "rooms_apart ?fs"
    unfolding rooms_apart_def fields
  proof (intro allI impI)
    fix b c s t assume b: "b < next_node fs" "room (nodes ?fs b) = Some s"
      and c: "c < next_node fs" "room (nodes ?fs c) = Some t" and st: "buffer s = buffer t"
    consider "b = a" "c = a" | "b = a" "c \<noteq> a" | "b \<noteq> a" "c = a" | "b \<noteq> a" "c \<noteq> a" by blast
    then show "b = c"
    proof cases
      case 1
      then show ?thesis by simp
    next
      case 2
      have "buffer t = buffer r" using own b(2) st unfolding 2(1) by simp
      with 2 apart [OF c(1)] c(2) show ?thesis unfolding other [OF 2(2)] by blast
    next
      case 3
      have "buffer s = buffer r" using own c(2) st unfolding 3(2) by simp
      with 3 apart [OF b(1)] b(2) show ?thesis unfolding other [OF 3(1)] by blast
    next
      case 4
      with b(2) c(2) show ?thesis unfolding other [OF 4(1)] other [OF 4(2)]
        using bytes_inv_apart [OF inv b(1) c(1)] st by blast
    qed
  qed
  with rooms contents have inv': "bytes_inv ?fs" by (simp add: bytes_inv_def fields)
  have w: "valid_view (arrays fs) w" "\<And>b. b < next_node fs \<Longrightarrow> heeds fs b w"
    using h unfolding holds_bytes_def settled_def by blast+
  then have "settled ?fs w" using valid heeds by (simp add: settled_def fields)
  moreover have "view_bytes st' w = bs" using view [OF w(1) w(2) [OF a]] h
    unfolding holds_bytes_def by argo
  ultimately show ?thesis using inv' by (simp add: holds_bytes_def fields)
qed

end
