(* ===== verification/VfsInPlace.thy ===== *)
theory VfsInPlace
  imports VfsBuffers
begin

text \<open>
  \<open>appendFileSync\<close> and \<open>writeAtSync\<close>: the two ways of writing into a file's own
  buffer, where the buffer may be shared with arrays already handed out.  Both compute
  the plain function on byte lists, neither ever runs off its room (the RangeError of
  \<open>TypedArray.prototype.set\<close> is unreachable), and neither changes another file or an
  array somebody holds.
\<close>

subsection \<open>The abstract write\<close>

text \<open>What writing \<open>bs\<close> at \<open>pos\<close> makes of the bytes \<open>old\<close>: a gap past the end reads zero.\<close>

definition written_over :: "bytes \<Rightarrow> nat \<Rightarrow> bytes \<Rightarrow> bytes" where
  "written_over old pos bs = overwrite (old @ replicate (pos - length old) 0) pos bs"

lemma written_over_end: "written_over old (length old) bs = old @ bs"
  by (simp add: written_over_def overwrite_def)

lemma length_written_over: "length (written_over old pos bs) = max (length old) (pos + length bs)"
  by (auto simp: written_over_def overwrite_def max_def)

lemma nth_written_over:
  assumes "i < length (written_over old pos bs)"
  shows "written_over old pos bs ! i =
    (if pos \<le> i \<and> i < pos + length bs then bs ! (i - pos) else if i < length old then old ! i else 0)"
proof -
  have take: "length (take pos (old @ replicate (pos - length old) 0)) = pos" by simp
  consider "i < pos" | "pos \<le> i" "i < pos + length bs" | "pos + length bs \<le> i" by linarith
  then show ?thesis
  proof cases
    case 1
    then show ?thesis using take by (auto simp: written_over_def overwrite_def nth_append)
  next
    case 2
    then show ?thesis using take by (auto simp: written_over_def overwrite_def nth_append)
  next
    case 3
    with assms have "i < length old" by (simp add: length_written_over max_def split: if_splits)
    with 3 show ?thesis using take by (auto simp: written_over_def overwrite_def nth_append)
  qed
qed

subsection \<open>Rooms\<close>

lemma current_view_facts:
  assumes inv: "bytes_inv fs" and a: "a < next_node fs"
    and c: "current_view (nodes fs a) (arrays fs) = (c, st)"
  shows "store_ext (arrays fs) st" and "valid_view st c" and "view_bytes st c = file_bytes fs a"
    and "byte_length c = length (file_bytes fs a)"
proof -
  have "store_ext (arrays fs) st \<and> valid_view st c \<and> view_bytes st c = file_bytes fs a"
  proof (cases "content (nodes fs a)")
    case None
    with c have nu: "new_u8 [] (arrays fs) = (c, st)" by (simp add: current_view_def)
    from None show ?thesis
      using new_u8_valid [OF nu] store_ext_new [OF nu] by (simp add: file_bytes_def)
  next
    case (Some v)
    with c bytes_invD(2) [OF inv a] show ?thesis
      by (simp add: current_view_def file_bytes_def content_ok_def)
  qed
  then show "store_ext (arrays fs) st" "valid_view st c" "view_bytes st c = file_bytes fs a" by simp_all
  then show "byte_length c = length (file_bytes fs a)" using length_view_bytes by metis
qed

lemma own_room_facts:
  assumes inv: "bytes_inv fs" and a: "a < next_node fs"
    and c: "current_view (nodes fs a) (arrays fs) = (c, st)"
    and own: "own_room (nodes fs a) c refused len = Some r"
  shows "room (nodes fs a) = Some r" and "content (nodes fs a) = Some c" and "st = arrays fs"
    and "valid_view st r" and "byte_offset r = 0" and "len \<le> byte_length r" and "\<not> refused"
    and "byte_length c \<le> byte_length r" and "take (byte_length c) (view_bytes st r) = view_bytes st c"
proof -
  from own show rm: "room (nodes fs a) = Some r" and "len \<le> byte_length r" and "\<not> refused"
    by (auto simp: own_room_def split: option.splits if_splits)
  from bytes_invD(1) [OF inv a] rm obtain v where v: "content (nodes fs a) = Some v"
    "buffer v = buffer r" "byte_offset v = 0" "byte_length v \<le> byte_length r"
    and r: "valid_view (arrays fs) r" "byte_offset r = 0"
    by (auto simp: room_ok_def)
  from v(1) c show "content (nodes fs a) = Some c" and st: "st = arrays fs"
    by (simp_all add: current_view_def)
  with v(1) have "v = c" by simp
  with v r st show "valid_view st r" "byte_offset r = 0" "byte_length c \<le> byte_length r"
    "take (byte_length c) (view_bytes st r) = view_bytes st c"
    by (simp_all add: view_bytes_def min_def)
qed

lemma fresh_room_facts:
  assumes c: "valid_view st c" and fr: "fresh_room c len st = (r, so)"
  obtains st' where "so = Some st'" "buffer r = next_buf st" "byte_offset r = 0" "valid_view st' r"
    "store_ext st st'" "len \<le> byte_length r" "byte_length c \<le> byte_length r"
    "view_bytes st' r = view_bytes st c @ replicate (byte_length r - byte_length c) 0"
proof -
  let ?n = "max len (max (byte_length c * 2) 4096)"
  obtain st1 where z: "zeroed_u8 ?n st = (r, st1)"
    and so: "so = u8_set r (view_bytes st c) 0 st1"
    using fr by (auto simp: fresh_room_def Let_def split: prod.splits)
  have r: "buffer r = next_buf st" "byte_offset r = 0" "byte_length r = ?n"
    "buf_data st1 (buffer r) = replicate ?n 0" "next_buf st1 = Suc (next_buf st)"
    using z by (auto simp: zeroed_u8_def new_u8_def)
  have fits: "byte_length c \<le> ?n" by simp
  obtain st2 where st2: "u8_set r (view_bytes st c) 0 st1 = Some st2"
    using fits c r(3) by (simp add: u8_set_def)
  have ext: "store_ext st st1" using z by (simp add: zeroed_u8_def store_ext_new)
  have v1: "valid_view st1 r" using z new_u8_valid by (simp add: zeroed_u8_def)
  have data: "buf_data st2 (buffer r) = view_bytes st c @ replicate (?n - byte_length c) 0"
    using st2 r c by (auto simp: u8_set_def overwrite_def split: if_splits)
  have "store_ext st st2"
    unfolding store_ext_def
  proof (intro conjI allI impI)
    show "next_buf st \<le> next_buf st2" using st2 r(5) by (auto simp: u8_set_def split: if_splits)
    fix w assume w: "valid_view st w"
    then have w1: "valid_view st1 w" "view_bytes st1 w = view_bytes st w" using store_extD [OF ext] by simp_all
    show "valid_view st2 w" using u8_set_valid [OF st2 v1 w1(1)] .
    have "buffer w \<noteq> buffer r" using w r(1) by (auto dest: valid_view_buffer)
    then show "view_bytes st2 w = view_bytes st w" using u8_set_other_buffer [OF st2] w1(2) by simp
  qed
  moreover have "valid_view st2 r" using u8_set_valid [OF st2 v1 v1] .
  moreover have "view_bytes st2 r = view_bytes st c @ replicate (byte_length r - byte_length c) 0"
    using data r c fits by (simp add: view_bytes_def [of st2])
  ultimately show thesis using that [of st2] so st2 r fits by simp
qed

subsection \<open>The write itself\<close>

lemma file_bytes_room_written:
  "file_bytes (room_written a r len l st fs) b =
     (if b = a then view_bytes st (subarray r 0 len) else file_bytes (fs\<lparr>arrays := st\<rparr>) b)"
  by (cases "content (nodes fs b)") (simp_all add: file_bytes_def room_written_def update_node_def)

text \<open>What a write of node \<open>a\<close>'s bytes promises: the new bytes, nobody else's touched.\<close>

definition bytes_replaced :: "addr \<Rightarrow> bytes \<Rightarrow> fs \<Rightarrow> fs \<Rightarrow> bool" where
  "bytes_replaced a new fs fs' \<longleftrightarrow>
     file_bytes fs' a = new \<and>
     (\<forall>b < next_node fs. b \<noteq> a \<longrightarrow> nodes fs' b = nodes fs b \<and> file_bytes fs' b = file_bytes fs b) \<and>
     (\<forall>w bs. holds_bytes w bs fs \<longrightarrow> holds_bytes w bs fs') \<and>
     next_node fs' = next_node fs \<and> root fs' = root fs \<and> ntype (nodes fs' a) = ntype (nodes fs a) \<and>
     children (nodes fs' a) = children (nodes fs a) \<and> mount (nodes fs' a) = mount (nodes fs a)"

lemma store_in_room_spec:
  assumes inv: "bytes_inv fs" and a: "a < next_node fs" and ext: "store_ext (arrays fs) st"
    and r: "valid_view st r" "byte_offset r = 0" and past: "writes_past r p st st1" and p: "p \<le> pos"
    and us: "room_usable fs a r p len l"
    and n: "pos \<le> n" "n \<le> byte_length r" "len = max n (pos + length bs)" "len \<le> byte_length r"
    and old: "take n (view_bytes st1 r) = old"
  obtains fs' where "store_in_room a r len l bs pos st1 fs = (Inr (), fs')"
    "bytes_replaced a (overwrite old pos bs) fs fs'"
proof -
  have "pos + length bs \<le> byte_length r" using n by simp
  then obtain st2 where st2: "u8_set r bs pos st1 = Some st2" by (simp add: u8_set_def)
  have r1: "valid_view st1 r" using past r(1) by (simp add: writes_past_def)
  have "writes_past r pos st1 st2" using st2 r1 r(2) by (rule writes_past_set)
  then have past2: "writes_past r p st st2"
    using writes_past_trans [OF past] p by (metis min.absorb1)
  let ?fs = "room_written a r len l st2 fs"
  have eq: "store_in_room a r len l bs pos st1 fs = (Inr (), ?fs)"
    by (simp add: store_in_room_def st2 room_written_def)
  have "view_bytes st2 (subarray r 0 len) = overwrite old pos bs"
    using u8_set_prefix [OF st2 r1 n(1,2,3,4)] old by simp
  then have new: "file_bytes ?fs a = overwrite old pos bs" by (simp add: file_bytes_room_written)
  have others: "file_bytes ?fs b = file_bytes fs b" if b: "b < next_node fs" "b \<noteq> a" for b
  proof (cases "content (nodes fs b)")
    case None
    with b show ?thesis by (simp add: file_bytes_room_written) (simp add: file_bytes_def)
  next
    case (Some v)
    have v: "valid_view (arrays fs) v" "heeds fs a v"
      using bytes_invD(2) [OF inv b(1)] Some a b(2) unfolding content_ok_def by blast+
    have "view_bytes st2 v = view_bytes (arrays fs) v"
      using room_written_view [OF a ext r(1,2) n(4) past2 us v] by blast
    with b Some show ?thesis by (simp add: file_bytes_room_written) (simp add: file_bytes_def)
  qed
  have holds: "holds_bytes w ws ?fs" if "holds_bytes w ws fs" for w ws
    using that a ext r n(4) past2 us by (rule holds_bytes_room_written)
  have "bytes_replaced a (overwrite old pos bs) fs ?fs"
    using new others holds unfolding bytes_replaced_def by (auto simp: room_written_def)
  with eq that show thesis by blast
qed

lemma append_in_room_spec:
  assumes inv: "bytes_inv fs" and a: "a < next_node fs"
  shows "\<exists>fs'. append_in_room a bs fs = (Inr (), fs') \<and>
    bytes_replaced a (file_bytes fs a @ bs) fs fs'" (is ?goal)
proof -
  obtain c st where cv: "current_view (nodes fs a) (arrays fs) = (c, st)" by fastforce
  note cf = current_view_facts [OF inv a cv]
  let ?k = "byte_length c" and ?len = "byte_length c + length bs"
  have app: "overwrite (file_bytes fs a) ?k bs = file_bytes fs a @ bs"
    unfolding cf(4) by (simp add: overwrite_def)
  have finish: ?goal if "append_in_room a bs fs = store_in_room a r ?len (lent (nodes fs a)) bs ?k st1 fs"
    "store_ext (arrays fs) st1" "valid_view st1 r" "byte_offset r = 0" "?k \<le> byte_length r" "?len \<le> byte_length r"
    "room_usable fs a r ?k ?len (lent (nodes fs a))"
    "take ?k (view_bytes st1 r) = file_bytes fs a" for r st1
  proof -
    have "writes_past r ?k st1 st1" by (simp add: writes_past_def)
    from store_in_room_spec [OF inv a that(2,3,4) this order_refl that(7) order_refl that(5) _ that(6,8), of bs]
    obtain fs' where "store_in_room a r ?len (lent (nodes fs a)) bs ?k st1 fs = (Inr (), fs')"
      "bytes_replaced a (overwrite (file_bytes fs a) ?k bs) fs fs'" by auto
    with that(1) app show ?goal by auto
  qed
  show ?goal
  proof (cases "own_room (nodes fs a) c False ?len")
    case (Some r)
    note o = own_room_facts [OF inv a cv Some]
    show ?goal
    proof (rule finish)
      show "append_in_room a bs fs = store_in_room a r ?len (lent (nodes fs a)) bs ?k st fs"
        using cv Some by (simp add: append_in_room_def)
      show "room_usable fs a r ?k ?len (lent (nodes fs a))"
        using o(1,2) by (simp add: room_usable_def)
    qed (use o cf in auto)
  next
    case None
    obtain r so where fr: "fresh_room c ?len st = (r, so)" by fastforce
    from cf(2) fr obtain st1 where f: "so = Some st1" "buffer r = next_buf st" "byte_offset r = 0" "valid_view st1 r"
      "store_ext st st1" "?len \<le> byte_length r" "?k \<le> byte_length r"
      "view_bytes st1 r = view_bytes st c @ replicate (byte_length r - ?k) 0"
      by (rule fresh_room_facts)
    show ?goal
    proof (rule finish)
      show "append_in_room a bs fs = store_in_room a r ?len (lent (nodes fs a)) bs ?k st1 fs"
        using cv None fr f(1) by (simp add: append_in_room_def)
      show "room_usable fs a r ?k ?len (lent (nodes fs a))"
        using f(2) cf(1) by (simp add: room_usable_def store_ext_def)
      show "take ?k (view_bytes st1 r) = file_bytes fs a"
        using f(8) cf(3,4) by simp
      show "store_ext (arrays fs) st1" using cf(1) f(5) by (rule store_ext_trans)
    qed (use f in auto)
  qed
qed

lemma padded_take:
  assumes "length old \<le> length rm" and "take (length old) rm = old"
    and "pos \<le> length rm" and "\<forall>i. length old \<le> i \<longrightarrow> i < pos \<longrightarrow> rm ! i = 0"
  shows "take (max (length old) pos) rm = old @ replicate (pos - length old) 0"
proof (rule nth_equalityI)
  show "length (take (max (length old) pos) rm) = length (old @ replicate (pos - length old) 0)"
    using assms(1,3) by simp
  fix i assume "i < length (take (max (length old) pos) rm)"
  then have i: "i < max (length old) pos" by simp
  show "take (max (length old) pos) rm ! i = (old @ replicate (pos - length old) 0) ! i"
  proof (cases "i < length old")
    case True
    then have "rm ! i = take (length old) rm ! i" by simp
    with True i assms(2) show ?thesis by (simp add: nth_append)
  next
    case False
    with i have "i < pos" by auto
    with False i assms(4) show ?thesis by (simp add: nth_append)
  qed
qed

lemma fill_gap:
  assumes r: "valid_view st r" "byte_offset r = 0" and old: "take (length old) (view_bytes st r) = old"
    and len: "length old \<le> byte_length r" "pos \<le> byte_length r"
    and st1: "st1 = (if length old < pos then u8_fill0 r (length old) pos st else st)"
  shows "take (max (length old) pos) (view_bytes st1 r) = old @ replicate (pos - length old) 0"
    and "writes_past r (length old) st st1"
proof -
  let ?k = "length old"
  have both: "take (max ?k pos) (view_bytes st1 r) = old @ replicate (pos - ?k) 0 \<and> writes_past r ?k st st1"
  proof (cases "?k < pos")
    case True
    then have set: "u8_set r (replicate (pos - ?k) 0) ?k st = Some st1"
      using u8_fill0_set [OF True len(2), of st] st1 by simp
    have "view_bytes st1 (subarray r 0 pos) = overwrite (take ?k (view_bytes st r)) ?k (replicate (pos - ?k) 0)"
      using u8_set_prefix [OF set r(1) order_refl len(1), of pos] True len(2) by simp
    with True len(2) old writes_past_set [OF set r] show ?thesis
      unfolding view_bytes_prefix [OF len(2)] by (simp add: overwrite_def)
  next
    case False
    with st1 old show ?thesis by (simp add: writes_past_def max_def)
  qed
  then show "take (max ?k pos) (view_bytes st1 r) = old @ replicate (pos - ?k) 0"
    "writes_past r ?k st st1" by blast+
qed

lemma write_in_room_spec:
  assumes inv: "bytes_inv fs" and a: "a < next_node fs"
  shows "\<exists>fs'. write_in_room a bs pos fs = (Inr (), fs') \<and>
    bytes_replaced a (written_over (file_bytes fs a) pos bs) fs fs'" (is ?goal)
proof -
  obtain c st where cv: "current_view (nodes fs a) (arrays fs) = (c, st)" by fastforce
  note cf = current_view_facts [OF inv a cv]
  let ?k = "byte_length c" and ?len = "max (byte_length c) (pos + length bs)"
  let ?old = "file_bytes fs a @ replicate (pos - ?k) 0"
  have finish: ?goal if "write_in_room a bs pos fs = store_in_room a r ?len l bs pos st2 fs"
    "store_ext (arrays fs) st1" "valid_view st1 r" "byte_offset r = 0" "?k \<le> byte_length r" "?len \<le> byte_length r"
    "writes_past r p st1 st2" "p \<le> pos" "room_usable fs a r p ?len l"
    "take (max ?k pos) (view_bytes st2 r) = ?old" for r st1 st2 l p
  proof -
    have "max ?k pos \<le> byte_length r" "?len = max (max ?k pos) (pos + length bs)" using that(5,6) by auto
    from store_in_room_spec [OF inv a that(2,3,4,7,8,9) max.cobounded2 this that(6,10)]
    obtain fs' where "store_in_room a r ?len l bs pos st2 fs = (Inr (), fs')"
      "bytes_replaced a (overwrite ?old pos bs) fs fs'" by blast
    with that(1) cf(4) show ?goal by (simp add: written_over_def)
  qed
  show ?goal
  proof (cases "own_room (nodes fs a) c (lent (nodes fs a)) ?len")
    case (Some r)
    note o = own_room_facts [OF inv a cv Some]
    define st1 where "st1 = (if ?k < pos then u8_fill0 r ?k pos st else st)"
    have gap: "take (max ?k pos) (view_bytes st1 r) = ?old" "writes_past r ?k st st1"
      using fill_gap [OF o(4,5), of "file_bytes fs a" pos st1] o cf st1_def by simp_all
    show ?goal
    proof (rule finish)
      show "write_in_room a bs pos fs = store_in_room a r ?len (lent (nodes fs a)) bs pos st1 fs"
        using cv Some by (simp add: write_in_room_def st1_def)
      show "room_usable fs a r (min ?k pos) ?len (lent (nodes fs a))"
        using o(1,2,7) by (simp add: room_usable_def)
      show "writes_past r (min ?k pos) st st1" using gap(2) by (rule writes_past_mono) simp
    qed (use o cf gap in auto)
  next
    case None
    obtain r so where fr: "fresh_room c ?len st = (r, so)" by fastforce
    from cf(2) fr obtain st1 where f: "so = Some st1" "buffer r = next_buf st" "byte_offset r = 0" "valid_view st1 r"
      "store_ext st st1" "?len \<le> byte_length r" "?k \<le> byte_length r"
      "view_bytes st1 r = view_bytes st c @ replicate (byte_length r - ?k) 0"
      by (rule fresh_room_facts)
    show ?goal
    proof (rule finish)
      show "write_in_room a bs pos fs = store_in_room a r ?len False bs pos st1 fs"
        using cv None fr f(1) by (simp add: write_in_room_def)
      show "room_usable fs a r 0 ?len False"
        using f(2) cf(1) by (simp add: room_usable_def store_ext_def)
      show "take (max ?k pos) (view_bytes st1 r) = ?old"
        using padded_take [of "file_bytes fs a" "view_bytes st1 r" pos] f(6,7,8) cf(3,4)
        by (simp add: nth_append)
      show "store_ext (arrays fs) st1" using cf(1) f(5) by (rule store_ext_trans)
      show "writes_past r 0 st1 st1" by (simp add: writes_past_def)
    qed (use f in auto)
  qed
qed

subsection \<open>Every operation leaves handed-out arrays alone\<close>

text \<open>
  The data a caller may pass: text, or an array that no room will be written over, such
  as one it allocated or one it got from a read (and any part of that one).
\<close>

definition lawful :: "fs \<Rightarrow> data \<Rightarrow> bool" where
  "lawful fs d \<longleftrightarrow> (\<forall>v. d = Array v \<longrightarrow> settled fs v)"

lemma lawfulD: "lawful fs d \<Longrightarrow> d = Array v \<Longrightarrow> settled fs v"
  by (simp add: lawful_def)

lemma holds_bytes_write_new:
  assumes h: "holds_bytes w bs fs" and v: "settled (fs\<lparr>arrays := st\<rparr>) v" and ext: "store_ext (arrays fs) st"
  shows "holds_bytes w bs (snd (write_file_internal path (Array v) emit (fs\<lparr>arrays := st\<rparr>)))"
  using holds_bytes_store_ext [OF h ext] v by (intro holds_bytes_write_internal) simp_all

lemma announce_bytes_simps [simp]:
  "fst (announce_bytes p a fs) = Inr ()"
  "holds_bytes w bs (snd (announce_bytes p a fs)) = holds_bytes w bs fs"
  by (simp_all add: announce_bytes_def)

lemma holds_bytes_in_place:
  assumes "r = (Inr (), fs')" and "bytes_replaced a new fs fs'" and "holds_bytes w bs fs"
  shows "holds_bytes w bs (snd (and_then r (\<lambda>_ s. announce_bytes p a s)))"
  using assms by (simp add: bytes_replaced_def)

lemma holds_bytes_append:
  assumes h: "holds_bytes w bs fs" and wf: "wf_fs fs" and d: "lawful fs d"
  shows "holds_bytes w bs (snd (append_file_sync path d fs))"
proof -
  obtain v s where dv: "data_view d fs = (v, s)" by fastforce
  have s: "holds_bytes w bs s" "settled s v"
    using data_view_settled [OF h lawfulD [OF d] dv] by simp_all
  have wfs: "wf_fs s" using wf wf_same [OF same_tree_data_view [OF dv]] by simp
  let ?n = "normalize_path path"
  show ?thesis
  proof (cases "get_node s ?n")
    case (Inl e)
    with dv s show ?thesis by (simp add: append_file_sync_def Let_def)
  next
    case (Inr found)
    show ?thesis
    proof (cases found)
      case None
      obtain c st where sl: "u8_slice v (arrays s) = (c, st)" by fastforce
      then have nu: "new_u8 (view_bytes (arrays s) v) (arrays s) = (c, st)" by (simp add: u8_slice_def)
      have "settled (s\<lparr>arrays := st\<rparr>) c" using s(1) nu by (blast intro: new_u8_settled)
      with holds_bytes_write_new [OF s(1) _ store_ext_new [OF nu]] dv Inr None sl show ?thesis
        by (simp add: append_file_sync_def Let_def)
    next
      case (Some a)
      have a: "a < next_node s" using get_node_allocated [OF wfs] Inr Some by simp
      obtain s' where "append_in_room a (view_bytes (arrays s) v) s = (Inr (), s')"
        "bytes_replaced a (file_bytes s a @ view_bytes (arrays s) v) s s'"
        using append_in_room_spec [OF holds_bytes_inv [OF s(1)] a] by blast
      then have "holds_bytes w bs (snd (and_then (append_in_room a (view_bytes (arrays s) v) s)
          (\<lambda>_ s. announce_bytes ?n a s)))" using s(1) by (rule holds_bytes_in_place)
      with dv s Inr Some show ?thesis
        by (auto simp: append_file_sync_def Let_def intro!: kept.P_assert)
    qed
  qed
qed

lemma zeroed_set:
  assumes "zeroed_u8 n st = (v, st1)" and "pos + length bs \<le> n"
  obtains st2 where "u8_set v bs pos st1 = Some st2" "store_ext st st2" "valid_view st2 v"
    "next_buf st \<le> buffer v" "view_bytes st2 v = overwrite (replicate n 0) pos bs"
proof -
  have v: "buffer v = next_buf st" "byte_offset v = 0" "byte_length v = n"
    "buf_data st1 (buffer v) = replicate n 0" "next_buf st1 = Suc (next_buf st)"
    using assms(1) by (auto simp: zeroed_u8_def new_u8_def)
  obtain st2 where st2: "u8_set v bs pos st1 = Some st2" using assms(2) v by (simp add: u8_set_def)
  have ext: "store_ext st st1" using assms(1) by (simp add: zeroed_u8_def store_ext_new)
  have v1: "valid_view st1 v" using assms(1) new_u8_valid by (simp add: zeroed_u8_def)
  have past: "writes_past v pos st1 st2" using st2 v1 v(2) by (rule writes_past_set)
  have "store_ext st st2"
    unfolding store_ext_def
  proof (intro conjI allI impI)
    show "next_buf st \<le> next_buf st2" using past v(5) by (simp add: writes_past_def)
    fix w assume w: "valid_view st w"
    then have w1: "valid_view st1 w" "view_bytes st1 w = view_bytes st w" using store_extD [OF ext] by simp_all
    have "buffer w \<noteq> buffer v" using w v(1) by (auto dest: valid_view_buffer)
    with past w1 show "valid_view st2 w" "view_bytes st2 w = view_bytes st w" by (auto simp: writes_past_def)
  qed
  moreover have "valid_view st2 v" using u8_set_valid [OF st2 v1 v1] .
  moreover have "view_bytes st2 v = overwrite (replicate n 0) pos bs"
    using st2 v assms(2) by (auto simp: u8_set_def view_bytes_def split: if_splits)
  ultimately show thesis using that st2 v(1) by simp
qed

lemma holds_bytes_write_at:
  assumes h: "holds_bytes w bs fs" and wf: "wf_fs fs"
  shows "holds_bytes w bs (snd (write_at_sync path data pos fs))"
proof -
  let ?n = "normalize_path path"
  show ?thesis
  proof (cases "get_node fs ?n")
    case (Inl e)
    with h show ?thesis by (simp add: write_at_sync_def Let_def)
  next
    case (Inr found)
    show ?thesis
    proof (cases found)
      case None
      obtain v st1 where z: "zeroed_u8 (pos + length data) (arrays fs) = (v, st1)" by fastforce
      obtain st2 where st2: "u8_set v data pos st1 = Some st2" "store_ext (arrays fs) st2" "valid_view st2 v"
        "next_buf (arrays fs) \<le> buffer v" using zeroed_set [OF z order_refl] .
      have "settled (fs\<lparr>arrays := st2\<rparr>) v" using holds_bytes_inv [OF h] st2(3,4) by (rule fresh_settled)
      with holds_bytes_write_new [OF h _ st2(2)] z st2(1) Inr None show ?thesis
        by (simp add: write_at_sync_def Let_def)
    next
      case (Some a)
      have a: "a < next_node fs" using get_node_allocated [OF wf] Inr Some by simp
      obtain s' where "write_in_room a data pos fs = (Inr (), s')"
        "bytes_replaced a (written_over (file_bytes fs a) pos data) fs s'"
        using write_in_room_spec [OF holds_bytes_inv [OF h] a] by blast
      then have "holds_bytes w bs (snd (and_then (write_in_room a data pos fs)
          (\<lambda>_ s. announce_bytes ?n a s)))" using h by (rule holds_bytes_in_place)
      with h Inr Some show ?thesis
        by (auto simp: write_at_sync_def Let_def intro!: kept.P_assert)
    qed
  qed
qed

lemma holds_bytes_copy:
  assumes h: "holds_bytes w bs fs" and wf: "wf_fs fs"
  shows "holds_bytes w bs (snd (copy_file_sync path dest fs))"
  unfolding copy_file_sync_def
proof (rule kept.P_and_then)
  show "holds_bytes w bs (snd (read_file_sync path fs))" using h by (rule holds_bytes_read)
  fix v s assume rd: "read_file_sync path fs = (Inr v, s)" and s: "holds_bytes w bs s"
  have "settled s v" using holds_bytes_inv [OF h] wf rd by (rule read_settled)
  then show "holds_bytes w bs (snd (write_file_sync dest (Array v) s))"
    unfolding write_file_sync_def using s by (intro holds_bytes_write_internal) simp_all
qed

lemma holds_bytes_write_stream:
  assumes h: "holds_bytes w bs fs"
  shows "holds_bytes w bs (snd (write_stream_end path chunks fs))"
proof -
  obtain v st where nu: "new_u8 (concat chunks) (arrays fs) = (v, st)" by fastforce
  have "settled (fs\<lparr>arrays := st\<rparr>) v" using holds_bytes_inv [OF h] nu by (rule new_u8_settled)
  with holds_bytes_write_new [OF h _ store_ext_new [OF nu]] nu show ?thesis
    by (simp add: write_stream_end_def write_file_sync_def)
qed

lemma vfs_step_holds_bytes:
  "vfs_step lawful fs fs' \<Longrightarrow> wf_fs fs \<Longrightarrow> holds_bytes w bs fs \<Longrightarrow> holds_bytes w bs fs'"
proof (induction rule: vfs_step.induct)
  case (step_array data fs v st)
  then show ?case by (blast intro: holds_bytes_store_ext store_ext_new)
next
  case (step_write fs d path)
  then show ?case unfolding write_file_sync_def by (intro holds_bytes_write_internal) (auto dest: lawfulD)
next
  case (step_restore fs d path)
  then show ?case by (intro holds_bytes_write_internal) (auto dest: lawfulD)
next
  case (step_clock fs t)
  then show ?case using kept.P_now by blast
qed (simp_all add: kept.P_mkdir holds_bytes_append holds_bytes_write_at holds_bytes_read holds_bytes_copy
    kept.P_metadata kept.P_stat kept.P_symlink kept.P_remove kept.P_rename kept.P_mount kept.P_unmount
    holds_bytes_write_stream holds_bytes_alloc)

subsection \<open>Reachable states\<close>

abbreviation lawfully_reachable :: "fs \<Rightarrow> bool" where
  "lawfully_reachable \<equiv> vfs_reachable lawful"

lemma reach_wf: "vfs_reachable ok fs \<Longrightarrow> wf_fs fs"
  by (induction rule: vfs_reachable.induct) (auto intro: wf_new vfs_step_wf)

text \<open>The empty array of buffer 0 is settled from the start, so the invariant holds throughout.\<close>

lemma holds_bytes_new: "holds_bytes \<lparr>buffer = 0, byte_offset = 0, byte_length = 0\<rparr> [] (new_fs t stack)"
  by (simp add: holds_bytes_def bytes_inv_def room_ok_def content_ok_def rooms_apart_def new_fs_def
      new_directory_def settled_def heeds_def valid_view_def view_bytes_def)

lemma reach_holds:
  "lawfully_reachable fs \<Longrightarrow> holds_bytes \<lparr>buffer = 0, byte_offset = 0, byte_length = 0\<rparr> [] fs"
proof (induction rule: vfs_reachable.induct)
  case (reach_step fs fs')
  then show ?case using vfs_step_holds_bytes reach_wf by blast
qed (rule holds_bytes_new)

lemma reach_bytes_inv: "lawfully_reachable fs \<Longrightarrow> bytes_inv fs"
  using reach_holds by blast

lemma steps_hold_bytes:
  "(vfs_step lawful)\<^sup>*\<^sup>* fs fs' \<Longrightarrow> wf_fs fs \<Longrightarrow> holds_bytes w bs fs \<Longrightarrow> holds_bytes w bs fs'"
proof (induction rule: rtranclp_induct)
  case (step s t)
  have "wf_fs s" using step.hyps(1) step.prems(1)
    by (induction rule: rtranclp_induct) (auto intro: vfs_step_wf)
  with step show ?case by (blast intro: vfs_step_holds_bytes)
qed simp

text \<open>C1: The array \<open>readFileSync\<close> hands out is a snapshot: whatever operations run afterwards, appends
  and positional writes into the very same buffer included, its bytes never change.\<close>

theorem read_is_snapshot:
  assumes "lawfully_reachable fs" and "read_file_sync path fs = (Inr v, fs')"
    and "(vfs_step lawful)\<^sup>*\<^sup>* fs' later"
  shows "view_bytes (arrays later) v = view_bytes (arrays fs') v"
proof -
  have inv: "bytes_inv fs" and wf: "wf_fs fs"
    using assms(1) by (simp_all add: reach_bytes_inv reach_wf)
  have wf': "wf_fs fs'" using wf_read_file [OF wf, of path] assms(2) by simp
  have step: "vfs_step lawful fs fs'" using step_read [of lawful fs path] assms(2) by simp
  have "settled fs' v" using inv wf assms(2) by (rule read_settled)
  moreover have "bytes_inv fs'"
    using assms(1) step by (blast intro: reach_bytes_inv reach_step)
  ultimately have "holds_bytes v (view_bytes (arrays fs') v) fs'" by (blast intro: holds_bytesI)
  with assms(3) wf' have "holds_bytes v (view_bytes (arrays fs') v) later" by (rule steps_hold_bytes)
  then show ?thesis by (simp add: holds_bytes_def)
qed

lemma read_is_snapshot_witness:
  "let r = read_file_sync ''/f'' (snd (write_file_sync ''/f'' (Text [1]) (new_fs 0 9)));
       later = snd (write_at_sync ''/f'' [9] 0 (snd (append_file_sync ''/f'' (Text [2]) (snd r))))
   in view_bytes (arrays later) (projr (fst r)) = [1]"
proof -
  let ?r = "read_file_sync ''/f'' (snd (write_file_sync ''/f'' (Text [1]) (new_fs 0 9)))"
  let ?later = "snd (write_at_sync ''/f'' [9] 0 (snd (append_file_sync ''/f'' (Text [2]) (snd ?r))))"
  have start: "lawfully_reachable (snd (write_file_sync ''/f'' (Text [1]) (new_fs 0 9)))"
    by (intro reach_step [OF _ step_write] reach_new) (simp add: lawful_def)
  have ok: "\<not> isl (fst ?r)" by code_simp
  have "vfs_step lawful (snd ?r) (snd (append_file_sync ''/f'' (Text [2]) (snd ?r)))"
    by (rule step_append) (simp add: lawful_def)
  then have "(vfs_step lawful)\<^sup>*\<^sup>* (snd ?r) ?later"
    by (rule converse_rtranclp_into_rtranclp) (rule r_into_rtranclp, rule step_write_at)
  from read_is_snapshot [OF start outcome_ok [OF ok] this]
  have "view_bytes (arrays ?later) (projr (fst ?r)) = view_bytes (arrays (snd ?r)) (projr (fst ?r))" .
  moreover have "view_bytes (arrays (snd ?r)) (projr (fst ?r)) = [1]" by code_simp
  ultimately show ?thesis by (simp add: Let_def)
qed

subsection \<open>The two operations\<close>

lemma get_node_normalize [simp]: "get_node fs (normalize_path p) = get_node fs p"
  by (simp add: get_node_def substrate_node.simps [where depth = 0] path_simps)

definition data_bytes :: "fs \<Rightarrow> data \<Rightarrow> bytes" where
  "data_bytes fs d = (case d of Text bs \<Rightarrow> bs | Array v \<Rightarrow> view_bytes (arrays fs) v)"

lemma data_view_bytes:
  assumes dv: "data_view d fs = (v, s)" and d: "lawful fs d"
  shows "view_bytes (arrays s) v = data_bytes fs d" and "store_ext (arrays fs) (arrays s)"
    and "s = fs\<lparr>arrays := arrays s\<rparr>"
proof -
  have "view_bytes (arrays s) v = data_bytes fs d \<and> store_ext (arrays fs) (arrays s) \<and> s = fs\<lparr>arrays := arrays s\<rparr>"
  proof (cases d)
    case (Text bs)
    obtain u st where nu: "new_u8 bs (arrays fs) = (u, st)" by fastforce
    with dv Text have "v = u" "s = fs\<lparr>arrays := st\<rparr>" by (simp_all add: data_view_def)
    with Text new_u8_valid [OF nu] store_ext_new [OF nu] show ?thesis by (simp add: data_bytes_def)
  next
    case (Array u)
    with dv show ?thesis by (simp add: data_view_def data_bytes_def)
  qed
  then show "view_bytes (arrays s) v = data_bytes fs d" "store_ext (arrays fs) (arrays s)"
    "s = fs\<lparr>arrays := arrays s\<rparr>" by blast+
qed

lemma file_bytes_store_ext:
  assumes "bytes_inv fs" and "b < next_node fs" and "store_ext (arrays fs) st"
  shows "file_bytes (fs\<lparr>arrays := st\<rparr>) b = file_bytes fs b"
  using bytes_invD(2) [OF assms(1,2)] store_extD [OF assms(3)]
  by (simp add: file_bytes_def content_ok_def split: option.split)

lemma file_bytes_announce:
  "file_bytes (snd (announce_bytes p a fs)) b = file_bytes fs b"
  "nodes (snd (announce_bytes p a fs)) = nodes fs"
  by (simp_all add: announce_bytes_def file_bytes_def emit_change_def notify_watchers_def Let_def
      split: option.split)

text \<open>C12: Appending to an existing file answers, extends that file's bytes by the data's, and changes the
  bytes of no other file, whatever buffers the files share.\<close>

theorem append_extends:
  assumes reach: "lawfully_reachable fs" and node: "get_node fs path = Inr (Some a)"
    and plain: "ntype (nodes fs a) = File"
    and inside: "\<not> crosses_mount fs (root fs) (path_segments (normalize_path path))" and d: "lawful fs d"
  shows "\<exists>fs'. append_file_sync path d fs = (Inr (), fs') \<and>
    file_bytes fs' a = file_bytes fs a @ data_bytes fs d \<and>
    (\<forall>b < next_node fs. b \<noteq> a \<longrightarrow> file_bytes fs' b = file_bytes fs b)"
proof -
  have inv: "bytes_inv fs" and wf: "wf_fs fs" using reach by (simp_all add: reach_bytes_inv reach_wf)
  have a: "a < next_node fs" using get_node_allocated [OF wf node] .
  obtain v s where dv: "data_view d fs = (v, s)" by fastforce
  note db = data_view_bytes [OF dv d]
  have s: "nodes s = nodes fs" "next_node s = next_node fs" "root s = root fs"
    using same_treeD [OF same_tree_data_view [OF dv]] by simp_all
  have node': "get_node s path = Inr (Some a)" using node get_node_same_tree [OF same_tree_data_view [OF dv]] by simp
  have inside': "\<not> crosses_mount s (root s) (path_segments (normalize_path path))"
    using inside crosses_mount_same_tree [OF same_tree_data_view [OF dv]] s by simp
  have invs: "bytes_inv s"
    using reach_holds [OF reach] data_view_settled [OF _ lawfulD [OF d] dv] by blast
  obtain s' where s': "append_in_room a (data_bytes fs d) s = (Inr (), s')"
    "bytes_replaced a (file_bytes s a @ data_bytes fs d) s s'"
    using append_in_room_spec [OF invs, of a] a s by auto
  have fb: "file_bytes s b = file_bytes fs b" if "b < next_node fs" for b
    using file_bytes_store_ext [OF inv that db(2)] db(3) by simp
  obtain s'' where s'': "announce_bytes (normalize_path path) a s' = (Inr (), s'')"
    by (simp add: announce_bytes_def)
  have "append_file_sync path d fs = (Inr (), s'')"
    using dv node' plain s inside' s'(1) s'' db(1)
    by (simp add: append_file_sync_def Let_def assert_writable_def)
  moreover have "file_bytes s'' b = file_bytes s' b" for b
    using file_bytes_announce(1) [of "normalize_path path" a s' b] s'' by simp
  ultimately show ?thesis using s'(2) fb a s(2) by (auto simp: bytes_replaced_def)
qed

lemma append_extends_witness:
  "\<exists>s'. append_file_sync ''/f'' (Text [2]) (snd (write_file_sync ''/f'' (Text [1]) (new_fs 0 9))) = (Inr (), s') \<and>
     file_bytes s' 1 = [1, 2]"
proof -
  let ?s = "snd (write_file_sync ''/f'' (Text [1]) (new_fs 0 9))"
  have "lawfully_reachable ?s" by (intro reach_step [OF _ step_write] reach_new) (simp add: lawful_def)
  moreover have "get_node ?s ''/f'' = Inr (Some 1)" by code_simp
  moreover have "ntype (nodes ?s 1) = File" by code_simp
  moreover have "\<not> crosses_mount ?s (root ?s) (path_segments (normalize_path ''/f''))" by code_simp
  moreover have "lawful ?s (Text [2])" by (simp add: lawful_def)
  ultimately have "\<exists>s'. append_file_sync ''/f'' (Text [2]) ?s = (Inr (), s') \<and>
     file_bytes s' 1 = file_bytes ?s 1 @ data_bytes ?s (Text [2])"
    using append_extends by blast
  moreover have "file_bytes ?s 1 = [1]" by code_simp
  ultimately show ?thesis by (simp add: data_bytes_def)
qed

text \<open>C4: A positional write to an existing file answers and leaves exactly the old bytes with the data
  written over them at the position, a gap past the end reading zero; other files keep theirs.\<close>

theorem write_at_writes_over:
  assumes reach: "lawfully_reachable fs" and node: "get_node fs path = Inr (Some a)"
    and plain: "ntype (nodes fs a) = File"
    and inside: "\<not> crosses_mount fs (root fs) (path_segments (normalize_path path))" and bs: "bs \<noteq> []"
  shows "\<exists>fs'. write_at_sync path bs pos fs = (Inr (), fs') \<and>
    file_bytes fs' a = written_over (file_bytes fs a) pos bs \<and>
    (\<forall>b < next_node fs. b \<noteq> a \<longrightarrow> file_bytes fs' b = file_bytes fs b)"
proof -
  have inv: "bytes_inv fs" and wf: "wf_fs fs" using reach by (simp_all add: reach_bytes_inv reach_wf)
  have a: "a < next_node fs" using get_node_allocated [OF wf node] .
  obtain s' where s': "write_in_room a bs pos fs = (Inr (), s')"
    "bytes_replaced a (written_over (file_bytes fs a) pos bs) fs s'"
    using write_in_room_spec [OF inv a] by blast
  obtain s'' where s'': "announce_bytes (normalize_path path) a s' = (Inr (), s'')"
    by (simp add: announce_bytes_def)
  have "write_at_sync path bs pos fs = (Inr (), s'')"
    using node plain inside s'(1) s'' bs by (simp add: write_at_sync_def Let_def assert_writable_def)
  moreover have "file_bytes s'' b = file_bytes s' b" for b
    using file_bytes_announce(1) [of "normalize_path path" a s' b] s'' by simp
  ultimately show ?thesis using s'(2) by (auto simp: bytes_replaced_def)
qed

lemma write_at_writes_over_witness:
  "\<exists>s'. write_at_sync ''/f'' [7] 3 (snd (write_file_sync ''/f'' (Text [1]) (new_fs 0 9))) = (Inr (), s') \<and>
     file_bytes s' 1 = [1, 0, 0, 7]"
proof -
  let ?s = "snd (write_file_sync ''/f'' (Text [1]) (new_fs 0 9))"
  have "lawfully_reachable ?s" by (intro reach_step [OF _ step_write] reach_new) (simp add: lawful_def)
  moreover have "get_node ?s ''/f'' = Inr (Some 1)" by code_simp
  moreover have "ntype (nodes ?s 1) = File" by code_simp
  moreover have "\<not> crosses_mount ?s (root ?s) (path_segments (normalize_path ''/f''))" by code_simp
  ultimately have "\<exists>s'. write_at_sync ''/f'' [7] 3 ?s = (Inr (), s') \<and>
     file_bytes s' 1 = written_over (file_bytes ?s 1) 3 [7]"
    using write_at_writes_over [where bs = "[7]"] by blast
  moreover have "file_bytes ?s 1 = [1]" by code_simp
  moreover have "written_over [1] 3 [7] = [1, 0, 0, 7 :: byte]" by code_simp
  ultimately show ?thesis by simp
qed

end
