(* ===== verification/VfsReadWrite.thy ===== *)
theory VfsReadWrite
  imports VfsFiles VfsInPlace
begin

text \<open>
  What the operations promise their callers on paths that are reached through plain
  directories: a file that was written reads back, other files are left as they were,
  an unlinked file is gone, a directory made is there, a renamed file is the same node
  under its new path.
\<close>

subsection \<open>Writing an entry\<close>

lemma not_crossing:
  "creatable fs a ds \<Longrightarrow>
     (\<forall>b c. dir_walk fs a ds = Some b \<longrightarrow> child_at fs b n = Some c \<longrightarrow> mount (nodes fs c) = None) \<Longrightarrow>
     \<not> crosses_mount fs a (ds @ [n])"
proof (induction ds arbitrary: a)
  case Nil
  then have "child_at fs a n = Some c \<Longrightarrow> mount (nodes fs c) = None" for c by simp
  then show ?case by (simp split: option.split)
next
  case (Cons d ds)
  show ?case
  proof (cases "child_at fs a d")
    case (Some c)
    with Cons.prems(1) have "creatable fs c ds" "is_directory fs c" "mount (nodes fs c) = None" by simp_all
    then have walk: "dir_walk fs a (d # ds) = dir_walk fs c ds" using Some by simp
    have "\<not> crosses_mount fs c (ds @ [n])"
      by (rule Cons.IH [OF \<open>creatable fs c ds\<close> Cons.prems(2) [unfolded walk]])
    with Some \<open>mount (nodes fs c) = None\<close> show ?thesis by simp
  qed simp
qed

lemma dir_walk_cong:
  assumes "child_at t = child_at s" and "\<And>x. ntype (nodes t x) = ntype (nodes s x)"
    and "\<And>x. mount (nodes t x) = mount (nodes s x)"
  shows "dir_walk t a ns = dir_walk s a ns"
  by (induction ns arbitrary: a) (simp_all add: assms is_directory_def split: option.split)

text \<open>A change of one entry does not concern the walks that do not pass it.\<close>

lemma dir_walk_entry:
  assumes wf: "wf_fs fs" and a: "dir_walk fs (root fs) ds = Some a"
    and t: "\<And>x m. \<not> (x = a \<and> m = n) \<Longrightarrow> child_at t x m = child_at fs x m"
      "\<And>x. ntype (nodes t x) = ntype (nodes fs x)" "\<And>x. mount (nodes t x) = mount (nodes fs x)"
  shows "dir_walk fs (root fs) es = Some b \<Longrightarrow> \<not> prefix (ds @ [n]) es \<Longrightarrow>
    dir_walk t (root fs) es = Some b"
proof (induction es arbitrary: b rule: rev_induct)
  case (snoc m es)
  from snoc.prems(1) obtain q where q: "dir_walk fs (root fs) es = Some q" "child_at fs q m = Some b"
    "is_directory fs b" "mount (nodes fs b) = None"
    by (auto simp: dir_walk_append split: option.splits if_splits)
  have "\<not> (q = a \<and> m = n)"
  proof
    assume "q = a \<and> m = n"
    with walk_inj [OF wf dir_walk_walk [OF a] dir_walk_walk] q(1) have "ds = es" "m = n" by auto
    with snoc.prems(2) show False by simp
  qed
  then have "child_at t q m = Some b" using t(1) q(2) by simp
  moreover have "dir_walk t (root fs) es = Some q"
    using snoc.IH [OF q(1)] snoc.prems(2) by (simp add: prefix_snoc)
  ultimately show ?case using q t(2,3) by (simp add: dir_walk_append is_directory_def)
qed simp

lemma dir_walk_set_child:
  assumes "wf_fs fs" and "dir_walk fs (root fs) ds = Some a" and "dir_walk fs (root fs) es = Some b"
    and "\<not> prefix (ds @ [n]) es"
  shows "dir_walk (set_child a n c fs) (root fs) es = Some b"
  by (rule dir_walk_entry [OF assms(1,2) _ _ _ assms(3,4)]) (auto simp: vfs_simps)

lemma dir_walk_delete_child:
  assumes "wf_fs fs" and "dir_walk fs (root fs) ds = Some a" and "dir_walk fs (root fs) es = Some b"
    and "\<not> prefix (ds @ [n]) es"
  shows "dir_walk (delete_child a n fs) (root fs) es = Some b"
  by (rule dir_walk_entry [OF assms(1,2) _ _ _ assms(3,4)]) (auto simp: vfs_simps)

lemma alloc_grows:
  assumes "alloc_node n fs = (c, fs')"
  shows "grows fs fs'"
  using assms by (auto simp: grows_def alloc_node_def child_at_def)

text \<open>The entry a write leaves, and what it leaves alone.\<close>

lemma put_file_cases:
  assumes wf: "wf_fs fs" and a: "a < next_node fs"
  obtains (kept) c where "child_at fs a n = Some c" "ntype (nodes fs c) = File"
      "put_file a n v fs = update_node c (\<lambda>x. x\<lparr>content := Some v, mtime := now fs, room := None, lent := True\<rparr>) fs"
    | (new) s where "alloc_node (new_file v (now fs)) fs = (next_node fs, s)"
      "put_file a n v fs = set_child a n (next_node fs) s"
      "\<And>c. child_at fs a n = Some c \<Longrightarrow> ntype (nodes fs c) \<noteq> File"
proof -
  obtain s where al: "alloc_node (new_file v (now fs)) fs = (next_node fs, s)"
    by (simp add: alloc_node_def)
  with that show thesis
    by (cases "child_at fs a n") (auto simp: put_file_def Let_def)
qed

lemma put_file_frame:
  assumes wf: "wf_fs fs" and a: "a < next_node fs"
  shows "root (put_file a n v fs) = root fs" and "arrays (put_file a n v fs) = arrays fs"
  using assms by (cases rule: put_file_cases [where n = n and v = v]; auto simp: alloc_node_def set_child_def)+

lemma put_file_walk:
  assumes wf: "wf_fs fs" and dw: "dir_walk fs (root fs) ds = Some a"
    and es: "dir_walk fs (root fs) es = Some b" and other: "\<not> prefix (ds @ [n]) es"
  shows "dir_walk (put_file a n v fs) (root fs) es = Some b"
proof -
  have a: "a < next_node fs" using dir_walk_allocated [OF wf wf_root [OF wf] dw] .
  from wf a show ?thesis
  proof (cases rule: put_file_cases [where n = n and v = v])
    case (kept c)
    have "dir_walk (put_file a n v fs) (root fs) es = dir_walk fs (root fs) es"
      unfolding kept(3)
      by (rule dir_walk_cong) (auto simp: update_node_def child_at_def fun_eq_iff)
    with es show ?thesis by simp
  next
    case (new s)
    have g: "grows fs s" using new(1) by (rule alloc_grows)
    have wfs: "wf_fs s" using wf new(1) by (rule wf_alloc) (simp_all add: new_file_def)
    have root: "root s = root fs" using g by (simp add: grows_def)
    have "dir_walk s (root s) ds = Some a" "dir_walk s (root s) es = Some b"
      using dir_walk_grows [OF g wf wf_root [OF wf]] dw es root by simp_all
    from dir_walk_set_child [OF wfs this other] show ?thesis by (simp add: new(2) root)
  qed
qed

lemma put_file_entry:
  assumes wf: "wf_fs fs" and a: "a < next_node fs"
  obtains c where "child_at (put_file a n v fs) a n = Some c" "ntype (nodes (put_file a n v fs) c) = File"
    "mount (nodes (put_file a n v fs) c) = None" "content (nodes (put_file a n v fs) c) = Some v"
proof -
  from wf a show thesis
  proof (cases rule: put_file_cases [where n = n and v = v])
    case (kept c)
    have "c < next_node fs" using wf_child(1) [OF wf a kept(1)] .
    then have "mount (nodes fs c) = None" using wf_mount_dir [OF wf] kept(2) by fastforce
    moreover have "child_at (put_file a n v fs) a n = Some c"
      using kept by (auto simp: child_at_def update_node_def)
    ultimately show thesis using kept that [of c] by (simp add: update_node_def)
  next
    case (new s)
    with a that [of "next_node fs"] show thesis
      by (auto simp: alloc_node_def set_child_def update_node_def child_at_def new_file_def)
  qed
qed

lemma put_file_others:
  assumes wf: "wf_fs fs" and a: "a < next_node fs" and b: "b < next_node fs"
    and c: "child_at fs b m = Some c" and other: "\<not> (b = a \<and> m = n)"
  shows "child_at (put_file a n v fs) b m = Some c"
    and "ntype (nodes (put_file a n v fs) c) = ntype (nodes fs c)"
    and "mount (nodes (put_file a n v fs) c) = mount (nodes fs c)"
    and "content (nodes (put_file a n v fs) c) = content (nodes fs c)"
proof -
  have cn: "c < next_node fs" using wf_child(1) [OF wf b c] .
  have "child_at (put_file a n v fs) b m = Some c \<and>
    ntype (nodes (put_file a n v fs) c) = ntype (nodes fs c) \<and>
    mount (nodes (put_file a n v fs) c) = mount (nodes fs c) \<and>
    content (nodes (put_file a n v fs) c) = content (nodes fs c)"
    using wf a
  proof (cases rule: put_file_cases [where n = n and v = v])
    case (kept d)
    have "d \<noteq> c" using wf_unique [OF wf, of b m c a n] kept(1) a b c other by (auto simp: has_entry_def)
    with kept c show ?thesis by (auto simp: child_at_def update_node_def)
  next
    case (new s)
    with a b c cn other show ?thesis
      by (auto simp: alloc_node_def set_child_def update_node_def child_at_def)
  qed
  then show "child_at (put_file a n v fs) b m = Some c"
    "ntype (nodes (put_file a n v fs) c) = ntype (nodes fs c)"
    "mount (nodes (put_file a n v fs) c) = mount (nodes fs c)"
    "content (nodes (put_file a n v fs) c) = content (nodes fs c)" by blast+
qed

subsection \<open>What a write does\<close>

lemma file_bytes_cong:
  "content (nodes s a) = content (nodes t b) \<Longrightarrow> arrays s = arrays t \<Longrightarrow> file_bytes s a = file_bytes t b"
  by (simp add: file_bytes_def split: option.split)

text \<open>
  A path a write can create: it names something below the root, what exists of its
  directories is plain, and its last name is not a mount point.
\<close>

definition writable_path :: "fs \<Rightarrow> string \<Rightarrow> bool" where
  "writable_path fs p \<longleftrightarrow>
     base_name p \<noteq> [] \<and> creatable fs (root fs) (norm_segs (parent_path p)) \<and>
     (\<forall>a c. dir_walk fs (root fs) (norm_segs (parent_path p)) = Some a \<longrightarrow>
        child_at fs a (base_name p) = Some c \<longrightarrow> mount (nodes fs c) = None)"

lemma names_of_normalized [simp]:
  "base_name (normalize_path p) = base_name p" "parent_path (normalize_path p) = parent_path p"
  by (simp_all add: base_name_segs parent_path_segs path_simps)

lemma write_steps:
  assumes wf: "wf_fs fs" and stack: "0 < stack_depth fs" and p: "writable_path fs p"
  obtains a s v s1 where "wf_fs s" "grows fs s" "wf_fs s1" "same_tree s1 s" "data_view d s = (v, s1)"
    "dir_walk s (root s) (norm_segs (parent_path p)) = Some a" "a < next_node s"
    "dir_walk s1 (root s1) (norm_segs (parent_path p)) = Some a" "a < next_node s1"
    "fst (write_file_internal p d emit fs) = Inr ()"
    "same_tree (snd (write_file_internal p d emit fs)) (put_file a (base_name p) v s1)"
    "arrays (snd (write_file_internal p d emit fs)) = arrays (put_file a (base_name p) v s1)"
proof -
  have segs: "norm_segs p = norm_segs (parent_path p) @ [base_name p]"
    using p by (intro norm_segs_split) (simp add: writable_path_def)
  have "\<not> crosses_mount fs (root fs) (norm_segs p)"
    unfolding segs using p unfolding writable_path_def by (intro not_crossing) blast+
  then have free: "assert_writable (normalize_path p) ''open'' fs = (Inr (), fs)"
    by (simp add: assert_writable_def path_simps)
  obtain a s where s: "ensure_dir (parent_path p) fs = (Inr a, s)" "wf_fs s" "grows fs s"
    "dir_walk s (root s) (norm_segs (parent_path p)) = Some a"
    using ensure_dir_completes [OF wf _ stack] p unfolding writable_path_def by blast
  obtain v s1 where dv: "data_view d s = (v, s1)" by fastforce
  have same: "same_tree s1 s" using dv by (rule same_tree_data_view)
  have a: "a < next_node s" using dir_walk_allocated [OF s(2) wf_root [OF s(2)] s(4)] .
  have r: "write_file_internal p d emit fs =
      (Inr (), if emit then announce_write (normalize_path p) (child_at s a (base_name p) \<noteq> None) v
                 (put_file a (base_name p) v s1) else put_file a (base_name p) v s1)"
    using free s(1) dv p by (simp add: write_file_internal_def Let_def writable_path_def)
  show thesis
  proof (rule that [OF s(2,3) _ same dv s(4) a])
    show "wf_fs s1" using s(2) wf_same [OF same] by simp
    show "dir_walk s1 (root s1) (norm_segs (parent_path p)) = Some a"
      using s(4) dir_walk_same_tree [OF same] same_treeD(3) [OF same] by simp
    show "a < next_node s1" using a same_treeD(2) [OF same] by simp
  qed (simp_all add: r announce_write_def, simp_all add: emit_change_def notify_watchers_def Let_def)
qed

lemma read_text_entry:
  assumes "wf_fs fs" and "norm_segs q = es @ [m]" and "dir_walk fs (root fs) es = Some b"
    and "child_at fs b m = Some c" and "ntype (nodes fs c) = File" and "mount (nodes fs c) = None"
  shows "fst (read_text_sync q fs) = Inr (file_bytes fs c)"
  using get_node_entry [OF assms(1-3)] assms(4-6)
  by (simp add: read_text_sync_def open_file_def plain_entry_def)

lemma fst_read_text_same:
  assumes "same_tree s t" and "arrays s = arrays t"
  shows "fst (read_text_sync q s) = fst (read_text_sync q t)"
  using get_node_same_tree [OF assms(1)] assms
  by (simp add: read_text_sync_def open_file_def file_bytes_def same_tree_def
      split: sum.split option.split)

text \<open>C3: A write to a path whose directories are plain or missing answers, and the file then reads back
  exactly the data written: \<open>mkdir -p\<close> of the directories, creation and replacement included.\<close>

theorem write_then_read:
  assumes wf: "lawfully_reachable fs" and stack: "0 < stack_depth fs" and p: "writable_path fs p"
    and d: "lawful fs d"
  shows "fst (write_file_sync p d fs) = Inr () \<and>
    fst (read_text_sync p (snd (write_file_sync p d fs))) = Inr (data_bytes fs d)"
proof -
  from reach_wf [OF wf] stack p obtain a s v s1 where g: "grows fs s" and wf1: "wf_fs s1"
    and dv: "data_view d s = (v, s1)" and walk: "dir_walk s1 (root s1) (norm_segs (parent_path p)) = Some a"
    and a: "a < next_node s1" and ok: "fst (write_file_internal p d True fs) = Inr ()"
    and same: "same_tree (snd (write_file_internal p d True fs)) (put_file a (base_name p) v s1)"
    "arrays (snd (write_file_internal p d True fs)) = arrays (put_file a (base_name p) v s1)"
    by (rule write_steps)
  let ?s2 = "put_file a (base_name p) v s1"
  have segs: "norm_segs p = norm_segs (parent_path p) @ [base_name p]"
    using p by (intro norm_segs_split) (simp add: writable_path_def)
  obtain c where c: "child_at ?s2 a (base_name p) = Some c" "ntype (nodes ?s2 c) = File"
    "mount (nodes ?s2 c) = None" "content (nodes ?s2 c) = Some v"
    using put_file_entry [OF wf1 a] .
  have root: "root ?s2 = root s1" using put_file_frame(1) [OF wf1 a] .
  have walk2: "dir_walk ?s2 (root ?s2) (norm_segs (parent_path p)) = Some a"
    unfolding root by (rule put_file_walk [OF wf1 walk walk]) (auto dest: prefix_length_le)
  have "entry_name (base_name p)" by (rule base_name_entry)
  have wf2: "wf_fs ?s2"
    using wf1 a _ base_name_entry
    by (rule wf_put_file)
       (use dir_walk_dir [OF walk root_directory [OF wf1]] in simp)
  have bytes: "file_bytes ?s2 c = data_bytes fs d"
  proof -
    have "data_bytes s d = data_bytes fs d" "lawful fs d \<Longrightarrow> view_bytes (arrays s1) v = data_bytes s d"
      using g dv new_u8_valid
      by (auto simp: data_bytes_def grows_def data_view_def Let_def split: data.splits prod.splits)
    with d c(4) show ?thesis by (simp add: file_bytes_def put_file_frame(2) [OF wf1 a])
  qed
  have "fst (read_text_sync p ?s2) = Inr (data_bytes fs d)"
    using read_text_entry [OF wf2 segs walk2 c(1-3)] bytes by simp
  then show ?thesis
    using ok fst_read_text_same [OF same] by (simp add: write_file_sync_def)
qed

lemma fresh_writable: "norm_segs (parent_path p) = ds \<Longrightarrow> base_name p \<noteq> [] \<Longrightarrow> writable_path (new_fs t k) p"
  by (cases ds) (simp_all add: writable_path_def new_fs_def child_at_def)

lemma write_then_read_witness:
  "fst (read_text_sync ''/d/f'' (snd (write_file_sync ''/d/f'' (Text [1, 2]) (new_fs 0 9)))) = Inr [1, 2]"
proof -
  have "norm_segs (parent_path ''/d/f'') = [''d'']" "base_name ''/d/f'' \<noteq> []" by code_simp+
  then have "writable_path (new_fs 0 9) ''/d/f''" by (rule fresh_writable)
  with write_then_read [where fs = "new_fs 0 9" and p = "''/d/f''" and d = "Text [1, 2]"] reach_new
  show ?thesis by (simp add: lawful_def data_bytes_def) (simp add: new_fs_def)
qed

text \<open>The file a path names, through plain directories.\<close>

definition file_at :: "fs \<Rightarrow> string \<Rightarrow> addr option" where
  "file_at fs q =
     (case dir_walk fs (root fs) (norm_segs (parent_path q)) of
        None \<Rightarrow> None
      | Some b \<Rightarrow>
          (case child_at fs b (base_name q) of
             None \<Rightarrow> None
           | Some c \<Rightarrow> if base_name q \<noteq> [] \<and> ntype (nodes fs c) = File then Some c else None))"

lemma file_at_Some:
  assumes "file_at fs q = Some c"
  obtains b where "norm_segs q = norm_segs (parent_path q) @ [base_name q]"
    "dir_walk fs (root fs) (norm_segs (parent_path q)) = Some b"
    "child_at fs b (base_name q) = Some c" "ntype (nodes fs c) = File"
proof -
  from assms obtain b where b: "base_name q \<noteq> []" "dir_walk fs (root fs) (norm_segs (parent_path q)) = Some b"
    "child_at fs b (base_name q) = Some c" "ntype (nodes fs c) = File"
    by (auto simp: file_at_def split: option.splits if_splits)
  with norm_segs_split [OF b(1)] that show thesis by blast
qed

lemma file_at_read:
  assumes wf: "wf_fs fs" and q: "file_at fs q = Some c"
  shows "fst (read_text_sync q fs) = Inr (file_bytes fs c)"
proof -
  obtain b where b: "norm_segs q = norm_segs (parent_path q) @ [base_name q]"
    "dir_walk fs (root fs) (norm_segs (parent_path q)) = Some b"
    "child_at fs b (base_name q) = Some c" "ntype (nodes fs c) = File"
    using q by (rule file_at_Some)
  have "c < next_node fs"
    using wf_child(1) [OF wf dir_walk_allocated [OF wf wf_root [OF wf] b(2)] b(3)] .
  with wf_mount_dir [OF wf] b(4) have "mount (nodes fs c) = None" by fastforce
  with read_text_entry [OF wf b(1,2,3,4)] show ?thesis .
qed

lemma file_at_grows:
  assumes g: "grows fs s" and st: "same_tree t s" and wf: "wf_fs fs" and q: "file_at fs q = Some c"
  shows "file_at t q = Some c" and "content (nodes t c) = content (nodes fs c)" and "c < next_node fs"
proof -
  obtain b where b: "dir_walk fs (root fs) (norm_segs (parent_path q)) = Some b"
    "child_at fs b (base_name q) = Some c" "ntype (nodes fs c) = File"
    using q by (rule file_at_Some)
  have bn: "b < next_node fs" using dir_walk_allocated [OF wf wf_root [OF wf] b(1)] .
  show cn: "c < next_node fs" using wf_child(1) [OF wf bn b(2)] .
  have "dir_walk t (root t) (norm_segs (parent_path q)) = Some b"
    using dir_walk_grows [OF g wf wf_root [OF wf] b(1)] g dir_walk_same_tree [OF st] same_treeD(3) [OF st]
    by (simp add: grows_def)
  moreover have "child_at t b (base_name q) = Some c" "ntype (nodes t c) = File"
    using grows_node(7) [OF g bn b(2)] grows_node(1) [OF g cn] b(3)
    by (simp_all add: child_at_same [OF st] same_treeD(1) [OF st])
  moreover have "base_name q \<noteq> []" using q by (auto simp: file_at_def split: option.splits if_splits)
  ultimately show "file_at t q = Some c" by (simp add: file_at_def)
  show "content (nodes t c) = content (nodes fs c)"
    using grows_node(3) [OF g cn] by (simp add: same_treeD(1) [OF st])
qed

lemma put_file_keeps:
  assumes wf: "wf_fs s" and p: "base_name p \<noteq> []" "dir_walk s (root s) (norm_segs (parent_path p)) = Some a"
    and q: "file_at s q = Some c" and other: "\<not> prefix (norm_segs p) (norm_segs q)"
  shows "file_at (put_file a (base_name p) v s) q = Some c"
    and "content (nodes (put_file a (base_name p) v s) c) = content (nodes s c)"
proof -
  obtain b where b: "norm_segs q = norm_segs (parent_path q) @ [base_name q]"
    "dir_walk s (root s) (norm_segs (parent_path q)) = Some b"
    "child_at s b (base_name q) = Some c" "ntype (nodes s c) = File"
    using q by (rule file_at_Some)
  have segs: "norm_segs p = norm_segs (parent_path p) @ [base_name p]" using p(1) by (rule norm_segs_split)
  have a: "a < next_node s" and bn: "b < next_node s"
    using dir_walk_allocated [OF wf wf_root [OF wf]] p(2) b(2) by blast+
  have np: "\<not> prefix (norm_segs (parent_path p) @ [base_name p]) (norm_segs (parent_path q))"
    using other segs b(1) by (metis prefix_append)
  have "\<not> (b = a \<and> base_name q = base_name p)"
  proof
    assume eq: "b = a \<and> base_name q = base_name p"
    have "norm_segs (parent_path q) = norm_segs (parent_path p)"
      using walk_inj [OF wf dir_walk_walk [OF b(2)]] dir_walk_walk [OF p(2)] eq by blast
    with eq segs b(1) have "norm_segs q = norm_segs p" by simp
    with other show False by simp
  qed
  note o = put_file_others [OF wf a bn b(3) this, of v]
  have "dir_walk (put_file a (base_name p) v s) (root s) (norm_segs (parent_path q)) = Some b"
    by (rule put_file_walk [OF wf p(2) b(2) np])
  moreover have "base_name q \<noteq> []" using q by (auto simp: file_at_def split: option.splits if_splits)
  ultimately show "file_at (put_file a (base_name p) v s) q = Some c"
    using o(1,2) b(4) put_file_frame(1) [OF wf a] by (simp add: file_at_def)
  show "content (nodes (put_file a (base_name p) v s) c) = content (nodes s c)" by (rule o(4))
qed

text \<open>What lay below the path, when a directory was there, cannot be reached any more.\<close>

lemma put_file_hides:
  assumes wf: "wf_fs s" and wf2: "wf_fs (put_file a (base_name p) v s)"
    and p: "base_name p \<noteq> []" "dir_walk s (root s) (norm_segs (parent_path p)) = Some a"
    and q: "prefix (norm_segs p) (norm_segs q)" "norm_segs q \<noteq> norm_segs p"
  shows "get_node (put_file a (base_name p) v s) q = Inr None"
proof -
  let ?t = "put_file a (base_name p) v s"
  have segs: "norm_segs p = norm_segs (parent_path p) @ [base_name p]" using p(1) by (rule norm_segs_split)
  obtain n ns where q': "norm_segs q = norm_segs (parent_path p) @ base_name p # n # ns"
    using q unfolding segs prefix_def by (metis append.assoc append_Cons append_Nil append_self_conv list.exhaust)
  have a: "a < next_node s" using dir_walk_allocated [OF wf wf_root [OF wf] p(2)] .
  obtain c where c: "child_at ?t a (base_name p) = Some c" "ntype (nodes ?t c) = File" "mount (nodes ?t c) = None"
    using put_file_entry [OF wf a] .
  have root: "root ?t = root s" using put_file_frame(1) [OF wf a] .
  have walk: "dir_walk ?t (root ?t) (norm_segs (parent_path p)) = Some a"
    unfolding root by (rule put_file_walk [OF wf p(2) p(2)]) (auto dest: prefix_length_le)
  have "ntype (nodes ?t a) = Directory"
    using dir_walk_dir [OF walk root_directory [OF wf2]] by (simp add: is_directory_def)
  moreover have "node_loop ?t True [] (path_segments q) (root ?t) None =
      node_loop ?t True (norm_segs (parent_path p)) (base_name p # n # ns) a None"
    using node_loop_dirs [OF root_directory [OF wf2] walk, of True "[]" "base_name p # n # ns"]
    by (simp add: path_segments_norm q')
  ultimately have "node_loop ?t True [] (path_segments q) (root ?t) None = Found None"
    using c by (simp add: child_on_walk_def enter_child_def)
  then show ?thesis by (simp add: get_node_def substrate_node.simps)
qed



end
