(* ===== verification/VfsPromises.thy ===== *)
theory VfsPromises
  imports VfsReadWrite
begin

text \<open>
  The remaining promises of \<open>class VirtualFS\<close>: making and removing, moving, the
  read-only trees, and who is told about a change.
\<close>

subsection \<open>Directories\<close>

text \<open>\<open>mkdir -p\<close> of a path whose existing part is plain directories answers, and the path is a
  directory afterwards.\<close>

theorem mkdir_recursive_makes:
  assumes reach: "vfs_reachable ok fs" and stack: "0 < stack_depth fs"
    and p: "creatable fs (root fs) (norm_segs p)"
  shows "fst (mkdir_sync p True fs) = Inr () \<and>
    (\<exists>a. get_node (snd (mkdir_sync p True fs)) p = Inr (Some a) \<and>
         is_directory (snd (mkdir_sync p True fs)) a)"
proof -
  have wf: "wf_fs fs" using reach by (rule reach_wf)
  have free: "assert_writable (normalize_path p) ''mkdir'' fs = (Inr (), fs)"
    using creatable_not_crossing [OF p] by (simp add: assert_writable_def path_simps)
  have p': "creatable fs (root fs) (norm_segs (normalize_path p))" using p by (simp add: path_simps)
  obtain a s where s: "ensure_dir (normalize_path p) fs = (Inr a, s)" "wf_fs s"
    "dir_walk s (root s) (norm_segs p) = Some a"
    using ensure_dir_completes [OF wf p' stack] unfolding norm_segs_normalize by metis
  have made: "get_node s p = Inr (Some a)" "is_directory s a"
    using get_node_dir [OF s(2,3)] dir_walk_dir [OF s(3) root_directory [OF s(2)]] by simp_all
  obtain found where found: "get_node fs p = Inr found"
    using creatable_get_node [OF wf p] by blast
  show ?thesis
  proof (cases "\<exists>b. found = Some b \<and> is_directory fs b")
    case True
    then obtain b where "found = Some b" "is_directory fs b" by blast
    with found show ?thesis by (simp add: mkdir_sync_def Let_def)
  next
    case False
    then have no: "\<not> (case found of None \<Rightarrow> False | Some b \<Rightarrow> is_directory fs b)"
      by (simp split: option.split)
    have "mkdir_sync p True fs = (Inr (), s)"
      using found free s(1) no by (simp add: mkdir_sync_def Let_def)
    with made show ?thesis by simp
  qed
qed

lemma mkdir_recursive_makes_witness:
  "\<exists>a. get_node (snd (mkdir_sync ''/a/b'' True (new_fs 0 9))) ''/a/b'' = Inr (Some a)"
proof -
  have "norm_segs ''/a/b'' = [''a'', ''b'']" by code_simp
  then have "creatable (new_fs 0 9) (root (new_fs 0 9)) (norm_segs ''/a/b'')"
    by (simp add: new_fs_def child_at_def)
  moreover have "0 < stack_depth (new_fs 0 9)" by (simp add: new_fs_def)
  ultimately show ?thesis using mkdir_recursive_makes [OF reach_new] by blast
qed

subsection \<open>Read-only trees\<close>

text \<open>The operations that modify by path, each as a function of the path alone.\<close>

datatype mutator =
    Mkdir bool | WriteFile data | Append data | WriteAt bytes nat | Chmod nat
  | Utimes time_arg time_arg | SymlinkTo string | Unlink | Rmdir | RenameFrom string | RenameTo string

fun mutate :: "mutator \<Rightarrow> string \<Rightarrow> fs \<Rightarrow> unit outcome" where
  "mutate (Mkdir r) p fs = mkdir_sync p r fs"
| "mutate (WriteFile d) p fs = write_file_sync p d fs"
| "mutate (Append d) p fs = append_file_sync p d fs"
| "mutate (WriteAt bs k) p fs = write_at_sync p bs k fs"
| "mutate (Chmod m) p fs = chmod_sync p m fs"
| "mutate (Utimes t u) p fs = utimes_sync p t u fs"
| "mutate (SymlinkTo tgt) p fs = symlink_sync tgt p fs"
| "mutate Unlink p fs = unlink_sync p fs"
| "mutate Rmdir p fs = rmdir_sync p fs"
| "mutate (RenameFrom q) p fs = rename_sync q p fs"
| "mutate (RenameTo q) p fs = rename_sync p q fs"

lemma same_tree_arrays: "same_tree (s\<lparr>arrays := st\<rparr>) s"
  by (simp add: same_tree_def)

lemma refused_write:
  "crosses_mount fs (root fs) (norm_segs p) \<Longrightarrow>
     write_file_internal p d emit fs = (Inl (node_err EROFS ''open'' (normalize_path p)), fs)"
  by (simp add: write_file_internal_def Let_def assert_writable_def path_simps)

lemma refused_step:
  "crosses_mount fs (root fs) (norm_segs p) \<Longrightarrow>
     and_then (assert_writable p c fs) k = (Inl (node_err EROFS c p), fs)"
  by (simp add: assert_writable_def path_simps)

lemma refused_append:
  assumes m: "crosses_mount fs (root fs) (norm_segs p)"
  shows "isl (fst (append_file_sync p d fs)) \<and> same_tree (snd (append_file_sync p d fs)) fs \<and>
    events (snd (append_file_sync p d fs)) = events fs"
proof -
  obtain v s where dv: "data_view d fs = (v, s)" by fastforce
  have same: "same_tree s fs" using dv by (rule same_tree_data_view)
  have ev: "events s = events fs" using dv by (auto simp: data_view_def Let_def split: data.splits prod.splits)
  have ms: "crosses_mount (s\<lparr>arrays := st\<rparr>) (root (s\<lparr>arrays := st\<rparr>)) (norm_segs p)" for st
    using m crosses_mount_same_tree [of "s\<lparr>arrays := st\<rparr>" fs] same_treeD(3) [OF same] same by simp
  have ms': "crosses_mount s (root s) (norm_segs p)"
    using ms [of "arrays s"] by simp
  show ?thesis
    using dv same ev ms ms'
    by (auto simp: append_file_sync_def Let_def refused_write refused_step path_simps
        split: sum.split option.split prod.split)
qed

lemma refused_write_at:
  assumes m: "crosses_mount fs (root fs) (norm_segs p)"
  shows "isl (fst (write_at_sync p bs k fs)) \<and> same_tree (snd (write_at_sync p bs k fs)) fs \<and>
    events (snd (write_at_sync p bs k fs)) = events fs"
proof -
  have ms: "crosses_mount (fs\<lparr>arrays := st\<rparr>) (root (fs\<lparr>arrays := st\<rparr>)) (norm_segs p)" for st
    using m crosses_mount_same_tree [of "fs\<lparr>arrays := st\<rparr>" fs] by simp
  show ?thesis
    using m ms
    by (auto simp: write_at_sync_def Let_def refused_write refused_step path_simps
        split: sum.split option.split prod.split)
qed

lemma refused_mutate:
  assumes "crosses_mount fs (root fs) (norm_segs p)"
  shows "(isl (fst (mutate m p fs)) \<or>
      m = Mkdir True \<and> mutate m p fs = (Inr (), fs) \<and> (\<exists>a. get_node fs p = Inr (Some a) \<and> is_directory fs a)) \<and>
    same_tree (snd (mutate m p fs)) fs \<and> events (snd (mutate m p fs)) = events fs"
proof (cases m)
  case (Mkdir r)
  have "get_node fs (normalize_path p) = get_node fs p" by (rule get_node_normalize)
  with assms Mkdir show ?thesis
    by (auto simp: mkdir_sync_def Let_def refused_step path_simps split: sum.split option.split)
next
  case (Append d)
  with refused_append [OF assms, of d] show ?thesis by simp
next
  case (WriteAt bs k)
  with refused_write_at [OF assms, of bs k] show ?thesis by simp
next
  case (RenameFrom q)
  with assms show ?thesis
    by (auto simp: rename_sync_def Let_def path_simps assert_writable_def)
qed (simp_all add: assms write_file_sync_def refused_write refused_step chmod_sync_def utimes_sync_def
    symlink_sync_def unlink_sync_def rmdir_sync_def rename_sync_def Let_def path_simps)

text \<open>
  A path that leads, through plain directories, to a mount point: the first names are the
  mount point's own path, and any number of names may follow.
\<close>

definition within_mount :: "fs \<Rightarrow> string \<Rightarrow> bool" where
  "within_mount fs p \<longleftrightarrow>
     (\<exists>ds n rest a c. norm_segs p = ds @ n # rest \<and> dir_walk fs (root fs) ds = Some a \<and>
        child_at fs a n = Some c \<and> mount (nodes fs c) \<noteq> None)"

text \<open>C14: Neither a mount point itself nor anything below it can be changed by path: every operation that
  modifies by path throws there, and the tree, its contents and metadata are as before and nobody was told
  of anything.  The one answer that is not an error is \<open>mkdir -p\<close> of what is a directory already, which
  answers and changes nothing.\<close>

theorem mounts_are_read_only:
  assumes "within_mount fs p"
  shows "(isl (fst (mutate m p fs)) \<or>
      m = Mkdir True \<and> mutate m p fs = (Inr (), fs) \<and> (\<exists>a. get_node fs p = Inr (Some a) \<and> is_directory fs a)) \<and>
    same_tree (snd (mutate m p fs)) fs \<and> events (snd (mutate m p fs)) = events fs"
proof (rule refused_mutate)
  obtain ds n rest a c where p: "norm_segs p = ds @ n # rest" "dir_walk fs (root fs) ds = Some a"
      "child_at fs a n = Some c" "mount (nodes fs c) \<noteq> None"
    using assms by (auto simp: within_mount_def)
  show "crosses_mount fs (root fs) (norm_segs p)"
    unfolding p(1) crosses_mount_dirs [OF p(2)] using p(3,4) by simp
qed

lemma mounts_are_read_only_witness:
  "let s = snd (mount_tree ''/d/m'' (\<lambda>_. None) (new_fs 0 9))
   in isl (fst (write_file_sync ''/d/m/f'' (Text [1]) s)) \<and> isl (fst (unlink_sync ''/d/m/f'' s)) \<and>
      events (snd (write_file_sync ''/d/m/f'' (Text [1]) s)) = events s"
proof -
  let ?s = "snd (mount_tree ''/d/m'' (\<lambda>_. None) (new_fs 0 9))"
  have "norm_segs ''/d/m/f'' = [''d''] @ ''m'' # [''f'']" by code_simp
  moreover have "dir_walk ?s (root ?s) [''d''] = Some 1" by code_simp
  moreover have "child_at ?s 1 ''m'' = Some 2" "mount (nodes ?s 2) \<noteq> None" by code_simp+
  ultimately have "within_mount ?s ''/d/m/f''" unfolding within_mount_def by blast
  from mounts_are_read_only [OF this, of "WriteFile (Text [1])"] mounts_are_read_only [OF this, of Unlink]
  have "isl (fst (write_file_sync ''/d/m/f'' (Text [1]) ?s))" "isl (fst (unlink_sync ''/d/m/f'' ?s))"
    "events (snd (write_file_sync ''/d/m/f'' (Text [1]) ?s)) = events ?s" by simp_all
  then show ?thesis by (simp add: Let_def)
qed

subsection \<open>Removing\<close>

lemma not_prefix_snoc: "\<not> prefix (ds @ [n]) ds"
  by (auto dest: prefix_length_le)

lemma file_at_facts:
  assumes wf: "wf_fs fs" and p: "file_at fs p = Some c"
  obtains b where "norm_segs p = norm_segs (parent_path p) @ [base_name p]"
    "dir_walk fs (root fs) (norm_segs (parent_path p)) = Some b" "child_at fs b (base_name p) = Some c"
    "ntype (nodes fs c) = File" "mount (nodes fs c) = None" "b < next_node fs" "c < next_node fs"
    "is_directory fs b" "get_node fs (parent_path p) = Inr (Some b)"
    "\<not> crosses_mount fs (root fs) (norm_segs p)"
proof -
  obtain b where b: "norm_segs p = norm_segs (parent_path p) @ [base_name p]"
    "dir_walk fs (root fs) (norm_segs (parent_path p)) = Some b"
    "child_at fs b (base_name p) = Some c" "ntype (nodes fs c) = File"
    using p by (rule file_at_Some)
  have bn: "b < next_node fs" using dir_walk_allocated [OF wf wf_root [OF wf] b(2)] .
  have cn: "c < next_node fs" using wf_child(1) [OF wf bn b(3)] .
  have m: "mount (nodes fs c) = None" using wf_mount_dir [OF wf cn] b(4) by fastforce
  have "\<not> crosses_mount fs (root fs) (norm_segs p)"
    unfolding b(1) using crosses_mount_dirs [OF b(2), of "[base_name p]"] b(3) m by simp
  with that b bn cn m show thesis
    using dir_walk_dir [OF b(2) root_directory [OF wf]] get_node_dir [OF wf b(2)] by blast
qed

lemma same_tree_announced: "same_tree (emit_delete p (notify_watchers q ev s)) s"
  by simp

text \<open>C17: Unlinking a file answers, the path no longer exists, and every listener for deletions is told the
  path once.\<close>

theorem unlink_removes:
  assumes reach: "vfs_reachable ok fs" and p: "file_at fs p = Some c"
  shows "fst (unlink_sync p fs) = Inr () \<and> exists_sync p (snd (unlink_sync p fs)) = Inr False \<and>
    filter (\<lambda>e. case e of ToDelete _ _ \<Rightarrow> True | _ \<Rightarrow> False) (events (snd (unlink_sync p fs))) =
    filter (\<lambda>e. case e of ToDelete _ _ \<Rightarrow> True | _ \<Rightarrow> False) (events fs) @
      map (\<lambda>l. ToDelete l (normalize_path p)) (delete_listeners fs)"
proof -
  have wf: "wf_fs fs" using reach by (rule reach_wf)
  obtain b where b: "norm_segs p = norm_segs (parent_path p) @ [base_name p]"
    "dir_walk fs (root fs) (norm_segs (parent_path p)) = Some b" "child_at fs b (base_name p) = Some c"
    "ntype (nodes fs c) = File" "is_directory fs b" "get_node fs (parent_path p) = Inr (Some b)"
    "\<not> crosses_mount fs (root fs) (norm_segs p)"
    using wf p by (rule file_at_facts)
  let ?s = "delete_child b (base_name p) fs" and ?n = "normalize_path p"
  have r: "unlink_sync p fs = (Inr (), emit_delete ?n (notify_watchers ?n Rename ?s))"
    using b(3-7) by (simp add: unlink_sync_def Let_def assert_writable_def require_parent_def path_simps)
  have wfs: "wf_fs ?s" using wf by (rule wf_delete_child)
  have root: "root ?s = root fs" by (simp add: vfs_simps)
  have walk: "dir_walk ?s (root ?s) (norm_segs (parent_path p)) = Some b"
    unfolding root by (rule dir_walk_delete_child [OF wf b(2,2) not_prefix_snoc])
  have none: "child_at ?s b (base_name p) = None" by (simp add: vfs_simps)
  then have "get_node ?s p = Inr None"
    using get_node_entry [OF wfs b(1) walk] by (simp add: plain_entry_def)
  then have "exists_sync p (snd (unlink_sync p fs)) = Inr False"
    unfolding r exists_sync_def by (simp add: get_node_same_tree [OF same_tree_announced])
  moreover have watchers: "filter (\<lambda>e. case e of ToDelete _ _ \<Rightarrow> True | _ \<Rightarrow> False) (deliver_at s q w ev m) = []" for s q w ev m
    by (auto simp: deliver_at_def filter_empty_conv split: option.split)
  moreover have "filter (\<lambda>e. case e of ToDelete _ _ \<Rightarrow> True | _ \<Rightarrow> False) (deliver_up s q ev cur rel) = []" for s q ev cur rel
  proof (induction s q ev cur rel rule: deliver_up.induct)
    case (1 s q ev cur rel)
    then show ?case by (subst deliver_up.simps) (simp add: watchers)
  qed
  ultimately show ?thesis
    unfolding r by (simp add: emit_delete_def notify_watchers_def Let_def filter_map o_def)
      (simp add: delete_child_def)
qed

lemma unlink_removes_witness:
  "let s = snd (write_file_sync ''/f'' (Text [1]) (on_delete 7 (on_change 8 (new_fs 0 9)))) in
     exists_sync ''/f'' (snd (unlink_sync ''/f'' s)) = Inr False \<and>
     filter (\<lambda>e. case e of ToDelete _ _ \<Rightarrow> True | _ \<Rightarrow> False) (events (snd (unlink_sync ''/f'' s))) = [ToDelete 7 ''/f'']"
proof -
  let ?s = "snd (write_file_sync ''/f'' (Text [1]) (on_delete 7 (on_change 8 (new_fs 0 9))))"
  have "vfs_reachable (\<lambda>_ _. True) ?s"
    by (intro reach_step [OF _ step_write] reach_step [OF _ step_on] reach_new TrueI)
  moreover have "file_at ?s ''/f'' = Some 1" by code_simp
  ultimately have "exists_sync ''/f'' (snd (unlink_sync ''/f'' ?s)) = Inr False"
    "filter (\<lambda>e. case e of ToDelete _ _ \<Rightarrow> True | _ \<Rightarrow> False) (events (snd (unlink_sync ''/f'' ?s))) =
    filter (\<lambda>e. case e of ToDelete _ _ \<Rightarrow> True | _ \<Rightarrow> False) (events ?s) @
      map (\<lambda>l. ToDelete l (normalize_path ''/f'')) (delete_listeners ?s)"
    by (blast dest: unlink_removes)+
  moreover have "filter (\<lambda>e. case e of ToDelete _ _ \<Rightarrow> True | _ \<Rightarrow> False) (events ?s) = []"
    "map (\<lambda>l. ToDelete l (normalize_path ''/f'')) (delete_listeners ?s) = [ToDelete 7 ''/f'']"
    by code_simp+
  ultimately show ?thesis by (simp add: Let_def)
qed

subsection \<open>Moving\<close>

lemma ensure_loop_existing:
  "dir_walk fs a segs = Some b \<Longrightarrow> ensure_loop path passed segs a fs = (EnsuredAt b, fs)"
  by (induction segs arbitrary: a passed) (auto simp: is_directory_def split: option.splits if_splits)

lemma ensure_dir_existing:
  "dir_walk fs (root fs) (norm_segs p) = Some b \<Longrightarrow> 0 < stack_depth fs \<Longrightarrow> ensure_dir p fs = (Inr b, fs)"
  by (cases "stack_depth fs") (simp_all add: ensure_dir_def path_simps ensure_loop_existing)

lemma emit_deletes_same: "same_tree (emit_deletes ps s) s"
  by (rule same_tree_emit_deletes)

lemma emit_deletes_stack [simp]: "stack_depth (emit_deletes ps s) = stack_depth s"
  by (induction ps arbitrary: s) (simp_all add: emit_delete_def)

text \<open>Announcing the move of a file, over nothing or over a file: never an error.\<close>

lemma announce_move_file:
  assumes wf: "wf_fs s" and c: "ntype (nodes s c) = File" and stack: "0 < stack_depth s"
    and new: "norm_segs q = ds @ [n]" "dir_walk s (root s) ds = Some b" "child_at s b n = Some c"
    and rep: "\<And>d. replaced = Some d \<Longrightarrow> ntype (nodes s d) = File" and m: "mount (nodes s c) = None"
  shows "fst (announce_move p q c replaced s) = Inr ()"
    and "same_tree (snd (announce_move p q c replaced s)) s"
proof -
  let ?s1 = "notify_watchers q Rename (notify_watchers p Rename s)"
  have s1: "same_tree ?s1 s" by simp
  have st1: "stack_depth ?s1 = stack_depth s" by (simp add: notify_watchers_def Let_def)
  obtain k where k: "stack_depth s = Suc k" using stack by (cases "stack_depth s") auto
  have sub: "subtree_paths (stack_depth t) t r d = Some [r]"
    if "same_tree t s" "stack_depth t = stack_depth s" "ntype (nodes s d) = File" for t r d
    using that k by (simp add: is_directory_def same_treeD(1))
  have "gone_paths p q c replaced ?s1 \<noteq> None"
    using sub [OF s1 st1 c] sub [OF s1 st1 rep] by (auto simp: gone_paths_def split: option.split)
  then obtain gone where gone: "gone_paths p q c replaced ?s1 = Some gone" by blast
  define s2 where "s2 = (if delete_listeners ?s1 = [] then ?s1 else emit_deletes (rev gone) ?s1)"
  have eq2: "(if delete_listeners ?s1 = [] then (Inr (), ?s1)
      else case gone_paths p q c replaced ?s1 of None \<Rightarrow> (Inl StackOverflow, ?s1)
           | Some gone \<Rightarrow> (Inr (), emit_deletes (rev gone) ?s1)) = (Inr (), s2)"
    unfolding gone s2_def by simp
  have "same_tree (emit_deletes (rev gone) ?s1) s"
    using same_tree_emit_deletes [of "rev gone" ?s1] s1 by (simp add: same_tree_def)
  then have s2: "same_tree s2 s" "stack_depth s2 = stack_depth s"
    using s1 st1 by (simp_all add: s2_def)
  have wf2: "wf_fs s2" using wf wf_same [OF s2(1)] by simp
  have "child_at s2 b n = Some c" "plain_entry s2 b n"
    using new(3) c m by (simp_all add: child_at_same [OF s2(1)] same_treeD(1) [OF s2(1)] plain_entry_def)
  moreover have "dir_walk s2 (root s2) ds = Some b"
    using new(2) dir_walk_same_tree [OF s2(1)] same_treeD(3) [OF s2(1)] by simp
  ultimately obtain s3 where s3: "emit_changed q s2 = (Inr (), s3)"
    using emit_changed_ok [OF wf2 new(1)] by blast
  have r: "announce_move p q c replaced s = (Inr (), s3)"
    unfolding announce_move_def Let_def eq2 using sub [OF s2 c] s3 by simp
  then show "fst (announce_move p q c replaced s) = Inr ()" by simp
  have "same_tree s3 s2" using same_tree_emit_changed s3 by (metis snd_conv)
  with s2(1) r show "same_tree (snd (announce_move p q c replaced s)) s" by (simp add: same_tree_def)
qed

text \<open>The tree a rename leaves before it is announced: the entry taken out and put in.\<close>

definition moved_tree :: "addr \<Rightarrow> string \<Rightarrow> addr \<Rightarrow> string \<Rightarrow> addr \<Rightarrow> fs \<Rightarrow> fs" where
  "moved_tree a m b n c fs = set_child b n c (delete_child a m fs)"

lemma moved_tree_simps:
  "root (moved_tree a m b n c fs) = root fs" "stack_depth (moved_tree a m b n c fs) = stack_depth fs"
  "child_at (moved_tree a m b n c fs) b n = Some c"
  "ntype (nodes (moved_tree a m b n c fs) x) = ntype (nodes fs x)"
  "mount (nodes (moved_tree a m b n c fs) x) = mount (nodes fs x)"
  "\<not> (a = b \<and> m = n) \<Longrightarrow> child_at (moved_tree a m b n c fs) a m = None"
  "c \<noteq> a \<Longrightarrow> c \<noteq> b \<Longrightarrow> nodes (moved_tree a m b n c fs) c = nodes fs c"
  by (auto simp: moved_tree_def vfs_simps) (simp_all add: set_child_def delete_child_def)

lemma moved_tree_wf:
  assumes wf: "wf_fs fs" and a: "a < next_node fs" "child_at fs a m = Some c"
    and b: "b < next_node fs" "ntype (nodes fs b) = Directory" and n: "entry_name n"
  shows "wf_fs (moved_tree a m b n c fs)"
proof -
  have "b' = b \<and> k = n" if "has_entry (delete_child a m fs) b' k c" for b' k
    using that wf_unique [OF wf, of b' k c a m] a by (auto simp: has_entry_def vfs_simps split: if_splits)
  then show ?thesis
    unfolding moved_tree_def using wf_delete_child [OF wf] b n wf_child(1,2) [OF wf a]
    by (intro wf_set_child) (simp_all add: vfs_simps)
qed

lemma moved_tree_walk:
  assumes wf: "wf_fs fs" and ds: "dir_walk fs (root fs) ds = Some a" and es: "dir_walk fs (root fs) es = Some b"
    and p: "\<not> prefix (ds @ [m]) es" and ks: "dir_walk fs (root fs) ks = Some k"
    and k: "\<not> prefix (ds @ [m]) ks" "\<not> prefix (es @ [n]) ks"
  shows "dir_walk (moved_tree a m b n c fs) (root fs) ks = Some k"
proof -
  let ?d = "delete_child a m fs"
  have root: "root ?d = root fs" by (simp add: vfs_simps)
  have "dir_walk ?d (root ?d) es = Some b" "dir_walk ?d (root ?d) ks = Some k"
    unfolding root using dir_walk_delete_child [OF wf ds] es p ks k(1) by blast+
  then show ?thesis
    unfolding moved_tree_def root [symmetric]
    using dir_walk_set_child [OF wf_delete_child [OF wf]] k(2) by blast
qed

text \<open>A walk through directories does not pass an entry that is a file.\<close>

lemma file_not_prefix:
  assumes "dir_walk fs (root fs) ds = Some a" and "child_at fs a m = None \<or> (\<exists>c. child_at fs a m = Some c \<and> ntype (nodes fs c) = File)"
    and "dir_walk fs (root fs) es = Some b"
  shows "\<not> prefix (ds @ [m]) es"
proof
  assume "prefix (ds @ [m]) es"
  then obtain ks where "es = (ds @ [m]) @ ks" by (auto simp: prefix_def)
  with assms show False by (auto simp: dir_walk_append is_directory_def split: option.splits if_splits)
qed

lemma free_or_file:
  assumes wf: "wf_fs fs" and q: "base_name q \<noteq> []" "dir_walk fs (root fs) (norm_segs (parent_path q)) = Some b"
    "child_at fs b (base_name q) = None \<or> file_at fs q \<noteq> None"
  shows "child_at fs b (base_name q) = Some d \<Longrightarrow> ntype (nodes fs d) = File \<and> mount (nodes fs d) = None"
    and "\<not> crosses_mount fs (root fs) (norm_segs q)"
proof -
  show plain: "ntype (nodes fs d) = File \<and> mount (nodes fs d) = None" if "child_at fs b (base_name q) = Some d" for d
  proof -
    from that q(3) obtain e where "file_at fs q = Some e" by auto
    with file_at_facts [OF wf this] q(2) that show ?thesis by (metis option.inject)
  qed
  show "\<not> crosses_mount fs (root fs) (norm_segs q)"
    unfolding norm_segs_split [OF q(1)] crosses_mount_dirs [OF q(2)] using plain by (simp split: option.split)
qed

text \<open>C9: Renaming a file onto a free name or over another file answers, moves the very node (its bytes, mode,
  times and inode number), and the old path no longer exists.\<close>

theorem rename_moves:
  assumes reach: "vfs_reachable ok fs" and stack: "0 < stack_depth fs" and p: "file_at fs p = Some c"
    and q: "base_name q \<noteq> []" "dir_walk fs (root fs) (norm_segs (parent_path q)) = Some b"
      "child_at fs b (base_name q) = None \<or> file_at fs q \<noteq> None"
    and apart: "norm_segs p \<noteq> norm_segs q"
  shows "fst (rename_sync p q fs) = Inr () \<and> file_at (snd (rename_sync p q fs)) q = Some c \<and>
    nodes (snd (rename_sync p q fs)) c = nodes fs c \<and> exists_sync p (snd (rename_sync p q fs)) = Inr False"
proof -
  have wf: "wf_fs fs" using reach by (rule reach_wf)
  obtain a where a: "norm_segs p = norm_segs (parent_path p) @ [base_name p]"
    "dir_walk fs (root fs) (norm_segs (parent_path p)) = Some a" "child_at fs a (base_name p) = Some c"
    "ntype (nodes fs c) = File" "mount (nodes fs c) = None" "a < next_node fs"
    "is_directory fs a" "get_node fs (parent_path p) = Inr (Some a)"
    "\<not> crosses_mount fs (root fs) (norm_segs p)"
    using wf p by (rule file_at_facts)
  note free = free_or_file [OF wf q]
  let ?s = "moved_tree a (base_name p) b (base_name q) c fs"
  note ms = moved_tree_simps [where a = a and m = "base_name p" and b = b and n = "base_name q" and c = c and fs = fs]
  have b: "b < next_node fs" "ntype (nodes fs b) = Directory"
    using dir_walk_allocated [OF wf wf_root [OF wf] q(2)] dir_walk_dir [OF q(2) root_directory [OF wf]]
    by (simp_all add: is_directory_def)
  have apart': "\<not> (a = b \<and> base_name p = base_name q)"
    using walk_inj [OF wf dir_walk_walk [OF a(2)]] dir_walk_walk [OF q(2)] a(1) norm_segs_split [OF q(1)] apart
    by metis
  have q_walk: "\<not> prefix (norm_segs (parent_path p) @ [base_name p]) (norm_segs (parent_path q))"
    using a(3,4) by (intro file_not_prefix [OF a(2) _ q(2)]) blast
  have p_walk: "\<not> prefix (norm_segs (parent_path q) @ [base_name q]) (norm_segs (parent_path p))"
    using free(1) by (intro file_not_prefix [OF q(2) _ a(2)]) (cases "child_at fs b (base_name q)"; simp)
  have wfs: "wf_fs ?s" using wf a(6,3) b base_name_entry by (rule moved_tree_wf)
  have walks: "dir_walk ?s (root ?s) (norm_segs (parent_path p)) = Some a"
    "dir_walk ?s (root ?s) (norm_segs (parent_path q)) = Some b"
    using moved_tree_walk [OF wf a(2) q(2) q_walk a(2) not_prefix_snoc p_walk]
      moved_tree_walk [OF wf a(2) q(2) q_walk q(2) q_walk not_prefix_snoc] by (simp_all only: ms(1))
  have "c \<noteq> a" "c \<noteq> b" using a(4,7) b(2) by (auto simp: is_directory_def)
  then have node: "nodes ?s c = nodes fs c" by (rule ms(7))
  let ?r = "announce_move (normalize_path p) (normalize_path q) c (child_at fs b (base_name q)) ?s"
  have r: "rename_sync p q fs = ?r"
    using a(3,7,8,9) free(2) ensure_dir_existing [OF q(2) stack]
    by (simp add: rename_sync_def Let_def assert_writable_def require_parent_def path_simps moved_tree_def)
  have new: "norm_segs (normalize_path q) = norm_segs (parent_path q) @ [base_name q]"
    using norm_segs_split [OF q(1)] by (simp only: norm_segs_normalize)
  have "ntype (nodes ?s c) = File" "mount (nodes ?s c) = None" "0 < stack_depth ?s"
    unfolding ms(2,4,5) using a(4,5) stack by simp_all
  then have ok: "fst ?r = Inr ()" "same_tree (snd ?r) ?s"
    using announce_move_file [OF wfs _ _ new walks(2) ms(3), where p = "normalize_path p" and replaced = "child_at fs b (base_name q)"] free(1)
    unfolding ms(4) by blast+
  note same = ok(2)
  have "file_at (snd ?r) q = Some c"
    using walks(2) ms(3) q(1) a(4) node same_treeD [OF same]
    by (simp add: file_at_def dir_walk_same_tree [OF same] child_at_same [OF same])
  moreover have "get_node ?s p = Inr None"
    using get_node_entry [OF wfs a(1) walks(1)] ms(6) [OF apart'] by (simp add: plain_entry_def)
  then have "exists_sync p (snd ?r) = Inr False" using get_node_same_tree [OF same] by (simp add: exists_sync_def)
  ultimately show ?thesis using ok(1) node same_treeD(1) [OF same] unfolding r by simp
qed

lemma rename_moves_witness:
  "let s = snd (write_file_sync ''/f'' (Text [1]) (new_fs 0 9)) in
     fst (rename_sync ''/f'' ''/g'' s) = Inr () \<and> file_at (snd (rename_sync ''/f'' ''/g'' s)) ''/g'' = Some 1"
proof -
  let ?s = "snd (write_file_sync ''/f'' (Text [1]) (new_fs 0 9))"
  have "vfs_reachable (\<lambda>_ _. True) ?s" by (intro reach_step [OF _ step_write] reach_new TrueI)
  moreover have "0 < stack_depth ?s" "file_at ?s ''/f'' = Some 1" "base_name ''/g'' \<noteq> []"
    "dir_walk ?s (root ?s) (norm_segs (parent_path ''/g'')) = Some 0"
    "norm_segs ''/f'' \<noteq> norm_segs ''/g''" by code_simp+
  moreover have "child_at ?s 0 (base_name ''/g'') = None \<or> file_at ?s ''/g'' \<noteq> None"
  proof -
    have "child_at ?s 0 (base_name ''/g'') = None" by code_simp
    then show ?thesis ..
  qed
  ultimately show ?thesis unfolding Let_def by (blast dest: rename_moves)
qed

subsection \<open>Who is told\<close>

text \<open>
  The specification of a notification: the watchers of the path itself hear its name;
  then, from the nearest directory up to the root, the watchers there hear the path
  relative to their directory, those of the parent always, those further up when they
  watch recursively.
\<close>

definition told_at :: "fs \<Rightarrow> string list \<Rightarrow> watch_type \<Rightarrow> nat \<Rightarrow> delivery list" where
  "told_at fs segs ev k =
     deliver_at fs (render (take k segs)) (\<lambda>w. recursive w \<or> Suc k = length segs) ev
       (join_with ''/'' (drop k segs))"

lemma deliver_up_told:
  assumes clean: "\<forall>s \<in> set segs. clean_name s" and "segs \<noteq> []"
  shows "k < length segs \<Longrightarrow> rel = join_with ''/'' (drop k segs) \<Longrightarrow>
    deliver_up fs (render segs) ev (render (take k segs)) rel =
      concat (map (told_at fs segs ev) (rev [0..<Suc k]))"
proof (induction k arbitrary: rel)
  case 0
  have "parent_path (render segs) = ''/'' \<longleftrightarrow> Suc 0 = length segs"
    unfolding parent_path_segs norm_segs_render [OF clean] render_eq_root [OF clean_butlast [OF clean]]
    using 0 by (cases segs rule: rev_cases) auto
  with 0 show ?case by (subst deliver_up.simps) (simp add: told_at_def)
next
  case (Suc k)
  have ck: "\<forall>s \<in> set (take j segs). clean_name s" for j using clean by (blast dest: in_set_takeD)
  have ne: "render (take (Suc k) segs) \<noteq> ''/''"
    using render_eq_root [OF ck] Suc.prems(1) by auto
  have parent: "parent_path (render (take (Suc k) segs)) = render (take k segs)"
    using Suc.prems(1) by (simp add: parent_path_segs norm_segs_render [OF ck] butlast_take)
  have base: "base_name (render (take (Suc k) segs)) = segs ! k"
    unfolding base_name_segs norm_segs_render [OF ck]
    using Suc.prems(1) by (auto simp: take_Suc_conv_app_nth)
  have here: "parent_path (render segs) = render (take (Suc k) segs) \<longleftrightarrow> Suc (Suc k) = length segs"
  proof -
    have "parent_path (render segs) = render (take (length segs - 1) segs)"
      by (simp add: parent_path_segs norm_segs_render [OF clean] butlast_conv_take)
    moreover have "render (take i segs) = render (take j segs) \<longleftrightarrow> take i segs = take j segs" for i j
      using norm_segs_render [OF ck, of i] norm_segs_render [OF ck, of j] by metis
    moreover have "take (length segs - 1) segs = take (Suc k) segs \<longleftrightarrow> length segs - 1 = Suc k"
    proof
      assume "take (length segs - 1) segs = take (Suc k) segs"
      then have "length (take (length segs - 1) segs) = length (take (Suc k) segs)" by (rule arg_cong)
      then show "length segs - 1 = Suc k" using Suc.prems(1) by simp
    qed simp
    ultimately show ?thesis using Suc.prems(1) by auto
  qed
  have rel: "segs ! k @ ''/'' @ rel = join_with ''/'' (drop k segs)"
  proof -
    obtain y ys where y: "drop (Suc k) segs = y # ys" using Suc.prems(1) by (cases "drop (Suc k) segs") auto
    then have "drop k segs = segs ! k # y # ys" using Cons_nth_drop_Suc [of k segs] Suc.prems(1) by simp
    with y Suc.prems(2) show ?thesis by simp
  qed
  have IH: "deliver_up fs (render segs) ev (render (take k segs)) (segs ! k @ ''/'' @ rel) =
      concat (map (told_at fs segs ev) (rev [0..<Suc k]))"
    using Suc.prems(1) rel by (intro Suc.IH) simp_all
  have "deliver_up fs (render segs) ev (render (take (Suc k) segs)) rel =
      told_at fs segs ev (Suc k) @
      deliver_up fs (render segs) ev (render (take k segs)) (segs ! k @ ''/'' @ rel)"
    unfolding deliver_up.simps [of fs "render segs" ev "render (take (Suc k) segs)"] parent base here told_at_def
    using ne Suc.prems(2) by simp
  then show ?case unfolding IH by simp
qed



end
