(* ===== verification/VfsFindings.thy ===== *)
theory VfsFindings
  imports VfsPromises
begin

text \<open>
  Behaviours of \<open>class VirtualFS\<close> that Linux and Node, which its comments name as the
  model, do not have, each shown on a small file system.
\<close>

subsection \<open>Links and read-only trees\<close>

text \<open>
  The host's tree \<open>/m\<close> holds one file \<open>f\<close> (node 2), and \<open>/l\<close> is a link to \<open>/m\<close>.
  \<open>assertWritable\<close> walks the path as written and stops at the link, so the write is let
  through and changes the host's own node; by its own path the same write is refused.
\<close>

definition host_tree :: mtree where
  "host_tree p = (if p = ''/'' then Some 1 else if p = ''/f'' then Some 2 else None)"

definition linked_mount :: fs where
  "linked_mount =
     (let fs = snd (alloc_node (new_directory 0) (new_fs 0 9));
          fs = snd (alloc_node ((new_directory 0)\<lparr>ntype := File\<rparr>) fs);
          fs = snd (mount_tree ''/m'' host_tree fs)
      in snd (symlink_sync ''/m'' ''/l'' fs))"

lemma link_into_mount_is_written:
  "isl (fst (append_file_sync ''/m/f'' (Text [7]) linked_mount))"
  "fst (append_file_sync ''/l/f'' (Text [7]) linked_mount) = Inr ()"
  by code_simp+

lemma link_into_mount_chmod:
  "isl (fst (chmod_sync ''/m/f'' 511 linked_mount))"
  "fst (chmod_sync ''/l/f'' 511 linked_mount) = Inr ()"
  "mode (nodes (snd (chmod_sync ''/l/f'' 511 linked_mount)) 2) = Some 511"
  by code_simp+

text \<open>A file created through the link lands in the mount point's own map, which no lookup reads.\<close>

lemma created_through_link_is_lost:
  "fst (write_file_sync ''/l/g'' (Text [7]) linked_mount) = Inr ()"
  "exists_sync ''/l/g'' (snd (write_file_sync ''/l/g'' (Text [7]) linked_mount)) = Inr False"
  by code_simp+

subsection \<open>Cycles of links\<close>

text \<open>\<open>/a\<close> is a link to itself: a lookup says \<open>ELOOP\<close>, a write below it exhausts the stack, however deep.\<close>

definition link_cycle :: fs where
  "link_cycle = snd (symlink_sync ''/a'' ''/a'' (new_fs 0 9))"

lemma ensure_loop_link:
  assumes "child_at fs a n = Some c" and "ntype (nodes fs c) = Symlink"
  shows "ensure_loop path passed (n # rest) a fs =
    (EnsureJump (link_jump (passed @ [n]) (target (nodes fs c)) rest), fs)"
  using assms by simp

lemma ensure_directory_cycle: "ensure_directory calls ''/a'' link_cycle = (Inl StackOverflow, link_cycle)"
proof (induction calls)
  case (Suc calls)
  have "child_at link_cycle (root link_cycle) ''a'' = Some 1" "ntype (nodes link_cycle 1) = Symlink"
    "link_jump ([] @ [''a'']) (target (nodes link_cycle 1)) [] = ''/a''" by code_simp+
  then have "ensure_loop ''/a'' [] [''a''] (root link_cycle) link_cycle = (EnsureJump ''/a'', link_cycle)"
    by (simp only: ensure_loop_link)
  moreover have "path_segments ''/a'' = [''a'']" by code_simp
  ultimately show ?case using Suc by simp
qed simp

lemma link_cycle_write_overflows: "fst (write_file_sync ''/a/f'' (Text [1]) link_cycle) = Inl StackOverflow"
proof -
  have "assert_writable (normalize_path ''/a/f'') ''open'' link_cycle = (Inr (), link_cycle)"
  proof -
    have "\<not> crosses_mount link_cycle (root link_cycle) (path_segments (normalize_path ''/a/f''))" by code_simp
    then show ?thesis by (simp add: assert_writable_def)
  qed
  moreover have "base_name (normalize_path ''/a/f'') \<noteq> []" "parent_path (normalize_path ''/a/f'') = ''/a''"
    by code_simp+
  ultimately show ?thesis
    by (simp add: write_file_sync_def write_file_internal_def Let_def ensure_dir_def ensure_directory_cycle
        del: names_of_normalized)
qed

lemma link_cycle_lookup: "get_node link_cycle ''/a'' = Inl (node_err ELOOP ''stat'' ''/a'')"
  by code_simp

text \<open>\<open>existsSync\<close>, which in Node never throws, throws it too, and the error has no errno and no message.\<close>

lemma exists_throws: "isl (exists_sync ''/a'' link_cycle)"
  by code_simp

lemma eloop_undefined:
  "err_errno (create_node_error ELOOP s p) = None"
  "err_message (create_node_error EINVAL ''readlink'' ''/f'') = ''EINVAL: undefined, readlink '' @ [CHR 0x27] @ ''/f'' @ [CHR 0x27]"
  by (simp_all add: create_node_error_def)

subsection \<open>Names the operations do not check\<close>

lemma those_None: "None \<in> set xs \<Longrightarrow> those xs = None"
  by (induction xs) (auto split: option.split)

text \<open>Moving a directory below itself: the error comes after the subtree is cut off for good.\<close>

lemma subtree_paths_cycle:
  "is_directory fs a \<Longrightarrow> child_at fs a n = Some a \<Longrightarrow> subtree_paths calls fs p a = None"
proof (induction calls arbitrary: p)
  case (Suc calls)
  then have "(n, a) \<in> set (children (nodes fs a))" by (simp add: child_at_def map_of_SomeD)
  then have "None \<in> set (map (\<lambda>(m, c). subtree_paths calls fs (below p m) c) (children (nodes fs a)))"
    using Suc.IH [OF Suc.prems, of "below p n"] by (auto simp: image_iff intro: rev_bexI)
  then have "those (map (\<lambda>(m, c). subtree_paths calls fs (below p m) c) (children (nodes fs a))) = None"
    by (rule those_None)
  with Suc.prems show ?case by simp
qed simp

definition one_file_dir :: fs where
  "one_file_dir = snd (write_file_sync ''/a/f'' (Text [1]) (new_fs 0 2))"

lemma rename_into_itself_loses:
  assumes wf: "wf_fs fs" and stack: "0 < stack_depth fs"
    and n: "norm_segs p = [n]" "child_at fs (root fs) n = Some a" "is_directory fs a" "mount (nodes fs a) = None"
    and m: "norm_segs q = [n, m]" "child_at fs a m = None"
  shows "fst (rename_sync p q fs) = Inl StackOverflow"
    and "child_at (snd (rename_sync p q fs)) (root fs) n = None"
proof -
  have a: "a \<noteq> root fs" using wf_child(2) [OF wf wf_root [OF wf] n(2)] .
  let ?s = "set_child a m a (delete_child (root fs) n fs)"
  have root: "get_node fs (parent_path p) = Inr (Some (root fs))" "is_directory fs (root fs)"
    using get_node_dir [OF wf, of "parent_path p"] n(1) root_directory [OF wf] by (simp_all add: path_simps)
  have free: "\<not> crosses_mount fs (root fs) (norm_segs p)" "\<not> crosses_mount fs (root fs) (norm_segs q)"
    using n m by simp_all
  have dir: "ensure_dir (parent_path q) fs = (Inr a, fs)"
    using n m stack by (intro ensure_dir_existing) (simp_all add: path_simps)
  have r: "rename_sync p q fs = announce_move (normalize_path p) (normalize_path q) a None ?s"
    using n m root free dir
    by (simp add: rename_sync_def Let_def assert_writable_def require_parent_def path_simps base_name_segs)
  have loop: "is_directory t a \<and> child_at t a m = Some a \<and> child_at t (root fs) n = None" if "same_tree t ?s" for t
    using n(3) a by (auto simp: child_at_same [OF that] same_treeD(1) [OF that] is_directory_def vfs_simps)
  have none: "subtree_paths k t r a = None" if "same_tree t ?s" for k t r
    using loop [OF that] by (blast intro: subtree_paths_cycle)
  let ?t = "notify_watchers (normalize_path q) Rename (notify_watchers (normalize_path p) Rename ?s)"
  have same: "same_tree ?t ?s" by simp
  have "announce_move (normalize_path p) (normalize_path q) a None ?s = (Inl StackOverflow, ?t)"
    by (simp add: announce_move_def Let_def gone_paths_def none [OF same])
  then show "fst (rename_sync p q fs) = Inl StackOverflow"
    and "child_at (snd (rename_sync p q fs)) (root fs) n = None"
    using r loop [OF same] by simp_all
qed

text \<open>Writing a file over a directory replaces the directory, with what is in it.\<close>

lemma write_over_directory_replaces:
  "fst (write_file_sync ''/a'' (Text [2]) one_file_dir) = Inr ()"
  "exists_sync ''/a/f'' (snd (write_file_sync ''/a'' (Text [2]) one_file_dir)) = Inr False"
  by code_simp+

text \<open>Writing through a link replaces the link and leaves the file it names as it was.\<close>

definition linked_file :: fs where
  "linked_file = snd (symlink_sync ''/f'' ''/l'' (snd (write_file_sync ''/f'' (Text [1]) (new_fs 0 4))))"

lemma write_replaces_link:
  "fst (readlink_sync ''/l'' linked_file) = Inr ''/f''"
  "isl (fst (readlink_sync ''/l'' (snd (write_file_sync ''/l'' (Text [2]) linked_file))))"
  "fst (read_text_sync ''/f'' (snd (write_file_sync ''/l'' (Text [2]) linked_file))) = Inr [1]"
  by code_simp+

text \<open>The root has no name: a link made there is an entry named by the empty string.\<close>

lemma symlink_at_root: "fst (readdir_sync ''/'' (snd (symlink_sync ''/x'' ''/'' (new_fs 0 4)))) = Inr [[]]"
  by code_simp

subsection \<open>The caller's array\<close>

text \<open>A write keeps the caller's own array: what the caller stores in it later, the file reads.\<close>

lemma write_keeps_caller_array:
  "let (v, st) = new_u8 [1] (arrays (new_fs 0 4));
       fs = snd (write_file_sync ''/f'' (Array v) ((new_fs 0 4)\<lparr>arrays := st\<rparr>));
       later = (case u8_set v [9] 0 (arrays fs) of Some st' \<Rightarrow> fs\<lparr>arrays := st'\<rparr> | None \<Rightarrow> fs)
   in fst (read_text_sync ''/f'' fs) = Inr [1] \<and> fst (read_text_sync ''/f'' later) = Inr [9]"
  by code_simp

end
