(* ===== verification/Encodings.thy ===== *)
theory Encodings
  imports Prelude
begin

text \<open>
  The part of the Encoding Standard the sources use: \<open>TextEncoder\<close>, and
  \<open>TextDecoder\<close> for utf-8, utf-16le and the label latin1 (which the standard reads
  as windows-1252), as a JavaScript realm gives them.  A JavaScript string is a list
  of 16-bit units.  A decoder made without \<open>ignoreBOM\<close> drops the first U+FEFF of
  what it decodes: \<open>drop_bom\<close>.

  The decoder for utf-8 is the standard's state machine, \<open>utf8_step\<close>: an idle
  decoder, or one that waits for continuation bytes in a range.  What the library
  takes from here is how a decode splits at a boundary (\<open>utf8_decode_split\<close>,
  \<open>utf8_decode_at_start\<close>) and that decoding what was encoded gives the scalar
  values back (\<open>utf8_decode_encode\<close>).
\<close>

named_theorems decode_simps \<open>laws of the platform's encoders and decoders\<close>

type_synonym units = "16 word list"

abbreviation replacement :: "16 word" where "replacement \<equiv> 0xFFFD"

definition drop_bom :: "units \<Rightarrow> units" where
  "drop_bom us = (case us of u # rest \<Rightarrow> if u = 0xFEFF then rest else us | [] \<Rightarrow> [])"

lemma drop_bom_id [decode_simps]: "0xFEFF \<notin> set us \<Longrightarrow> drop_bom us = us"
  by (cases us) (auto simp: drop_bom_def)

lemma drop_bom_Nil [simp]: "drop_bom [] = []"
  by (simp add: drop_bom_def)

subsection \<open>Scalar values of a string\<close>

definition lead_surrogate :: "16 word \<Rightarrow> bool" where
  "lead_surrogate u \<longleftrightarrow> 0xD800 \<le> unat u \<and> unat u < 0xDC00"

definition trail_surrogate :: "16 word \<Rightarrow> bool" where
  "trail_surrogate u \<longleftrightarrow> 0xDC00 \<le> unat u \<and> unat u < 0xE000"

fun scalars :: "units \<Rightarrow> nat list" where
  "scalars [] = []"
| "scalars [u] = [if lead_surrogate u \<or> trail_surrogate u then 0xFFFD else unat u]"
| "scalars (u # v # us) =
     (if lead_surrogate u \<and> trail_surrogate v
      then (0x10000 + (unat u - 0xD800) * 1024 + (unat v - 0xDC00)) # scalars us
      else (if lead_surrogate u \<or> trail_surrogate u then 0xFFFD else unat u) # scalars (v # us))"

definition units_of :: "nat \<Rightarrow> units" where
  "units_of cp =
     (if cp < 0x10000 then [of_nat cp]
      else [of_nat (0xD800 + (cp - 0x10000) div 1024), of_nat (0xDC00 + (cp - 0x10000) mod 1024)])"

definition scalar_value :: "nat \<Rightarrow> bool" where
  "scalar_value cp \<longleftrightarrow> cp < 0xD800 \<or> 0xE000 \<le> cp \<and> cp < 0x110000"

text \<open>A string all of whose surrogates are paired.\<close>

fun well_formed_units :: "units \<Rightarrow> bool" where
  "well_formed_units [] = True"
| "well_formed_units [u] = (\<not> lead_surrogate u \<and> \<not> trail_surrogate u)"
| "well_formed_units (u # v # us) =
     (if lead_surrogate u then trail_surrogate v \<and> well_formed_units us
      else \<not> trail_surrogate u \<and> well_formed_units (v # us))"

lemma unat16: "unat (u :: 16 word) < 0x10000"
  using unsigned_less [of u, where ?'a = nat] by simp

lemma unat8: "unat (b :: byte) < 0x100"
  using unsigned_less [of b, where ?'a = nat] by simp

lemma scalars_scalar: "c \<in> set (scalars us) \<Longrightarrow> scalar_value c"
proof (induction us rule: scalars.induct)
  case (2 u)
  then show ?case using unat16 [of u]
    by (auto simp: scalar_value_def lead_surrogate_def trail_surrogate_def split: if_splits)
next
  case (3 u v us)
  then show ?case using unat16 [of u]
    by (auto simp: scalar_value_def lead_surrogate_def trail_surrogate_def split: if_splits)
qed simp

lemma unat_of_nat16 [simp]: "n < 0x10000 \<Longrightarrow> unat (of_nat n :: 16 word) = n"
  by (simp add: unat_of_nat)

lemma units_of_unat [simp]: "units_of (unat (u :: 16 word)) = [u]"
  using unat16 [of u] by (simp add: units_of_def)

lemma units_of_pair:
  assumes "lead_surrogate u" "trail_surrogate v"
  shows "units_of (0x10000 + (unat u - 0xD800) * 1024 + (unat v - 0xDC00)) = [u, v]"
proof -
  have "unat v - 0xDC00 < 1024" using assms(2) by (auto simp: trail_surrogate_def)
  then have "((unat u - 0xD800) * 1024 + (unat v - 0xDC00)) div 1024 = unat u - 0xD800"
    "((unat u - 0xD800) * 1024 + (unat v - 0xDC00)) mod 1024 = unat v - 0xDC00"
    by auto
  with assms show ?thesis by (simp add: units_of_def lead_surrogate_def trail_surrogate_def)
qed

lemma scalars_units [decode_simps]:
  "well_formed_units us \<Longrightarrow> concat (map units_of (scalars us)) = us"
  by (induction us rule: scalars.induct) (auto simp: units_of_pair split: if_splits)

subsection \<open>utf-8\<close>

definition utf8_bytes :: "nat \<Rightarrow> bytes" where
  "utf8_bytes cp =
     (if cp < 0x80 then [of_nat cp]
      else if cp < 0x800 then [of_nat (0xC0 + cp div 64), of_nat (0x80 + cp mod 64)]
      else if cp < 0x10000
      then [of_nat (0xE0 + cp div 4096), of_nat (0x80 + cp div 64 mod 64), of_nat (0x80 + cp mod 64)]
      else [of_nat (0xF0 + cp div 262144), of_nat (0x80 + cp div 4096 mod 64),
            of_nat (0x80 + cp div 64 mod 64), of_nat (0x80 + cp mod 64)])"

definition utf8_encode :: "units \<Rightarrow> bytes" where
  "utf8_encode us = concat (map utf8_bytes (scalars us))"

text \<open>\<open>encodeInto\<close>: the whole code points that fit in the room.\<close>

fun whole_points :: "nat \<Rightarrow> nat list \<Rightarrow> bytes" where
  "whole_points room [] = []"
| "whole_points room (cp # cps) =
     (let b = utf8_bytes cp
      in if length b \<le> room then b @ whole_points (room - length b) cps else [])"

definition encode_into :: "units \<Rightarrow> nat \<Rightarrow> bytes" where
  "encode_into us room = whole_points room (scalars us)"

datatype utf8_state = Idle | More nat nat nat nat

fun utf8_start :: "nat \<Rightarrow> units \<times> utf8_state" where
  "utf8_start n =
     (if n < 0x80 then ([of_nat n], Idle)
      else if n < 0xC2 then ([replacement], Idle)
      else if n < 0xE0 then ([], More (n - 0xC0) 1 0x80 0xBF)
      else if n < 0xF0
      then ([], More (n - 0xE0) 2 (if n = 0xE0 then 0xA0 else 0x80) (if n = 0xED then 0x9F else 0xBF))
      else if n < 0xF5
      then ([], More (n - 0xF0) 3 (if n = 0xF0 then 0x90 else 0x80) (if n = 0xF4 then 0x8F else 0xBF))
      else ([replacement], Idle))"

fun utf8_step :: "utf8_state \<Rightarrow> nat \<Rightarrow> units \<times> utf8_state" where
  "utf8_step Idle n = utf8_start n"
| "utf8_step (More cp k lo hi) n =
     (if lo \<le> n \<and> n \<le> hi
      then let cp' = cp * 64 + (n - 0x80)
           in if k = 1 then (units_of cp', Idle) else ([], More cp' (k - 1) 0x80 0xBF)
      else (let (out, s) = utf8_start n in (replacement # out, s)))"

declare utf8_start.simps [simp del]

fun utf8_flush :: "utf8_state \<Rightarrow> units" where
  "utf8_flush Idle = []"
| "utf8_flush (More cp k lo hi) = [replacement]"

fun utf8_run :: "utf8_state \<Rightarrow> bytes \<Rightarrow> units \<times> utf8_state" where
  "utf8_run s [] = ([], s)"
| "utf8_run s (b # bs) =
     (let (out, s') = utf8_step s (unat b); (rest, s'') = utf8_run s' bs in (out @ rest, s''))"

definition utf8_decode :: "bytes \<Rightarrow> units" where
  "utf8_decode bs = (let (out, s) = utf8_run Idle bs in out @ utf8_flush s)"

lemma utf8_run_append [decode_simps]:
  "utf8_run s (xs @ ys) =
     (let (a, s') = utf8_run s xs; (b, s'') = utf8_run s' ys in (a @ b, s''))"
  by (induction xs arbitrary: s) (auto split: prod.splits)

lemma utf8_decode_Nil [simp]: "utf8_decode [] = []"
  by (simp add: utf8_decode_def)

lemma utf8_decode_split:
  "snd (utf8_run Idle xs) = Idle \<Longrightarrow> utf8_decode (xs @ ys) = utf8_decode xs @ utf8_decode ys"
  by (auto simp: utf8_decode_def utf8_run_append split: prod.splits)

definition continuation :: "byte \<Rightarrow> bool" where
  "continuation b \<longleftrightarrow> 0x80 \<le> unat b \<and> unat b < 0xC0"

text \<open>The states a decoder reaches wait for continuation bytes only.\<close>

fun waits_in_range :: "utf8_state \<Rightarrow> bool" where
  "waits_in_range Idle = True"
| "waits_in_range (More cp k lo hi) = (0x80 \<le> lo \<and> hi \<le> 0xBF)"

lemma start_in_range: "waits_in_range (snd (utf8_start n))"
  by (auto simp: utf8_start.simps)

lemma step_in_range: "waits_in_range s \<Longrightarrow> waits_in_range (snd (utf8_step s n))"
  using start_in_range [of n] by (cases s) (auto simp: Let_def split: prod.splits)

lemma run_in_range: "waits_in_range s \<Longrightarrow> waits_in_range (snd (utf8_run s bs))"
proof (induction bs arbitrary: s)
  case (Cons b bs)
  from Cons.IH [OF step_in_range [OF Cons.prems, of "unat b"]] show ?case
    by (auto split: prod.splits)
qed simp

lemma step_not_continuation:
  assumes "waits_in_range s" "\<not> continuation b"
  shows "utf8_step s (unat b) =
    (let (out, s') = utf8_start (unat b) in (utf8_flush s @ out, s'))"
  using assms by (cases s) (auto simp: continuation_def split: prod.splits)

lemma utf8_decode_at_start:
  assumes "ys = [] \<or> \<not> continuation (hd ys)"
  shows "utf8_decode (xs @ ys) = utf8_decode xs @ utf8_decode ys"
proof (cases ys)
  case (Cons y ys')
  have "waits_in_range (snd (utf8_run Idle xs))" by (rule run_in_range) simp
  with assms Cons step_not_continuation [of "snd (utf8_run Idle xs)" y] show ?thesis
    by (auto simp: utf8_decode_def utf8_run_append split: prod.splits)
qed simp

text \<open>How many continuation bytes a state still takes.\<close>

fun still_takes :: "utf8_state \<Rightarrow> nat" where
  "still_takes Idle = 0"
| "still_takes (More cp k lo hi) = k"

lemma start_continuation: "continuation b \<Longrightarrow> utf8_start (unat b) = ([replacement], Idle)"
  by (auto simp: utf8_start.simps continuation_def)

lemma step_continuation:
  "continuation b \<Longrightarrow> still_takes (snd (utf8_step s (unat b))) \<le> still_takes s - 1"
  by (cases s) (auto simp: start_continuation Let_def)

lemma run_continuations:
  "(\<forall>b\<in>set bs. continuation b) \<Longrightarrow> still_takes (snd (utf8_run s bs)) \<le> still_takes s - length bs"
proof (induction bs arbitrary: s)
  case (Cons b bs)
  have "still_takes (snd (utf8_run (snd (utf8_step s (unat b))) bs)) \<le>
    still_takes (snd (utf8_step s (unat b))) - length bs"
    using Cons by simp
  also have "\<dots> \<le> still_takes s - length (b # bs)"
    using step_continuation [of b s] Cons.prems by simp
  finally show ?case by (auto split: prod.splits)
qed simp

text \<open>No state waits for nothing, so a state that takes no more bytes is idle.\<close>

fun waits_for_some :: "utf8_state \<Rightarrow> bool" where
  "waits_for_some Idle = True"
| "waits_for_some (More cp k lo hi) = (0 < k)"

lemma start_waits: "waits_for_some (snd (utf8_start n))"
  by (auto simp: utf8_start.simps)

lemma step_waits: "waits_for_some s \<Longrightarrow> waits_for_some (snd (utf8_step s n))"
  using start_waits [of n] by (cases s) (auto simp: Let_def split: prod.splits)

lemma run_waits: "waits_for_some s \<Longrightarrow> waits_for_some (snd (utf8_run s bs))"
proof (induction bs arbitrary: s)
  case (Cons b bs)
  from Cons.IH [OF step_waits [OF Cons.prems, of "unat b"]] show ?case
    by (auto split: prod.splits)
qed simp

lemma takes_nothing_idle: "waits_for_some s \<Longrightarrow> still_takes s = 0 \<Longrightarrow> s = Idle"
  by (cases s) auto

text \<open>A byte followed by as many continuation bytes as it can lead ends a sequence.\<close>

lemma run_complete:
  assumes "\<forall>b\<in>set bs. continuation b" "still_takes (snd (utf8_step s (unat c))) \<le> length bs"
    "waits_for_some s"
  shows "snd (utf8_run s (c # bs)) = Idle"
proof -
  have "still_takes (snd (utf8_run (snd (utf8_step s (unat c))) bs)) = 0"
    using run_continuations [OF assms(1), of "snd (utf8_step s (unat c))"] assms(2) by simp
  then have "snd (utf8_run (snd (utf8_step s (unat c))) bs) = Idle"
    using run_waits [OF step_waits [OF assms(3)]] takes_nothing_idle by blast
  then show ?thesis by (auto split: prod.splits)
qed

lemma unat_of_nat8 [simp]: "n < 0x100 \<Longrightarrow> unat (of_nat n :: byte) = n"
  by (simp add: unat_of_nat)

subsection \<open>Decoding what was encoded\<close>

lemma scalar_lt: "scalar_value cp \<Longrightarrow> cp < 0x110000"
  by (auto simp: scalar_value_def)

text \<open>The bytes by the six bit digits of the code point.\<close>

lemma run_two_digits:
  assumes "2 \<le> a" "a < 32" "c < 64"
  shows "utf8_run Idle [of_nat (0xC0 + a), of_nat (0x80 + c)] = (units_of (a * 64 + c), Idle)"
  using assms by (simp add: utf8_start.simps Let_def del: of_nat_add of_nat_numeral)

lemma run_three_digits:
  assumes "a < 16" "b < 64" "c < 64" "a \<noteq> 0 \<or> 32 \<le> b" "a \<noteq> 13 \<or> b < 32"
  shows "utf8_run Idle [of_nat (0xE0 + a), of_nat (0x80 + b), of_nat (0x80 + c)] =
    (units_of ((a * 64 + b) * 64 + c), Idle)"
proof -
  have "utf8_step Idle (0xE0 + a) = ([], More a 2 (if a = 0 then 0xA0 else 0x80) (if a = 13 then 0x9F else 0xBF))"
    using assms(1) by (simp add: utf8_start.simps)
  moreover have "utf8_step (More a 2 (if a = 0 then 0xA0 else 0x80) (if a = 13 then 0x9F else 0xBF)) (0x80 + b) =
      ([], More (a * 64 + b) 1 0x80 0xBF)"
    using assms by (auto simp: Let_def)
  moreover have "utf8_step (More (a * 64 + b) 1 0x80 0xBF) (0x80 + c) = (units_of ((a * 64 + b) * 64 + c), Idle)"
    using assms by (simp add: Let_def)
  ultimately show ?thesis using assms(1-3)
    by (simp del: of_nat_add of_nat_numeral utf8_step.simps)
qed

lemma run_four_digits:
  assumes "a < 5" "b < 64" "c < 64" "d < 64" "a \<noteq> 0 \<or> 16 \<le> b" "a \<noteq> 4 \<or> b < 16"
  shows "utf8_run Idle [of_nat (0xF0 + a), of_nat (0x80 + b), of_nat (0x80 + c), of_nat (0x80 + d)] =
    (units_of (((a * 64 + b) * 64 + c) * 64 + d), Idle)"
proof -
  have "utf8_step Idle (0xF0 + a) = ([], More a 3 (if a = 0 then 0x90 else 0x80) (if a = 4 then 0x8F else 0xBF))"
    using assms(1) by (simp add: utf8_start.simps)
  moreover have "utf8_step (More a 3 (if a = 0 then 0x90 else 0x80) (if a = 4 then 0x8F else 0xBF)) (0x80 + b) =
      ([], More (a * 64 + b) 2 0x80 0xBF)"
    using assms by (auto simp: Let_def)
  moreover have "utf8_step (More (a * 64 + b) 2 0x80 0xBF) (0x80 + c) = ([], More ((a * 64 + b) * 64 + c) 1 0x80 0xBF)"
    using assms by (simp add: Let_def)
  moreover have "utf8_step (More ((a * 64 + b) * 64 + c) 1 0x80 0xBF) (0x80 + d) =
      (units_of (((a * 64 + b) * 64 + c) * 64 + d), Idle)"
    using assms by (simp add: Let_def)
  ultimately show ?thesis using assms(1-4)
    by (simp del: of_nat_add of_nat_numeral utf8_step.simps)
qed

lemma div_64_twice: "(cp :: nat) div 4096 = cp div 64 div 64"
  by (simp flip: div_mult2_eq)

lemma div_64_thrice: "(cp :: nat) div 262144 = cp div 64 div 64 div 64"
  by (simp flip: div_mult2_eq)

lemma run_one: "cp < 0x80 \<Longrightarrow> utf8_run Idle (utf8_bytes cp) = (units_of cp, Idle)"
  by (simp add: utf8_bytes_def units_of_def utf8_start.simps)

lemma run_two:
  assumes "0x80 \<le> cp" "cp < 0x800"
  shows "utf8_run Idle (utf8_bytes cp) = (units_of cp, Idle)"
proof -
  have "2 \<le> cp div 64" "cp div 64 < 32"
    using assms by (simp_all add: less_eq_div_iff_mult_less_eq div_less_iff_less_mult)
  with assms run_two_digits [of "cp div 64" "cp mod 64"] show ?thesis by (simp add: utf8_bytes_def)
qed

lemmas div_bounds = less_eq_div_iff_mult_less_eq div_less_iff_less_mult

lemma run_three:
  assumes "0x800 \<le> cp" "cp < 0x10000" "scalar_value cp"
  shows "utf8_run Idle (utf8_bytes cp) = (units_of cp, Idle)"
proof -
  let ?q = "cp div 64"
  have q: "32 \<le> ?q" "?q < 1024" "?q < 864 \<or> 896 \<le> ?q"
    using assms by (auto simp: scalar_value_def div_bounds)
  have qr: "?q = ?q div 64 * 64 + ?q mod 64" "?q mod 64 < 64" by simp_all
  have "?q div 64 < 16" using q by (simp add: div_less_iff_less_mult)
  moreover have "?q div 64 \<noteq> 0 \<or> 32 \<le> ?q mod 64" using q qr by linarith
  moreover have "?q div 64 \<noteq> 13 \<or> ?q mod 64 < 32" using q qr by linarith
  moreover have "(?q div 64 * 64 + ?q mod 64) * 64 + cp mod 64 = cp"
    by (simp only: div_mult_mod_eq)
  ultimately show ?thesis
    using run_three_digits [of "?q div 64" "?q mod 64" "cp mod 64"] assms(1,2)
    by (simp add: utf8_bytes_def div_64_twice del: of_nat_add of_nat_numeral)
qed

lemma run_four:
  assumes "0x10000 \<le> cp" "cp < 0x110000"
  shows "utf8_run Idle (utf8_bytes cp) = (units_of cp, Idle)"
proof -
  let ?q = "cp div 64" and ?r = "cp div 64 div 64"
  have r: "16 \<le> ?r" "?r < 272" using assms by (auto simp: div_bounds)
  have rs: "?r = ?r div 64 * 64 + ?r mod 64" "?r mod 64 < 64" by simp_all
  have "?r div 64 < 5" using r by (simp add: div_less_iff_less_mult)
  moreover have "?r div 64 \<noteq> 0 \<or> 16 \<le> ?r mod 64" using r rs by linarith
  moreover have "?r div 64 \<noteq> 4 \<or> ?r mod 64 < 16" using r rs by linarith
  moreover have "((?r div 64 * 64 + ?r mod 64) * 64 + ?q mod 64) * 64 + cp mod 64 = cp"
    by (simp only: div_mult_mod_eq)
  ultimately show ?thesis
    using run_four_digits [of "?r div 64" "?r mod 64" "?q mod 64" "cp mod 64"] assms
    by (simp add: utf8_bytes_def div_64_twice div_64_thrice del: of_nat_add of_nat_numeral)
qed

lemma run_scalar [decode_simps]:
  "scalar_value cp \<Longrightarrow> utf8_run Idle (utf8_bytes cp) = (units_of cp, Idle)"
  using run_one [of cp] run_two [of cp] run_three [of cp] run_four [of cp] scalar_lt [of cp] by linarith

lemma run_scalars:
  "\<forall>c\<in>set cps. scalar_value c \<Longrightarrow>
   utf8_run Idle (concat (map utf8_bytes cps)) = (concat (map units_of cps), Idle)"
  by (induction cps) (auto simp: utf8_run_append run_scalar)

lemma utf8_decode_encode [decode_simps]:
  "utf8_decode (utf8_encode us) = concat (map units_of (scalars us))"
  by (simp add: utf8_decode_def utf8_encode_def run_scalars scalars_scalar)

subsection \<open>utf-16le and windows-1252\<close>

fun le_units :: "bytes \<Rightarrow> units" where
  "le_units (a # b # bs) = of_nat (unat a + 256 * unat b) # le_units bs"
| "le_units bs = []"

text \<open>Unpaired surrogates decode to U+FFFD; a byte left over is one more.\<close>

definition utf16le_decode :: "bytes \<Rightarrow> units" where
  "utf16le_decode bs =
     concat (map units_of (scalars (le_units bs))) @ (if even (length bs) then [] else [replacement])"

definition windows_1252_high :: "nat list" where
  "windows_1252_high =
     [0x20AC, 0x81, 0x201A, 0x0192, 0x201E, 0x2026, 0x2020, 0x2021, 0x02C6, 0x2030, 0x0160, 0x2039,
      0x0152, 0x8D, 0x017D, 0x8F, 0x90, 0x2018, 0x2019, 0x201C, 0x201D, 0x2022, 0x2013, 0x2014,
      0x02DC, 0x2122, 0x0161, 0x203A, 0x0153, 0x9D, 0x017E, 0x0178]"

definition windows_1252_decode :: "bytes \<Rightarrow> units" where
  "windows_1252_decode bs =
     map (\<lambda>b. of_nat (if 0x80 \<le> unat b \<and> unat b < 0xA0 then windows_1252_high ! (unat b - 0x80)
                      else unat b)) bs"

end
