(* ===== verification/BufferBinding.thy ===== *)
theory BufferBinding
  imports Encodings
begin

text \<open>
  \<open>src/src/node-lib/binding/buffer.ts\<close>: the bytes under Node's \<open>Buffer\<close>.  A buffer
  is the list of its bytes; a function that writes into one returns it written, with
  its result.  A view of shared memory (\<open>isSharedView\<close>) is the flag \<open>shared\<close>, since
  the platform's encoder does not write into one.  A JavaScript number argument is an
  \<open>int\<close> (Node's own files hand integers over), \<open>None\<close> where it is undefined or NaN.
\<close>

unbundle bit_operations_syntax

type_synonym encoding_name = string

definition ascii_units :: "string \<Rightarrow> units" where
  "ascii_units s = map (\<lambda>c. of_nat (of_char c)) s"

text \<open>A loop that stores the elements one by one from an index on.\<close>

fun store_from :: "nat \<Rightarrow> bytes \<Rightarrow> bytes \<Rightarrow> bytes" where
  "store_from i [] buf = buf"
| "store_from i (b # bs) buf = store_from (Suc i) bs (buf[i := b])"

definition subrange :: "bytes \<Rightarrow> nat \<Rightarrow> nat \<Rightarrow> bytes" where
  "subrange buf from to = take (to - from) (drop from buf)"

definition clamp :: "bytes \<Rightarrow> int option \<Rightarrow> int option \<Rightarrow> nat \<times> nat" where
  "clamp buf start stop =
     (let from = (case start of None \<Rightarrow> 0 | Some n \<Rightarrow> n);
          to = (case stop of None \<Rightarrow> int (length buf) | Some n \<Rightarrow> n);
          from = (if from < 0 then 0 else from);
          to = (if int (length buf) < to then int (length buf) else to);
          to = (if to < from then from else to)
      in (nat from, nat to))"

definition clamped :: "bytes \<Rightarrow> int option \<Rightarrow> int option \<Rightarrow> bytes" where
  "clamped buf start stop = (let (from, to) = clamp buf start stop in subrange buf from to)"

definition write_room :: "bytes \<Rightarrow> nat \<Rightarrow> int \<Rightarrow> int" where
  "write_room buf offset len = min len (int (length buf) - int offset)"

subsection \<open>Encoding a string into a buffer\<close>

definition utf8_write :: "bool \<Rightarrow> bytes \<Rightarrow> units \<Rightarrow> nat \<Rightarrow> int \<Rightarrow> bytes \<times> int" where
  "utf8_write shared buf s offset len =
     (let room = write_room buf offset len
      in if room \<le> 0 then (buf, 0)
         else if \<not> shared
         then (let bs = encode_into s (nat room) in (store_from offset bs buf, int (length bs)))
         else (let scratch = min (nat room) (length s * 3); bs = encode_into s scratch
               in (store_from offset bs buf, int (length bs))))"

definition ascii_write :: "bytes \<Rightarrow> units \<Rightarrow> nat \<Rightarrow> int \<Rightarrow> bytes \<times> int" where
  "ascii_write buf s offset len =
     (let room = min (write_room buf offset len) (int (length s))
      in (store_from offset (map (\<lambda>u. ucast (u AND 0x7F)) (take (nat room) s)) buf,
          if room < 0 then 0 else room))"

definition latin1_write :: "bytes \<Rightarrow> units \<Rightarrow> nat \<Rightarrow> int \<Rightarrow> bytes \<times> int" where
  "latin1_write buf s offset len =
     (let room = min (write_room buf offset len) (int (length s))
      in (store_from offset (map (\<lambda>u. ucast (u AND 0xFF)) (take (nat room) s)) buf,
          if room < 0 then 0 else room))"

definition unit_le :: "16 word \<Rightarrow> bytes" where
  "unit_le u = [ucast (u AND 0xFF), ucast (drop_bit 8 u)]"

definition ucs2_write :: "bytes \<Rightarrow> units \<Rightarrow> nat \<Rightarrow> int \<Rightarrow> bytes \<times> int" where
  "ucs2_write buf s offset len =
     (let count = min (int (length s)) (write_room buf offset len div 2)
      in (store_from offset (concat (map unit_le (take (nat count) s))) buf, count * 2))"

definition hex_value :: "16 word \<Rightarrow> int" where
  "hex_value u =
     (let code = int (unat u)
      in if 48 \<le> code \<and> code \<le> 57 then code - 48
         else if 97 \<le> code \<and> code \<le> 102 then code - 87
         else if 65 \<le> code \<and> code \<le> 70 then code - 55
         else -1)"

fun hex_pairs :: "nat \<Rightarrow> units \<Rightarrow> bytes" where
  "hex_pairs (Suc pairs) (u # v # us) =
     (let high = hex_value u; low = hex_value v
      in if high < 0 \<or> low < 0 then []
         else (push_bit 4 (of_int high) OR of_int low) # hex_pairs pairs us)"
| "hex_pairs pairs us = []"

definition hex_write :: "bytes \<Rightarrow> units \<Rightarrow> nat \<Rightarrow> int \<Rightarrow> bytes \<times> int" where
  "hex_write buf s offset len =
     (let pairs = min (int (length s div 2)) (write_room buf offset len);
          bs = hex_pairs (nat pairs) s
      in (store_from offset bs buf, int (length bs)))"

definition base64_alphabet :: units where
  "base64_alphabet =
     ascii_units ''ABCDEFGHIJKLMNOPQRSTUVWXYZabcdefghijklmnopqrstuvwxyz0123456789+/''"

abbreviation "ch_plus \<equiv> (43 :: 16 word)"
abbreviation "ch_slash \<equiv> (47 :: 16 word)"
abbreviation "ch_minus \<equiv> (45 :: 16 word)"
abbreviation "ch_under \<equiv> (95 :: 16 word)"
abbreviation "ch_eq \<equiv> (61 :: 16 word)"

fun base64_clean :: "units \<Rightarrow> units" where
  "base64_clean [] = []"
| "base64_clean (u # us) =
     (if u = ch_eq then []
      else if u = ch_minus then ch_plus # base64_clean us
      else if u = ch_under then ch_slash # base64_clean us
      else if 0 \<le> index_of u base64_alphabet then u # base64_clean us
      else base64_clean us)"

text \<open>The bits held, a 32-bit number: \<open>(held << 6) | value\<close>, read by \<open>(held >> bits) & 0xff\<close>.\<close>

fun base64_loop :: "32 word \<Rightarrow> nat \<Rightarrow> units \<Rightarrow> bytes" where
  "base64_loop held bits [] = []"
| "base64_loop held bits (u # us) =
     (let held = push_bit 6 held OR of_int (index_of u base64_alphabet); bits = bits + 6
      in if 8 \<le> bits
         then ucast (signed_drop_bit (bits - 8) held AND 0xFF) # base64_loop held (bits - 8) us
         else base64_loop held bits us)"

definition base64_bytes :: "units \<Rightarrow> bytes" where
  "base64_bytes s =
     (let cleaned = base64_clean s;
          usable = length cleaned - (if length cleaned mod 4 = 1 then 1 else 0)
      in base64_loop 0 0 (take usable cleaned))"

definition base64_write :: "bytes \<Rightarrow> units \<Rightarrow> nat \<Rightarrow> int \<Rightarrow> bytes \<times> int" where
  "base64_write buf s offset len =
     (let bs = base64_bytes s; room = min (write_room buf offset len) (int (length bs))
      in if room \<le> 0 then (buf, 0) else (store_from offset (take (nat room) bs) buf, room))"

definition base64url_write :: "bytes \<Rightarrow> units \<Rightarrow> nat \<Rightarrow> int \<Rightarrow> bytes \<times> int" where
  "base64url_write buf s offset len =
     (let bs = base64_bytes s; room = min (write_room buf offset len) (int (length bs))
      in if room \<le> 0 then (buf, 0) else (store_from offset (take (nat room) bs) buf, room))"

subsection \<open>Decoding a buffer into a string\<close>

definition utf8_slice :: "bytes \<Rightarrow> int option \<Rightarrow> int option \<Rightarrow> units" where
  "utf8_slice buf start stop = drop_bom (utf8_decode (clamped buf start stop))"

definition ascii_slice :: "bytes \<Rightarrow> int option \<Rightarrow> int option \<Rightarrow> units" where
  "ascii_slice buf start stop = map (\<lambda>b. ucast (b AND 0x7F)) (clamped buf start stop)"

definition latin1_slice :: "bytes \<Rightarrow> int option \<Rightarrow> int option \<Rightarrow> units" where
  "latin1_slice buf start stop = windows_1252_decode (clamped buf start stop)"

definition ucs2_slice :: "bytes \<Rightarrow> int option \<Rightarrow> int option \<Rightarrow> units" where
  "ucs2_slice buf start stop =
     (let (from, to) = clamp buf start stop; whole = to - (to - from) mod 2
      in drop_bom (utf16le_decode (subrange buf from whole)))"

definition hex_digits :: units where
  "hex_digits = ascii_units ''0123456789abcdef''"

definition hex_slice :: "bytes \<Rightarrow> int option \<Rightarrow> int option \<Rightarrow> units" where
  "hex_slice buf start stop =
     concat (map (\<lambda>b. [hex_digits ! unat (drop_bit 4 b), hex_digits ! unat (b AND 0x0F)])
       (clamped buf start stop))"

definition b64_char :: "byte \<Rightarrow> 16 word" where
  "b64_char v = base64_alphabet ! unat v"

fun base64_groups :: "bytes \<Rightarrow> units" where
  "base64_groups [] = []"
| "base64_groups [a] = [b64_char (drop_bit 2 a), b64_char (push_bit 4 (a AND 3)), ch_eq, ch_eq]"
| "base64_groups [a, b] =
     [b64_char (drop_bit 2 a), b64_char (push_bit 4 (a AND 3) OR drop_bit 4 b),
      b64_char (push_bit 2 (b AND 0x0F)), ch_eq]"
| "base64_groups (a # b # c # rest) =
     [b64_char (drop_bit 2 a), b64_char (push_bit 4 (a AND 3) OR drop_bit 4 b),
      b64_char (push_bit 2 (b AND 0x0F) OR drop_bit 6 c), b64_char (c AND 0x3F)] @ base64_groups rest"

definition base64_text :: "bytes \<Rightarrow> bool \<Rightarrow> units" where
  "base64_text bs url =
     (let out = base64_groups bs
      in if \<not> url then out
         else filter (\<lambda>u. u \<noteq> ch_eq)
           (map (\<lambda>u. if u = ch_slash then ch_under else u)
             (map (\<lambda>u. if u = ch_plus then ch_minus else u) out)))"

definition base64_slice :: "bytes \<Rightarrow> int option \<Rightarrow> int option \<Rightarrow> units" where
  "base64_slice buf start stop = base64_text (clamped buf start stop) False"

definition base64url_slice :: "bytes \<Rightarrow> int option \<Rightarrow> int option \<Rightarrow> units" where
  "base64url_slice buf start stop = base64_text (clamped buf start stop) True"

subsection \<open>Lengths, comparison, copy and fill\<close>

fun byte_length_utf8 :: "units \<Rightarrow> nat" where
  "byte_length_utf8 [] = 0"
| "byte_length_utf8 (u # us) =
     (let code = unat u
      in if code < 0x80 then 1 + byte_length_utf8 us
         else if code < 0x800 then 2 + byte_length_utf8 us
         else if 0xD800 \<le> code \<and> code < 0xDC00 \<and> us \<noteq> []
         then (if 0xDC00 \<le> unat (hd us) \<and> unat (hd us) < 0xE000
               then 4 + byte_length_utf8 (tl us) else 3 + byte_length_utf8 us)
         else 3 + byte_length_utf8 us)"

fun compare_loop :: "bytes \<Rightarrow> bytes \<Rightarrow> int" where
  "compare_loop (x # xs) (y # ys) =
     (if x \<noteq> y then (if x < y then -1 else 1) else compare_loop xs ys)"
| "compare_loop xs ys = 0"

definition compare_ranges :: "bytes \<Rightarrow> nat \<Rightarrow> nat \<Rightarrow> bytes \<Rightarrow> nat \<Rightarrow> nat \<Rightarrow> int" where
  "compare_ranges a a_start a_end b b_start b_end =
     (let xs = subrange a a_start a_end; ys = subrange b b_start b_end;
          shared = min (length xs) (length ys);
          found = compare_loop (take shared xs) (take shared ys)
      in if found \<noteq> 0 then found
         else if length xs = length ys then 0
         else if length xs < length ys then -1 else 1)"

definition compare_buffers :: "bytes \<Rightarrow> bytes \<Rightarrow> int" where
  "compare_buffers a b = compare_ranges a 0 (length a) b 0 (length b)"

definition compare_offset :: "bytes \<Rightarrow> bytes \<Rightarrow> nat \<Rightarrow> nat \<Rightarrow> nat \<Rightarrow> nat \<Rightarrow> int" where
  "compare_offset source target target_start source_start target_end source_end =
     compare_ranges source source_start source_end target target_start target_end"

definition copy_bytes :: "bytes \<Rightarrow> bytes \<Rightarrow> nat \<Rightarrow> nat \<Rightarrow> int \<Rightarrow> bytes \<times> int" where
  "copy_bytes source target target_start source_start to_copy =
     (let room = min (min to_copy (int (length source) - int source_start))
                     (int (length target) - int target_start)
      in if room \<le> 0 then (target, 0)
         else (store_from target_start (subrange source source_start (source_start + nat room)) target, room))"

definition bytes_of_string :: "units \<Rightarrow> encoding_name \<Rightarrow> bytes" where
  "bytes_of_string s enc =
     (if enc = ''ascii'' then fst (ascii_write (replicate (length s) 0) s 0 (int (length s)))
      else if enc \<in> {''latin1'', ''binary''}
      then fst (latin1_write (replicate (length s) 0) s 0 (int (length s)))
      else if enc \<in> {''ucs2'', ''ucs-2'', ''utf16le'', ''utf-16le''}
      then fst (ucs2_write (replicate (length s * 2) 0) s 0 (int (length s * 2)))
      else if enc = ''hex''
      then (let (out, written) = hex_write (replicate (length s div 2) 0) s 0 (int (length s div 2))
            in take (nat written) out)
      else if enc \<in> {''base64'', ''base64url''} then base64_bytes s
      else utf8_encode s)"

datatype fill_value = FillText units | FillBytes bytes | FillOther

definition fill_pattern :: "fill_value \<Rightarrow> encoding_name option \<Rightarrow> bytes option" where
  "fill_pattern v enc =
     (case v of
        FillText s \<Rightarrow> Some (bytes_of_string s (case enc of None \<Rightarrow> ''utf8'' | Some e \<Rightarrow> e))
      | FillBytes bs \<Rightarrow> Some bs
      | FillOther \<Rightarrow> None)"

definition fill_buffer ::
    "bytes \<Rightarrow> fill_value \<Rightarrow> int option \<Rightarrow> int option \<Rightarrow> encoding_name option \<Rightarrow> bytes \<times> int" where
  "fill_buffer buf v start stop enc =
     (let (from, to) = clamp buf start stop
      in if to \<le> from then (buf, 0)
         else case fill_pattern v enc of
                None \<Rightarrow> (buf, -1)
              | Some pattern \<Rightarrow>
                  if pattern = [] then (buf, -1)
                  else (store_from from (map (\<lambda>k. pattern ! (k mod length pattern)) [0..<to - from]) buf,
                        int (to - from)))"

subsection \<open>Searching\<close>

definition number_up_from :: "bytes \<Rightarrow> int \<Rightarrow> nat" where
  "number_up_from buf offset =
     (let from = (if offset < 0 then int (length buf) + offset else offset)
      in nat (if from < 0 then 0 else from))"

function number_up :: "bytes \<Rightarrow> byte \<Rightarrow> nat \<Rightarrow> int" where
  "number_up buf b pos =
     (if length buf \<le> pos then -1 else if buf ! pos = b then int pos else number_up buf b (Suc pos))"
  by pat_completeness auto
termination by (relation "measure (\<lambda>(buf, b, pos). length buf - pos)") auto

function number_down :: "bytes \<Rightarrow> byte \<Rightarrow> int \<Rightarrow> int" where
  "number_down buf b pos =
     (if pos < 0 then -1 else if buf ! nat pos = b then pos else number_down buf b (pos - 1))"
  by pat_completeness auto
termination by (relation "measure (\<lambda>(buf, b, pos). nat (pos + 1))") auto

definition index_of_number :: "bytes \<Rightarrow> int \<Rightarrow> int \<Rightarrow> bool \<Rightarrow> int" where
  "index_of_number buf v offset forward =
     (let b = of_int v :: byte
      in if forward then number_up buf b (number_up_from buf offset)
         else (let from = (if offset < 0 then int (length buf) + offset
                           else min offset (int (length buf) - 1));
                   from = (if int (length buf) \<le> from then int (length buf) - 1 else from)
               in number_down buf b from))"

definition matches_at :: "bytes \<Rightarrow> bytes \<Rightarrow> nat \<Rightarrow> bool" where
  "matches_at buf needle pos \<longleftrightarrow> take (length needle) (drop pos buf) = needle"

definition stride :: "bool \<Rightarrow> nat" where
  "stride wide = (if wide then 2 else 1)"

function search_up :: "bool \<Rightarrow> bytes \<Rightarrow> bytes \<Rightarrow> nat \<Rightarrow> int" where
  "search_up wide buf needle pos =
     (if length buf < pos + length needle then -1
      else if matches_at buf needle pos then int pos
      else search_up wide buf needle (pos + stride wide))"
  by pat_completeness auto
termination
  by (relation "measure (\<lambda>(wide, buf, needle, pos). Suc (length buf) - pos)") (auto simp: stride_def)

function search_down :: "bool \<Rightarrow> bytes \<Rightarrow> bytes \<Rightarrow> int \<Rightarrow> int" where
  "search_down wide buf needle pos =
     (if pos < 0 then -1
      else if matches_at buf needle (nat pos) then pos
      else search_down wide buf needle (pos - int (stride wide)))"
  by pat_completeness auto
termination
  by (relation "measure (\<lambda>(wide, buf, needle, pos). nat (pos + 1))") (auto simp: stride_def)

declare number_up.simps [simp del] number_down.simps [simp del]
  search_up.simps [simp del] search_down.simps [simp del]

definition up_from :: "bool \<Rightarrow> bytes \<Rightarrow> int \<Rightarrow> nat" where
  "up_from wide buf offset =
     (let from = number_up_from buf offset in if wide \<and> odd from then from + 1 else from)"

definition search_bytes :: "bytes \<Rightarrow> bytes \<Rightarrow> int \<Rightarrow> bool \<Rightarrow> bool \<Rightarrow> int" where
  "search_bytes buf needle offset forward wide =
     (let len = int (length buf)
      in if needle = []
         then (if len < offset then len else if offset < 0 then max 0 (len + offset) else offset)
         else if length buf < length needle then -1
         else if forward then search_up wide buf needle (up_from wide buf offset)
         else (let from = (if offset < 0 then len + offset else offset);
                   from = (if len - int (length needle) < from then len - int (length needle) else from)
               in if from < 0 then -1
                  else search_down wide buf needle (if wide \<and> odd from then from - 1 else from)))"

definition UCS2 :: nat where "UCS2 = 3"

definition index_of_buffer :: "bytes \<Rightarrow> bytes \<Rightarrow> int \<Rightarrow> nat \<Rightarrow> bool \<Rightarrow> int" where
  "index_of_buffer buf v offset enc forward = search_bytes buf v offset forward (enc = UCS2)"

definition encoding_of_number :: "nat \<Rightarrow> encoding_name" where
  "encoding_of_number enc =
     (if enc = UCS2 then ''utf16le'' else if enc = 4 then ''latin1'' else if enc = 0 then ''ascii''
      else if enc = 5 then ''hex'' else if enc = 2 then ''base64''
      else if enc = 7 then ''base64url'' else ''utf8'')"

definition index_of_string :: "bytes \<Rightarrow> units \<Rightarrow> int \<Rightarrow> nat \<Rightarrow> bool \<Rightarrow> int" where
  "index_of_string buf s offset enc forward =
     index_of_buffer buf (bytes_of_string s (encoding_of_number enc)) offset enc forward"

subsection \<open>Swaps and tests\<close>

definition byte_at :: "bytes \<Rightarrow> nat \<Rightarrow> byte" where
  "byte_at buf i = (if i < length buf then buf ! i else 0)"

definition exchange :: "nat \<Rightarrow> nat \<Rightarrow> bytes \<Rightarrow> bytes" where
  "exchange i j buf = (let a = byte_at buf i in (buf[i := byte_at buf j])[j := a])"

definition swap_group :: "nat \<Rightarrow> nat \<Rightarrow> bytes \<Rightarrow> bytes" where
  "swap_group width i buf = fold (\<lambda>pos. exchange (i + pos) (i + width - 1 - pos)) [0..<width div 2] buf"

definition swap_groups :: "nat \<Rightarrow> bytes \<Rightarrow> bytes" where
  "swap_groups width buf =
     fold (\<lambda>k. swap_group width (k * width)) [0..<(length buf + width - 1) div width] buf"

definition swap16 :: "bytes \<Rightarrow> bytes" where "swap16 buf = swap_groups 2 buf"
definition swap32 :: "bytes \<Rightarrow> bytes" where "swap32 buf = swap_groups 4 buf"
definition swap64 :: "bytes \<Rightarrow> bytes" where "swap64 buf = swap_groups 8 buf"

definition is_ascii :: "bytes \<Rightarrow> bool" where
  "is_ascii buf = list_all (\<lambda>b. unat b \<le> 0x7F) buf"

definition create_from_string :: "units \<Rightarrow> nat \<Rightarrow> bytes" where
  "create_from_string s enc =
     bytes_of_string s (if enc = UCS2 then ''utf16le'' else if enc = 4 then ''latin1'' else ''utf8'')"

end
