(* ===== verification/BufferLaws.thy ===== *)
theory BufferLaws
  imports BufferBinding "HOL-Library.List_Lexorder"
begin

text \<open>
  What the buffer binding's functions compute: round trips of the encodings, lengths,
  comparison and searching against their specifications.
\<close>

unbundle bit_operations_syntax

lemmas of_clamp = clamped_def clamp_def subrange_def

lemma clamped_all [simp]: "clamped buf None None = buf"
  by (simp add: of_clamp)

lemma length_store_from [simp]: "length (store_from i bs buf) = length buf"
  by (induction i bs buf rule: store_from.induct) auto

lemma store_from_eq:
  "i + length bs \<le> length buf \<Longrightarrow>
   store_from i bs buf = take i buf @ bs @ drop (i + length bs) buf"
proof (induction i bs buf rule: store_from.induct)
  case (2 i b bs buf)
  then show ?case by (simp add: upd_conv_take_nth_drop take_Suc_conv_app_nth add.commute)
qed simp

lemma store_from_whole [simp]: "length buf = length bs \<Longrightarrow> store_from 0 bs buf = bs"
  by (simp add: store_from_eq)

subsection \<open>base64\<close>

lemma index_of_nth:
  "distinct xs \<Longrightarrow> i < length xs \<Longrightarrow> index_of (xs ! i) xs = int i"
proof (induction xs arbitrary: i)
  case (Cons x xs)
  then show ?case by (cases i) (auto simp: Let_def)
qed simp

lemma of_char_inj: "(of_nat (of_char c) :: 16 word) = of_nat (of_char d) \<longleftrightarrow> c = d"
proof
  have b: "(of_char x :: nat) < 0x10000" for x :: char
    by (rule less_trans [OF nat_of_char_less_256]) simp
  assume "(of_nat (of_char c) :: 16 word) = of_nat (of_char d)"
  then have "unat (of_nat (of_char c) :: 16 word) = unat (of_nat (of_char d) :: 16 word)" by simp
  with b show "c = d" by simp
qed simp

lemma distinct_ascii_units: "distinct (ascii_units s) \<longleftrightarrow> distinct s"
  by (auto simp: ascii_units_def distinct_map inj_on_def of_char_inj)

lemma in_ascii_units: "of_nat (of_char c) \<in> set (ascii_units s) \<longleftrightarrow> c \<in> set s"
  by (auto simp: ascii_units_def of_char_inj)

lemma distinct_alphabet: "distinct base64_alphabet" "length base64_alphabet = 64"
  unfolding base64_alphabet_def distinct_ascii_units by (simp_all add: ascii_units_def)

lemma not_in_alphabet: "ch_eq \<notin> set base64_alphabet" "ch_minus \<notin> set base64_alphabet"
    "ch_under \<notin> set base64_alphabet"
  using in_ascii_units [of "CHR ''=''"] in_ascii_units [of "CHR ''-''"] in_ascii_units [of "CHR ''_''"]
  unfolding base64_alphabet_def by simp_all

lemma alphabet_index:
  assumes "unat v < 64"
  shows "index_of (b64_char v) base64_alphabet = int (unat v)" "b64_char v \<in> set base64_alphabet"
  using assms distinct_alphabet by (auto simp: b64_char_def index_of_nth)

lemma small_bits:
  fixes w :: byte
  assumes "\<And>n. 6 \<le> n \<Longrightarrow> n < 8 \<Longrightarrow> \<not> bit w n"
  shows "unat w < 64"
proof -
  have "take_bit 6 w = w"
  proof (rule bit_word_eqI)
    fix n assume "n < LENGTH(8)"
    with assms [of n] show "bit (take_bit 6 w) n = bit w n" by (cases "n < 6") (auto simp: bit_take_bit_iff)
  qed
  then have "unat w = take_bit 6 (unat w)" by (metis unsigned_take_bit_eq)
  also have "\<dots> < 2 ^ 6" by (rule take_bit_nat_less_exp)
  finally show ?thesis by simp
qed

lemma byte_bit_high [simp]: "8 \<le> n \<Longrightarrow> \<not> bit (a :: byte) n"
  by (auto dest: bit_imp_le_length)

lemma byte_eqI:
  fixes a b :: byte
  assumes "bit a 0 = bit b 0" "bit a 1 = bit b 1" "bit a 2 = bit b 2" "bit a 3 = bit b 3"
    "bit a 4 = bit b 4" "bit a 5 = bit b 5" "bit a 6 = bit b 6" "bit a 7 = bit b 7"
  shows "a = b"
proof (rule bit_word_eqI)
  fix n assume "n < LENGTH(8)"
  then have "n = 0 \<or> n = 1 \<or> n = 2 \<or> n = 3 \<or> n = 4 \<or> n = 5 \<or> n = 6 \<or> n = 7" by auto
  with assms show "bit a n = bit b n" by auto
qed

lemma six_bits:
  fixes a b c :: byte
  shows "unat (drop_bit 2 a) < 64" "unat (push_bit 4 (a AND 3)) < 64"
    "unat (push_bit 4 (a AND 3) OR drop_bit 4 b) < 64"
    "unat (push_bit 2 (b AND 0x0F)) < 64" "unat (push_bit 2 (b AND 0x0F) OR drop_bit 6 c) < 64"
    "unat (a AND 0x3F) < 64"
proof -
  have n67: "6 \<le> n \<Longrightarrow> n < 8 \<Longrightarrow> n = 6 \<or> n = 7" for n :: nat by auto
  show "unat (drop_bit 2 a) < 64" by (rule small_bits) (drule (1) n67, auto simp: bit_simps)
  show "unat (push_bit 4 (a AND 3)) < 64" by (rule small_bits) (drule (1) n67, auto simp: bit_simps)
  show "unat (push_bit 4 (a AND 3) OR drop_bit 4 b) < 64" by (rule small_bits) (drule (1) n67, auto simp: bit_simps)
  show "unat (push_bit 2 (b AND 0x0F)) < 64" by (rule small_bits) (drule (1) n67, auto simp: bit_simps)
  show "unat (push_bit 2 (b AND 0x0F) OR drop_bit 6 c) < 64" by (rule small_bits) (drule (1) n67, auto simp: bit_simps)
  show "unat (a AND 0x3F) < 64" by (rule small_bits) (drule (1) n67, auto simp: bit_simps)
qed

lemma group_first:
  "ucast (signed_drop_bit 4 (push_bit 6 (push_bit 6 (h :: 32 word) OR ucast (drop_bit 2 (a :: byte)))
     OR ucast (push_bit 4 (a AND 3) OR drop_bit 4 b)) AND 0xFF) = a"
  by (rule byte_eqI) (simp_all add: bit_simps)

lemma group_second:
  "ucast (signed_drop_bit 2 (push_bit 6 (push_bit 6 (h :: 32 word)
     OR ucast (push_bit 4 (a AND 3) OR drop_bit 4 (b :: byte)))
     OR ucast (push_bit 2 (b AND 0x0F) OR drop_bit 6 c)) AND 0xFF) = b"
  by (rule byte_eqI) (simp_all add: bit_simps)

lemma group_third:
  "ucast ((push_bit 6 (push_bit 6 (h :: 32 word)
     OR ucast (push_bit 2 (b AND 0x0F) OR drop_bit 6 (c :: byte)))
     OR ucast (c AND 0x3F)) AND 0xFF) = c"
  by (rule byte_eqI) (simp_all add: bit_simps)

lemma group_first_alone:
  "ucast (signed_drop_bit 4 (push_bit 6 (push_bit 6 (h :: 32 word) OR ucast (drop_bit 2 (a :: byte)))
     OR ucast (push_bit 4 (a AND 3))) AND 0xFF) = a"
  by (rule byte_eqI) (simp_all add: bit_simps)

lemma group_second_last:
  "ucast (signed_drop_bit 2 (push_bit 6 (push_bit 6 (h :: 32 word)
     OR ucast (push_bit 4 (a AND 3) OR drop_bit 4 (b :: byte)))
     OR ucast (push_bit 2 (b AND 0x0F))) AND 0xFF) = b"
  by (rule byte_eqI) (simp_all add: bit_simps)

lemma of_int_index [simp]:
  "unat v < 64 \<Longrightarrow> of_int (index_of (b64_char v) base64_alphabet) = (ucast v :: 32 word)"
  by (simp add: alphabet_index)

text \<open>The characters that carry bits, without the padding.\<close>

fun base64_digits :: "bytes \<Rightarrow> units" where
  "base64_digits [] = []"
| "base64_digits [a] = [b64_char (drop_bit 2 a), b64_char (push_bit 4 (a AND 3))]"
| "base64_digits [a, b] =
     [b64_char (drop_bit 2 a), b64_char (push_bit 4 (a AND 3) OR drop_bit 4 b),
      b64_char (push_bit 2 (b AND 0x0F))]"
| "base64_digits (a # b # c # rest) =
     [b64_char (drop_bit 2 a), b64_char (push_bit 4 (a AND 3) OR drop_bit 4 b),
      b64_char (push_bit 2 (b AND 0x0F) OR drop_bit 6 c), b64_char (c AND 0x3F)] @ base64_digits rest"

abbreviation (input) digit_in :: "byte \<Rightarrow> 32 word \<Rightarrow> 32 word" where
  "digit_in v h \<equiv> push_bit 6 h OR ucast v"

lemma loop_four:
  assumes "unat u < 64" "unat v < 64" "unat w < 64" "unat x < 64"
  shows "base64_loop h 0 (b64_char u # b64_char v # b64_char w # b64_char x # rest) =
    ucast (signed_drop_bit 4 (digit_in v (digit_in u h)) AND 0xFF) #
    ucast (signed_drop_bit 2 (digit_in w (digit_in v (digit_in u h))) AND 0xFF) #
    ucast (digit_in x (digit_in w (digit_in v (digit_in u h))) AND 0xFF) #
    base64_loop (digit_in x (digit_in w (digit_in v (digit_in u h)))) 0 rest"
  using assms by (simp add: Let_def)

lemma loop_three:
  assumes "unat u < 64" "unat v < 64" "unat w < 64"
  shows "base64_loop h 0 [b64_char u, b64_char v, b64_char w] =
    [ucast (signed_drop_bit 4 (digit_in v (digit_in u h)) AND 0xFF),
     ucast (signed_drop_bit 2 (digit_in w (digit_in v (digit_in u h))) AND 0xFF)]"
  using assms by (simp add: Let_def)

lemma loop_two:
  assumes "unat u < 64" "unat v < 64"
  shows "base64_loop h 0 [b64_char u, b64_char v] =
    [ucast (signed_drop_bit 4 (digit_in v (digit_in u h)) AND 0xFF)]"
  using assms by (simp add: Let_def)

lemma loop_digits: "base64_loop h 0 (base64_digits bs) = bs"
proof (induction bs arbitrary: h rule: base64_digits.induct)
  case 1
  show ?case by simp
next
  case (2 a)
  show ?case unfolding base64_digits.simps loop_two [OF six_bits(1,2)] group_first_alone ..
next
  case (3 a b)
  show ?case
    unfolding base64_digits.simps loop_three [OF six_bits(1,3,4)] group_first group_second_last ..
next
  case (4 a b c rest)
  show ?case
    unfolding base64_digits.simps append.simps loop_four [OF six_bits(1,3,5,6)]
      group_first group_second group_third 4 ..
qed

lemma length_digits: "length (base64_digits bs) mod 4 \<noteq> 1"
  by (induction bs rule: base64_digits.induct) auto

lemma digits_in_alphabet: "set (base64_digits bs) \<subseteq> set base64_alphabet"
  by (induction bs rule: base64_digits.induct)
    (auto simp: alphabet_index six_bits simp del: push_bit_and)

text \<open>The padding, and the two characters the url alphabet writes differently.\<close>

definition padding :: "bytes \<Rightarrow> units" where
  "padding bs = (if length bs mod 3 = 0 then [] else if length bs mod 3 = 1 then [ch_eq, ch_eq] else [ch_eq])"

lemma groups_digits: "base64_groups bs = base64_digits bs @ padding bs"
  by (induction bs rule: base64_digits.induct) (auto simp: padding_def)

definition url_char :: "16 word \<Rightarrow> 16 word" where
  "url_char u = (if u = ch_plus then ch_minus else if u = ch_slash then ch_under else u)"

lemma in_alphabet_iff: "0 \<le> index_of u xs \<longleftrightarrow> u \<in> set xs"
  by (induction xs) (auto simp: Let_def)

lemma clean_digits:
  "set ds \<subseteq> set base64_alphabet \<Longrightarrow> base64_clean (ds @ padding bs) = ds"
  using not_in_alphabet by (induction ds) (auto simp: in_alphabet_iff padding_def)

lemma clean_url:
  "set ds \<subseteq> set base64_alphabet \<Longrightarrow> base64_clean (map url_char ds) = ds"
  using not_in_alphabet by (induction ds) (auto simp: in_alphabet_iff url_char_def)

lemma text_not_url: "base64_text bs False = base64_digits bs @ padding bs"
  by (simp add: base64_text_def groups_digits)

lemma text_url: "base64_text bs True = map url_char (base64_digits bs)"
proof -
  have "filter (\<lambda>u. u \<noteq> ch_eq) (map (\<lambda>u. if u = ch_slash then ch_under else u)
      (map (\<lambda>u. if u = ch_plus then ch_minus else u) ds)) = map url_char ds"
    if "set ds \<subseteq> set base64_alphabet" for ds
    using that not_in_alphabet(1) by (induction ds) (auto simp: url_char_def)
  then show ?thesis
    using digits_in_alphabet [of bs] by (auto simp: base64_text_def groups_digits padding_def)
qed

lemma base64_bytes_text: "base64_bytes (base64_text bs url) = bs"
  using length_digits [of bs] digits_in_alphabet [of bs]
  by (cases url) (simp_all add: text_url text_not_url clean_url clean_digits base64_bytes_def loop_digits)

subsection \<open>hex\<close>

lemma hex_value_digits: "list_all (\<lambda>n. hex_value (hex_digits ! n) = int n) [0..<16]"
  by code_simp

lemma hex_value_digit: "n < 16 \<Longrightarrow> hex_value (hex_digits ! n) = int n"
  using hex_value_digits by (simp add: list_all_iff)

lemma nibbles: "unat (drop_bit 4 (b :: byte)) < 16" "unat (b AND 0x0F) < 16"
proof -
  show "unat (drop_bit 4 b) < 16"
    using unat8 [of b] unfolding unat_drop_bit_eq by (simp add: drop_bit_eq_div less_mult_imp_div_less)
  have "b AND 0x0F = take_bit 4 b" by (simp add: take_bit_eq_mask mask_eq_exp_minus_1)
  then have "unat (b AND 0x0F) = take_bit 4 (unat b)" by (simp only: unsigned_take_bit_eq)
  also have "\<dots> < 2 ^ 4" by (rule take_bit_nat_less_exp)
  finally show "unat (b AND 0x0F) < 16" by simp
qed

lemma join_nibbles: "push_bit 4 (drop_bit 4 (b :: byte)) OR (b AND 0x0F) = b"
  by (rule byte_eqI) (simp_all add: bit_simps)

lemma hex_pairs_digits:
  "hex_pairs n (concat (map (\<lambda>b. [hex_digits ! unat (drop_bit 4 b), hex_digits ! unat (b AND 0x0F)]) bs)) =
   take n bs"
proof (induction bs arbitrary: n)
  case (Cons b bs)
  then show ?case
    using nibbles [of b] join_nibbles [of b]
    by (cases n) (simp_all add: hex_value_digit Let_def flip: unat_drop_bit_eq)
qed simp

lemma length_hex_slice: "length (hex_slice buf None None) = 2 * length buf"
  by (simp add: hex_slice_def length_concat comp_def sum_list_triv)

lemma hex_write_slice:
  "int offset + int (length bs) \<le> int (length buf) \<Longrightarrow>
   hex_write buf (hex_slice bs None None) offset (int (length buf) - int offset) =
     (take offset buf @ bs @ drop (offset + length bs) buf, int (length bs))"
  unfolding hex_write_def length_hex_slice
  by (simp add: hex_slice_def hex_pairs_digits store_from_eq write_room_def Let_def min_def)

lemma bytes_of_hex: "bytes_of_string (hex_slice bs None None) ''hex'' = bs"
  using hex_write_slice [of 0 bs "replicate (length bs) 0"]
  by (simp add: bytes_of_string_def length_hex_slice)

subsection \<open>utf-8\<close>

lemma length_utf8_bytes:
  "length (utf8_bytes cp) = (if cp < 0x80 then 1 else if cp < 0x800 then 2 else if cp < 0x10000 then 3 else 4)"
  by (simp add: utf8_bytes_def)

lemma byte_length_encode: "byte_length_utf8 s = length (utf8_encode s)"
proof (induction s rule: scalars.induct)
  case (2 u)
  then show ?case using unat16 [of u]
    by (auto simp: utf8_encode_def length_utf8_bytes lead_surrogate_def trail_surrogate_def Let_def)
next
  case (3 u v us)
  then show ?case using unat16 [of u]
    by (auto simp: utf8_encode_def length_utf8_bytes lead_surrogate_def trail_surrogate_def Let_def)
qed (simp add: utf8_encode_def)

lemma length_utf8_encode: "length (utf8_encode s) \<le> 3 * length s"
proof (induction s rule: scalars.induct)
  case (2 u)
  then show ?case using unat16 [of u] by (auto simp: utf8_encode_def length_utf8_bytes)
next
  case (3 u v us)
  then show ?case using unat16 [of u] by (auto simp: utf8_encode_def length_utf8_bytes)
qed (simp add: utf8_encode_def)

lemma whole_points_all:
  "length (concat (map utf8_bytes cps)) \<le> room \<Longrightarrow> whole_points room cps = concat (map utf8_bytes cps)"
  by (induction cps arbitrary: room) (auto simp: Let_def)

lemma length_whole_points: "length (whole_points room cps) \<le> room"
proof (induction cps arbitrary: room)
  case (Cons c cps)
  show ?case using Cons.IH [of "room - length (utf8_bytes c)"] by (auto simp: Let_def)
qed simp

lemma encode_into_all: "length (utf8_encode s) \<le> room \<Longrightarrow> encode_into s room = utf8_encode s"
  by (simp add: encode_into_def utf8_encode_def whole_points_all)

lemma encode_into_scratch: "encode_into s (min room (length s * 3)) = encode_into s room"
proof (cases "room \<le> length s * 3")
  case False
  then show ?thesis
    using length_utf8_encode [of s] by (simp add: encode_into_all min_def)
qed (simp add: min_def)

lemma prefix_whole_points: "prefix (whole_points room cps) (concat (map utf8_bytes cps))"
  by (induction cps arbitrary: room) (auto simp: Let_def)

subsection \<open>Comparison\<close>

lemma subrange_all [simp]: "subrange buf 0 (length buf) = buf"
  by (simp add: subrange_def)

lemma compare_Cons:
  "compare_buffers (x # xs) (y # ys) =
     (if x \<noteq> y then (if x < y then -1 else 1) else compare_buffers xs ys)"
  by (simp add: compare_buffers_def compare_ranges_def subrange_def Let_def)

lemma compare_order:
  "compare_buffers a b = (if a = b then 0 else if a < b then -1 else 1)"
proof (induction a arbitrary: b)
  case Nil
  then show ?case by (cases b) (simp_all add: compare_buffers_def compare_ranges_def subrange_def Let_def)
next
  case (Cons x xs)
  then show ?case
    by (cases b) (auto simp: compare_Cons, simp add: compare_buffers_def compare_ranges_def subrange_def Let_def)
qed

subsection \<open>Searching\<close>

definition occurs_at :: "bool \<Rightarrow> bytes \<Rightarrow> bytes \<Rightarrow> nat \<Rightarrow> bool" where
  "occurs_at wide buf needle k \<longleftrightarrow>
     k + length needle \<le> length buf \<and> matches_at buf needle k \<and> (wide \<longrightarrow> even k)"

definition first_from :: "(nat \<Rightarrow> bool) \<Rightarrow> nat \<Rightarrow> int \<Rightarrow> bool" where
  "first_from P start r \<longleftrightarrow>
     r = -1 \<and> (\<forall>k\<ge>start. \<not> P k) \<or>
     (\<exists>k\<ge>start. r = int k \<and> P k \<and> (\<forall>j. start \<le> j \<and> j < k \<longrightarrow> \<not> P j))"

definition last_upto :: "(nat \<Rightarrow> bool) \<Rightarrow> int \<Rightarrow> int \<Rightarrow> bool" where
  "last_upto P limit r \<longleftrightarrow>
     r = -1 \<and> (\<forall>k. int k \<le> limit \<longrightarrow> \<not> P k) \<or>
     (\<exists>k. int k \<le> limit \<and> r = int k \<and> P k \<and> (\<forall>j>k. int j \<le> limit \<longrightarrow> \<not> P j))"

lemma first_from_here: "P start \<Longrightarrow> first_from P start (int start)"
  by (auto simp: first_from_def)

lemma first_from_none: "\<forall>k\<ge>start. \<not> P k \<Longrightarrow> first_from P start (-1)"
  by (simp add: first_from_def)

lemma first_from_skip:
  assumes "first_from P (start + n) r" "\<And>k. start \<le> k \<Longrightarrow> k < start + n \<Longrightarrow> \<not> P k"
  shows "first_from P start r"
proof -
  have "\<forall>k\<ge>start. \<not> P k" if "\<forall>k\<ge>start + n. \<not> P k"
    using that assms(2) by (meson not_le_imp_less)
  moreover have "\<forall>j. start \<le> j \<and> j < k \<longrightarrow> \<not> P j"
    if "\<forall>j. start + n \<le> j \<and> j < k \<longrightarrow> \<not> P j" for k
    using that assms(2) by (meson not_le_imp_less)
  ultimately show ?thesis using assms(1) unfolding first_from_def
    by (metis (no_types, lifting) add_leD1)
qed

lemma search_up_first:
  "(wide \<longrightarrow> even start) \<Longrightarrow> first_from (occurs_at wide buf needle) start (search_up wide buf needle start)"
proof (induction wide buf needle start rule: search_up.induct)
  case (1 wide buf needle start)
  show ?case
  proof (cases "length buf < start + length needle")
    case True
    then show ?thesis
      by (subst search_up.simps) (auto intro: first_from_none simp: occurs_at_def)
  next
    case short: False
    show ?thesis
    proof (cases "matches_at buf needle start")
      case True
      with short 1(2) show ?thesis
        by (subst search_up.simps) (auto intro!: first_from_here simp: occurs_at_def)
    next
      case False
      have "first_from (occurs_at wide buf needle) (start + stride wide)
          (search_up wide buf needle (start + stride wide))"
        using 1 short False by (simp add: stride_def)
      moreover have "\<not> occurs_at wide buf needle k" if "start \<le> k" "k < start + stride wide" for k
        using that False 1(2) by (cases "k = start") (auto simp: occurs_at_def stride_def less_Suc_eq split: if_splits)
      ultimately have "first_from (occurs_at wide buf needle) start
          (search_up wide buf needle (start + stride wide))"
        by (rule first_from_skip)
      with short False show ?thesis by (subst search_up.simps) simp
    qed
  qed
qed

lemma last_upto_here: "P k \<Longrightarrow> last_upto P (int k) (int k)"
  by (auto simp: last_upto_def)

lemma last_upto_none: "\<forall>k. int k \<le> limit \<longrightarrow> \<not> P k \<Longrightarrow> last_upto P limit (-1)"
  by (simp add: last_upto_def)

lemma last_upto_skip:
  assumes "last_upto P low r" "low \<le> limit" "\<And>k. low < int k \<Longrightarrow> int k \<le> limit \<Longrightarrow> \<not> P k"
  shows "last_upto P limit r"
proof -
  have none: "\<forall>k. int k \<le> limit \<longrightarrow> \<not> P k" if "\<forall>k. int k \<le> low \<longrightarrow> \<not> P k"
    using that assms(3) by (meson not_le_imp_less)
  have rest: "\<forall>j>k. int j \<le> limit \<longrightarrow> \<not> P j" if "\<forall>j>k. int j \<le> low \<longrightarrow> \<not> P j" for k
    using that assms(3) by (meson not_le_imp_less)
  from assms(1) consider "r = -1" "\<forall>k. int k \<le> low \<longrightarrow> \<not> P k"
    | k where "int k \<le> low" "r = int k" "P k" "\<forall>j>k. int j \<le> low \<longrightarrow> \<not> P j"
    unfolding last_upto_def by blast
  then show ?thesis
  proof cases
    case 1
    with none show ?thesis by (simp add: last_upto_def)
  next
    case 2
    then have "int k \<le> limit" using assms(2) by simp
    with 2 rest show ?thesis unfolding last_upto_def by blast
  qed
qed

lemma search_down_last:
  "(wide \<longrightarrow> even limit) \<Longrightarrow> limit + int (length needle) \<le> int (length buf) \<Longrightarrow>
   last_upto (occurs_at wide buf needle) limit (search_down wide buf needle limit)"
proof (induction wide buf needle limit rule: search_down.induct)
  case (1 wide buf needle limit)
  show ?case
  proof (cases "limit < 0 \<or> matches_at buf needle (nat limit)")
    case True
    show ?thesis
    proof (cases "limit < 0")
      case True
      then show ?thesis by (subst search_down.simps) (auto intro: last_upto_none)
    next
      case False
      then have "occurs_at wide buf needle (nat limit)"
        using True 1(2,3) by (auto simp: occurs_at_def even_nat_iff)
      from last_upto_here [where P = "occurs_at wide buf needle", OF this] True False show ?thesis
        by (subst search_down.simps) simp
    qed
  next
    case False
    have "last_upto (occurs_at wide buf needle) (limit - int (stride wide))
        (search_down wide buf needle (limit - int (stride wide)))"
      using 1 False by (simp add: stride_def)
    moreover have "\<not> occurs_at wide buf needle k"
      if "limit - int (stride wide) < int k" "int k \<le> limit" for k
    proof (cases "int k = limit")
      case True
      with False show ?thesis by (auto simp: occurs_at_def)
    next
      case neq: False
      with that have "wide \<and> int k = limit - 1" by (auto simp: stride_def split: if_splits)
      with 1(2) have "odd (int k)" "wide" by auto
      then show ?thesis by (simp add: occurs_at_def)
    qed
    moreover have "limit - int (stride wide) \<le> limit" by simp
    ultimately have "last_upto (occurs_at wide buf needle) limit
        (search_down wide buf needle (limit - int (stride wide)))"
      using last_upto_skip by blast
    with False show ?thesis by (subst search_down.simps) simp
  qed
qed

text \<open>Where a backward search starts: the offset, from the end where it is negative.\<close>

definition down_from :: "bytes \<Rightarrow> int \<Rightarrow> int" where
  "down_from buf offset = (if offset < 0 then int (length buf) + offset else offset)"

lemma occurs_bound: "occurs_at wide buf needle k \<Longrightarrow> int k \<le> int (length buf) - int (length needle)"
  by (simp add: occurs_at_def)

lemma search_forward:
  assumes "needle \<noteq> []"
  shows "first_from (occurs_at wide buf needle) (number_up_from buf offset)
    (search_bytes buf needle offset True wide)"
proof (cases "length buf < length needle")
  case True
  with assms show ?thesis by (auto simp: search_bytes_def first_from_def occurs_at_def)
next
  case False
  have up: "first_from (occurs_at wide buf needle) (up_from wide buf offset)
      (search_up wide buf needle (up_from wide buf offset))"
    by (rule search_up_first) (simp add: up_from_def Let_def)
  have "first_from (occurs_at wide buf needle) (number_up_from buf offset)
      (search_up wide buf needle (up_from wide buf offset))"
  proof (cases "wide \<and> odd (number_up_from buf offset)")
    case True
    then have "up_from wide buf offset = number_up_from buf offset + 1" by (simp add: up_from_def)
    with up have "first_from (occurs_at wide buf needle) (number_up_from buf offset + 1)
      (search_up wide buf needle (up_from wide buf offset))" by simp
    then show ?thesis
      by (rule first_from_skip) (use True in \<open>auto simp: occurs_at_def less_Suc_eq\<close>)
  next
    case False
    with up show ?thesis by (auto simp: up_from_def Let_def)
  qed
  with assms False show ?thesis by (simp add: search_bytes_def Let_def)
qed

lemma search_backward:
  assumes "needle \<noteq> []"
  shows "last_upto (occurs_at wide buf needle) (down_from buf offset)
    (search_bytes buf needle offset False wide)"
proof (cases "length buf < length needle")
  case True
  with assms show ?thesis by (auto simp: search_bytes_def last_upto_def occurs_at_def)
next
  case False
  define low where "low = min (down_from buf offset) (int (length buf) - int (length needle))"
  define even_low where "even_low = (if wide \<and> odd low then low - 1 else low)"
  have "last_upto (occurs_at wide buf needle) even_low
      (if low < 0 then -1 else search_down wide buf needle even_low)"
  proof (cases "low < 0")
    case True
    then show ?thesis by (auto intro!: last_upto_none simp: even_low_def)
  next
    case False
    then show ?thesis
      using search_down_last [of wide even_low needle buf] by (auto simp: even_low_def low_def)
  qed
  then have "last_upto (occurs_at wide buf needle) (down_from buf offset)
      (if low < 0 then -1 else search_down wide buf needle even_low)"
  proof (rule last_upto_skip)
    show "even_low \<le> down_from buf offset" by (auto simp: even_low_def low_def)
  next
    fix k assume k: "even_low < int k" "int k \<le> down_from buf offset"
    show "\<not> occurs_at wide buf needle k"
    proof
      assume occ: "occurs_at wide buf needle k"
      with k(2) have "int k \<le> low" by (simp add: low_def occurs_bound)
      with k(1) have "wide" "odd low" "int k = low" by (auto simp: even_low_def split: if_splits)
      with occ show False by (auto simp: occurs_at_def)
    qed
  qed
  moreover have "search_bytes buf needle offset False wide =
      (if low < 0 then -1 else search_down wide buf needle even_low)"
    using assms False by (simp add: search_bytes_def Let_def low_def even_low_def down_from_def min_def)
  ultimately show ?thesis by simp
qed

end
