(* ===== verification/VfsSnapshot.thy ===== *)
theory VfsSnapshot
  imports VfsPromises BufferLaws
begin

text \<open>
  Snapshots of the file system, as a worker is sent one: \<open>toSnapshot\<close> and
  \<open>fromSnapshot\<close> of \<open>src/virtual-fs.ts\<close>, over the base64 of
  \<open>src/utils/binary-encoding.ts\<close>.  A snapshot is a list of entries, each a path with
  its kind, its bytes as base64 text, its permission bits and its modification time.
\<close>

subsection \<open>Bytes as text\<close>

text \<open>The strings of one character a byte, a chunk of 8192 at a time.\<close>

function binary_parts :: "bytes \<Rightarrow> units list" where
  "binary_parts bs =
     (if bs = [] then [] else map ucast (take 8192 bs) # binary_parts (drop 8192 bs))"
  by pat_completeness auto
termination by (relation "measure length") auto

declare binary_parts.simps [simp del]

text \<open>
  \<open>btoa\<close> refuses a character above 255.  \<open>atob\<close> drops white space and the padding of a
  text of whole groups, and refuses what is then no base64.
\<close>

definition btoa :: "units \<Rightarrow> units option" where
  "btoa s = (if list_all (\<lambda>u. unat u < 256) s then Some (base64_groups (map ucast s)) else None)"

definition is_space_unit :: "16 word \<Rightarrow> bool" where
  "is_space_unit u \<longleftrightarrow> u \<in> {9, 10, 12, 13, 32}"

definition unpadded :: "units \<Rightarrow> units" where
  "unpadded s =
     (if length s mod 4 = 0 \<and> s \<noteq> [] \<and> last s = ch_eq
      then let t = butlast s in if t \<noteq> [] \<and> last t = ch_eq then butlast t else t
      else s)"

definition atob :: "units \<Rightarrow> units option" where
  "atob s =
     (let t = unpadded (filter (\<lambda>u. \<not> is_space_unit u) s)
      in if length t mod 4 = 1 \<or> \<not> list_all (\<lambda>u. u \<in> set base64_alphabet) t then None
         else Some (map ucast (base64_loop 0 0 t)))"

definition uint8_to_base64 :: "bytes \<Rightarrow> units option" where
  "uint8_to_base64 bs = btoa (concat (binary_parts bs))"

definition base64_to_uint8 :: "units \<Rightarrow> bytes option" where
  "base64_to_uint8 s = map_option (map ucast) (atob s)"

subsection \<open>Taking a snapshot\<close>

record vfs_entry =
  entry_path :: string
  entry_type :: ntype
  entry_content :: "units option"
  entry_target :: string
  entry_mode :: "nat option"
  entry_mtime :: "rat option"

text \<open>What the entries of one node and of a directory's children are, one after the other.\<close>

primrec gather :: "('a \<Rightarrow> err + 'b list) \<Rightarrow> 'a list \<Rightarrow> err + 'b list" where
  "gather f [] = Inr []"
| "gather f (x # xs) =
     (case f x of
        Inl e \<Rightarrow> Inl e
      | Inr ys \<Rightarrow> (case gather f xs of Inl e \<Rightarrow> Inl e | Inr zs \<Rightarrow> Inr (ys @ zs)))"

definition invalid_character :: err where
  "invalid_character = PlainErr ''InvalidCharacterError''"

definition base64_content :: "bytes \<Rightarrow> err + units" where
  "base64_content bs =
     (if bs = [] then Inr []
      else case uint8_to_base64 bs of None \<Rightarrow> Inl invalid_character | Some s \<Rightarrow> Inr s)"

text \<open>
  \<open>serializeNode\<close>.  A mounted tree has no entry, a node that has no mode has none in its
  entry.  The recursion is the code's; with no call left it overflows.
\<close>

primrec serialize_node :: "nat \<Rightarrow> fs \<Rightarrow> string \<Rightarrow> addr \<Rightarrow> err + vfs_entry list" where
  "serialize_node 0 fs path a = Inl StackOverflow"
| "serialize_node (Suc calls) fs path a =
     (let n = nodes fs a;
          entry = \<lparr>entry_path = path, entry_type = ntype n, entry_content = None, entry_target = [],
            entry_mode = map_option (\<lambda>m. m mod 0x1000) (mode n), entry_mtime = Some (mtime n)\<rparr>
      in if mount n \<noteq> None then Inr []
         else case ntype n of
             File \<Rightarrow>
               (case base64_content (file_bytes fs a) of
                  Inl e \<Rightarrow> Inl e
                | Inr s \<Rightarrow> Inr [entry\<lparr>entry_content := Some s\<rparr>])
           | Symlink \<Rightarrow> Inr [entry\<lparr>entry_target := target n\<rparr>]
           | Directory \<Rightarrow>
               (case gather (\<lambda>(name, c). serialize_node calls fs (below path name) c) (children n) of
                  Inl e \<Rightarrow> Inl e
                | Inr es \<Rightarrow> Inr (entry # es)))"

definition to_snapshot :: "fs \<Rightarrow> err + vfs_entry list" where
  "to_snapshot fs = serialize_node (stack_depth fs) fs ''/'' (root fs)"

subsection \<open>Building a file system from one\<close>

text \<open>Shallow entries first; entries of one depth in the snapshot's order.\<close>

definition entry_depth :: "vfs_entry \<Rightarrow> nat" where
  "entry_depth e = length (split_on slash (entry_path e))"

definition by_depth :: "vfs_entry list \<Rightarrow> vfs_entry list" where
  "by_depth files = sort_key entry_depth files"

text \<open>The directory an entry goes into, as written, is made where it is missing.\<close>

definition entry_parent :: "string \<Rightarrow> string" where
  "entry_parent path =
     (let p = take (nat (last_index_of slash path)) path in if p = [] then ''/'' else p)"

definition restore_parent :: "string \<Rightarrow> fs \<Rightarrow> unit outcome" where
  "restore_parent path fs =
     (let p = entry_parent path
      in if p = ''/'' then (Inr (), fs)
         else case exists_sync p fs of
             Inl e \<Rightarrow> (Inl e, fs)
           | Inr there \<Rightarrow> if there then (Inr (), fs) else mkdir_sync p True fs)"

definition entry_bytes :: "vfs_entry \<Rightarrow> err + bytes" where
  "entry_bytes e =
     (case entry_content e of
        None \<Rightarrow> Inr []
      | Some s \<Rightarrow>
          if s = [] then Inr []
          else case base64_to_uint8 s of None \<Rightarrow> Inl invalid_character | Some bs \<Rightarrow> Inr bs)"

definition restore_entry :: "vfs_entry \<Rightarrow> fs \<Rightarrow> unit outcome" where
  "restore_entry e fs =
     (if entry_path e = ''/'' then (Inr (), fs)
      else case entry_type e of
          Directory \<Rightarrow> mkdir_sync (entry_path e) True fs
        | Symlink \<Rightarrow>
            and_then (restore_parent (entry_path e) fs) (\<lambda>_ fs.
              symlink_sync (entry_target e) (entry_path e) fs)
        | File \<Rightarrow>
            (case entry_bytes e of
               Inl err \<Rightarrow> (Inl err, fs)
             | Inr bs \<Rightarrow>
                 let (v, st) = new_u8 bs (arrays fs)
                 in and_then (restore_parent (entry_path e) (fs\<lparr>arrays := st\<rparr>)) (\<lambda>_ fs.
                      write_file_internal (entry_path e) (Array v) False fs)))"

text \<open>
  The time of a \<open>Date\<close>: whole milliseconds, the fraction cut off.  A time beyond the
  range of a \<open>Date\<close> gives one that is not a number, which no rational is: it is 0 here,
  and the theorems speak of times in range.
\<close>

definition in_date_range :: "rat \<Rightarrow> bool" where
  "in_date_range t \<longleftrightarrow> \<bar>t\<bar> \<le> 8640000000000000"

definition whole_ms :: "rat \<Rightarrow> rat" where
  "whole_ms t = (if t < 0 then of_int \<lceil>t\<rceil> else of_int \<lfloor>t\<rfloor>)"

definition date_ms :: "rat \<Rightarrow> rat" where
  "date_ms t = (if in_date_range t then whole_ms t else 0)"

definition restore_metadata :: "vfs_entry \<Rightarrow> fs \<Rightarrow> unit outcome" where
  "restore_metadata e fs =
     (if entry_type e = Symlink then (Inr (), fs)
      else and_then
        (case entry_mode e of None \<Rightarrow> (Inr (), fs) | Some m \<Rightarrow> chmod_sync (entry_path e) m fs) (\<lambda>_ fs.
          case entry_mtime e of
            None \<Rightarrow> (Inr (), fs)
          | Some t \<Rightarrow>
              utimes_sync (entry_path e) (DateValue (date_ms t)) (DateValue (date_ms t)) fs))"

primrec for_each :: "('a \<Rightarrow> fs \<Rightarrow> unit outcome) \<Rightarrow> 'a list \<Rightarrow> fs \<Rightarrow> unit outcome" where
  "for_each f [] fs = (Inr (), fs)"
| "for_each f (x # xs) fs = and_then (f x fs) (\<lambda>_ fs. for_each f xs fs)"

definition from_snapshot :: "rat \<Rightarrow> nat \<Rightarrow> vfs_entry list \<Rightarrow> unit outcome" where
  "from_snapshot t stack files =
     (let sorted_files = by_depth files
      in and_then (for_each restore_entry sorted_files (new_fs t stack)) (\<lambda>_ fs.
           for_each restore_metadata sorted_files fs))"

end
