(* ===== verification/VfsSnapshotProps.thy ===== *)
theory VfsSnapshotProps
  imports VfsSnapshot "HOL-Library.Multiset"
begin

text \<open>
  A snapshot carries the tree.  The tree of a file system is read as a map from lists of
  names to items; the operations that \<open>fromSnapshot\<close> calls are shown to update that map,
  and so the file system it builds shows the map the snapshot was taken from.
\<close>

subsection \<open>base64\<close>

lemma concat_binary_parts: "concat (binary_parts bs) = map ucast bs"
proof (induction bs rule: binary_parts.induct)
  case (1 bs)
  show ?case
  proof (cases "bs = []")
    case False
    then have "concat (binary_parts bs) = map ucast (take 8192 bs) @ map ucast (drop 8192 bs)"
      using 1 by (simp add: binary_parts.simps [of bs])
    also have "\<dots> = map ucast (take 8192 bs @ drop 8192 bs)" by (simp only: map_append)
    finally show ?thesis by (simp only: append_take_drop_id)
  qed (simp add: binary_parts.simps)
qed

lemma byte_unit: "unat (ucast (b :: byte) :: 16 word) < 256" "ucast (ucast b :: 16 word) = b"
proof -
  show "unat (ucast b :: 16 word) < 256"
    using unsigned_less [of b, where ?'a = nat] by (simp add: unsigned_ucast_eq take_bit_nat_eq_self)
  show "ucast (ucast b :: 16 word) = b" by (simp add: ucast_up_ucast_id is_up_def)
qed

lemma uint8_base64: "uint8_to_base64 bs = Some (base64_groups bs)"
  by (simp add: uint8_to_base64_def btoa_def concat_binary_parts list_all_iff byte_unit comp_def)

lemma no_space_in_base64: "u \<in> set base64_alphabet \<Longrightarrow> \<not> is_space_unit u" "\<not> is_space_unit ch_eq"
proof -
  have "\<forall>u \<in> set base64_alphabet. \<not> is_space_unit u"
    unfolding base64_alphabet_def ascii_units_def is_space_unit_def by simp
  then show "u \<in> set base64_alphabet \<Longrightarrow> \<not> is_space_unit u" by blast
qed (simp add: is_space_unit_def)

lemma length_groups: "length (base64_groups bs) mod 4 = 0"
  by (induction bs rule: base64_groups.induct) auto

lemma unpadded_plain: "ds = [] \<or> last ds \<noteq> ch_eq \<Longrightarrow> unpadded ds = ds"
  by (auto simp: unpadded_def)

lemma unpadded_one:
  assumes "length ds mod 4 = 3" and "last ds \<noteq> ch_eq"
  shows "unpadded (ds @ [ch_eq]) = ds"
proof -
  have "length (ds @ [ch_eq]) mod 4 = 0" using assms(1) by (simp add: mod_Suc)
  with assms(2) show ?thesis by (simp only: unpadded_def Let_def butlast_snoc last_snoc) simp
qed

lemma unpadded_two:
  assumes "length ds mod 4 = 2"
  shows "unpadded (ds @ [ch_eq, ch_eq]) = ds"
proof -
  have "length ((ds @ [ch_eq]) @ [ch_eq]) mod 4 = 0" using assms by (simp add: mod_Suc)
  then have "unpadded ((ds @ [ch_eq]) @ [ch_eq]) = ds"
    by (simp only: unpadded_def Let_def butlast_snoc last_snoc) simp
  then show ?thesis by simp
qed

lemma length_digits_by:
  "length (base64_digits bs) mod 4 =
     (if length bs mod 3 = 0 then 0 else if length bs mod 3 = 1 then 2 else 3)"
proof (induction bs rule: base64_digits.induct)
  case (4 a b c rest)
  have "length (base64_digits (a # b # c # rest)) mod 4 = length (base64_digits rest) mod 4"
    by simp
  moreover have "length (a # b # c # rest) mod 3 = length rest mod 3" by simp
  ultimately show ?case unfolding "4.IH" by simp
qed simp_all

lemma unpadded_groups: "unpadded (base64_groups bs) = base64_digits bs"
proof -
  have "last (base64_digits bs) \<noteq> ch_eq" if "base64_digits bs \<noteq> []"
    using subsetD [OF digits_in_alphabet last_in_set [OF that]] not_in_alphabet(1) by metis
  then have last: "base64_digits bs = [] \<or> last (base64_digits bs) \<noteq> ch_eq" by metis
  have "length bs mod 3 < 3" by simp
  then consider "length bs mod 3 = 0" | "length bs mod 3 = 1" | "length bs mod 3 = 2" by linarith
  then show ?thesis
  proof cases
    case 1
    then show ?thesis by (simp add: groups_digits padding_def unpadded_plain [OF last])
  next
    case 2
    then show ?thesis
      using length_digits_by [of bs] by (simp add: groups_digits padding_def unpadded_two)
  next
    case 3
    then have len: "length (base64_digits bs) mod 4 = 3" using length_digits_by [of bs] by (simp add: numeral_2_eq_2)
    then have "last (base64_digits bs) \<noteq> ch_eq" using last by auto
    with len 3 show ?thesis by (simp add: groups_digits padding_def unpadded_one)
  qed
qed

lemma base64_roundtrip: "base64_to_uint8 (base64_groups bs) = Some bs"
proof -
  have "filter (\<lambda>u. \<not> is_space_unit u) (base64_groups bs) = base64_groups bs"
    unfolding groups_digits using digits_in_alphabet [of bs] no_space_in_base64
    by (intro filter_True) (auto simp: padding_def split: if_splits)
  moreover have "list_all (\<lambda>u. u \<in> set base64_alphabet) (base64_digits bs)"
    using digits_in_alphabet [of bs] by (auto simp: list_all_iff)
  ultimately have "atob (base64_groups bs) = Some (map ucast bs)"
    using length_digits [of bs] by (simp add: atob_def unpadded_groups loop_digits)
  then show ?thesis by (simp add: base64_to_uint8_def byte_unit comp_def)
qed

subsection \<open>The tree as a map from names to items\<close>

text \<open>
  The node a list of names leads to, through plain directories only: the last one may be
  a link, none may be a mount point.
\<close>

definition node_at :: "fs \<Rightarrow> string list \<Rightarrow> addr option" where
  "node_at fs ns =
     (if ns = [] then Some (root fs)
      else case dir_walk fs (root fs) (butlast ns) of
          None \<Rightarrow> None
        | Some a \<Rightarrow>
            (case child_at fs a (last ns) of
               None \<Rightarrow> None
             | Some c \<Rightarrow> if mount (nodes fs c) = None then Some c else None))"

record tree_item =
  it_kind :: ntype
  it_bytes :: bytes
  it_target :: string
  it_mode :: "nat option"
  it_mtime :: rat

definition item_of :: "fs \<Rightarrow> addr \<Rightarrow> tree_item" where
  "item_of fs a =
     (let n = nodes fs a
      in \<lparr>it_kind = ntype n, it_bytes = (if ntype n = File then file_bytes fs a else []),
          it_target = (if ntype n = Symlink then target n else []), it_mode = mode n, it_mtime = mtime n\<rparr>)"

definition look :: "fs \<Rightarrow> string list \<Rightarrow> tree_item option" where
  "look fs ns = map_option (item_of fs) (node_at fs ns)"

lemma node_at_Nil [simp]: "node_at fs [] = Some (root fs)"
  by (simp add: node_at_def)

lemma node_at_snoc:
  "node_at fs (ns @ [n]) = Some c \<longleftrightarrow>
     (\<exists>a. dir_walk fs (root fs) ns = Some a \<and> child_at fs a n = Some c \<and> mount (nodes fs c) = None)"
  by (auto simp: node_at_def split: option.splits)

lemma dir_walk_snoc:
  "dir_walk fs (root fs) (ns @ [n]) = Some c \<longleftrightarrow> node_at fs (ns @ [n]) = Some c \<and> is_directory fs c"
  by (auto simp: node_at_snoc dir_walk_append split: option.splits if_splits)

lemma dir_walk_node_at:
  "wf_fs fs \<Longrightarrow> dir_walk fs (root fs) ns = Some a \<longleftrightarrow> node_at fs ns = Some a \<and> is_directory fs a"
  by (cases ns rule: rev_cases) (auto simp: dir_walk_snoc root_directory)

lemma node_at_walk: "node_at fs ns = Some a \<Longrightarrow> walk fs (root fs) ns = Some a"
  by (cases ns rule: rev_cases) (auto simp: node_at_snoc walk_snoc dest: dir_walk_walk)

lemma node_at_inj: "wf_fs fs \<Longrightarrow> node_at fs ms = Some a \<Longrightarrow> node_at fs ns = Some a \<Longrightarrow> ms = ns"
  by (rule walk_inj [OF _ node_at_walk node_at_walk])

lemma node_at_allocated: "wf_fs fs \<Longrightarrow> node_at fs ns = Some a \<Longrightarrow> a < next_node fs"
  by (rule walk_allocated [OF _ wf_root node_at_walk])

text \<open>What an item reads of a node.\<close>

lemma item_of_cong:
  assumes "(nodes s a)\<lparr>children := []\<rparr> = (nodes fs a)\<lparr>children := []\<rparr>" and "arrays s = arrays fs"
  shows "item_of s a = item_of fs a"
  using arg_cong [OF assms(1), of ntype] arg_cong [OF assms(1), of content]
    arg_cong [OF assms(1), of target] arg_cong [OF assms(1), of mode] arg_cong [OF assms(1), of mtime]
  by (simp add: item_of_def file_bytes_def assms(2) Let_def split: option.split)

subsection \<open>A new entry is one more item\<close>

text \<open>A tree with nothing mounted in it: what is not an item is not an entry either.\<close>

definition unmounted :: "fs \<Rightarrow> bool" where
  "unmounted fs \<longleftrightarrow> (\<forall>a < next_node fs. mount (nodes fs a) = None)"

lemma unmounted_not_crossing: "unmounted fs \<Longrightarrow> wf_fs fs \<Longrightarrow> a < next_node fs \<Longrightarrow> \<not> crosses_mount fs a ns"
  by (induction ns arbitrary: a) (auto simp: unmounted_def dest: wf_child(1) split: option.splits)

definition entry_added :: "fs \<Rightarrow> string list \<Rightarrow> string \<Rightarrow> addr \<Rightarrow> fsnode \<Rightarrow> fs \<Rightarrow> bool" where
  "entry_added fs ns n a x t \<longleftrightarrow>
     wf_fs fs \<and> dir_walk fs (root fs) ns = Some a \<and> child_at fs a n = None \<and>
     children x = [] \<and> mount x = None \<and> t = set_child a n (next_node fs) (snd (alloc_node x fs))"

lemma added_facts:
  assumes "entry_added fs ns n a x t"
  shows "wf_fs fs" "dir_walk fs (root fs) ns = Some a" "child_at fs a n = None" "mount x = None"
    "dir_walk fs (root fs) (ns @ [n]) = None" "a < next_node fs" "a \<noteq> next_node fs"
proof -
  show wf: "wf_fs fs" and at: "dir_walk fs (root fs) ns = Some a" and none: "child_at fs a n = None"
    and "mount x = None"
    using assms by (simp_all add: entry_added_def)
  show "dir_walk fs (root fs) (ns @ [n]) = None" using at none by (simp add: dir_walk_append)
  show "a < next_node fs" using dir_walk_allocated [OF wf wf_root [OF wf] at] .
  then show "a \<noteq> next_node fs" by simp
qed

lemma added_frame:
  assumes "entry_added fs ns n a x t"
  shows "root t = root fs" "next_node t = Suc (next_node fs)" "arrays t = arrays fs" "now t = now fs"
    "stack_depth t = stack_depth fs" "change_listeners t = change_listeners fs"
  using assms by (auto simp: entry_added_def alloc_node_def set_child_def)

lemma added_nodes:
  assumes e: "entry_added fs ns n a x t"
  shows "y \<noteq> next_node fs \<Longrightarrow> (nodes t y)\<lparr>children := []\<rparr> = (nodes fs y)\<lparr>children := []\<rparr>"
    and "nodes t (next_node fs) = x"
    and "child_at t y m =
      (if y = a \<and> m = n then Some (next_node fs) else if y = next_node fs then None else child_at fs y m)"
  using e added_facts(7) [OF e]
  by (auto simp: entry_added_def alloc_node_def child_at_def set_child_def update_node_def)

lemma added_kinds:
  assumes "entry_added fs ns n a x t" and "y \<noteq> next_node fs"
  shows "ntype (nodes t y) = ntype (nodes fs y)" and "mount (nodes t y) = mount (nodes fs y)"
  using arg_cong [OF added_nodes(1) [OF assms], of ntype] arg_cong [OF added_nodes(1) [OF assms], of mount]
  by simp_all

text \<open>One more segment below a directory that was there: all as before, but for the new entry.\<close>

lemma added_child:
  assumes e: "entry_added fs ns n a x t" and b: "dir_walk fs (root fs) ms = Some b" and other: "ms @ [m] \<noteq> ns @ [n]"
  shows "child_at t b m = child_at fs b m"
    and "child_at fs b m = Some d \<Longrightarrow>
      ntype (nodes t d) = ntype (nodes fs d) \<and> mount (nodes t d) = mount (nodes fs d)"
proof -
  note f = added_facts [OF e]
  have b': "b < next_node fs" using dir_walk_allocated [OF f(1) wf_root [OF f(1)] b] .
  have "ms = ns" if "b = a"
    using walk_inj [OF f(1) dir_walk_walk [OF b] dir_walk_walk] f(2) that by simp
  with other have "\<not> (b = a \<and> m = n)" by auto
  with b' show "child_at t b m = child_at fs b m" unfolding added_nodes(3) [OF e] by auto
  assume "child_at fs b m = Some d"
  then have "d \<noteq> next_node fs" using wf_child(1) [OF f(1) b'] by auto
  then show "ntype (nodes t d) = ntype (nodes fs d) \<and> mount (nodes t d) = mount (nodes fs d)"
    using added_kinds [OF e] by simp
qed

lemma added_walks:
  assumes e: "entry_added fs ns n a x t"
  shows "dir_walk t (root fs) ms =
    (if ms = ns @ [n] then if ntype x = Directory then Some (next_node fs) else None
     else dir_walk fs (root fs) ms)"
proof (induction ms rule: rev_induct)
  case (snoc m ms)
  note f = added_facts [OF e]
  have step: "dir_walk t (root fs) (ms @ [m]) =
      (case dir_walk t (root fs) ms of None \<Rightarrow> None | Some b \<Rightarrow> dir_walk t b [m])"
    "dir_walk fs (root fs) (ms @ [m]) =
      (case dir_walk fs (root fs) ms of None \<Rightarrow> None | Some b \<Rightarrow> dir_walk fs b [m])"
    by (rule dir_walk_append)+
  show ?case
  proof (cases "ms = ns @ [n]")
    case True
    have old: "dir_walk fs (root fs) ms = None" using f(5) True by simp
    have "dir_walk t (next_node fs) [m] = None"
      using added_nodes(3) [OF e, of "next_node fs" m] f(7) by simp
    moreover have "ms @ [m] \<noteq> ns @ [n]" using True by simp
    ultimately show ?thesis using snoc.IH True unfolding step old by simp
  next
    case False
    then have IH: "dir_walk t (root fs) ms = dir_walk fs (root fs) ms" using snoc.IH by simp
    show ?thesis
    proof (cases "dir_walk fs (root fs) ms")
      case None
      with f(2) have "ms \<noteq> ns" by auto
      with None IH show ?thesis unfolding step by simp
    next
      case (Some b)
      show ?thesis
      proof (cases "ms @ [m] = ns @ [n]")
        case True
        with Some f(2) have "b = a" "m = n" by auto
        with True Some IH f(4) show ?thesis
          unfolding step using added_nodes(3) [OF e, of a n] added_nodes(2) [OF e] by (simp add: is_directory_def)
      next
        case other: False
        note c = added_child [OF e Some other]
        have "dir_walk t b [m] = dir_walk fs b [m]"
          using c by (auto simp: is_directory_def split: option.split)
        then show ?thesis unfolding step if_not_P [OF other] IH Some option.case .
      qed
    qed
  qed
qed (simp add: added_facts)

lemma added_node_at:
  assumes e: "entry_added fs ns n a x t"
  shows "node_at t ms = (if ms = ns @ [n] then Some (next_node fs) else node_at fs ms)"
proof (cases ms rule: rev_cases)
  case (snoc ks k)
  note f = added_facts [OF e]
  have at: "node_at s ms = (case dir_walk s (root s) ks of None \<Rightarrow> None
      | Some b \<Rightarrow> (case child_at s b k of None \<Rightarrow> None
          | Some c \<Rightarrow> if mount (nodes s c) = None then Some c else None))" for s
  proof -
    have "ms \<noteq> []" "butlast ms = ks" "last ms = k" using snoc by simp_all
    then show ?thesis by (simp only: node_at_def if_False)
  qed
  show ?thesis
  proof (cases "ms = ns @ [n]")
    case True
    with snoc have "ks = ns" "k = n" by simp_all
    with True f(2,4) show ?thesis
      unfolding at added_frame [OF e] added_walks [OF e] using added_nodes(2,3) [OF e] by simp
  next
    case False
    show ?thesis
    proof (cases "dir_walk fs (root fs) ks")
      case None
      have "child_at t (next_node fs) k = None"
        using added_nodes(3) [OF e, of "next_node fs" k] f(7) by simp
      with None False show ?thesis unfolding at added_frame [OF e] added_walks [OF e] by simp
    next
      case (Some b)
      with f(5) have "ks \<noteq> ns @ [n]" by auto
      with Some False added_child [OF e Some, of k] snoc show ?thesis
        unfolding at added_frame [OF e] added_walks [OF e] by (auto split: option.split)
    qed
  qed
qed (simp add: added_frame [OF assms])

lemma added_look:
  assumes e: "entry_added fs ns n a x t"
  shows "look t = (look fs)(ns @ [n] \<mapsto> item_of t (next_node fs))"
proof
  fix ms
  have "item_of t y = item_of fs y" if "node_at fs ms = Some y" for y
    using node_at_allocated [OF added_facts(1) [OF e] that]
    by (intro item_of_cong added_nodes(1) [OF e] added_frame [OF e]) simp
  then show "look t ms = ((look fs)(ns @ [n] \<mapsto> item_of t (next_node fs))) ms"
    by (cases "node_at fs ms") (simp_all add: look_def added_node_at [OF e])
qed

lemma added_unmounted: "entry_added fs ns n a x t \<Longrightarrow> unmounted fs \<Longrightarrow> unmounted t"
  using added_kinds(2) [of fs ns n a x t] added_nodes(2) [of fs ns n a x t] added_facts(4) [of fs ns n a x t]
    added_frame(2) [of fs ns n a x t]
  by (auto simp: unmounted_def less_Suc_eq)

subsection \<open>Operations as updates of the map\<close>

text \<open>
  The file system shows the map \<open>m\<close>: it is well formed, nothing is mounted or listens, and
  its items are those of \<open>m\<close>.  An operation that adds an item is then an update of \<open>m\<close>.
\<close>

type_synonym tree_map = "string list \<Rightarrow> tree_item option"

definition presents :: "rat \<Rightarrow> tree_map \<Rightarrow> fs \<Rightarrow> bool" where
  "presents t m fs \<longleftrightarrow>
     wf_fs fs \<and> holds_bytes \<lparr>buffer = 0, byte_offset = 0, byte_length = 0\<rparr> [] fs \<and> unmounted fs \<and>
     change_listeners fs = [] \<and> 0 < stack_depth fs \<and> now fs = t \<and> look fs = m"

lemma presentsD:
  assumes "presents t m fs"
  shows "wf_fs fs" "holds_bytes \<lparr>buffer = 0, byte_offset = 0, byte_length = 0\<rparr> [] fs" "unmounted fs"
    "change_listeners fs = []" "0 < stack_depth fs" "now fs = t" "look fs = m"
  using assms by (simp_all add: presents_def)

lemma item_of_simps [simp]: "it_kind (item_of fs a) = ntype (nodes fs a)"
  by (simp add: item_of_def Let_def)

lemma presents_node:
  assumes "presents t m fs" and "m ns = Some i"
  obtains a where "node_at fs ns = Some a" "item_of fs a = i" "ntype (nodes fs a) = it_kind i"
proof -
  have "map_option (item_of fs) (node_at fs ns) = Some i"
    using assms(2) presentsD(7) [OF assms(1)] by (simp only: look_def [symmetric])
  then obtain a where "node_at fs ns = Some a" "item_of fs a = i" by (cases "node_at fs ns") simp_all
  with that show thesis by auto
qed

lemma presents_directory:
  assumes "presents t m fs" and "m ns = Some i" and "it_kind i = Directory"
  obtains a where "dir_walk fs (root fs) ns = Some a" "node_at fs ns = Some a"
proof -
  obtain a where a: "node_at fs ns = Some a" "ntype (nodes fs a) = it_kind i"
    using presents_node [OF assms(1,2)] .
  with assms(3) have "is_directory fs a" by (simp add: is_directory_def)
  with a(1) that show thesis using dir_walk_node_at [OF presentsD(1) [OF assms(1)]] by simp
qed

text \<open>A name the map does not have below a directory is free there.\<close>

lemma presents_free:
  assumes p: "presents t m fs" and "m (ns @ [n]) = None" and a: "dir_walk fs (root fs) ns = Some a"
  shows "child_at fs a n = None"
proof (rule ccontr)
  assume "child_at fs a n \<noteq> None"
  then obtain c where c: "child_at fs a n = Some c" by blast
  have "a < next_node fs" using dir_walk_allocated [OF presentsD(1) [OF p] wf_root a] presentsD(1) [OF p] .
  then have "c < next_node fs" using wf_child(1) [OF presentsD(1) [OF p] _ c] by simp
  then have "mount (nodes fs c) = None" using presentsD(3) [OF p] by (simp add: unmounted_def)
  with a c have "node_at fs (ns @ [n]) = Some c" by (simp add: node_at_snoc)
  with assms(2) presentsD(7) [OF p] show False by (auto simp: look_def)
qed

lemma presents_not_crossing:
  "presents t m fs \<Longrightarrow> assert_writable q c fs = (Inr (), fs)"
  using unmounted_not_crossing [of fs "root fs"] by (auto simp: presents_def assert_writable_def dest: wf_root)

lemma presents_silent: "presents t m fs \<Longrightarrow> same_tree s fs' \<Longrightarrow> change_listeners s = [] \<Longrightarrow> emit_changed q s = (Inr (), s)"
  by (simp add: emit_changed_def)

text \<open>The lookup of an item's path, and of a free one.\<close>

lemma presents_get_node:
  assumes p: "presents t m fs" and clean: "\<forall>s \<in> set ns. clean_name s"
    and a: "node_at fs ns = Some a" "ntype (nodes fs a) \<noteq> Symlink"
  shows "get_node fs (render ns) = Inr (Some a)"
proof (cases ns rule: rev_cases)
  case Nil
  with a presentsD(1) [OF p] show ?thesis by (intro get_node_dir) (simp_all add: norm_segs_def nonempty_parts_def)
next
  case (snoc ds n)
  with a obtain b where b: "dir_walk fs (root fs) ds = Some b" "child_at fs b n = Some a" "mount (nodes fs a) = None"
    by (auto simp: node_at_snoc)
  have "norm_segs (render ns) = ds @ [n]" using clean snoc by (simp add: norm_segs_render)
  with b a(2) have "get_node fs (render ns) = Inr (child_at fs b n)"
    by (intro get_node_entry [OF presentsD(1) [OF p]]) (simp_all add: plain_entry_def)
  with b show ?thesis by simp
qed

lemma presents_get_none:
  assumes p: "presents t m fs" and clean: "\<forall>s \<in> set (ns @ [n]). clean_name s"
    and a: "dir_walk fs (root fs) ns = Some a" and none: "child_at fs a n = None"
  shows "get_node fs (render (ns @ [n])) = Inr None"
  using get_node_entry [OF presentsD(1) [OF p] norm_segs_render [OF clean] a] none by (simp add: plain_entry_def)

text \<open>What every operation that adds an item comes to.\<close>

lemma presents_added:
  assumes p: "presents t m fs" and e: "entry_added fs ns n a x s"
    and keep: "wf_fs fs'" "holds_bytes \<lparr>buffer = 0, byte_offset = 0, byte_length = 0\<rparr> [] fs'"
    and same: "same_tree fs' s" "arrays fs' = arrays s" "change_listeners fs' = change_listeners s"
      "stack_depth fs' = stack_depth s" "now fs' = now s"
  shows "presents t (m(ns @ [n] \<mapsto> item_of s (next_node fs))) fs'"
proof -
  have "node_at fs' = node_at s"
    unfolding fun_eq_iff node_at_def dir_walk_same_tree [OF same(1)] child_at_same [OF same(1)] same_treeD [OF same(1)]
    by simp
  moreover have "item_of fs' = item_of s"
    unfolding fun_eq_iff item_of_def file_bytes_def same(2) same_treeD [OF same(1)] by simp
  ultimately have "look fs' = look s" by (intro ext) (simp add: look_def)
  moreover have "unmounted fs'"
    using added_unmounted [OF e presentsD(3) [OF p]] by (simp add: unmounted_def same_treeD [OF same(1)])
  ultimately show ?thesis
    using keep presentsD(4-7) [OF p] added_look [OF e] added_frame [OF e] same by (simp add: presents_def)
qed

definition new_item :: "ntype \<Rightarrow> bytes \<Rightarrow> string \<Rightarrow> rat \<Rightarrow> tree_item" where
  "new_item k bs tgt t = \<lparr>it_kind = k, it_bytes = bs, it_target = tgt, it_mode = None, it_mtime = t\<rparr>"

lemma clean_path:
  assumes "\<forall>s \<in> set (ns @ [n]). clean_name s"
  shows "norm_segs (render (ns @ [n])) = ns @ [n]" "normalize_path (render (ns @ [n])) = render (ns @ [n])"
    "base_name (render (ns @ [n])) = n" "parent_path (render (ns @ [n])) = render ns" "n \<noteq> []"
    "norm_segs (render ns) = ns"
proof -
  show 1: "norm_segs (render (ns @ [n])) = ns @ [n]" using assms by (rule norm_segs_render)
  then show "normalize_path (render (ns @ [n])) = render (ns @ [n])" by (simp only: normalize_path_render)
  show "base_name (render (ns @ [n])) = n" "parent_path (render (ns @ [n])) = render ns"
    by (simp_all add: base_name_segs parent_path_segs 1)
  show "n \<noteq> []" "norm_segs (render ns) = ns" using assms by (simp_all add: clean_name_def norm_segs_render)
qed

lemma ensure_loop_past:
  "dir_walk fs a ns = Some b \<Longrightarrow> ensure_loop path passed (ns @ ms) a fs = ensure_loop path (passed @ ns) ms b fs"
  by (induction ns arbitrary: a passed) (auto simp: is_directory_def split: option.splits if_splits)

text \<open>The tree an operation has before it announces its new entry.\<close>

definition with_entry :: "addr \<Rightarrow> string \<Rightarrow> fsnode \<Rightarrow> fs \<Rightarrow> fs" where
  "with_entry a n x fs = set_child a n (next_node fs) (snd (alloc_node x fs))"

lemma entry_addedI:
  assumes p: "presents t m fs" and a: "dir_walk fs (root fs) ns = Some a" and free: "m (ns @ [n]) = None"
    and x: "children x = []" "mount x = None"
  shows "entry_added fs ns n a x (with_entry a n x fs)"
  using presentsD(1) [OF p] a presents_free [OF p free a] x by (simp add: entry_added_def with_entry_def)

lemma presents_announced:
  assumes p: "presents t m fs" and e: "entry_added fs ns n a x s"
    and keep: "wf_fs (notify_watchers q Rename s)"
      "holds_bytes \<lparr>buffer = 0, byte_offset = 0, byte_length = 0\<rparr> [] (notify_watchers q Rename s)"
  shows "presents t (m(ns @ [n] \<mapsto> item_of s (next_node fs))) (notify_watchers q Rename s)"
  by (rule presents_added [OF p e keep], simp) (simp_all add: notify_watchers_def Let_def)

lemma announce_silent: "change_listeners s = [] \<Longrightarrow> announce q s = (Inr (), notify_watchers q Rename s)"
  by (simp add: announce_def emit_changed_def notify_watchers_def Let_def)

lemma mkdir_presents:
  assumes p: "presents t m fs" and dir: "m ns = Some i" "it_kind i = Directory"
    and free: "m (ns @ [n]) = None" and clean: "\<forall>s \<in> set (ns @ [n]). clean_name s"
  shows "\<exists>fs'. mkdir_sync (render (ns @ [n])) True fs = (Inr (), fs') \<and>
    presents t (m(ns @ [n] \<mapsto> new_item Directory [] [] t)) fs'"
proof -
  let ?q = "render (ns @ [n])" and ?x = "new_directory (now fs)"
  obtain a where a: "dir_walk fs (root fs) ns = Some a" using presents_directory [OF p dir] .
  let ?s = "with_entry a n ?x fs"
  have e: "entry_added fs ns n a ?x ?s" using p a free by (rule entry_addedI) simp_all
  have none: "child_at fs a n = None" using p free a by (rule presents_free)
  have silent: "change_listeners ?s = []" using added_frame(6) [OF e] presentsD(4) [OF p] by simp
  obtain k where k: "stack_depth fs = Suc k" using presentsD(5) [OF p] by (cases "stack_depth fs") auto
  have "ensure_loop ?q [] (ns @ [n]) (root fs) fs =
      (EnsuredAt (next_node fs), notify_watchers ?q Rename ?s)"
    unfolding ensure_loop_past [OF a] using none silent
    by (simp add: alloc_node_def with_entry_def emit_changed_def notify_watchers_def Let_def)
  then have "ensure_dir ?q fs = (Inr (next_node fs), notify_watchers ?q Rename ?s)"
    using k by (simp add: ensure_dir_def path_segments_norm clean_path(1) [OF clean])
  moreover have "get_node fs ?q = Inr None" using p clean a none by (rule presents_get_none)
  ultimately have r: "mkdir_sync ?q True fs = (Inr (), notify_watchers ?q Rename ?s)"
    by (simp add: mkdir_sync_def Let_def clean_path(2) [OF clean] presents_not_crossing [OF p])
  have "item_of ?s (next_node fs) = new_item Directory [] [] t"
    unfolding item_of_def Let_def added_nodes(2) [OF e] new_item_def
    by (simp add: new_directory_def presentsD(6) [OF p])
  moreover have "presents t (m(ns @ [n] \<mapsto> item_of ?s (next_node fs))) (notify_watchers ?q Rename ?s)"
    using p e
  proof (rule presents_announced)
    show "wf_fs (notify_watchers ?q Rename ?s)"
      using wf_mkdir [OF presentsD(1) [OF p], of ?q True] r by simp
    show "holds_bytes \<lparr>buffer = 0, byte_offset = 0, byte_length = 0\<rparr> [] (notify_watchers ?q Rename ?s)"
      using kept.P_mkdir [OF presentsD(2) [OF p], of ?q True] r by simp
  qed
  ultimately show ?thesis using r by simp
qed

lemma presents_require_parent:
  assumes p: "presents t m fs" and a: "dir_walk fs (root fs) ns = Some a" and clean: "\<forall>s \<in> set (ns @ [n]). clean_name s"
  shows "require_parent (render (ns @ [n])) c fs = (Inr a, fs)"
proof -
  have "get_node fs (render ns) = Inr (Some a)"
    using get_node_dir [OF presentsD(1) [OF p], of "render ns"] a clean_path(6) [OF clean] by simp
  then show ?thesis
    using dir_walk_dir [OF a root_directory [OF presentsD(1) [OF p]]]
    by (simp add: require_parent_def clean_path [OF clean])
qed

lemma symlink_presents:
  assumes p: "presents t m fs" and dir: "m ns = Some i" "it_kind i = Directory"
    and free: "m (ns @ [n]) = None" and clean: "\<forall>s \<in> set (ns @ [n]). clean_name s"
  shows "\<exists>fs'. symlink_sync tgt (render (ns @ [n])) fs = (Inr (), fs') \<and>
    presents t (m(ns @ [n] \<mapsto> new_item Symlink [] tgt t)) fs'"
proof -
  let ?q = "render (ns @ [n])" and ?x = "new_symlink tgt (now fs)"
  obtain a where a: "dir_walk fs (root fs) ns = Some a" using presents_directory [OF p dir] .
  let ?s = "with_entry a n ?x fs"
  have e: "entry_added fs ns n a ?x ?s" using p a free by (rule entry_addedI) (simp_all add: wf_node_kinds)
  have none: "child_at fs a n = None" using p free a by (rule presents_free)
  have silent: "change_listeners ?s = []" using added_frame(6) [OF e] presentsD(4) [OF p] by simp
  have r: "symlink_sync tgt ?q fs = (Inr (), notify_watchers ?q Rename ?s)"
    using none announce_silent [OF silent]
    by (simp add: symlink_sync_def Let_def clean_path [OF clean] presents_not_crossing [OF p]
        presents_require_parent [OF p a clean] alloc_node_def with_entry_def)
  have "item_of ?s (next_node fs) = new_item Symlink [] tgt t"
    unfolding item_of_def Let_def added_nodes(2) [OF e] new_item_def
    by (simp add: wf_node_kinds presentsD(6) [OF p])
  moreover have "presents t (m(ns @ [n] \<mapsto> item_of ?s (next_node fs))) (notify_watchers ?q Rename ?s)"
    using p e
  proof (rule presents_announced)
    show "wf_fs (notify_watchers ?q Rename ?s)"
      using wf_symlink [OF presentsD(1) [OF p], of tgt ?q] r by simp
    show "holds_bytes \<lparr>buffer = 0, byte_offset = 0, byte_length = 0\<rparr> [] (notify_watchers ?q Rename ?s)"
      using kept.P_symlink [OF presentsD(2) [OF p], of tgt ?q] r by simp
  qed
  ultimately show ?thesis using r by simp
qed

lemma entry_parent_render:
  assumes "\<forall>s \<in> set (ns @ [n]). clean_name s"
  shows "entry_parent (render (ns @ [n])) = render ns"
proof -
  have n: "slash \<notin> set n" using assms by (simp add: clean_name_def)
  show ?thesis
    unfolding entry_parent_def Let_def last_slash_render [OF n]
    by (cases "ns = []") (simp_all add: render_snoc)
qed

lemma restore_parent_there:
  assumes p: "presents t m fs" and a: "dir_walk fs (root fs) ns = Some a" and clean: "\<forall>s \<in> set (ns @ [n]). clean_name s"
  shows "restore_parent (render (ns @ [n])) fs = (Inr (), fs)"
proof -
  have "get_node fs (render ns) = Inr (Some a)"
    using get_node_dir [OF presentsD(1) [OF p], of "render ns"] a clean_path(6) [OF clean] by simp
  then show ?thesis by (simp add: restore_parent_def Let_def exists_sync_def entry_parent_render [OF clean])
qed

text \<open>More arrays in the store change no item.\<close>

lemma presents_store_ext:
  assumes p: "presents t m fs" and ext: "store_ext (arrays fs) st"
  shows "presents t m (fs\<lparr>arrays := st\<rparr>)"
proof -
  let ?s = "fs\<lparr>arrays := st\<rparr>"
  have same: "same_tree ?s fs" by simp
  have inv: "bytes_inv fs" using presentsD(2) [OF p] by blast
  have "node_at ?s = node_at fs"
    unfolding fun_eq_iff node_at_def dir_walk_same_tree [OF same] child_at_same [OF same] same_treeD [OF same] by simp
  moreover have "item_of ?s a = item_of fs a" if "node_at fs ns = Some a" for ns a
    using file_bytes_store_ext [OF inv node_at_allocated [OF presentsD(1) [OF p] that] ext]
    by (simp add: item_of_def Let_def)
  ultimately have "look ?s ns = look fs ns" for ns
    by (cases "node_at fs ns") (simp_all add: look_def)
  then have "look ?s = look fs" by (simp add: fun_eq_iff)
  moreover have "holds_bytes \<lparr>buffer = 0, byte_offset = 0, byte_length = 0\<rparr> [] ?s"
    using presentsD(2) [OF p] ext by (rule holds_bytes_store_ext)
  ultimately show ?thesis using p by (simp add: presents_def unmounted_def)
qed

lemma write_presents:
  assumes p: "presents t m fs" and dir: "m ns = Some i" "it_kind i = Directory"
    and free: "m (ns @ [n]) = None" and clean: "\<forall>s \<in> set (ns @ [n]). clean_name s"
    and v: "settled fs v" "view_bytes (arrays fs) v = bs"
  shows "\<exists>fs'. write_file_internal (render (ns @ [n])) (Array v) False fs = (Inr (), fs') \<and>
    presents t (m(ns @ [n] \<mapsto> new_item File bs [] t)) fs'"
proof -
  let ?q = "render (ns @ [n])" and ?x = "new_file v (now fs)"
  obtain a where a: "dir_walk fs (root fs) ns = Some a" using presents_directory [OF p dir] .
  let ?s = "with_entry a n ?x fs"
  have e: "entry_added fs ns n a ?x ?s" using p a free by (rule entry_addedI) (simp_all add: new_file_def)
  have none: "child_at fs a n = None" using p free a by (rule presents_free)
  have "ensure_dir (render ns) fs = (Inr a, fs)"
    using a presentsD(5) [OF p] by (intro ensure_dir_existing) (simp_all add: clean_path(6) [OF clean])
  then have r: "write_file_internal ?q (Array v) False fs = (Inr (), ?s)"
    using none clean_path(5) [OF clean]
    by (simp add: write_file_internal_def Let_def clean_path [OF clean] presents_not_crossing [OF p]
        data_view_def put_file_def alloc_node_def with_entry_def)
  have "content ?x = Some v" by (simp add: new_file_def)
  then have "file_bytes ?s (next_node fs) = bs"
    by (simp only: file_bytes_def added_nodes(2) [OF e] option.case added_frame(3) [OF e] v(2))
  then have "item_of ?s (next_node fs) = new_item File bs [] t"
    unfolding item_of_def Let_def added_nodes(2) [OF e] new_item_def
    by (simp add: new_file_def new_directory_def presentsD(6) [OF p])
  moreover have "presents t (m(ns @ [n] \<mapsto> item_of ?s (next_node fs))) ?s"
  proof (rule presents_added [OF p e])
    show "wf_fs ?s" using wf_write_internal [OF presentsD(1) [OF p], of ?q "Array v" False] r by simp
    show "holds_bytes \<lparr>buffer = 0, byte_offset = 0, byte_length = 0\<rparr> [] ?s"
      using holds_bytes_write_internal [OF presentsD(2) [OF p], of "Array v" ?q False] v(1) r by simp
  qed simp_all
  ultimately show ?thesis using r by simp
qed

subsection \<open>Metadata as updates of the map\<close>

lemma presents_update:
  assumes p: "presents t m fs" and a: "node_at fs ns = Some a"
    and f: "\<And>x. ntype (f x) = ntype x" "\<And>x. children (f x) = children x" "\<And>x. mount (f x) = mount x"
      "\<And>x. content (f x) = content x" "\<And>x. room (f x) = room x" "\<And>x. lent x \<Longrightarrow> lent (f x)"
  shows "presents t (m(ns \<mapsto> item_of (update_node a f fs) a)) (update_node a f fs)"
proof -
  let ?s = "update_node a f fs"
  have at: "node_at ?s = node_at fs"
  proof
    fix ms
    have c: "child_at ?s = child_at fs" using f(2) by (intro ext) (simp add: child_at_def update_node_def)
    have k: "ntype (nodes ?s x) = ntype (nodes fs x)" "mount (nodes ?s x) = mount (nodes fs x)" for x
      using f(1,3) by (simp_all add: update_node_def)
    have "dir_walk ?s (root fs) (butlast ms) = dir_walk fs (root fs) (butlast ms)"
      using c k by (rule dir_walk_cong)
    then show "node_at ?s ms = node_at fs ms"
      unfolding node_at_def c k update_node_fields by (rule arg_cong)
  qed
  have "item_of ?s b = item_of fs b" if "b \<noteq> a" for b
    using that by (intro item_of_cong) simp_all
  then have "look ?s ms = ((look fs)(ns \<mapsto> item_of ?s a)) ms" for ms
    using a node_at_inj [OF presentsD(1) [OF p] a, of ms]
    by (cases "node_at fs ms") (auto simp: look_def at)
  then have "look ?s = (look fs)(ns \<mapsto> item_of ?s a)" by (rule ext)
  moreover have "wf_fs ?s" using presentsD(1) [OF p] f(1-3) by (rule wf_update_node)
  moreover have "holds_bytes \<lparr>buffer = 0, byte_offset = 0, byte_length = 0\<rparr> [] ?s"
    using presentsD(2) [OF p] f(4-6) by (rule kept.P_update)
  moreover have "unmounted ?s" using presentsD(3) [OF p] f(3) by (simp add: unmounted_def update_node_def)
  ultimately show ?thesis using presentsD(4-7) [OF p] by (simp add: presents_def)
qed

lemma chmod_presents:
  assumes p: "presents t m fs" and i: "m ns = Some i" "it_kind i \<noteq> Symlink" and clean: "\<forall>s \<in> set ns. clean_name s"
  shows "\<exists>fs'. chmod_sync (render ns) k fs = (Inr (), fs') \<and>
    presents t (m(ns \<mapsto> i\<lparr>it_mode := Some (k mod 0x1000)\<rparr>)) fs'"
proof -
  obtain a where a: "node_at fs ns = Some a" "item_of fs a = i" "ntype (nodes fs a) = it_kind i"
    using presents_node [OF p i(1)] .
  let ?s = "update_node a (\<lambda>x. x\<lparr>mode := Some (k mod 0x1000)\<rparr>) fs"
  have "get_node fs (render ns) = Inr (Some a)"
    using p clean a(1) by (rule presents_get_node) (use a(3) i(2) in simp)
  then have r: "chmod_sync (render ns) k fs = (Inr (), ?s)"
    using presentsD(4) [OF p] by (simp add: chmod_sync_def presents_not_crossing [OF p] emit_changed_def)
  have "item_of ?s a = i\<lparr>it_mode := Some (k mod 0x1000)\<rparr>"
    unfolding a(2) [symmetric] by (simp add: item_of_def file_bytes_def Let_def split: option.split)
  moreover have "presents t (m(ns \<mapsto> item_of ?s a)) ?s"
    using p a(1) by (rule presents_update) simp_all
  ultimately show ?thesis using r by simp
qed

lemma utimes_presents:
  assumes p: "presents t m fs" and i: "m ns = Some i" "it_kind i \<noteq> Symlink" and clean: "\<forall>s \<in> set ns. clean_name s"
  shows "\<exists>fs'. utimes_sync (render ns) (DateValue u) (DateValue u) fs = (Inr (), fs') \<and>
    presents t (m(ns \<mapsto> i\<lparr>it_mtime := u\<rparr>)) fs'"
proof -
  obtain a where a: "node_at fs ns = Some a" "item_of fs a = i" "ntype (nodes fs a) = it_kind i"
    using presents_node [OF p i(1)] .
  let ?r = "update_node a (\<lambda>x. x\<lparr>atime := Some u\<rparr>) fs"
  let ?s = "update_node a (\<lambda>x. x\<lparr>mtime := u\<rparr>) ?r"
  have eq: "?s = update_node a (\<lambda>x. x\<lparr>atime := Some u, mtime := u\<rparr>) fs" by (simp add: update_node_def)
  have "get_node fs (render ns) = Inr (Some a)"
    using p clean a(1) by (rule presents_get_node) (use a(3) i(2) in simp)
  then have r: "utimes_sync (render ns) (DateValue u) (DateValue u) fs = (Inr (), ?s)"
    using presentsD(4) [OF p] by (simp add: utimes_sync_def presents_not_crossing [OF p] emit_changed_def)
  have "item_of ?s a = i\<lparr>it_mtime := u\<rparr>"
    unfolding a(2) [symmetric] by (simp add: item_of_def file_bytes_def Let_def split: option.split)
  moreover have "presents t (m(ns \<mapsto> item_of ?s a)) ?s"
    unfolding eq using p a(1) by (rule presents_update) simp_all
  ultimately show ?thesis using r by simp
qed

subsection \<open>Entries put back\<close>

text \<open>
  The entry that describes an item; the item as it is when its entry has been put back;
  and the item with its metadata, which links do without.
\<close>

definition entry_for :: "string list \<Rightarrow> tree_item \<Rightarrow> vfs_entry" where
  "entry_for ns i =
     \<lparr>entry_path = render ns, entry_type = it_kind i,
      entry_content = (if it_kind i = File
        then Some (if it_bytes i = [] then [] else base64_groups (it_bytes i)) else None),
      entry_target = it_target i, entry_mode = map_option (\<lambda>k. k mod 0x1000) (it_mode i),
      entry_mtime = Some (it_mtime i)\<rparr>"

definition made_item :: "rat \<Rightarrow> tree_item \<Rightarrow> tree_item" where
  "made_item t i = new_item (it_kind i) (it_bytes i) (it_target i) t"

definition carried :: "rat \<Rightarrow> tree_item \<Rightarrow> tree_item" where
  "carried t i =
     (if it_kind i = Symlink then made_item t i
      else (made_item t i)\<lparr>it_mode := map_option (\<lambda>k. k mod 0x1000) (it_mode i), it_mtime := date_ms (it_mtime i)\<rparr>)"

text \<open>A map that is a tree: directories above every item, clean names, and bytes and targets where they belong.\<close>

definition tree_map_ok :: "tree_map \<Rightarrow> bool" where
  "tree_map_ok m \<longleftrightarrow>
     (\<exists>r. m [] = Some r \<and> it_kind r = Directory) \<and>
     (\<forall>ns n i. m (ns @ [n]) = Some i \<longrightarrow> (\<exists>d. m ns = Some d \<and> it_kind d = Directory)) \<and>
     (\<forall>ns i. m ns = Some i \<longrightarrow> (\<forall>s \<in> set ns. clean_name s) \<and>
        (it_kind i \<noteq> File \<longrightarrow> it_bytes i = []) \<and> (it_kind i \<noteq> Symlink \<longrightarrow> it_target i = []))"

lemma tree_map_okD:
  assumes "tree_map_ok m"
  shows "\<exists>r. m [] = Some r \<and> it_kind r = Directory"
    and "m (ns @ [n]) = Some i \<Longrightarrow> \<exists>d. m ns = Some d \<and> it_kind d = Directory"
    and "m ns = Some i \<Longrightarrow> \<forall>s \<in> set ns. clean_name s"
    and "m ns = Some i \<Longrightarrow> it_kind i \<noteq> File \<Longrightarrow> it_bytes i = []"
    and "m ns = Some i \<Longrightarrow> it_kind i \<noteq> Symlink \<Longrightarrow> it_target i = []"
  using assms unfolding tree_map_ok_def by blast+

lemma render_inj:
  "\<forall>s \<in> set ks. clean_name s \<Longrightarrow> \<forall>s \<in> set ns. clean_name s \<Longrightarrow> render ks = render ns \<Longrightarrow> ks = ns"
  using norm_segs_render by metis

lemma entry_for_simps [simp]:
  "entry_path (entry_for ns i) = render ns" "entry_type (entry_for ns i) = it_kind i"
  "entry_target (entry_for ns i) = it_target i"
  "entry_mode (entry_for ns i) = map_option (\<lambda>k. k mod 0x1000) (it_mode i)"
  "entry_mtime (entry_for ns i) = Some (it_mtime i)"
  by (simp_all add: entry_for_def)

lemma entry_bytes_for: "it_kind i = File \<Longrightarrow> entry_bytes (entry_for ns i) = Inr (it_bytes i)"
proof -
  assume "it_kind i = File"
  moreover have "base64_groups bs \<noteq> []" if "bs \<noteq> []" for bs
    using that by (cases bs rule: base64_groups.cases) simp_all
  ultimately show ?thesis by (simp add: entry_bytes_def entry_for_def base64_roundtrip)
qed

lemma restore_entry_presents:
  assumes p: "presents t m fs" and dir: "m ns = Some d" "it_kind d = Directory" and free: "m (ns @ [n]) = None"
    and ok: "tree_map_ok m'" "m' (ns @ [n]) = Some i"
  shows "\<exists>fs'. restore_entry (entry_for (ns @ [n]) i) fs = (Inr (), fs') \<and>
    presents t (m(ns @ [n] \<mapsto> made_item t i)) fs'"
proof -
  let ?q = "render (ns @ [n])"
  note clean = tree_map_okD(3) [OF ok] and own = tree_map_okD(4,5) [OF ok]
  have q: "?q \<noteq> ''/''" using render_eq_root [OF clean] by simp
  show ?thesis
  proof (cases "it_kind i")
    case Directory
    with own have "made_item t i = new_item Directory [] [] t" by (simp add: made_item_def)
    then show ?thesis
      using mkdir_presents [OF p dir free clean] q Directory by (simp add: restore_entry_def)
  next
    case Symlink
    obtain a where a: "dir_walk fs (root fs) ns = Some a" using presents_directory [OF p dir] .
    from Symlink own have "made_item t i = new_item Symlink [] (it_target i) t" by (simp add: made_item_def)
    then show ?thesis
      using symlink_presents [OF p dir free clean, of "it_target i"] q Symlink
      by (simp add: restore_entry_def restore_parent_there [OF p a clean])
  next
    case File
    obtain v st where nu: "new_u8 (it_bytes i) (arrays fs) = (v, st)" by fastforce
    let ?s = "fs\<lparr>arrays := st\<rparr>"
    have p': "presents t m ?s" using p store_ext_new [OF nu] by (rule presents_store_ext)
    obtain a where a: "dir_walk ?s (root ?s) ns = Some a" using presents_directory [OF p' dir] .
    have v: "settled ?s v" "view_bytes (arrays ?s) v = it_bytes i"
      using new_u8_settled [OF holds_bytes_inv [OF presentsD(2) [OF p]] nu] new_u8_valid [OF nu] by simp_all
    from File own have "made_item t i = new_item File (it_bytes i) [] t" by (simp add: made_item_def)
    then show ?thesis
      using write_presents [OF p' dir free clean v] q File
      by (simp add: restore_entry_def entry_bytes_for nu restore_parent_there [OF p' a clean])
  qed
qed

lemma restore_metadata_presents:
  assumes p: "presents t m fs" and at: "m ns = Some (made_item t i)" and clean: "\<forall>s \<in> set ns. clean_name s"
  shows "\<exists>fs'. restore_metadata (entry_for ns i) fs = (Inr (), fs') \<and> presents t (m(ns \<mapsto> carried t i)) fs'"
proof (cases "it_kind i = Symlink")
  case True
  with at have "m(ns \<mapsto> carried t i) = m" by (auto simp: carried_def fun_eq_iff)
  with True p show ?thesis by (simp add: restore_metadata_def)
next
  case False
  let ?i = "(made_item t i)\<lparr>it_mode := map_option (\<lambda>k. k mod 0x1000) (it_mode i)\<rparr>"
  have kind: "it_kind (made_item t i) \<noteq> Symlink" "it_kind ?i \<noteq> Symlink"
    using False by (simp_all add: made_item_def new_item_def)
  have "\<exists>s. (case entry_mode (entry_for ns i) of None \<Rightarrow> (Inr (), fs)
      | Some k \<Rightarrow> chmod_sync (entry_path (entry_for ns i)) k fs) = (Inr (), s) \<and> presents t (m(ns \<mapsto> ?i)) s"
  proof (cases "it_mode i")
    case None
    then have "?i = made_item t i" by (simp add: made_item_def new_item_def)
    with at have "m(ns \<mapsto> ?i) = m" by (auto simp: fun_eq_iff)
    with p None show ?thesis by simp
  next
    case (Some k)
    with chmod_presents [OF p at kind(1) clean, of "k mod 0x1000"] show ?thesis by simp
  qed
  then obtain s where s: "(case entry_mode (entry_for ns i) of None \<Rightarrow> (Inr (), fs)
      | Some k \<Rightarrow> chmod_sync (entry_path (entry_for ns i)) k fs) = (Inr (), s)"
    and ps: "presents t (m(ns \<mapsto> ?i)) s" by blast
  have "(m(ns \<mapsto> ?i)) ns = Some ?i" by simp
  from utimes_presents [OF ps this kind(2) clean, of "date_ms (it_mtime i)"]
  obtain fs' where fs': "utimes_sync (render ns) (DateValue (date_ms (it_mtime i))) (DateValue (date_ms (it_mtime i))) s = (Inr (), fs')"
    "presents t ((m(ns \<mapsto> ?i))(ns \<mapsto> ?i\<lparr>it_mtime := date_ms (it_mtime i)\<rparr>)) fs'" by blast
  have "restore_metadata (entry_for ns i) fs = (Inr (), fs')"
    unfolding restore_metadata_def s using False fs'(1) by simp
  moreover have "(m(ns \<mapsto> ?i))(ns \<mapsto> ?i\<lparr>it_mtime := date_ms (it_mtime i)\<rparr>) = m(ns \<mapsto> carried t i)"
    using False by (simp add: carried_def)
  ultimately show ?thesis using fs'(2) by auto
qed

subsection \<open>The two passes\<close>

text \<open>The entries of a map, each item with one entry and each entry with its item.\<close>

definition entries_of :: "tree_map \<Rightarrow> vfs_entry list \<Rightarrow> bool" where
  "entries_of m files \<longleftrightarrow>
     (\<forall>e \<in> set files. \<exists>ns i. m ns = Some i \<and> e = entry_for ns i) \<and>
     (\<forall>ns i. m ns = Some i \<longrightarrow> entry_for ns i \<in> set files) \<and> distinct (map entry_path files)"

text \<open>The map with the items of the paths in \<open>ps\<close> put back, and then given their metadata.\<close>

definition put_back :: "rat \<Rightarrow> tree_map \<Rightarrow> string set \<Rightarrow> tree_map" where
  "put_back t m ps ns = (if ns = [] \<or> render ns \<in> ps then map_option (made_item t) (m ns) else None)"

definition dressed :: "rat \<Rightarrow> tree_map \<Rightarrow> string set \<Rightarrow> tree_map" where
  "dressed t m ps ns = (if render ns \<in> ps then map_option (carried t) (m ns) else map_option (made_item t) (m ns))"

lemma same_path:
  assumes "tree_map_ok m" and "m ns = Some i" and "m ks = Some j"
  shows "render ks = render ns \<longleftrightarrow> ks = ns"
  using render_inj tree_map_okD(3) [OF assms(1,2)] tree_map_okD(3) [OF assms(1,3)] by blast

lemma put_back_insert:
  assumes ok: "tree_map_ok m" and i: "m ns = Some i"
  shows "put_back t m (insert (render ns) ps) = (put_back t m ps)(ns \<mapsto> made_item t i)"
proof
  fix ks
  show "put_back t m (insert (render ns) ps) ks = ((put_back t m ps)(ns \<mapsto> made_item t i)) ks"
    using i same_path [OF ok i] by (cases "m ks") (auto simp: put_back_def)
qed

lemma dressed_insert:
  assumes ok: "tree_map_ok m" and i: "m ns = Some i"
  shows "dressed t m (insert (render ns) ps) = (dressed t m ps)(ns \<mapsto> carried t i)"
proof
  fix ks
  show "dressed t m (insert (render ns) ps) ks = ((dressed t m ps)(ns \<mapsto> carried t i)) ks"
    using i same_path [OF ok i] by (cases "m ks") (auto simp: dressed_def)
qed

lemma depth_of_entry:
  assumes "\<forall>s \<in> set ns. clean_name s"
  shows "entry_depth (entry_for ns i) = Suc (length ns) \<or> ns = []"
proof (cases "ns = []")
  case False
  with assms have "split_on slash (join_with ''/'' ns) = ns" by (auto intro!: split_join simp: clean_name_def)
  then show ?thesis by (simp add: entry_depth_def render_def)
qed simp

text \<open>
  With the entries sorted by depth, the directory of the next one has been put back: its
  entry is not among those left, which are as deep as the next one at least.
\<close>

lemma put_back_all:
  assumes ok: "tree_map_ok m"
  shows "presents t (put_back t m ps) fs \<Longrightarrow>
    \<forall>e \<in> set es. \<exists>ns i. m ns = Some i \<and> e = entry_for ns i \<Longrightarrow>
    \<forall>ns i. m ns = Some i \<longrightarrow> render ns \<in> ps \<union> entry_path ` set es \<Longrightarrow>
    distinct (map entry_path es) \<Longrightarrow> \<forall>e \<in> set es. entry_path e \<notin> ps \<Longrightarrow> sorted (map entry_depth es) \<Longrightarrow>
    \<exists>fs'. for_each restore_entry es fs = (Inr (), fs') \<and>
      presents t (put_back t m (ps \<union> entry_path ` set es)) fs'"
proof (induction es arbitrary: ps fs)
  case (Cons e es)
  obtain ks i where ks: "m ks = Some i" "e = entry_for ks i" using Cons.prems(2) by auto
  note clean = tree_map_okD(3) [OF ok ks(1)]
  have "\<exists>s. restore_entry e fs = (Inr (), s) \<and> presents t (put_back t m (insert (entry_path e) ps)) s"
  proof (cases ks rule: rev_cases)
    case Nil
    have "put_back t m ps = (put_back t m ps)([] \<mapsto> made_item t i)"
      using ks(1) Nil by (auto simp: put_back_def fun_eq_iff)
    then have "put_back t m (insert (entry_path e) ps) = put_back t m ps"
      using put_back_insert [OF ok ks(1), of t ps] ks(2) Nil by simp
    with Cons.prems(1) show ?thesis using ks(2) Nil by (simp add: restore_entry_def)
  next
    case (snoc ns n)
    obtain d where d: "m ns = Some d" "it_kind d = Directory"
      using tree_map_okD(2) [OF ok, of ns n i] ks(1) snoc by blast
    have "ns = [] \<or> render ns \<in> ps"
    proof (rule ccontr)
      assume "\<not> (ns = [] \<or> render ns \<in> ps)"
      with Cons.prems(3) d(1) obtain e' where e': "e' \<in> set (e # es)" "entry_path e' = render ns" and ns: "ns \<noteq> []"
        by fastforce
      have "entry_depth e \<le> entry_depth e'" using e'(1) Cons.prems(6) by auto
      moreover have "entry_depth e = Suc (length ks)" using depth_of_entry [OF clean, of i] ks(2) snoc by simp
      moreover have "entry_depth e' = Suc (length ns)"
        using depth_of_entry [of ns d] tree_map_okD(3) [OF ok d(1)] ns e'(2) by (simp add: entry_depth_def)
      ultimately show False using snoc by simp
    qed
    then have dir: "put_back t m ps ns = Some (made_item t d)" "it_kind (made_item t d) = Directory"
      using d by (simp_all add: put_back_def made_item_def new_item_def)
    have free: "put_back t m ps (ns @ [n]) = None"
      using Cons.prems(5) ks(2) snoc by (simp add: put_back_def)
    show ?thesis
      using restore_entry_presents [OF Cons.prems(1) dir free ok, of i] ks snoc put_back_insert [OF ok ks(1), of t ps]
      by simp
  qed
  then obtain s where s: "restore_entry e fs = (Inr (), s)" "presents t (put_back t m (insert (entry_path e) ps)) s"
    by blast
  have "\<exists>fs'. for_each restore_entry es s = (Inr (), fs') \<and>
      presents t (put_back t m (insert (entry_path e) ps \<union> entry_path ` set es)) fs'"
    using s(2)
  proof (rule Cons.IH)
    show "\<forall>e \<in> set es. \<exists>ns i. m ns = Some i \<and> e = entry_for ns i" using Cons.prems(2) by simp
    show "\<forall>ns i. m ns = Some i \<longrightarrow> render ns \<in> insert (entry_path e) ps \<union> entry_path ` set es"
      using Cons.prems(3) by simp
    show "distinct (map entry_path es)" "sorted (map entry_depth es)" using Cons.prems(4,6) by simp_all
    show "\<forall>e' \<in> set es. entry_path e' \<notin> insert (entry_path e) ps"
      using Cons.prems(4,5) by (metis distinct.simps(2) image_eqI insertE list.set_intros(2) list.simps(9) list.set_map)
  qed
  with s(1) show ?case by simp
qed simp

lemma dress_all:
  assumes ok: "tree_map_ok m"
  shows "presents t (dressed t m ps) fs \<Longrightarrow>
    \<forall>e \<in> set es. \<exists>ns i. m ns = Some i \<and> e = entry_for ns i \<Longrightarrow>
    distinct (map entry_path es) \<Longrightarrow> \<forall>e \<in> set es. entry_path e \<notin> ps \<Longrightarrow>
    \<exists>fs'. for_each restore_metadata es fs = (Inr (), fs') \<and>
      presents t (dressed t m (ps \<union> entry_path ` set es)) fs'"
proof (induction es arbitrary: ps fs)
  case (Cons e es)
  obtain ns i where ns: "m ns = Some i" "e = entry_for ns i" using Cons.prems(2) by auto
  have "dressed t m ps ns = Some (made_item t i)" using ns Cons.prems(4) by (simp add: dressed_def)
  from restore_metadata_presents [OF Cons.prems(1) this tree_map_okD(3) [OF ok ns(1)]]
  obtain s where s: "restore_metadata e fs = (Inr (), s)" "presents t (dressed t m (insert (entry_path e) ps)) s"
    using dressed_insert [OF ok ns(1), of t ps] ns(2) by auto
  have "\<exists>fs'. for_each restore_metadata es s = (Inr (), fs') \<and>
      presents t (dressed t m (insert (entry_path e) ps \<union> entry_path ` set es)) fs'"
    using s(2)
  proof (rule Cons.IH)
    show "\<forall>e \<in> set es. \<exists>ns i. m ns = Some i \<and> e = entry_for ns i" using Cons.prems(2) by simp
    show "distinct (map entry_path es)" using Cons.prems(3) by simp
    show "\<forall>e' \<in> set es. entry_path e' \<notin> insert (entry_path e) ps"
      using Cons.prems(3,4) by (metis distinct.simps(2) image_eqI insertE list.set_intros(2) list.simps(9) list.set_map)
  qed
  with s(1) show ?case by simp
qed simp

lemma presents_new:
  assumes "0 < stack"
  shows "presents t [[] \<mapsto> new_item Directory [] [] t] (new_fs t stack)"
proof -
  have "child_at (new_fs t stack) (root (new_fs t stack)) n = None" for n by (simp add: new_fs_def child_at_def)
  then have "node_at (new_fs t stack) ns = None" if "ns \<noteq> []" for ns
    using that by (cases "butlast ns") (simp_all add: node_at_def)
  moreover have "item_of (new_fs t stack) (root (new_fs t stack)) = new_item Directory [] [] t"
    by (simp add: item_of_def new_fs_def new_item_def new_directory_def)
  ultimately have "look (new_fs t stack) = [[] \<mapsto> new_item Directory [] [] t]"
    by (auto simp: look_def fun_eq_iff)
  then show ?thesis
    using assms wf_new holds_bytes_new by (simp add: presents_def unmounted_def) (simp add: new_fs_def)
qed

lemma by_depth_facts: "set (by_depth files) = set files" "sorted (map entry_depth (by_depth files))"
    "distinct (map entry_path (by_depth files)) = distinct (map entry_path files)"
proof -
  have "mset (map entry_path (by_depth files)) = mset (map entry_path files)" by (simp add: by_depth_def)
  then show "distinct (map entry_path (by_depth files)) = distinct (map entry_path files)"
    by (rule mset_eq_imp_distinct_iff)
qed (simp_all add: by_depth_def)

lemma from_snapshot_presents:
  assumes ok: "tree_map_ok m" and files: "entries_of m files" and stack: "0 < stack"
  obtains fs' where "from_snapshot t stack files = (Inr (), fs')" "presents t (\<lambda>ns. map_option (carried t) (m ns)) fs'"
proof -
  let ?es = "by_depth files" and ?all = "entry_path ` set files"
  have each: "\<forall>e \<in> set ?es. \<exists>ns i. m ns = Some i \<and> e = entry_for ns i"
    and every: "m ns = Some i \<Longrightarrow> render ns \<in> ?all" and dist: "distinct (map entry_path ?es)" for ns i
    using files by (auto simp: entries_of_def by_depth_facts) (metis entry_for_simps(1) imageI)
  obtain r where r: "m [] = Some r" "it_kind r = Directory" using tree_map_okD(1) [OF ok] by blast
  have "made_item t r = new_item Directory [] [] t"
    using tree_map_okD(4,5) [OF ok r(1)] r(2) by (simp add: made_item_def)
  then have "put_back t m {} = [[] \<mapsto> new_item Directory [] [] t]"
    using r(1) by (auto simp: put_back_def fun_eq_iff)
  then have "presents t (put_back t m {}) (new_fs t stack)" using presents_new [OF stack] by simp
  then have "\<exists>s. for_each restore_entry ?es (new_fs t stack) = (Inr (), s) \<and>
      presents t (put_back t m ({} \<union> entry_path ` set ?es)) s"
    by (rule put_back_all [OF ok]) (use each every dist by_depth_facts in auto)
  then obtain s where s: "for_each restore_entry ?es (new_fs t stack) = (Inr (), s)" "presents t (put_back t m ?all) s"
    by (auto simp: by_depth_facts)
  have "put_back t m ?all ns = dressed t m {} ns" for ns
    using every [of ns] by (cases "m ns") (simp_all add: put_back_def dressed_def)
  then have "put_back t m ?all = dressed t m {}" by (rule ext)
  then have "\<exists>fs'. for_each restore_metadata ?es s = (Inr (), fs') \<and>
      presents t (dressed t m ({} \<union> entry_path ` set ?es)) fs'"
    using s(2) each dist by (intro dress_all [OF ok]) simp_all
  then obtain fs' where fs': "for_each restore_metadata ?es s = (Inr (), fs')" "presents t (dressed t m ?all) fs'"
    by (auto simp: by_depth_facts)
  have "dressed t m ?all ns = map_option (carried t) (m ns)" for ns
    using every [of ns] by (cases "m ns") (simp_all add: dressed_def)
  then have "dressed t m ?all = (\<lambda>ns. map_option (carried t) (m ns))" by (rule ext)
  with that s(1) fs' show thesis by (simp add: from_snapshot_def Let_def)
qed

subsection \<open>The entries of a snapshot\<close>

text \<open>
  A snapshot writes a path as text, so an entry of the root without a name, which
  \<open>symlinkSync\<close> and \<open>renameSync\<close> can make, is lost in it: the theorems ask that there is none.
\<close>

definition all_named :: "fs \<Rightarrow> bool" where
  "all_named fs \<longleftrightarrow> (\<forall>a < next_node fs. child_at fs a [] = None)"

lemma walk_clean:
  "wf_fs fs \<Longrightarrow> all_named fs \<Longrightarrow> a < next_node fs \<Longrightarrow> walk fs a ns = Some b \<Longrightarrow> \<forall>s \<in> set ns. clean_name s"
proof (induction ns arbitrary: a)
  case (Cons n ns)
  then obtain c where c: "child_at fs a n = Some c" "walk fs c ns = Some b" by (auto split: option.splits)
  have "n \<noteq> []" using Cons.prems(2,3) c(1) by (auto simp: all_named_def)
  then have "clean_name n" using wf_child(3) [OF Cons.prems(1,3) c(1)] by (simp add: entry_name_def)
  moreover have "\<forall>s \<in> set ns. clean_name s"
    using Cons.IH [OF Cons.prems(1,2) wf_child(1) [OF Cons.prems(1,3) c(1)] c(2)] .
  ultimately show ?case by simp
qed simp

lemma node_at_clean: "wf_fs fs \<Longrightarrow> all_named fs \<Longrightarrow> node_at fs ns = Some a \<Longrightarrow> \<forall>s \<in> set ns. clean_name s"
  by (rule walk_clean [OF _ _ wf_root node_at_walk])

lemma node_at_parent:
  assumes "wf_fs fs" and "node_at fs (ns @ [n]) = Some c"
  obtains a where "node_at fs ns = Some a" "is_directory fs a" "child_at fs a n = Some c" "mount (nodes fs c) = None"
  using assms dir_walk_node_at [OF assms(1)] by (auto simp: node_at_snoc)

lemma node_at_prefix: "wf_fs fs \<Longrightarrow> node_at fs (ns @ ms) = Some b \<Longrightarrow> \<exists>a. node_at fs ns = Some a"
proof (induction ms arbitrary: b rule: rev_induct)
  case (snoc m ms)
  have "node_at fs ((ns @ ms) @ [m]) = Some b" using snoc.prems(2) by simp
  then obtain a where "node_at fs (ns @ ms) = Some a" by (rule node_at_parent [OF snoc.prems(1)])
  with snoc.IH snoc.prems(1) show ?case by blast
qed simp

lemma look_ok:
  assumes wf: "wf_fs fs" and named: "all_named fs"
  shows "tree_map_ok (look fs)"
proof -
  have "\<exists>d. look fs ns = Some d \<and> it_kind d = Directory" if i: "look fs (ns @ [n]) = Some i" for ns n i
  proof -
    from i obtain c where "node_at fs (ns @ [n]) = Some c" by (auto simp: look_def)
    then obtain a where "node_at fs ns = Some a" "is_directory fs a" by (rule node_at_parent [OF wf])
    then show ?thesis by (simp add: look_def is_directory_def)
  qed
  moreover have "(\<forall>s \<in> set ns. clean_name s) \<and> (it_kind i \<noteq> File \<longrightarrow> it_bytes i = []) \<and>
      (it_kind i \<noteq> Symlink \<longrightarrow> it_target i = [])" if i: "look fs ns = Some i" for ns i
  proof -
    from i obtain a where a: "node_at fs ns = Some a" "i = item_of fs a" by (auto simp: look_def)
    have "\<forall>s \<in> set ns. clean_name s" using wf named a(1) by (rule node_at_clean)
    then show ?thesis by (simp add: a(2) item_of_def Let_def)
  qed
  ultimately show ?thesis
    unfolding tree_map_ok_def using wf_root_dir [OF wf] by (auto simp: look_def)
qed

text \<open>No path is as long as there are nodes: the nodes on it are different.\<close>

lemma walk_length:
  assumes wf: "wf_fs fs" and b: "walk fs (root fs) ns = Some b"
  shows "length ns < next_node fs"
proof -
  let ?f = "\<lambda>k. the (walk fs (root fs) (take k ns))"
  have some: "walk fs (root fs) (take k ns) = Some (?f k)" for k
    using b walk_append [of fs "root fs" "take k ns" "drop k ns"] by (auto split: option.splits)
  have "inj_on ?f {..length ns}"
  proof (rule inj_onI)
    fix j k assume "j \<in> {..length ns}" "k \<in> {..length ns}" and eq: "?f j = ?f k"
    then have "take j ns = take k ns" using walk_inj [OF wf some [of j]] some [of k] by simp
    then have "length (take j ns) = length (take k ns)" by simp
    then show "j = k" using \<open>j \<in> _\<close> \<open>k \<in> _\<close> by simp
  qed
  moreover have "?f ` {..length ns} \<subseteq> {..<next_node fs}"
    using walk_allocated [OF wf wf_root [OF wf] some] by blast
  ultimately have "card {..length ns} \<le> card {..<next_node fs}" by (intro card_inj_on_le) simp_all
  then show ?thesis by simp
qed

lemma base64_content_groups: "base64_content bs = Inr (if bs = [] then [] else base64_groups bs)"
  by (simp add: base64_content_def uint8_base64)

lemma gather_children:
  assumes "\<forall>x \<in> set xs. \<exists>ys. f x = Inr ys \<and> set ys = S (fst x) \<and> distinct (map p ys)"
    and "distinct_keys xs" and "\<And>k l. k \<noteq> l \<Longrightarrow> p ` S k \<inter> p ` S l = {}"
  shows "\<exists>es. gather f xs = Inr es \<and> set es = (\<Union>x \<in> set xs. S (fst x)) \<and> distinct (map p es)"
  using assms(1,2)
proof (induction xs)
  case (Cons x xs)
  then obtain ys es where ys: "f x = Inr ys" "set ys = S (fst x)" "distinct (map p ys)"
    and es: "gather f xs = Inr es" "set es = (\<Union>x \<in> set xs. S (fst x))" "distinct (map p es)" by auto
  have "p ` set ys \<inter> p ` set es = {}"
  proof -
    have "p ` S (fst x) \<inter> p ` S (fst y) = {}" if "y \<in> set xs" for y
      using Cons.prems(2) that by (intro assms(3)) auto
    then show ?thesis unfolding ys(2) es(2) by blast
  qed
  with ys es show ?case by simp
qed simp

lemma below_render:
  "\<forall>s \<in> set ns. clean_name s \<Longrightarrow> below (render ns) n = render (ns @ [n])"
  using render_eq_root [of ns] by (simp add: below_def render_snoc)

text \<open>The entries of the subtree at a list of names.\<close>

definition subtree_entries :: "fs \<Rightarrow> string list \<Rightarrow> vfs_entry set" where
  "subtree_entries fs ns = {entry_for ms (item_of fs b) | ms b. prefix ns ms \<and> node_at fs ms = Some b}"

lemma subtree_split:
  assumes wf: "wf_fs fs" and a: "node_at fs ns = Some a"
  shows "subtree_entries fs ns =
    insert (entry_for ns (item_of fs a)) (\<Union>x \<in> set (children (nodes fs a)). subtree_entries fs (ns @ [fst x]))"
proof (intro subset_antisym subsetI)
  fix e assume "e \<in> subtree_entries fs ns"
  then obtain ms b where e: "e = entry_for ms (item_of fs b)" "prefix ns ms" "node_at fs ms = Some b"
    by (auto simp: subtree_entries_def)
  then obtain ks where ks: "ms = ns @ ks" by (auto simp: prefix_def)
  show "e \<in> insert (entry_for ns (item_of fs a)) (\<Union>x \<in> set (children (nodes fs a)). subtree_entries fs (ns @ [fst x]))"
  proof (cases ks)
    case Nil
    with e ks a show ?thesis by simp
  next
    case (Cons k ls)
    with e(3) ks have "node_at fs ((ns @ [k]) @ ls) = Some b" by simp
    then obtain c where "node_at fs (ns @ [k]) = Some c" using node_at_prefix [OF wf] by blast
    then obtain a' where "node_at fs ns = Some a'" "child_at fs a' k = Some c" by (rule node_at_parent [OF wf])
    then have "(k, c) \<in> set (children (nodes fs a))" using a by (simp add: child_at_def map_of_SomeD)
    moreover have "prefix (ns @ [k]) ms" using ks Cons by (simp add: prefix_def)
    then have "e \<in> subtree_entries fs (ns @ [k])" using e(1,3) by (auto simp: subtree_entries_def)
    ultimately show ?thesis by force
  qed
next
  fix e assume "e \<in> insert (entry_for ns (item_of fs a)) (\<Union>x \<in> set (children (nodes fs a)). subtree_entries fs (ns @ [fst x]))"
  then show "e \<in> subtree_entries fs ns"
    using a by (auto simp: subtree_entries_def dest: append_prefixD)
qed

lemma serialize_entries:
  assumes wf: "wf_fs fs" and named: "all_named fs" and plain: "mount (nodes fs (root fs)) = None"
  shows "node_at fs ns = Some a \<Longrightarrow> next_node fs \<le> calls + length ns \<Longrightarrow>
    \<exists>es. serialize_node calls fs (render ns) a = Inr es \<and> set es = subtree_entries fs ns \<and>
      distinct (map entry_path es)"
proof (induction calls arbitrary: ns a)
  case 0
  with walk_length [OF wf node_at_walk] show ?case by fastforce
next
  case (Suc calls)
  note clean = node_at_clean [OF wf named Suc.prems(1)]
  have mount: "mount (nodes fs a) = None"
    using Suc.prems(1) plain by (cases ns rule: rev_cases) (auto simp: node_at_snoc)
  let ?entry = "\<lparr>entry_path = render ns, entry_type = ntype (nodes fs a), entry_content = None, entry_target = [],
            entry_mode = map_option (\<lambda>m. m mod 0x1000) (mode (nodes fs a)), entry_mtime = Some (mtime (nodes fs a))\<rparr>"
  have leaf: "subtree_entries fs ns = {entry_for ns (item_of fs a)}" if "ntype (nodes fs a) \<noteq> Directory"
  proof -
    have "wf_node fs a" using wf_nodes [OF wf node_at_allocated [OF wf Suc.prems(1)]] .
    then show ?thesis using subtree_split [OF wf Suc.prems(1)] that by (simp add: wf_node_def)
  qed
  show ?case
  proof (cases "ntype (nodes fs a)")
    case File
    then show ?thesis
      using leaf mount
      by (simp add: Let_def base64_content_groups entry_for_def item_of_def)
  next
    case Symlink
    then show ?thesis
      using leaf mount by (simp add: Let_def entry_for_def item_of_def)
  next
    case Directory
    let ?f = "\<lambda>(name, c). serialize_node calls fs (below (render ns) name) c"
    have a: "a < next_node fs" using node_at_allocated [OF wf Suc.prems(1)] .
    have keys: "distinct_keys (children (nodes fs a))" using wf_nodes [OF wf a] by (simp add: wf_node_def)
    have "\<exists>ys. ?f x = Inr ys \<and> set ys = subtree_entries fs (ns @ [fst x]) \<and> distinct (map entry_path ys)"
      if x: "x \<in> set (children (nodes fs a))" for x
    proof -
      obtain n c where nc: "x = (n, c)" by fastforce
      have c: "child_at fs a n = Some c" using x nc keys by (simp add: child_at_def)
      have below: "below (render ns) n = render (ns @ [n])" using clean by (rule below_render)
      have at: "node_at fs (ns @ [n]) = (if mount (nodes fs c) = None then Some c else None)"
        using Suc.prems(1) Directory c dir_walk_node_at [OF wf, of ns a]
        by (simp add: node_at_def is_directory_def)
      show ?thesis
      proof (cases "mount (nodes fs c) = None")
        case True
        then show ?thesis using Suc.IH [of "ns @ [n]" c] at Suc.prems(2) nc below by simp
      next
        case False
        then have none: "subtree_entries fs (ns @ [n]) = {}"
          using at node_at_prefix [OF wf, of "ns @ [n]"] by (fastforce simp: subtree_entries_def prefix_def)
        have "ntype (nodes fs c) = Directory"
          using wf_mount_dir [OF wf wf_child(1) [OF wf a c] False] .
        have "calls \<noteq> 0"
        proof
          assume "calls = 0"
          with Suc.prems(2) walk_length [OF wf, of "ns @ [n]" c] c node_at_walk [OF Suc.prems(1)]
          show False by (simp add: walk_snoc)
        qed
        then obtain j where "calls = Suc j" by (cases calls) auto
        with False nc none show ?thesis by (simp add: Let_def)
      qed
    qed
    moreover have "entry_path ` subtree_entries fs (ns @ [k]) \<inter> entry_path ` subtree_entries fs (ns @ [l]) = {}"
      if "k \<noteq> l" for k l
    proof -
      have "ns @ [k] = ns @ [l]" if "prefix (ns @ [k]) ms" "prefix (ns @ [l]) ms" for ms
        using that by (auto simp: prefix_def)
      moreover have "ms = ms'" if "node_at fs ms = Some b" "node_at fs ms' = Some b'" "render ms = render ms'" for ms ms' b b'
        using that node_at_clean [OF wf named] render_inj by blast
      ultimately show ?thesis using \<open>k \<noteq> l\<close> by (fastforce simp: subtree_entries_def)
    qed
    ultimately obtain es where es: "gather ?f (children (nodes fs a)) = Inr es"
      "set es = (\<Union>x \<in> set (children (nodes fs a)). subtree_entries fs (ns @ [fst x]))" "distinct (map entry_path es)"
      using gather_children [OF _ keys, of ?f "\<lambda>k. subtree_entries fs (ns @ [k])" entry_path] by blast
    have entry: "?entry = entry_for ns (item_of fs a)"
      using Directory by (simp add: entry_for_def item_of_def Let_def)
    have "render ns \<notin> entry_path ` set es"
    proof
      assume "render ns \<in> entry_path ` set es"
      then obtain n ms b where "prefix (ns @ [n]) ms" "node_at fs ms = Some b" "render ns = render ms"
        unfolding es(2) by (auto simp: subtree_entries_def)
      with render_inj [OF clean node_at_clean [OF wf named]] have "prefix (ns @ [n]) ns" by blast
      then show False by (auto dest: prefix_length_le)
    qed
    moreover have "serialize_node (Suc calls) fs (render ns) a = Inr (?entry # es)"
      using mount Directory es(1) by (simp add: Let_def)
    moreover have "set (?entry # es) = subtree_entries fs ns"
      unfolding subtree_split [OF wf Suc.prems(1)] entry by (simp add: es(2))
    ultimately show ?thesis using es(3) by (intro exI [of _ "?entry # es"]) simp
  qed
qed

lemma to_snapshot_entries:
  assumes wf: "wf_fs fs" and named: "all_named fs" and plain: "mount (nodes fs (root fs)) = None"
    and stack: "next_node fs \<le> stack_depth fs"
  obtains files where "to_snapshot fs = Inr files" "entries_of (look fs) files"
proof -
  obtain files where f: "to_snapshot fs = Inr files" "set files = subtree_entries fs []" "distinct (map entry_path files)"
    using serialize_entries [OF wf named plain, of "[]" "root fs" "stack_depth fs"] stack
    by (auto simp: to_snapshot_def)
  have "entries_of (look fs) files"
    using f(2,3) by (fastforce simp: entries_of_def subtree_entries_def look_def)
  with f(1) that show thesis by blast
qed

subsection \<open>The round trip\<close>

text \<open>
  What a restored file system has of an item.  The bits and times of links are not put
  back: a link has no mode and the time of the restore.
\<close>

definition restored_item :: "rat \<Rightarrow> tree_item \<Rightarrow> tree_item" where
  "restored_item t i =
     (if it_kind i = Symlink then i\<lparr>it_mode := None, it_mtime := t\<rparr>
      else i\<lparr>it_mode := map_option (\<lambda>k. k mod 0x1000) (it_mode i), it_mtime := whole_ms (it_mtime i)\<rparr>)"

lemma carried_restored: "in_date_range (it_mtime i) \<Longrightarrow> carried t i = restored_item t i"
  by (simp add: carried_def restored_item_def made_item_def new_item_def date_ms_def)

text \<open>C10: A file system whose stack allows a call per node has a snapshot, and the file system built from the
  snapshot shows, at every path, the item of the original: its kind, the bytes of a file, the target of a
  link, and for files and directories the permission bits and the whole milliseconds of the modification
  time.  Only the bits and times of links are not carried.\<close>

theorem snapshot_restores:
  assumes reach: "vfs_reachable ok fs" and named: "all_named fs" and plain: "mount (nodes fs (root fs)) = None"
    and dates: "\<forall>a < next_node fs. in_date_range (mtime (nodes fs a))"
    and stack: "next_node fs \<le> stack_depth fs" "0 < stack"
  shows "\<exists>files fs'. to_snapshot fs = Inr files \<and> from_snapshot t stack files = (Inr (), fs') \<and>
    (\<forall>ns. look fs' ns = map_option (restored_item t) (look fs ns))"
proof -
  have wf: "wf_fs fs" using reach by (rule reach_wf)
  obtain files where files: "to_snapshot fs = Inr files" "entries_of (look fs) files"
    using to_snapshot_entries [OF wf named plain stack(1)] .
  obtain fs' where fs': "from_snapshot t stack files = (Inr (), fs')"
    "presents t (\<lambda>ns. map_option (carried t) (look fs ns)) fs'"
    using from_snapshot_presents [OF look_ok [OF wf named] files(2) stack(2)] .
  have "map_option (carried t) (look fs ns) = map_option (restored_item t) (look fs ns)" for ns
  proof (cases "node_at fs ns")
    case (Some a)
    then have "in_date_range (it_mtime (item_of fs a))"
      using dates node_at_allocated [OF wf Some] by (simp add: item_of_def Let_def)
    with Some show ?thesis by (simp add: look_def carried_restored)
  qed (simp add: look_def)
  with files(1) fs'(1) presentsD(7) [OF fs'(2)] show ?thesis by (metis (no_types))
qed

text \<open>A tree with a file below a directory, and a link.\<close>

definition small_tree :: fs where
  "small_tree = snd (symlink_sync ''/d'' ''/l'' (snd (write_file_sync ''/d/f'' (Text [1, 2]) (new_fs (3/2) 9))))"

lemma small_tree_reachable: "vfs_reachable (\<lambda>_ _. True) small_tree"
  unfolding small_tree_def
  by (intro reach_step [OF _ step_symlink] reach_step [OF _ step_write] reach_new TrueI)

lemma snapshot_restores_witness:
  "\<exists>files fs'. to_snapshot small_tree = Inr files \<and> from_snapshot 5 9 files = (Inr (), fs') \<and>
     map_option it_bytes (look fs' [''d'', ''f'']) = Some [1, 2] \<and>
     map_option it_target (look fs' [''l'']) = Some ''/d''"
proof -
  have nodes: "P 0 \<Longrightarrow> P 1 \<Longrightarrow> P 2 \<Longrightarrow> P 3 \<Longrightarrow> \<forall>a < next_node small_tree. P a" for P
  proof -
    have "next_node small_tree = 4" by code_simp
    then show "P 0 \<Longrightarrow> P 1 \<Longrightarrow> P 2 \<Longrightarrow> P 3 \<Longrightarrow> \<forall>a < next_node small_tree. P a"
      by (auto simp: less_Suc_eq numeral_eq_Suc)
  qed
  have "all_named small_tree"
    unfolding all_named_def by (rule nodes; code_simp)
  moreover have "\<forall>a < next_node small_tree. in_date_range (mtime (nodes small_tree a))"
    by (rule nodes; code_simp)
  moreover have "mount (nodes small_tree (root small_tree)) = None"
    "next_node small_tree \<le> stack_depth small_tree" "(0::nat) < 9" by code_simp+
  ultimately have "\<exists>files fs'. to_snapshot small_tree = Inr files \<and> from_snapshot 5 9 files = (Inr (), fs') \<and>
      (\<forall>ns. look fs' ns = map_option (restored_item 5) (look small_tree ns))"
    using small_tree_reachable by (intro snapshot_restores [where ok = "\<lambda>_ _. True"])
  moreover have "map_option (\<lambda>i. it_bytes (restored_item 5 i)) (look small_tree [''d'', ''f'']) = Some [1, 2]"
    "map_option (\<lambda>i. it_target (restored_item 5 i)) (look small_tree [''l'']) = Some ''/d''" by code_simp+
  ultimately show ?thesis by (auto simp: option.map_comp comp_def)
qed

text \<open>The times a snapshot does not keep: the fraction of a millisecond of a directory, and a link's.\<close>

definition timed_tree :: fs where
  "timed_tree = snd (symlink_sync ''/'' ''/l'' (new_fs (3/2) 9))"

lemma restore_changes_times:
  "map (\<lambda>ns. map_option it_mtime (look timed_tree ns)) [[], [''l'']] = [Some (3/2), Some (3/2)]"
  "(\<lambda>fs. map (\<lambda>ns. map_option it_mtime (look fs ns)) [[], [''l'']])
     (snd (from_snapshot 5 9 (projr (to_snapshot timed_tree)))) = [Some 1, Some 5]"
  by code_simp+

end
