(* ===== verification/StdinRing.thy ===== *)
theory StdinRing
  imports Prelude
begin

unbundle bit_operations_syntax

text \<open>
  \<open>src/stdin-ring.ts\<close>: a single-producer, single-consumer byte ring over shared memory,
  written by one thread and read by another.  The header's words are 32-bit and wrap.
  Each atomic access, each byte copied, each wait and each notify is one step of the
  thread that makes it, so the reader and the writer interleave everywhere.
\<close>

subsection \<open>The shared memory\<close>

record ring =
  write_index :: "32 word"
  read_index :: "32 word"
  closed_word :: "32 word"
  capacity :: nat
  signal :: "32 word"
  data_area :: bytes

text \<open>\<open>createStdinRing\<close>: the capacity is any number, None is the RangeError.\<close>

definition create_stdin_ring :: "rat \<Rightarrow> ring option" where
  "create_stdin_ring c =
     (let n = \<lfloor>c\<rfloor>; w = (of_int n :: 32 word)
      in if of_int n \<noteq> c \<or> c \<le> 0 \<or> w AND (w - 1) \<noteq> 0 \<or> 2 ^ 30 < c then None
         else Some \<lparr>write_index = 0, read_index = 0, closed_word = 0, capacity = nat n, signal = 0,
                    data_area = replicate (nat n) 0\<rparr>)"

text \<open>
  \<open>stdinRingProblem\<close> on a value that is not a \<open>SharedArrayBuffer\<close> (None) or is one, of
  a byte length and with a capacity word, which is read as a signed one.
\<close>

definition stdin_ring_problem :: "(nat \<times> 32 word) option \<Rightarrow> string option" where
  "stdin_ring_problem b =
     (case b of
        None \<Rightarrow> Some ''stdinShared must be a SharedArrayBuffer''
      | Some (len, cap) \<Rightarrow>
          if len < 32 then Some ''stdinShared is shorter than its 32-byte header''
          else if sint cap \<le> 0 \<or> cap AND (cap - 1) \<noteq> 0
          then Some ''stdinShared capacity must be a power of two''
          else if int len < 32 + sint cap then Some ''stdinShared is shorter than its header and capacity''
          else None)"

definition available :: "32 word \<Rightarrow> 32 word \<Rightarrow> nat" where
  "available w r = unat (w - r)"

subsection \<open>The writer\<close>

text \<open>
  Where the writer's thread is: between \<open>put\<close>s, in one (the bytes, the offset reached and
  what it has loaded), suspended in \<open>waitAsync\<close>, woken but not yet resumed, or in
  \<open>close\<close>, which a caller may run whenever the thread is not inside a synchronous
  stretch of \<open>put\<close>.
\<close>

datatype wpc =
    WIdle
  | WCheck bytes
  | WLoop bytes nat
  | WRoom bytes nat "32 word"
  | WWait bytes nat "32 word"
  | WSleep bytes nat
  | WReady bytes nat
  | WCopy bytes nat nat nat nat
  | WStore bytes nat nat nat
  | WBump bytes nat
  | WNotify bytes nat
  | WCloseBump wpc
  | WCloseNotify wpc

text \<open>Byte \<open>j\<close> of a copy at \<open>written\<close>: the first segment up to the end, the second from 0.\<close>

definition segment_pos :: "nat \<Rightarrow> nat \<Rightarrow> nat \<Rightarrow> nat \<Rightarrow> nat" where
  "segment_pos cap written count j =
     (let start = written mod cap; first = min count (cap - start)
      in if j < first then start + j else j - first)"

fun writer_step :: "bool \<Rightarrow> ring \<Rightarrow> wpc \<Rightarrow> ring \<times> wpc" where
  "writer_step can_wait m (WCheck b) = (m, if closed_word m = 1 then WIdle else WLoop b 0)"
| "writer_step can_wait m (WLoop b off) =
     (m, if off < length b then WRoom b off (read_index m) else WIdle)"
| "writer_step can_wait m (WRoom b off raw) =
     (let written = unat (write_index m); room = capacity m - available (write_index m) raw;
          count = min room (length b - off)
      in (m, if room = 0 then (if can_wait then WWait b off raw else WIdle)
             else WCopy b off written count 0))"
| "writer_step can_wait m (WWait b off raw) =
     (m, if read_index m = raw then WSleep b off else WLoop b off)"
| "writer_step can_wait m (WReady b off) = (m, WLoop b off)"
| "writer_step can_wait m (WCopy b off written count j) =
     (if j < count
      then (m\<lparr>data_area := (data_area m)[segment_pos (capacity m) written count j := b ! (off + j)]\<rparr>,
            WCopy b off written count (Suc j))
      else (m, WStore b off written count))"
| "writer_step can_wait m (WStore b off written count) =
     (m\<lparr>write_index := of_nat (written + count)\<rparr>, WBump b (off + count))"
| "writer_step can_wait m (WBump b off) = (m\<lparr>signal := signal m + 1\<rparr>, WNotify b off)"
| "writer_step can_wait m (WNotify b off) = (m, WLoop b off)"
| "writer_step can_wait m (WCloseBump pc) = (m\<lparr>signal := signal m + 1\<rparr>, WCloseNotify pc)"
| "writer_step can_wait m (WCloseNotify pc) = (m, pc)"
| "writer_step can_wait m pc = (m, pc)"

fun wake_writer :: "wpc \<Rightarrow> wpc" where
  "wake_writer (WSleep b off) = WReady b off"
| "wake_writer (WCloseBump pc) = WCloseBump (wake_writer pc)"
| "wake_writer (WCloseNotify pc) = WCloseNotify (wake_writer pc)"
| "wake_writer pc = pc"

subsection \<open>The reader\<close>

text \<open>
  Where the reader's thread is.  A \<open>take\<close> is made once or from \<open>takeBlocking\<close>, which
  holds the SIGNAL it loaded before looking.
\<close>

datatype mode = Once | Blocking "32 word"

datatype rpc =
    RIdle
  | RSignal nat
  | RAll
  | RAll2 "32 word"
  | RTake mode nat
  | RTake2 mode nat "32 word"
  | RClosed mode nat
  | RAgain mode nat
  | RAgain2 mode nat "32 word"
  | RNull mode nat
  | RZero nat
  | RSleep nat
  | RRead nat
  | RCopy nat nat bytes
  | RStore nat bytes
  | RNotify
  | VSignal
  | VLook "32 word"
  | VLook2 "32 word" "32 word"
  | VClosed "32 word"
  | VWait "32 word"
  | VSleep

fun reader_step :: "ring \<Rightarrow> rpc \<Rightarrow> ring \<times> rpc" where
  "reader_step m (RSignal len) = (m, RTake (Blocking (signal m)) len)"
| "reader_step m RAll = (m, RAll2 (write_index m))"
| "reader_step m (RAll2 w) = (m, RTake Once (available w (read_index m)))"
| "reader_step m (RTake md len) = (m, RTake2 md len (write_index m))"
| "reader_step m (RTake2 md len w) =
     (let count = min len (available w (read_index m))
      in (m, if count = 0 then RClosed md len else RRead count))"
| "reader_step m (RClosed md len) = (m, if closed_word m = 1 then RAgain md len else RNull md len)"
| "reader_step m (RAgain md len) = (m, RAgain2 md len (write_index m))"
| "reader_step m (RAgain2 md len w) =
     (m, if available w (read_index m) = 0 then RZero len else RNull md len)"
| "reader_step m (RNull Once len) = (m, RIdle)"
| "reader_step m (RNull (Blocking sig) len) = (m, if signal m = sig then RSleep len else RSignal len)"
| "reader_step m (RZero len) = (m, RIdle)"
| "reader_step m (RRead count) = (m, RCopy (unat (read_index m)) count [])"
| "reader_step m (RCopy rd count got) =
     (m, if length got < count
         then RCopy rd count (got @ [data_area m ! ((rd + length got) mod capacity m)])
         else RStore rd got)"
| "reader_step m (RStore rd got) = (m\<lparr>read_index := of_nat (rd + length got)\<rparr>, RNotify)"
| "reader_step m RNotify = (m, RIdle)"
| "reader_step m VSignal = (m, VLook (signal m))"
| "reader_step m (VLook sig) = (m, VLook2 sig (write_index m))"
| "reader_step m (VLook2 sig w) = (m, if 0 < available w (read_index m) then RIdle else VClosed sig)"
| "reader_step m (VClosed sig) = (m, if closed_word m = 1 then RIdle else VWait sig)"
| "reader_step m (VWait sig) = (m, if signal m = sig then VSleep else RIdle)"
| "reader_step m pc = (m, pc)"

fun wake_reader :: "rpc \<Rightarrow> rpc" where
  "wake_reader (RSleep len) = RSignal len"
| "wake_reader VSleep = RIdle"
| "wake_reader pc = pc"

subsection \<open>Both threads\<close>

text \<open>
  The state of the pair: the memory, both positions, the writes the promise chain still
  holds, whether the realm has \<open>waitAsync\<close>; and the history: the writes called, the bytes
  published, the bytes taken, how often SIGNAL was bumped, whether a take answered 0, the
  bytes of the writes called before the first \<open>close\<close>, and whether that came while a
  write was under way or waiting its turn.
\<close>

record sys =
  mem :: ring
  w_at :: wpc
  r_at :: rpc
  pending :: "bytes list"
  can_wait :: bool
  called :: "bytes list"
  sent :: bytes
  taken :: bytes
  bumps :: nat
  said_eof :: bool
  before_close :: bytes
  cut_short :: bool

fun published :: "wpc \<Rightarrow> bytes" where
  "published (WStore b off written count) = take count (drop off b)"
| "published _ = []"

fun delivered :: "rpc \<Rightarrow> bytes" where
  "delivered (RStore rd got) = got"
| "delivered _ = []"

fun answers_eof :: "rpc \<Rightarrow> bool" where
  "answers_eof (RZero len) = True"
| "answers_eof _ = False"

fun bumping :: "wpc \<Rightarrow> bool" where
  "bumping (WBump b off) = True"
| "bumping (WCloseBump pc) = True"
| "bumping _ = False"

fun notifying :: "wpc \<Rightarrow> bool" where
  "notifying (WNotify b off) = True"
| "notifying (WCloseNotify pc) = True"
| "notifying _ = False"

fun can_close :: "wpc \<Rightarrow> bool" where
  "can_close WIdle = True"
| "can_close (WSleep b off) = True"
| "can_close (WReady b off) = True"
| "can_close _ = False"

definition close_move :: "sys \<Rightarrow> sys" where
  "close_move s =
     s\<lparr>mem := (mem s)\<lparr>closed_word := 1\<rparr>, w_at := WCloseBump (w_at s),
       before_close := (if closed_word (mem s) = 1 then before_close s else concat (called s)),
       cut_short := (if closed_word (mem s) = 1 then cut_short s
                     else w_at s \<noteq> WIdle \<or> pending s \<noteq> [])\<rparr>"

definition writer_move :: "sys \<Rightarrow> sys" where
  "writer_move s =
     (let (m, pc) = writer_step (can_wait s) (mem s) (w_at s)
      in s\<lparr>mem := m, w_at := pc, sent := sent s @ published (w_at s),
           bumps := (if bumping (w_at s) then Suc (bumps s) else bumps s),
           r_at := (if notifying (w_at s) then wake_reader (r_at s) else r_at s)\<rparr>)"

definition reader_move :: "sys \<Rightarrow> sys" where
  "reader_move s =
     (let (m, pc) = reader_step (mem s) (r_at s)
      in s\<lparr>mem := m, r_at := pc, taken := taken s @ delivered (r_at s),
           said_eof := (said_eof s \<or> answers_eof (r_at s)),
           w_at := (if r_at s = RNotify then wake_writer (w_at s) else w_at s)\<rparr>)"

inductive ring_step :: "sys \<Rightarrow> sys \<Rightarrow> bool" where
  call_write: "ring_step s (s\<lparr>pending := pending s @ [b], called := called s @ [b]\<rparr>)"
| start_put: "w_at s = WIdle \<Longrightarrow> pending s = b # bs \<Longrightarrow>
     ring_step s (s\<lparr>w_at := WCheck b, pending := bs\<rparr>)"
| call_close: "can_close (w_at s) \<Longrightarrow> ring_step s (close_move s)"
| writer_runs: "ring_step s (writer_move s)"
| call_take: "r_at s = RIdle \<Longrightarrow> ring_step s (s\<lparr>r_at := RTake Once len\<rparr>)"
| call_take_all: "r_at s = RIdle \<Longrightarrow> ring_step s (s\<lparr>r_at := RAll\<rparr>)"
| call_take_blocking: "r_at s = RIdle \<Longrightarrow> ring_step s (s\<lparr>r_at := RSignal len\<rparr>)"
| call_when_written: "r_at s = RIdle \<Longrightarrow> ring_step s (s\<lparr>r_at := VSignal\<rparr>)"
| reader_runs: "ring_step s (reader_move s)"

definition start :: "ring \<Rightarrow> bool \<Rightarrow> sys" where
  "start m wait = \<lparr>mem = m, w_at = WIdle, r_at = RIdle, pending = [], can_wait = wait, called = [], sent = [],
     taken = [], bumps = 0, said_eof = False, before_close = [], cut_short = False\<rparr>"

inductive ring_reachable :: "sys \<Rightarrow> bool" where
  ring_start: "create_stdin_ring c = Some m \<Longrightarrow> ring_reachable (start m wait)"
| ring_more: "ring_reachable s \<Longrightarrow> ring_step s t \<Longrightarrow> ring_reachable t"

subsection \<open>Words and positions\<close>

definition ring_capacity :: "nat \<Rightarrow> bool" where
  "ring_capacity cap \<longleftrightarrow> 0 < cap \<and> cap \<le> 2 ^ 30 \<and> cap dvd 2 ^ 32"

lemma unat_of_nat_32: "unat (of_nat n :: 32 word) = n mod 2 ^ 32"
  by (simp add: unat_of_nat)

lemma available_of_nat:
  assumes "r \<le> w" and "w \<le> r + cap" and "ring_capacity cap"
  shows "available (of_nat w) (of_nat r) = w - r"
proof -
  have "(of_nat w :: 32 word) - of_nat r = of_nat (w - r)" using assms(1) by (simp add: of_nat_diff)
  moreover have "w - r < 2 ^ 32"
  proof -
    have "cap \<le> 2 ^ 30" using assms(3) by (simp add: ring_capacity_def)
    with assms(2) show ?thesis by simp
  qed
  ultimately show ?thesis unfolding available_def by (simp add: unat_of_nat_32)
qed

lemma wrap_mod:
  assumes "ring_capacity cap"
  shows "(n mod 2 ^ 32 + i) mod cap = (n + i) mod cap"
proof -
  have "(n mod 2 ^ 32) mod cap = n mod cap"
    using assms by (simp only: ring_capacity_def mod_mod_cancel)
  then show ?thesis by (metis mod_add_left_eq)
qed

lemma segment_pos_mod:
  assumes "ring_capacity cap" and "count \<le> cap" and "j < count"
  shows "segment_pos cap (n mod 2 ^ 32) count j = (n + j) mod cap"
proof -
  have start: "n mod 2 ^ 32 mod cap = n mod cap" using wrap_mod [OF assms(1), of n 0] by simp
  have lt: "n mod cap < cap" using assms(1) by (simp add: ring_capacity_def)
  show ?thesis
  proof (cases "j < cap - n mod cap")
    case True
    then have "n mod cap + j < cap" using lt by simp
    then have "(n + j) mod cap = n mod cap + j" by (metis mod_add_left_eq mod_less)
    with True assms(3) show ?thesis unfolding segment_pos_def start Let_def by simp
  next
    case False
    then have "n mod cap + j = (j - (cap - n mod cap)) + cap" using lt by simp
    then have "(n mod cap + j) mod cap = (j - (cap - n mod cap)) mod cap" by (simp only: mod_add_self2)
    also have "\<dots> = j - (cap - n mod cap)" using assms(2,3) lt by (intro mod_less) linarith
    finally show ?thesis
      using False assms(3) unfolding segment_pos_def start Let_def by (simp add: mod_add_left_eq)
  qed
qed

lemma window_apart:
  assumes "ring_capacity cap" and "i < j" and "j < i + cap"
  shows "i mod cap \<noteq> j mod cap"
proof
  assume "i mod cap = j mod cap"
  then have "cap dvd j - i" using assms(2) by (metis mod_eq_dvd_iff_nat less_imp_le)
  with assms show False by (auto dest: dvd_imp_le)
qed

subsection \<open>A capacity is a power of two\<close>

lemma and_pred_nat: "0 < n \<Longrightarrow> n AND (n - 1) = (0 :: nat) \<Longrightarrow> \<exists>k. n = 2 ^ k"
proof (induction n rule: less_induct)
  case (less n)
  show ?case
  proof (cases "even n")
    case True
    then obtain m where m: "n = 2 * m" by blast
    with less.prems(1) have "0 < m" by simp
    have "(2 * m - 1) div 2 = m - 1" using \<open>0 < m\<close> by (cases m) simp_all
    then have "(2 * m) AND (2 * m - 1) = 2 * (m AND (m - 1))" by (simp add: and_nat_rec [of "2 * m"])
    with less.prems(2) m have "m AND (m - 1) = 0" by simp
    with less.IH [of m] m \<open>0 < m\<close> obtain k where "m = 2 ^ k" by auto
    with m have "n = 2 ^ Suc k" by simp
    then show ?thesis ..
  next
    case False
    then obtain m where m: "n = 2 * m + 1" by (blast elim: oddE)
    have "n AND (n - 1) = 2 * m" unfolding m by (subst and_nat_rec) simp
    with less.prems(2) m have "n = 2 ^ 0" by simp
    then show ?thesis ..
  qed
qed

lemma pow2_and_pred: "(2 ^ k :: nat) AND (2 ^ k - 1) = 0"
proof -
  have "(2 ^ k :: nat) AND (2 ^ k - 1) = take_bit k (2 ^ k)" by (simp add: take_bit_eq_mask mask_eq_exp_minus_1)
  then show ?thesis by (simp add: take_bit_eq_mod)
qed

lemma create_power:
  assumes "create_stdin_ring c = Some m"
  obtains k where "k \<le> 30" "c = 2 ^ k"
    "m = \<lparr>write_index = 0, read_index = 0, closed_word = 0, capacity = 2 ^ k, signal = 0,
      data_area = replicate (2 ^ k) 0\<rparr>"
proof -
  let ?n = "\<lfloor>c\<rfloor>"
  from assms have c: "of_int ?n = c" "0 < c" "c \<le> 2 ^ 30"
    "(of_int ?n :: 32 word) AND (of_int ?n - 1) = 0"
    and m: "m = \<lparr>write_index = 0, read_index = 0, closed_word = 0, capacity = nat ?n, signal = 0,
      data_area = replicate (nat ?n) 0\<rparr>"
    by (auto simp: create_stdin_ring_def Let_def split: if_splits)
  have "(of_int ?n :: rat) \<le> of_int (2 ^ 30)" using c(1,3) by simp
  then have "?n \<le> 2 ^ 30" by (simp only: of_int_le_iff)
  moreover have pos: "0 < ?n" using c(1,2) by linarith
  moreover define k where "k = nat ?n"
  ultimately have n: "?n = int k" "int k \<le> int (2 ^ 30)" by simp_all
  then have k: "?n = int k" "0 < k" "k \<le> 2 ^ 30" using pos by (linarith, linarith, simp only: of_nat_le_iff)
  have "(of_nat k :: 32 word) AND of_nat (k - 1) = 0"
    using c(4) k by (simp add: of_nat_diff)
  then have "unat ((of_nat k :: 32 word) AND of_nat (k - 1)) = 0" by simp
  then have "(k mod 2 ^ 32) AND ((k - 1) mod 2 ^ 32) = 0"
    by (simp only: unsigned_and_eq unat_of_nat_32)
  then have "k AND (k - 1) = 0" using k by simp
  then obtain e where e: "k = 2 ^ e" using and_pred_nat [OF k(2)] by blast
  have "e \<le> 30" using k(3) unfolding e by (rule power_le_imp_le_exp [rotated]) simp
  moreover have "c = 2 ^ e" using c(1) k(1) e by simp
  ultimately show thesis using that m k e by (simp add: k_def)
qed

lemma create_capacity:
  assumes "create_stdin_ring c = Some m"
  shows "ring_capacity (capacity m)" and "length (data_area m) = capacity m"
    and "write_index m = 0" "read_index m = 0" "closed_word m = 0" "signal m = 0"
proof -
  obtain k where k: "k \<le> 30" "m = \<lparr>write_index = 0, read_index = 0, closed_word = 0, capacity = 2 ^ k,
      signal = 0, data_area = replicate (2 ^ k) 0\<rparr>"
    using create_power [OF assms] by blast
  have "(2 :: nat) ^ k \<le> 2 ^ 30" using k(1) by (rule power_increasing) simp
  moreover have "(2 :: nat) ^ k dvd 2 ^ 32" using k(1) by (intro le_imp_power_dvd) simp
  ultimately show "ring_capacity (capacity m)" using k(2) by (simp add: ring_capacity_def)
qed (rule create_power [OF assms]; simp)+

lemma create_stdin_ring_power:
  assumes "k \<le> 30"
  shows "create_stdin_ring (2 ^ k) \<noteq> None"
proof -
  have floor: "\<lfloor>2 ^ k :: rat\<rfloor> = 2 ^ k" by (metis floor_of_int of_int_numeral of_int_power)
  have "(2 :: rat) ^ k \<le> 2 ^ 30" using assms by (rule power_increasing) simp
  moreover have "(2 ^ k :: 32 word) AND (2 ^ k - 1) = 0"
    unfolding mask_eq_exp_minus_1 [symmetric]
    by (rule bit_eqI) (simp add: bit_and_iff bit_exp_iff bit_mask_iff)
  ultimately show ?thesis by (simp add: create_stdin_ring_def Let_def floor not_le)
qed

text \<open>C19: \<open>createStdinRing\<close> makes a ring exactly for the powers of two up to \<open>2 ^ 30\<close>.\<close>

theorem create_stdin_ring_iff:
  "create_stdin_ring c \<noteq> None \<longleftrightarrow> (\<exists>k \<le> 30. c = 2 ^ k)"
  using create_power [of c] create_stdin_ring_power by auto

subsection \<open>The invariant\<close>

text \<open>
  What each position means, over the number \<open>length (sent s)\<close> of bytes written ever and
  the number \<open>length (taken s)\<close> of bytes taken ever, of which the header's words are the
  residues.
\<close>

definition sig_ok :: "sys \<Rightarrow> 32 word \<Rightarrow> bool \<Rightarrow> bool" where
  "sig_ok s sig q \<longleftrightarrow> (\<exists>k \<le> bumps s. sig = of_nat k \<and> (bumps s = k \<and> \<not> bumping (w_at s) \<longrightarrow> q))"

fun mode_ok :: "sys \<Rightarrow> mode \<Rightarrow> bool \<Rightarrow> bool" where
  "mode_ok s Once q = True"
| "mode_ok s (Blocking sig) q = sig_ok s sig q"

definition seen :: "sys \<Rightarrow> nat \<Rightarrow> 32 word \<Rightarrow> bool" where
  "seen s n w \<longleftrightarrow> w = of_nat n \<and> length (taken s) \<le> n \<and> n \<le> length (sent s)"

abbreviation empty_ring :: "sys \<Rightarrow> bool" where
  "empty_ring s \<equiv> length (sent s) = length (taken s)"

abbreviation is_open :: "sys \<Rightarrow> bool" where
  "is_open s \<equiv> closed_word (mem s) \<noteq> 1"

text \<open>
  What a \<open>take\<close> that answered null found: nothing to see, or, asked for no bytes, anything
  but the end of the file.
\<close>

definition nothing_for :: "sys \<Rightarrow> nat \<Rightarrow> bool" where
  "nothing_for s len \<longleftrightarrow> empty_ring s \<and> is_open s \<or> len = 0 \<and> (is_open s \<or> \<not> empty_ring s)"

fun reader_inv :: "sys \<Rightarrow> rpc \<Rightarrow> bool" where
  "reader_inv s (RAll2 w) = (\<exists>n. seen s n w)"
| "reader_inv s (RTake md len) = mode_ok s md True"
| "reader_inv s (RTake2 md len w) = (\<exists>n. seen s n w \<and> mode_ok s md (length (sent s) = n))"
| "reader_inv s (RClosed md len) = mode_ok s md (len = 0 \<or> empty_ring s)"
| "reader_inv s (RAgain md len) = (mode_ok s md (len = 0 \<or> empty_ring s) \<and> \<not> is_open s)"
| "reader_inv s (RAgain2 md len w) =
     (\<exists>n. seen s n w \<and> mode_ok s md (len = 0 \<or> empty_ring s) \<and> \<not> is_open s \<and>
        (\<not> cut_short s \<longrightarrow> length (sent s) = n))"
| "reader_inv s (RNull md len) = mode_ok s md (nothing_for s len)"
| "reader_inv s (RZero len) = (\<not> is_open s \<and> (\<not> cut_short s \<longrightarrow> empty_ring s))"
| "reader_inv s (RSleep len) =
     (nothing_for s len \<or> bumping (w_at s) \<or> notifying (w_at s))"
| "reader_inv s (RRead count) = (0 < count \<and> length (taken s) + count \<le> length (sent s))"
| "reader_inv s (RCopy rd count got) =
     (rd = length (taken s) mod 2 ^ 32 \<and> length (taken s) + count \<le> length (sent s) \<and>
      length got \<le> count \<and> got = take (length got) (drop (length (taken s)) (sent s)))"
| "reader_inv s (RStore rd got) =
     (rd = length (taken s) mod 2 ^ 32 \<and> length (taken s) + length got \<le> length (sent s) \<and>
      got = take (length got) (drop (length (taken s)) (sent s)))"
| "reader_inv s (VLook sig) = sig_ok s sig True"
| "reader_inv s (VLook2 sig w) = (\<exists>n. seen s n w \<and> sig_ok s sig (length (sent s) = n))"
| "reader_inv s (VClosed sig) = sig_ok s sig (empty_ring s)"
| "reader_inv s (VWait sig) = sig_ok s sig (empty_ring s \<and> is_open s)"
| "reader_inv s VSleep = (empty_ring s \<and> is_open s \<or> bumping (w_at s) \<or> notifying (w_at s))"
| "reader_inv s _ = True"

fun writer_inv :: "sys \<Rightarrow> wpc \<Rightarrow> bool" where
  "writer_inv s (WRoom b off raw) =
     (off < length b \<and>
      (\<exists>r \<le> length (taken s). raw = of_nat r \<and> length (sent s) \<le> r + capacity (mem s) \<and> r \<le> length (sent s)))"
| "writer_inv s (WWait b off raw) =
     (\<exists>r \<le> length (taken s). raw = of_nat r \<and> length (sent s) = r + capacity (mem s))"
| "writer_inv s (WSleep b off) =
     (length (sent s) = length (taken s) + capacity (mem s) \<or> r_at s = RNotify)"
| "writer_inv s (WCopy b off written count j) =
     (written = length (sent s) mod 2 ^ 32 \<and> off + count \<le> length b \<and> j \<le> count \<and>
      length (sent s) + count \<le> length (taken s) + capacity (mem s) \<and>
      (\<forall>i < j. data_area (mem s) ! ((length (sent s) + i) mod capacity (mem s)) = b ! (off + i)))"
| "writer_inv s (WStore b off written count) =
     (written = length (sent s) mod 2 ^ 32 \<and> off + count \<le> length b \<and>
      length (sent s) + count \<le> length (taken s) + capacity (mem s) \<and>
      (\<forall>i < count. data_area (mem s) ! ((length (sent s) + i) mod capacity (mem s)) = b ! (off + i)))"
| "writer_inv s (WCloseBump pc) = (can_close pc \<and> writer_inv s pc \<and> \<not> is_open s)"
| "writer_inv s (WCloseNotify pc) = (can_close pc \<and> writer_inv s pc \<and> \<not> is_open s)"
| "writer_inv s _ = True"

text \<open>The bytes of the writes under way that are not published yet.\<close>

fun unsent :: "wpc \<Rightarrow> bytes" where
  "unsent (WCheck b) = b"
| "unsent (WLoop b off) = drop off b"
| "unsent (WRoom b off raw) = drop off b"
| "unsent (WWait b off raw) = drop off b"
| "unsent (WSleep b off) = drop off b"
| "unsent (WReady b off) = drop off b"
| "unsent (WCopy b off written count j) = drop off b"
| "unsent (WStore b off written count) = drop off b"
| "unsent (WBump b off) = drop off b"
| "unsent (WNotify b off) = drop off b"
| "unsent (WCloseBump pc) = unsent pc"
| "unsent (WCloseNotify pc) = unsent pc"
| "unsent WIdle = []"

text \<open>The writer is past every byte it will write: idle, or about to be refused.\<close>

fun at_rest :: "wpc \<Rightarrow> bool" where
  "at_rest WIdle = True"
| "at_rest (WCheck b) = True"
| "at_rest (WCloseBump pc) = at_rest pc"
| "at_rest (WCloseNotify pc) = at_rest pc"
| "at_rest _ = False"

definition memory_inv :: "sys \<Rightarrow> bool" where
  "memory_inv s \<longleftrightarrow>
     ring_capacity (capacity (mem s)) \<and> length (data_area (mem s)) = capacity (mem s) \<and>
     write_index (mem s) = of_nat (length (sent s)) \<and> read_index (mem s) = of_nat (length (taken s)) \<and>
     signal (mem s) = of_nat (bumps s) \<and>
     length (taken s) \<le> length (sent s) \<and> length (sent s) \<le> length (taken s) + capacity (mem s) \<and>
     prefix (taken s) (sent s) \<and>
     (\<forall>i. length (taken s) \<le> i \<longrightarrow> i < length (sent s) \<longrightarrow>
        data_area (mem s) ! (i mod capacity (mem s)) = sent s ! i)"

definition history_inv :: "sys \<Rightarrow> bool" where
  "history_inv s \<longleftrightarrow>
     (\<not> is_open s \<and> \<not> cut_short s \<longrightarrow> at_rest (w_at s)) \<and>
     (said_eof s \<longrightarrow> \<not> is_open s \<and> (\<not> cut_short s \<longrightarrow> empty_ring s)) \<and>
     (can_wait s \<and> is_open s \<longrightarrow> concat (called s) = sent s @ unsent (w_at s) @ concat (pending s)) \<and>
     (can_wait s \<and> \<not> is_open s \<and> \<not> cut_short s \<longrightarrow> before_close s = sent s)"

definition ring_inv :: "sys \<Rightarrow> bool" where
  "ring_inv s \<longleftrightarrow> memory_inv s \<and> history_inv s \<and> writer_inv s (w_at s) \<and> reader_inv s (r_at s)"

subsection \<open>The invariant is kept\<close>

lemma sig_ok_mono:
  assumes "sig_ok s sig q" and "bumps s \<le> bumps t"
    and "bumps t = bumps s \<Longrightarrow> \<not> bumping (w_at t) \<Longrightarrow> \<not> bumping (w_at s) \<and> (q \<longrightarrow> q')"
  shows "sig_ok t sig q'"
proof -
  obtain k where k: "k \<le> bumps s" "sig = of_nat k" "bumps s = k \<and> \<not> bumping (w_at s) \<longrightarrow> q"
    using assms(1) by (auto simp: sig_ok_def)
  have "q'" if "bumps t = k" "\<not> bumping (w_at t)"
    using that k assms(2,3) by auto
  with k assms(2) show ?thesis unfolding sig_ok_def by (intro exI [of _ k]) simp
qed

lemma mode_ok_mono:
  assumes "mode_ok s md q" and "bumps s \<le> bumps t"
    and "bumps t = bumps s \<Longrightarrow> \<not> bumping (w_at t) \<Longrightarrow> \<not> bumping (w_at s) \<and> (q \<longrightarrow> q')"
  shows "mode_ok t md q'"
  using assms by (cases md) (auto intro: sig_ok_mono)

text \<open>What the reader has seen stays true while the writer's thread moves.\<close>

lemma reader_inv_writer:
  assumes inv: "reader_inv s pc" and taken: "taken t = taken s" and sent: "sent t = sent s @ x"
    and bumps: "bumps s \<le> bumps t"
    and closed: "\<not> is_open s \<Longrightarrow> \<not> is_open t \<and> cut_short t = cut_short s"
    and rest: "\<not> is_open s \<Longrightarrow> \<not> cut_short s \<Longrightarrow> x = []"
    and quiet: "bumps t = bumps s \<Longrightarrow> \<not> bumping (w_at t) \<Longrightarrow>
      x = [] \<and> \<not> bumping (w_at s) \<and> is_open t = is_open s"
    and asleep: "pc = VSleep \<or> (\<exists>len. pc = RSleep len) \<Longrightarrow> \<not> bumping (w_at t) \<Longrightarrow> \<not> notifying (w_at t) \<Longrightarrow>
      x = [] \<and> \<not> bumping (w_at s) \<and> \<not> notifying (w_at s) \<and> is_open t = is_open s"
  shows "reader_inv t pc"
proof -
  have seen: "seen t n w" if "seen s n w" for n w
    using that by (auto simp: seen_def taken sent)
  have sig: "sig_ok t sig q'" if "sig_ok s sig q" "x = [] \<Longrightarrow> is_open t = is_open s \<Longrightarrow> q \<Longrightarrow> q'" for sig q q'
    using that(1) bumps by (rule sig_ok_mono) (use quiet that(2) in blast)
  have mode: "mode_ok t md q'" if "mode_ok s md q" "x = [] \<Longrightarrow> is_open t = is_open s \<Longrightarrow> q \<Longrightarrow> q'" for md q q'
    using that(1) bumps by (rule mode_ok_mono) (use quiet that(2) in blast)
  show ?thesis
  proof (cases pc)
    case (RTake md len)
    then show ?thesis using inv mode [of md True True] by simp
  next
    case (RTake2 md len w)
    with inv obtain n where n: "seen s n w" "mode_ok s md (length (sent s) = n)" by auto
    have "mode_ok t md (length (sent t) = n)" using n(2) by (rule mode) (simp add: sent)
    with RTake2 seen [OF n(1)] show ?thesis by auto
  next
    case (RClosed md len)
    with inv have "mode_ok t md (len = 0 \<or> empty_ring t)"
      using mode [of md "len = 0 \<or> empty_ring s" "len = 0 \<or> empty_ring t"] by (simp add: sent taken)
    with RClosed show ?thesis by simp
  next
    case (RAgain md len)
    with inv have "mode_ok t md (len = 0 \<or> empty_ring t)"
      using mode [of md "len = 0 \<or> empty_ring s" "len = 0 \<or> empty_ring t"] by (simp add: sent taken)
    with RAgain inv closed show ?thesis by simp
  next
    case (RAgain2 md len w)
    with inv obtain n where n: "seen s n w" "mode_ok s md (len = 0 \<or> empty_ring s)" "\<not> is_open s"
      "\<not> cut_short s \<longrightarrow> length (sent s) = n" by auto
    have "mode_ok t md (len = 0 \<or> empty_ring t)" using n(2) by (rule mode) (simp add: sent taken)
    moreover have "\<not> cut_short t \<longrightarrow> length (sent t) = n" using n(3,4) closed rest by (simp add: sent)
    ultimately show ?thesis using RAgain2 seen [OF n(1)] closed n(3) by auto
  next
    case (RNull md len)
    with inv have "mode_ok t md (nothing_for t len)"
      using mode [of md "nothing_for s len" "nothing_for t len"] by (simp add: sent taken nothing_for_def)
    with RNull show ?thesis by simp
  next
    case (RZero len)
    with inv closed rest show ?thesis by (simp add: sent taken)
  next
    case (RSleep len)
    with inv asleep show ?thesis by (auto simp: sent taken nothing_for_def)
  next
    case (VLook sig)
    with inv show ?thesis using sig [of sig True True] by simp
  next
    case (VLook2 sig' w)
    with inv obtain n where n: "seen s n w" "sig_ok s sig' (length (sent s) = n)" by auto
    have "sig_ok t sig' (length (sent t) = n)" using n(2) by (rule sig) (simp add: sent)
    with VLook2 seen [OF n(1)] show ?thesis by auto
  next
    case (VClosed sig')
    with inv have "sig_ok t sig' (empty_ring t)"
      using sig [of sig' "empty_ring s" "empty_ring t"] by (simp add: sent taken)
    with VClosed show ?thesis by simp
  next
    case (VWait sig')
    with inv have "sig_ok t sig' (empty_ring t \<and> is_open t)"
      using sig [of sig' "empty_ring s \<and> is_open s" "empty_ring t \<and> is_open t"] by (simp add: sent taken)
    with VWait show ?thesis by simp
  next
    case VSleep
    with inv asleep show ?thesis by (auto simp: sent taken)
  qed (use inv seen in \<open>auto simp: sent taken\<close>)
qed

text \<open>What the writer has seen stays true while the reader's thread moves.\<close>

lemma writer_inv_reader:
  assumes "writer_inv s pc" and "taken t = taken s @ y" and "sent t = sent s"
    and "capacity (mem t) = capacity (mem s)" and "data_area (mem t) = data_area (mem s)"
    and "closed_word (mem t) = closed_word (mem s)"
    and "r_at t = RNotify \<or> (y = [] \<and> r_at s \<noteq> RNotify)"
  shows "writer_inv t pc"
  using assms
proof (induction pc)
  case (WSleep b off)
  then show ?case by auto
qed (auto intro: trans_le_add1)

lemma wake_writer_inv: "writer_inv s pc \<Longrightarrow> writer_inv s (wake_writer pc)"
proof (induction pc)
  case (WCloseBump pc)
  then show ?case by (cases pc) auto
next
  case (WCloseNotify pc)
  then show ?case by (cases pc) auto
qed auto

lemma woken_writer_inv:
  assumes "writer_inv s pc" and "taken t = taken s" and "sent t = sent s" and "mem t = mem s"
  shows "writer_inv t (wake_writer pc)"
  using assms
proof (induction pc)
  case (WCloseBump pc)
  then show ?case by (cases pc) auto
next
  case (WCloseNotify pc)
  then show ?case by (cases pc) auto
qed auto

lemma woken_unsent [simp]: "unsent (wake_writer pc) = unsent pc" "at_rest (wake_writer pc) = at_rest pc"
  by (induction pc) auto

lemma woken_marks [simp]:
  "bumping (wake_writer pc) = bumping pc" "notifying (wake_writer pc) = notifying pc"
  by (cases pc; simp)+

lemma memory_facts:
  assumes "memory_inv s"
  shows "ring_capacity (capacity (mem s))" "length (data_area (mem s)) = capacity (mem s)"
    "write_index (mem s) = of_nat (length (sent s))" "read_index (mem s) = of_nat (length (taken s))"
    "signal (mem s) = of_nat (bumps s)" "length (taken s) \<le> length (sent s)"
    "length (sent s) \<le> length (taken s) + capacity (mem s)" "prefix (taken s) (sent s)"
    "\<And>i. length (taken s) \<le> i \<Longrightarrow> i < length (sent s) \<Longrightarrow>
        data_area (mem s) ! (i mod capacity (mem s)) = sent s ! i"
  using assms unfolding memory_inv_def by auto

lemma of_nat_wrap: "(of_nat (n mod 2 ^ 32 + k) :: 32 word) = of_nat (n + k)"
  by (simp only: word_unat_eq_iff unat_of_nat_32 mod_add_left_eq)

lemma writer_move_simps:
  "writer_step (can_wait s) (mem s) (w_at s) = (m, pc) \<Longrightarrow>
   writer_move s = s\<lparr>mem := m, w_at := pc, sent := sent s @ published (w_at s),
           bumps := (if bumping (w_at s) then Suc (bumps s) else bumps s),
           r_at := (if notifying (w_at s) then wake_reader (r_at s) else r_at s)\<rparr>"
  by (simp add: writer_move_def)

lemma writer_copy_memory:
  assumes m: "memory_inv s" and w: "w_at s = WCopy b off written count j" "writer_inv s (w_at s)" and j: "j < count"
  shows "memory_inv (writer_move s)"
    and "writer_inv (writer_move s) (w_at (writer_move s))"
proof -
  note f = memory_facts [OF m]
  let ?W = "length (sent s)" and ?R = "length (taken s)" and ?cap = "capacity (mem s)"
  have inv: "written = ?W mod 2 ^ 32" "off + count \<le> length b" "?W + count \<le> ?R + ?cap"
    "\<forall>i < j. data_area (mem s) ! ((?W + i) mod ?cap) = b ! (off + i)"
    using w by simp_all
  have "count \<le> ?cap" using inv(3) f(6) by simp
  then have pos: "segment_pos ?cap written count j = (?W + j) mod ?cap"
    unfolding inv(1) by (rule segment_pos_mod [OF f(1) _ j])
  let ?d = "(data_area (mem s))[(?W + j) mod ?cap := b ! (off + j)]"
  have mv: "writer_move s = s\<lparr>mem := (mem s)\<lparr>data_area := ?d\<rparr>, w_at := WCopy b off written count (Suc j)\<rparr>"
    using w(1) j pos by (simp add: writer_move_def)
  have lt: "(?W + j) mod ?cap < ?cap" using f(1) by (simp add: ring_capacity_def)
  have other: "?d ! (i mod ?cap) = data_area (mem s) ! (i mod ?cap)" if "?R \<le> i" "i < ?W + j" for i
    using window_apart [OF f(1), of i "?W + j"] that inv(3) j by simp
  show "memory_inv (writer_move s)"
    unfolding mv memory_inv_def using f other by simp
  have "?d ! ((?W + i) mod ?cap) = b ! (off + i)" if "i < Suc j" for i
  proof (cases "i = j")
    case True
    with lt f(2) show ?thesis by simp
  next
    case False
    with that have "i < j" by simp
    with inv(4) other [of "?W + i"] f(6) show ?thesis by simp
  qed
  then show "writer_inv (writer_move s) (w_at (writer_move s))"
    unfolding mv using inv j by simp
qed

lemma writer_store_memory:
  assumes m: "memory_inv s" and w: "w_at s = WStore b off written count" "writer_inv s (w_at s)"
  shows "memory_inv (writer_move s)"
proof -
  note f = memory_facts [OF m]
  let ?W = "length (sent s)" and ?R = "length (taken s)" and ?cap = "capacity (mem s)"
  have inv: "written = ?W mod 2 ^ 32" "off + count \<le> length b" "?W + count \<le> ?R + ?cap"
    "\<forall>i < count. data_area (mem s) ! ((?W + i) mod ?cap) = b ! (off + i)"
    using w by simp_all
  let ?x = "take count (drop off b)"
  have x: "length ?x = count" using inv(2) by simp
  have mv: "writer_move s = s\<lparr>mem := (mem s)\<lparr>write_index := of_nat (?W + count)\<rparr>,
      w_at := WBump b (off + count), sent := sent s @ ?x\<rparr>"
    using w(1) inv(1) of_nat_wrap [of ?W count] by (simp add: writer_move_def)
  have "data_area (mem s) ! (i mod ?cap) = (sent s @ ?x) ! i" if i: "?R \<le> i" "i < ?W + count" for i
  proof (cases "i < ?W")
    case True
    with f(9) [OF i(1)] show ?thesis by (simp add: nth_append)
  next
    case False
    then obtain k where "i = ?W + k" "k < count" using i(2) by (metis add_diff_inverse_nat nat_add_left_cancel_less)
    with inv(2,4) show ?thesis by (simp add: nth_append)
  qed
  then show ?thesis
    unfolding mv memory_inv_def using f inv(3) x by (auto intro: prefix_prefix)
qed

lemma writer_move_memory:
  assumes "memory_inv s" and "writer_inv s (w_at s)"
  shows "memory_inv (writer_move s)"
proof (cases "w_at s")
  case (WCopy b off written count j)
  show ?thesis
  proof (cases "j < count")
    case True
    with assms WCopy show ?thesis by (blast intro: writer_copy_memory)
  next
    case False
    with assms WCopy show ?thesis by (simp add: writer_move_def memory_inv_def)
  qed
next
  case (WStore b off written count)
  with assms show ?thesis by (blast intro: writer_store_memory)
qed (use assms in \<open>simp_all add: writer_move_def memory_inv_def\<close>)

lemma of_nat_eq_window:
  assumes "(of_nat a :: 32 word) = of_nat b" and "a \<le> b" and "b \<le> a + cap" and "ring_capacity cap"
  shows "a = b"
proof -
  have "available (of_nat b) (of_nat a) = b - a" using assms(2-4) by (rule available_of_nat)
  with assms(1,2) show ?thesis by (simp add: available_def)
qed

lemma writer_move_writer:
  assumes m: "memory_inv s" and w: "writer_inv s (w_at s)"
  shows "writer_inv (writer_move s) (w_at (writer_move s))"
proof (cases "w_at s")
  case (WRoom b off raw)
  note f = memory_facts [OF m]
  let ?W = "length (sent s)" and ?R = "length (taken s)" and ?cap = "capacity (mem s)"
  from w WRoom obtain r where r: "off < length b" "r \<le> ?R" "raw = of_nat r" "?W \<le> r + ?cap" "r \<le> ?W" by auto
  have av: "available (write_index (mem s)) raw = ?W - r"
    unfolding f(3) r(3) using r(5,4) f(1) by (rule available_of_nat)
  have wr: "unat (write_index (mem s)) = ?W mod 2 ^ 32" unfolding f(3) by (rule unat_of_nat_32)
  show ?thesis
  proof (cases "?cap - (?W - r) = 0")
    case True
    with r(4,5) have "?W = r + ?cap" by simp
    with WRoom r True av show ?thesis by (auto simp: writer_move_def Let_def)
  next
    case False
    with WRoom r av wr show ?thesis by (auto simp: writer_move_def Let_def)
  qed
next
  case (WWait b off raw)
  note f = memory_facts [OF m]
  from w WWait obtain r where r: "r \<le> length (taken s)" "raw = of_nat r"
    "length (sent s) = r + capacity (mem s)" by auto
  have "r = length (taken s)" if "read_index (mem s) = raw"
  proof (rule of_nat_eq_window [OF _ r(1) _ f(1)])
    show "(of_nat r :: 32 word) = of_nat (length (taken s))" using that f(4) r(2) by simp
    show "length (taken s) \<le> r + capacity (mem s)" using f(6) r(3) by simp
  qed
  with WWait r show ?thesis by (auto simp: writer_move_def)
next
  case (WCopy b off written count j)
  show ?thesis
  proof (cases "j < count")
    case True
    with assms WCopy show ?thesis by (blast intro: writer_copy_memory)
  next
    case False
    with w WCopy show ?thesis by (auto simp: writer_move_def)
  qed
next
  case (WCloseBump pc)
  with w show ?thesis by (cases pc) (auto simp: writer_move_def)
next
  case (WCloseNotify pc)
  with w show ?thesis by (cases pc) (auto simp: writer_move_def)
next
  case (WLoop b off)
  note f = memory_facts [OF m]
  from WLoop f show ?thesis by (auto simp: writer_move_def)
qed (use w in \<open>simp_all add: writer_move_def\<close>)

lemma writer_move_history:
  assumes h: "history_inv s" and w: "writer_inv s (w_at s)" and m: "memory_inv s"
  shows "history_inv (writer_move s)"
proof (cases "w_at s")
  case (WRoom b off raw)
  note f = memory_facts [OF m]
  from w WRoom obtain r where r: "raw = of_nat r" "length (sent s) \<le> r + capacity (mem s)" "r \<le> length (sent s)"
    by auto
  have "available (write_index (mem s)) raw = length (sent s) - r"
    unfolding f(3) r(1) using r(3,2) f(1) by (rule available_of_nat)
  with h WRoom show ?thesis by (auto simp: writer_move_def history_inv_def Let_def)
next
  case (WCopy b off written count j)
  with h show ?thesis by (auto simp: writer_move_def history_inv_def)
next
  case (WStore b off written count)
  have "take count (drop off b) @ drop (off + count) b = drop off b"
    by (metis add.commute append_take_drop_id drop_drop)
  then have "take count (drop off b) @ drop (off + count) b @ ps = drop off b @ ps" for ps
    by (metis append.assoc)
  with h WStore show ?thesis by (auto simp: writer_move_def history_inv_def)
next
  case (WCloseBump pc)
  with h w show ?thesis by (auto simp: writer_move_def history_inv_def)
next
  case (WCloseNotify pc)
  with h w show ?thesis by (auto simp: writer_move_def history_inv_def)
qed (use h in \<open>auto simp: writer_move_def history_inv_def\<close>)

lemma wake_reader_inv: "reader_inv s pc \<Longrightarrow> reader_inv s (wake_reader pc)"
  by (cases pc) auto

lemma writer_move_reader:
  assumes h: "history_inv s" and r: "reader_inv s (r_at s)" and w: "writer_inv s (w_at s)"
  shows "reader_inv (writer_move s) (r_at (writer_move s))"
proof -
  obtain m pc where st: "writer_step (can_wait s) (mem s) (w_at s) = (m, pc)" by fastforce
  note mv = writer_move_simps [OF st]
  let ?x = "published (w_at s)"
  have closed: "closed_word m = closed_word (mem s)"
    using st by (cases "w_at s") (auto simp: Let_def split: if_splits)
  have rest: "?x = []" if "\<not> is_open s" "\<not> cut_short s"
  proof -
    have "at_rest (w_at s)" using h that by (simp add: history_inv_def)
    then show ?thesis by (cases "w_at s") auto
  qed
  have pub: "bumping pc" if "?x \<noteq> []" using that st by (cases "w_at s") auto
  have told: "notifying pc" if "bumping (w_at s)" using that st by (cases "w_at s") auto
  have loud: "\<not> bumping (w_at s)" if "bumps (writer_move s) = bumps s" using that mv by (auto split: if_splits)
  let ?pc = "if notifying (w_at s) then wake_reader (r_at s) else r_at s"
  have moved: "w_at (writer_move s) = pc" "sent (writer_move s) = sent s @ ?x"
    "taken (writer_move s) = taken s" "cut_short (writer_move s) = cut_short s"
    "r_at (writer_move s) = ?pc" "is_open (writer_move s) = is_open s" "bumps s \<le> bumps (writer_move s)"
    unfolding mv by (simp_all add: closed)
  have awake: "\<not> notifying (w_at s)" if "?pc = VSleep \<or> (\<exists>len. ?pc = RSleep len)"
    using that by (cases "r_at s") (auto split: if_splits)
  have "reader_inv s ?pc" using r by (simp add: wake_reader_inv)
  then have "reader_inv (writer_move s) ?pc"
  proof (rule reader_inv_writer [OF _ moved(3,2,7)])
    assume "\<not> is_open s"
    then show "\<not> is_open (writer_move s) \<and> cut_short (writer_move s) = cut_short s"
      using moved(4,6) by argo
  next
    assume "\<not> is_open s" "\<not> cut_short s"
    then show "?x = []" by (rule rest)
  next
    assume "bumps (writer_move s) = bumps s" "\<not> bumping (w_at (writer_move s))"
    then show "?x = [] \<and> \<not> bumping (w_at s) \<and> is_open (writer_move s) = is_open s"
      using pub loud moved(1,6) by metis
  next
    assume "?pc = VSleep \<or> (\<exists>len. ?pc = RSleep len)" "\<not> bumping (w_at (writer_move s))"
      "\<not> notifying (w_at (writer_move s))"
    then show "?x = [] \<and> \<not> bumping (w_at s) \<and> \<not> notifying (w_at s) \<and> is_open (writer_move s) = is_open s"
      using pub told awake moved(1,6) by metis
  qed
  then show ?thesis using moved(5) by simp
qed

text \<open>The reader's thread.\<close>

lemma reader_copy:
  assumes m: "memory_inv s" and r: "reader_inv s (RCopy rd count got)" and c: "length got < count"
  shows "reader_inv s (RCopy rd count (got @ [data_area (mem s) ! ((rd + length got) mod capacity (mem s))]))"
proof -
  note f = memory_facts [OF m]
  let ?R = "length (taken s)"
  from r have inv: "rd = ?R mod 2 ^ 32" "?R + count \<le> length (sent s)"
    "got = take (length got) (drop ?R (sent s))" by auto
  have "data_area (mem s) ! ((rd + length got) mod capacity (mem s)) = sent s ! (?R + length got)"
    unfolding inv(1) wrap_mod [OF f(1)] using f(9) [of "?R + length got"] inv(2) c by simp
  moreover have "take (Suc (length got)) (drop ?R (sent s)) =
      take (length got) (drop ?R (sent s)) @ [sent s ! (?R + length got)]"
    using inv(2) c by (simp add: take_Suc_conv_app_nth)
  ultimately show ?thesis using inv c by simp
qed

lemma reader_move_memory:
  assumes m: "memory_inv s" and r: "reader_inv s (r_at s)"
  shows "memory_inv (reader_move s)"
proof (cases "r_at s")
  case (RStore rd got)
  note f = memory_facts [OF m]
  let ?R = "length (taken s)" and ?W = "length (sent s)"
  from r RStore have inv: "rd = ?R mod 2 ^ 32" "?R + length got \<le> ?W"
    "got = take (length got) (drop ?R (sent s))" by auto
  have mv: "reader_move s = s\<lparr>mem := (mem s)\<lparr>read_index := of_nat (?R + length got)\<rparr>, r_at := RNotify,
      taken := taken s @ got\<rparr>"
    using RStore inv(1) of_nat_wrap [of ?R "length got"] by (simp add: reader_move_def)
  have "prefix (taken s @ got) (sent s)"
  proof -
    obtain rest where rest: "sent s = taken s @ rest" using f(8) by (auto simp: prefix_def)
    then have "got = take (length got) rest" using inv(3) by simp
    then have "prefix got rest" by (metis take_is_prefix)
    with rest show ?thesis by simp
  qed
  with f inv(2) show ?thesis unfolding mv memory_inv_def by simp
next
  case (RNull md len)
  with m show ?thesis by (cases md) (simp_all add: reader_move_def memory_inv_def)
qed (use m in \<open>simp_all add: reader_move_def memory_inv_def Let_def\<close>)

lemma reader_move_history:
  assumes h: "history_inv s" and r: "reader_inv s (r_at s)" and m: "memory_inv s"
  shows "history_inv (reader_move s)"
proof (cases "r_at s")
  case (RStore rd got)
  note f = memory_facts [OF m]
  have "length (taken s) + length got \<le> length (sent s)" using r RStore by simp
  moreover have "got = []" if "empty_ring s" using calculation that by simp
  ultimately show ?thesis using h RStore by (auto simp: reader_move_def history_inv_def)
next
  case (RNull md len)
  with h show ?thesis by (cases md) (auto simp: reader_move_def history_inv_def)
next
  case (RZero len)
  with h r show ?thesis by (auto simp: reader_move_def history_inv_def)
qed (use h in \<open>auto simp: reader_move_def history_inv_def Let_def\<close>)

lemma mode_ok_imp:
  assumes "mode_ok s md q" and "bumps t = bumps s" and "bumping (w_at t) = bumping (w_at s)" and "q \<Longrightarrow> q'"
  shows "mode_ok t md q'"
  using assms(1) by (rule mode_ok_mono) (use assms in simp_all)

lemma sig_ok_imp:
  assumes "sig_ok s sig q" and "bumps t = bumps s" and "bumping (w_at t) = bumping (w_at s)" and "q \<Longrightarrow> q'"
  shows "sig_ok t sig q'"
  using assms(1) by (rule sig_ok_mono) (use assms in simp_all)

lemma seen_available:
  assumes "memory_inv s" and "seen s n w"
  shows "available w (read_index (mem s)) = n - length (taken s)"
proof -
  note f = memory_facts [OF assms(1)]
  have n: "w = of_nat n" "length (taken s) \<le> n" "n \<le> length (sent s)"
    using assms(2) by (simp_all add: seen_def)
  have "n \<le> length (taken s) + capacity (mem s)" using n(3) f(7) by simp
  then show ?thesis unfolding n(1) f(4) using n(2) f(1) available_of_nat by blast
qed

lemma seen_now: "memory_inv s \<Longrightarrow> seen s (length (sent s)) (write_index (mem s))"
  using memory_facts [of s] by (simp add: seen_def)

text \<open>The word a reader holds is the signal again only when no bump came between.\<close>

lemma signal_current:
  assumes "memory_inv s" and "sig_ok s sig q" and "signal (mem s) = sig" and "bumps s < 2 ^ 32"
  shows "q \<or> bumping (w_at s)"
proof -
  obtain k where k: "k \<le> bumps s" "sig = of_nat k" "bumps s = k \<and> \<not> bumping (w_at s) \<longrightarrow> q"
    using assms(2) by (auto simp: sig_ok_def)
  have "(of_nat (bumps s) :: 32 word) = of_nat k" using memory_facts(5) [OF assms(1)] assms(3) k(2) by simp
  then have "unat (of_nat (bumps s) :: 32 word) = unat (of_nat k :: 32 word)" by simp
  then have "bumps s = k" unfolding unat_of_nat_32 using assms(4) k(1) by simp
  with k(3) show ?thesis by blast
qed

lemma reader_step_frame:
  "closed_word (fst (reader_step m pc)) = closed_word m" "capacity (fst (reader_step m pc)) = capacity m"
  "data_area (fst (reader_step m pc)) = data_area m"
  by (induction m pc rule: reader_step.induct) (simp_all add: Let_def)

lemma reader_move_fields:
  "sent (reader_move s) = sent s" "taken (reader_move s) = taken s @ delivered (r_at s)"
  "bumps (reader_move s) = bumps s" "cut_short (reader_move s) = cut_short s"
  "bumping (w_at (reader_move s)) = bumping (w_at s)" "notifying (w_at (reader_move s)) = notifying (w_at s)"
  "closed_word (mem (reader_move s)) = closed_word (mem s)" "capacity (mem (reader_move s)) = capacity (mem s)"
  "data_area (mem (reader_move s)) = data_area (mem s)"
  "r_at (reader_move s) = snd (reader_step (mem s) (r_at s))"
  by (simp_all add: reader_move_def case_prod_beta reader_step_frame)

lemma reader_move_reader:
  assumes m: "memory_inv s" and r: "reader_inv s (r_at s)" and few: "bumps s < 2 ^ 32"
  shows "reader_inv (reader_move s) (r_at (reader_move s))"
proof -
  let ?t = "reader_move s"
  note fields = reader_move_fields [of s]
  note f = memory_facts [OF m]
  note mode = mode_ok_imp [where t = ?t, OF _ fields(3,5)]
  note sig = sig_ok_imp [where t = ?t, OF _ fields(3,5)]
  have seen: "seen ?t n w" if "seen s n w" "delivered (r_at s) = []" for n w
    using that by (simp add: seen_def fields)
  show ?thesis
  proof (cases "r_at s")
    case (RSignal len)
    then show ?thesis using f(5) by (auto simp: fields sig_ok_def)
  next
    case RAll
    then show ?thesis using seen [OF seen_now [OF m]] by (auto simp: fields)
  next
    case (RTake md len)
    then show ?thesis
      using seen [OF seen_now [OF m]] r mode [of md True] by (auto simp: fields)
  next
    case (RTake2 md len w)
    with r obtain n where n: "seen s n w" "mode_ok s md (length (sent s) = n)" by auto
    have av: "available w (read_index (mem s)) = n - length (taken s)" using m n(1) by (rule seen_available)
    have le: "length (taken s) \<le> n" "n \<le> length (sent s)" using n(1) by (simp_all add: seen_def)
    show ?thesis
    proof (cases "min len (n - length (taken s)) = 0")
      case True
      have "mode_ok ?t md (len = 0 \<or> empty_ring ?t)"
        using n(2) by (rule mode) (use True le RTake2 in \<open>auto simp: fields\<close>)
      with True RTake2 av show ?thesis by (simp add: fields Let_def)
    next
      case False
      with RTake2 av le show ?thesis by (auto simp: fields Let_def)
    qed
  next
    case (RClosed md len)
    with r have q: "mode_ok s md (len = 0 \<or> empty_ring s)" by simp
    have "mode_ok ?t md (len = 0 \<or> empty_ring ?t)" using q by (rule mode) (simp add: fields RClosed)
    moreover have "is_open s \<Longrightarrow> mode_ok ?t md (nothing_for ?t len)"
      using q by (rule mode) (auto simp: fields RClosed nothing_for_def)
    ultimately show ?thesis using RClosed by (simp add: fields)
  next
    case (RAgain md len)
    with r have q: "mode_ok s md (len = 0 \<or> empty_ring s)" "\<not> is_open s" by simp_all
    have "mode_ok ?t md (len = 0 \<or> empty_ring ?t)" using q(1) by (rule mode) (simp add: fields RAgain)
    with RAgain seen [OF seen_now [OF m]] q(2) show ?thesis by (auto simp: fields)
  next
    case (RAgain2 md len w)
    with r obtain n where n: "seen s n w" "mode_ok s md (len = 0 \<or> empty_ring s)" "\<not> is_open s"
      "\<not> cut_short s \<longrightarrow> length (sent s) = n" by auto
    have av: "available w (read_index (mem s)) = n - length (taken s)" using m n(1) by (rule seen_available)
    have le: "length (taken s) \<le> n" "n \<le> length (sent s)" using n(1) by (simp_all add: seen_def)
    show ?thesis
    proof (cases "n - length (taken s) = 0")
      case True
      with RAgain2 av n(3,4) le show ?thesis by (simp add: fields)
    next
      case False
      have "mode_ok ?t md (nothing_for ?t len)"
        using n(2) by (rule mode) (use False le in \<open>auto simp: fields nothing_for_def RAgain2\<close>)
      with False RAgain2 av show ?thesis by (simp add: fields)
    qed
  next
    case (RNull md len)
    show ?thesis
    proof (cases md)
      case (Blocking sg)
      with r RNull have "sig_ok s sg (nothing_for s len)" by simp
      then have "signal (mem s) = sg \<Longrightarrow> nothing_for s len \<or> bumping (w_at s)"
        using signal_current [OF m _ _ few] by blast
      with RNull Blocking show ?thesis by (auto simp: fields nothing_for_def)
    qed (simp add: RNull fields)
  next
    case (RCopy rd count got)
    with r reader_copy [OF m, of rd count got] show ?thesis
      by (auto simp: fields)
  next
    case VSignal
    then show ?thesis using f(5) by (auto simp: fields sig_ok_def)
  next
    case (VLook sg)
    have "sig_ok ?t sg (length (sent ?t) = length (sent s))"
      using sig [of sg True] r VLook by (simp add: fields)
    with VLook seen [OF seen_now [OF m]] show ?thesis by (auto simp: fields)
  next
    case (VLook2 sg w)
    with r obtain n where n: "seen s n w" "sig_ok s sg (length (sent s) = n)" by auto
    have av: "available w (read_index (mem s)) = n - length (taken s)" using m n(1) by (rule seen_available)
    have le: "length (taken s) \<le> n" using n(1) by (simp add: seen_def)
    have "n - length (taken s) = 0 \<Longrightarrow> sig_ok ?t sg (empty_ring ?t)"
      using n(2) by (rule sig) (use le VLook2 in \<open>simp add: fields\<close>)
    with VLook2 av show ?thesis by (simp add: fields)
  next
    case (VClosed sg)
    with r have q: "sig_ok s sg (empty_ring s)" by simp
    have "is_open s \<Longrightarrow> sig_ok ?t sg (empty_ring ?t \<and> is_open ?t)"
      using q by (rule sig) (simp add: fields VClosed)
    with VClosed show ?thesis by (simp add: fields)
  next
    case (VWait sg)
    with r have "sig_ok s sg (empty_ring s \<and> is_open s)" by simp
    then have "signal (mem s) = sg \<Longrightarrow> (empty_ring s \<and> is_open s) \<or> bumping (w_at s)"
      using signal_current [OF m _ _ few] by blast
    with VWait show ?thesis by (auto simp: fields)
  next
    case (RAll2 w)
    then show ?thesis by (simp add: fields)
  next
    case (RRead count)
    with r f show ?thesis by (simp add: fields unat_of_nat_32 del: unsigned_of_nat)
  qed (use r in \<open>auto simp: fields nothing_for_def\<close>)
qed

lemma reader_move_writer:
  assumes w: "writer_inv s (w_at s)" and r: "reader_inv s (r_at s)"
  shows "writer_inv (reader_move s) (w_at (reader_move s))"
proof (cases "r_at s = RNotify")
  case True
  then have "reader_move s = s\<lparr>r_at := RIdle, w_at := wake_writer (w_at s)\<rparr>" by (simp add: reader_move_def)
  with woken_writer_inv [OF w, of "s\<lparr>r_at := RIdle, w_at := wake_writer (w_at s)\<rparr>"] show ?thesis by simp
next
  case False
  have at: "w_at (reader_move s) = w_at s" using False by (simp add: reader_move_def case_prod_beta)
  have "r_at (reader_move s) = RNotify \<or> delivered (r_at s) = []"
    by (cases "r_at s") (simp_all add: reader_move_fields)
  with writer_inv_reader [OF w, of "reader_move s" "delivered (r_at s)"] False at show ?thesis
    by (auto simp: reader_move_fields)
qed

lemma writer_inv_queue [simp]:
  "writer_inv (s\<lparr>pending := ps, called := cs\<rparr>) pc = writer_inv s pc"
  by (induction pc) simp_all

lemma call_inv:
  assumes i: "ring_inv s" and idle: "r_at s = RIdle" and pc: "\<And>t. reader_inv t pc" "pc \<noteq> RNotify"
  shows "ring_inv (s\<lparr>r_at := pc\<rparr>)"
proof -
  have "writer_inv (s\<lparr>r_at := pc\<rparr>) (w_at s)"
    by (rule writer_inv_reader [of s _ _ "[]"]) (use i idle in \<open>simp_all add: ring_inv_def\<close>)
  with i pc show ?thesis by (simp add: ring_inv_def memory_inv_def history_inv_def)
qed

lemma start_put_inv:
  assumes i: "ring_inv s" and idle: "w_at s = WIdle" and p: "pending s = b # bs"
  shows "ring_inv (s\<lparr>w_at := WCheck b, pending := bs\<rparr>)"
proof -
  let ?t = "s\<lparr>w_at := WCheck b, pending := bs\<rparr>"
  have "reader_inv ?t (r_at s)"
    by (rule reader_inv_writer [of s _ _ "[]"]) (use i idle in \<open>simp_all add: ring_inv_def\<close>)
  with i idle p show ?thesis by (simp add: ring_inv_def memory_inv_def history_inv_def)
qed

lemma call_close_inv:
  assumes i: "ring_inv s" and c: "can_close (w_at s)"
  shows "ring_inv (close_move s)" (is "ring_inv ?t")
proof -
  have "reader_inv ?t (r_at s)"
    by (rule reader_inv_writer [of s _ _ "[]"]) (use i in \<open>simp_all add: ring_inv_def close_move_def\<close>)
  moreover have "writer_inv ?t (WCloseBump (w_at s))"
    using c i by (cases "w_at s") (auto simp: ring_inv_def close_move_def)
  moreover have "history_inv ?t" using i c by (auto simp: ring_inv_def history_inv_def close_move_def)
  moreover have "memory_inv ?t" using i by (simp add: ring_inv_def memory_inv_def close_move_def)
  ultimately show ?thesis by (simp add: ring_inv_def close_move_def)
qed

lemma ring_step_bumps: "ring_step s t \<Longrightarrow> bumps s \<le> bumps t"
  by (induction rule: ring_step.induct) (auto simp: writer_move_def reader_move_def close_move_def case_prod_beta)

lemma ring_step_inv:
  assumes "ring_step s t" and "ring_inv s" and "bumps s < 2 ^ 32"
  shows "ring_inv t"
  using assms
proof (induction rule: ring_step.induct)
  case (call_write s b)
  have "reader_inv (s\<lparr>pending := pending s @ [b], called := called s @ [b]\<rparr>) (r_at s)"
    by (rule reader_inv_writer [of s _ _ "[]"]) (use call_write in \<open>simp_all add: ring_inv_def\<close>)
  with call_write show ?case by (simp add: ring_inv_def memory_inv_def history_inv_def)
next
  case (start_put s b bs)
  then show ?case by (blast intro: start_put_inv)
next
  case (call_close s)
  then show ?case by (blast intro: call_close_inv)
next
  case (writer_runs s)
  then show ?case
    by (simp add: ring_inv_def writer_move_memory writer_move_history writer_move_writer writer_move_reader)
next
  case (reader_runs s)
  then show ?case
    by (simp add: ring_inv_def reader_move_memory reader_move_history reader_move_writer reader_move_reader)
qed (simp_all add: call_inv)

lemma start_inv: "create_stdin_ring c = Some m \<Longrightarrow> ring_inv (start m wait)"
  using create_capacity [of c m]
  by (simp add: ring_inv_def start_def memory_inv_def history_inv_def)

lemma ring_reachable_inv: "ring_reachable s \<Longrightarrow> bumps s < 2 ^ 32 \<Longrightarrow> ring_inv s"
proof (induction rule: ring_reachable.induct)
  case (ring_more s t)
  then have "bumps s < 2 ^ 32" using ring_step_bumps by fastforce
  with ring_more show ?case by (blast intro: ring_step_inv)
qed (rule start_inv)

subsection \<open>Schedules\<close>

text \<open>A schedule names who moves next; running one gives a reachable state.\<close>

datatype move = Write bytes | StartPut | Close | RunWriter | Take nat | TakeAll | TakeBlocking nat | WhenWritten | RunReader

fun act :: "sys \<Rightarrow> move \<Rightarrow> sys option" where
  "act s (Write b) = Some (s\<lparr>pending := pending s @ [b], called := called s @ [b]\<rparr>)"
| "act s StartPut =
     (case (w_at s, pending s) of
        (WIdle, b # bs) \<Rightarrow> Some (s\<lparr>w_at := WCheck b, pending := bs\<rparr>)
      | _ \<Rightarrow> None)"
| "act s Close = (if can_close (w_at s) then Some (close_move s) else None)"
| "act s RunWriter = Some (writer_move s)"
| "act s (Take len) = (if r_at s = RIdle then Some (s\<lparr>r_at := RTake Once len\<rparr>) else None)"
| "act s TakeAll = (if r_at s = RIdle then Some (s\<lparr>r_at := RAll\<rparr>) else None)"
| "act s (TakeBlocking len) = (if r_at s = RIdle then Some (s\<lparr>r_at := RSignal len\<rparr>) else None)"
| "act s WhenWritten = (if r_at s = RIdle then Some (s\<lparr>r_at := VSignal\<rparr>) else None)"
| "act s RunReader = Some (reader_move s)"

fun run_moves :: "move list \<Rightarrow> sys \<Rightarrow> sys option" where
  "run_moves [] s = Some s"
| "run_moves (a # as) s = (case act s a of None \<Rightarrow> None | Some t \<Rightarrow> run_moves as t)"

lemma act_step: "act s a = Some t \<Longrightarrow> ring_step s t"
  by (cases a) (auto intro: ring_step.intros split: if_splits wpc.splits list.splits)

lemma run_reachable: "run_moves as s = Some t \<Longrightarrow> ring_reachable s \<Longrightarrow> ring_reachable t"
proof (induction as arbitrary: s)
  case (Cons a as)
  then obtain u where u: "act s a = Some u" "run_moves as u = Some t" by (auto split: option.splits)
  with Cons.prems(2) have "ring_reachable u" by (blast intro: ring_more act_step)
  with Cons.IH u(2) show ?case by blast
qed simp

text \<open>A ring of two bytes: a writer of three bytes runs ahead, the reader takes and wakes it.\<close>

definition ring2 :: sys where
  "ring2 = start \<lparr>write_index = 0, read_index = 0, closed_word = 0, capacity = 2, signal = 0,
     data_area = [0, 0]\<rparr> True"

lemma ring2_reachable: "ring_reachable ring2"
proof -
  obtain m where m: "create_stdin_ring 2 = Some m" using create_stdin_ring_power [of 1] by auto
  then obtain k where k: "2 = (2 :: rat) ^ k" "m = \<lparr>write_index = 0, read_index = 0, closed_word = 0,
      capacity = 2 ^ k, signal = 0, data_area = replicate (2 ^ k) 0\<rparr>" by (rule create_power)
  have "k = 1" using k(1) power_inject_exp [of "2 :: rat" 1 k] by simp
  with k(2) have "start m True = ring2" by (simp add: ring2_def eval_nat_numeral)
  with ring_start [OF m, of True] show ?thesis by simp
qed

definition after :: "move list \<Rightarrow> sys" where
  "after as = the (run_moves as ring2)"

lemma few_bumps: "bumps s < 9 \<Longrightarrow> bumps s < 2 ^ 32"
  by simp

lemma after_reachable: "run_moves as ring2 \<noteq> None \<Longrightarrow> ring_reachable (after as)"
  using run_reachable ring2_reachable by (auto simp: after_def)

definition write3 :: "move list" where
  "write3 = [Write [7, 8, 9], StartPut] @ replicate 12 RunWriter"

subsection \<open>What the ring promises\<close>

text \<open>The bytes in the ring, as the header and the data area say.\<close>

definition ring_bytes :: "ring \<Rightarrow> bytes" where
  "ring_bytes m = map (\<lambda>i. data_area m ! ((unat (read_index m) + i) mod capacity m))
     [0..<available (write_index m) (read_index m)]"

text \<open>C2: At every interleaving of the two threads the shared memory is a queue of bytes: what was published is
  what was taken followed by what the ring holds, never more than its capacity, whatever the wrapping
  32-bit indices are.\<close>

theorem ring_is_queue:
  assumes "ring_reachable s" and "bumps s < 2 ^ 32"
  shows "sent s = taken s @ ring_bytes (mem s) \<and> length (ring_bytes (mem s)) \<le> capacity (mem s)"
proof -
  have m: "memory_inv s" using ring_reachable_inv [OF assms] by (simp add: ring_inv_def)
  note f = memory_facts [OF m]
  have av: "available (write_index (mem s)) (read_index (mem s)) = length (sent s) - length (taken s)"
    using seen_available [OF m seen_now [OF m]] .
  have "ring_bytes (mem s) = drop (length (taken s)) (sent s)"
  proof (rule nth_equalityI)
    show "length (ring_bytes (mem s)) = length (drop (length (taken s)) (sent s))"
      by (simp add: ring_bytes_def av)
    fix i assume "i < length (ring_bytes (mem s))"
    then have i: "i < length (sent s) - length (taken s)" by (simp add: ring_bytes_def av)
    have rd: "unat (read_index (mem s)) = length (taken s) mod 2 ^ 32"
      unfolding f(4) by (rule unat_of_nat_32)
    have "ring_bytes (mem s) ! i = data_area (mem s) ! ((length (taken s) + i) mod capacity (mem s))"
      using i unfolding ring_bytes_def av rd wrap_mod [OF f(1)] by simp
    also have "\<dots> = sent s ! (length (taken s) + i)" using f(9) [of "length (taken s) + i"] i by simp
    finally show "ring_bytes (mem s) ! i = drop (length (taken s)) (sent s) ! i" using i by simp
  qed
  with f(6-8) show ?thesis by (auto simp: prefix_def)
qed

lemma ring_is_queue_witness:
  "sent (after write3) = [7, 8] \<and> taken (after write3) @ ring_bytes (mem (after write3)) = [7, 8]"
proof -
  have "run_moves write3 ring2 \<noteq> None" by code_simp
  then have "ring_reachable (after write3)" by (rule after_reachable)
  moreover have "bumps (after write3) < 2 ^ 32" by (rule few_bumps) code_simp
  ultimately have "sent (after write3) = taken (after write3) @ ring_bytes (mem (after write3))"
    using ring_is_queue by blast
  moreover have "sent (after write3) = [7, 8]" by code_simp
  ultimately show ?thesis by simp
qed

text \<open>C11: The reader gets the bytes of the writes in the order they were called, none lost, doubled or torn:
  what it has taken, what the ring holds, what the current write has left and the writes waiting their turn
  make up all that was written, as long as nobody has closed the ring.\<close>

theorem ring_fifo:
  assumes "ring_reachable s" and "bumps s < 2 ^ 32" and "can_wait s" and "closed_word (mem s) \<noteq> 1"
  shows "concat (called s) = sent s @ unsent (w_at s) @ concat (pending s) \<and> prefix (taken s) (sent s)"
proof -
  have "ring_inv s" using assms(1,2) by (rule ring_reachable_inv)
  with assms(3,4) show ?thesis by (simp add: ring_inv_def history_inv_def memory_inv_def)
qed

lemma ring_fifo_witness:
  "[7, 8, 9] = sent (after write3) @ unsent (w_at (after write3)) @ concat (pending (after write3))"
proof -
  have "run_moves write3 ring2 \<noteq> None" by code_simp
  then have "ring_reachable (after write3)" by (rule after_reachable)
  moreover have "bumps (after write3) < 2 ^ 32" by (rule few_bumps) code_simp
  moreover have "can_wait (after write3)" "closed_word (mem (after write3)) \<noteq> 1"
    by code_simp+
  ultimately have "concat (called (after write3)) =
      sent (after write3) @ unsent (w_at (after write3)) @ concat (pending (after write3))"
    using ring_fifo by blast
  moreover have "concat (called (after write3)) = [7, 8, 9]" by code_simp
  ultimately show ?thesis by simp
qed

text \<open>C6: No wakeup is lost: a reader asleep in \<open>whenWritten\<close> or in a blocking read is about to be woken, the
  writer being between the store and the notify, unless there is nothing to see, the ring being empty and
  open; or, the one case apart, it is a blocking read of no bytes, which no byte satisfies and only the end
  of the file ends, and the end is not reached.  (\<open>empty_read_sleeps\<close> below shows this case to occur.)\<close>

theorem ring_no_lost_wakeup:
  assumes "ring_reachable s" and "bumps s < 2 ^ 32" and "r_at s = VSleep \<or> r_at s = RSleep len"
  shows "bumping (w_at s) \<or> notifying (w_at s) \<or> (taken s = sent s \<and> closed_word (mem s) \<noteq> 1) \<or>
    (r_at s = RSleep 0 \<and> (taken s \<noteq> sent s \<or> closed_word (mem s) \<noteq> 1))"
proof -
  have i: "ring_inv s" using assms(1,2) by (rule ring_reachable_inv)
  then have "prefix (taken s) (sent s)" by (simp add: ring_inv_def memory_inv_def)
  then have e: "empty_ring s \<Longrightarrow> taken s = sent s" by (auto simp: prefix_def)
  have r: "reader_inv s (r_at s)" using i by (simp add: ring_inv_def)
  from assms(3) show ?thesis
  proof
    assume "r_at s = VSleep"
    with r e show ?thesis by auto
  next
    assume a: "r_at s = RSleep len"
    with r e have "(taken s = sent s \<and> is_open s \<or> len = 0 \<and> (is_open s \<or> taken s \<noteq> sent s)) \<or>
        bumping (w_at s) \<or> notifying (w_at s)"
      by (auto simp: nothing_for_def)
    with a show ?thesis by auto
  qed
qed

lemma ring_no_lost_wakeup_witness:
  "let s = after ([TakeBlocking 1] @ replicate 6 RunReader @ [Close]) in
     r_at s = RSleep 1 \<and> bumping (w_at s)"
proof -
  let ?as = "[TakeBlocking 1] @ replicate 6 RunReader @ [Close]"
  have "run_moves ?as ring2 \<noteq> None" by code_simp
  then have "ring_reachable (after ?as)" by (rule after_reachable)
  moreover have "bumps (after ?as) < 2 ^ 32" by (rule few_bumps) code_simp
  moreover have asleep: "r_at (after ?as) = RSleep 1" by code_simp
  then have "r_at (after ?as) = VSleep \<or> r_at (after ?as) = RSleep 1" ..
  moreover have "closed_word (mem (after ?as)) = 1" by code_simp
  ultimately have "bumping (w_at (after ?as)) \<or> notifying (w_at (after ?as))"
    using ring_no_lost_wakeup [of "after ?as" 1] asleep by auto
  moreover have "\<not> notifying (w_at (after ?as))" by code_simp
  ultimately show ?thesis using asleep by (simp add: Let_def)
qed

text \<open>C16: The two threads sleep on each other in one case alone: a writer waiting for room in a full ring and a
  reader asleep occur together only when the reader is in a blocking read of no bytes.  (That case occurs and
  is a deadlock of the two: \<open>empty_read_sleeps\<close> below.)\<close>

theorem ring_no_deadlock:
  assumes "ring_reachable s" and "bumps s < 2 ^ 32" and "w_at s = WSleep b off"
    and "r_at s = VSleep \<or> r_at s = RSleep len"
  shows "r_at s = RSleep 0 \<and> length (sent s) = length (taken s) + capacity (mem s)"
proof -
  have "ring_inv s" using assms(1,2) by (rule ring_reachable_inv)
  with assms(3,4) show ?thesis
    by (auto simp: ring_inv_def memory_inv_def ring_capacity_def nothing_for_def)
qed

lemma ring_no_deadlock_witness:
  "let s = after (write3 @ [TakeBlocking 0] @ replicate 5 RunReader) in
     r_at s = RSleep 0 \<and> length (sent s) = length (taken s) + capacity (mem s)"
proof -
  let ?s = "after (write3 @ [TakeBlocking 0] @ replicate 5 RunReader)"
  have "run_moves (write3 @ [TakeBlocking 0] @ replicate 5 RunReader) ring2 \<noteq> None" by code_simp
  then have "ring_reachable ?s" by (rule after_reachable)
  moreover have "bumps ?s < 2 ^ 32" by (rule few_bumps) code_simp
  moreover have "w_at ?s = WSleep [7, 8, 9] 2" by code_simp
  moreover have "r_at ?s = RSleep 0" by code_simp
  then have "r_at ?s = VSleep \<or> r_at ?s = RSleep 0" ..
  ultimately have "r_at ?s = RSleep 0 \<and> length (sent ?s) = length (taken ?s) + capacity (mem ?s)"
    by (rule ring_no_deadlock)
  then show ?thesis by (simp add: Let_def)
qed

text \<open>C15: End of file comes after the close, and, unless the close was called with a write under way or
  waiting its turn, after the last byte: a reader that was answered end of file (0 by \<open>take\<close> or
  \<open>takeBlocking\<close>, no bytes by \<open>takeAll\<close>) has taken all that was published, and where the realm has
  \<open>waitAsync\<close>, so that no write is refused for want of room, all that was written before the close.
  (\<open>close\<close> over a write under way does not wait for it: \<open>close_overtakes_write\<close> below.)\<close>

theorem ring_eof_complete:
  assumes "ring_reachable s" and "bumps s < 2 ^ 32" and "said_eof s"
  shows "closed_word (mem s) = 1 \<and>
    (\<not> cut_short s \<longrightarrow> taken s = sent s \<and> (can_wait s \<longrightarrow> taken s = before_close s))"
proof -
  have i: "ring_inv s" using assms(1,2) by (rule ring_reachable_inv)
  then have "prefix (taken s) (sent s)" by (simp add: ring_inv_def memory_inv_def)
  then have "empty_ring s \<Longrightarrow> taken s = sent s" by (auto simp: prefix_def)
  with i assms(3) show ?thesis by (simp add: ring_inv_def history_inv_def)
qed

definition read_to_eof :: "move list" where
  "read_to_eof = [Write [7], StartPut] @ replicate 9 RunWriter @ [Close] @ replicate 2 RunWriter @
     [Take 4] @ replicate 7 RunReader @ [TakeAll] @ replicate 8 RunReader"

lemma ring_eof_complete_witness: "taken (after read_to_eof) = [7]"
proof -
  have "run_moves read_to_eof ring2 \<noteq> None" by code_simp
  then have "ring_reachable (after read_to_eof)" by (rule after_reachable)
  moreover have "bumps (after read_to_eof) < 2 ^ 32" by (rule few_bumps) code_simp
  moreover have "can_wait (after read_to_eof)" "said_eof (after read_to_eof)" "\<not> cut_short (after read_to_eof)" by code_simp+
  ultimately have "taken (after read_to_eof) = before_close (after read_to_eof)"
    using ring_eof_complete [of "after read_to_eof"] by blast
  moreover have "before_close (after read_to_eof) = [7]" by code_simp
  ultimately show ?thesis by simp
qed

text \<open>
  \<open>close\<close> does not wait for the writes before it: called while one waits for room, it lets
  a reader that drains the ring see the end of the file with bytes still to come.
\<close>

lemma close_overtakes_write:
  "let s = after (write3 @ [Close] @ replicate 2 RunWriter @ [Take 4] @ replicate 8 RunReader
       @ [Take 4] @ replicate 6 RunReader)
   in said_eof s \<and> taken s = [7, 8] \<and> before_close s = [7, 8, 9]"
  by code_simp

text \<open>
  A blocking read of no bytes sleeps though the ring has some, here while the writer sleeps
  for room: neither thread has a step that changes anything.
\<close>

lemma empty_read_sleeps:
  "let s = after (write3 @ [TakeBlocking 0] @ replicate 5 RunReader) in
     r_at s = RSleep 0 \<and> w_at s = WSleep [7, 8, 9] 2 \<and> writer_move s = s \<and> reader_move s = s"
  by code_simp

end
