(* ===== verification/BufferProps.thy ===== *)
theory BufferProps
  imports BufferLaws
begin

text \<open>
  The contract of the buffer binding's encodings as a locale, \<open>text_form\<close>: a way to
  show bytes as text and to read the text back, exact on the bytes it is faithful to.
  Its interpretations say which bytes each of Node's encodings keeps here: base64,
  base64url and hex keep all of them, ascii the seven bit ones, latin1 all but 0x80 to
  0x9F (the platform's decoder for it is windows-1252).  Then the properties.
\<close>

unbundle bit_operations_syntax

locale text_form =
  fixes show_bytes :: "bytes \<Rightarrow> units"
    and read_text :: "units \<Rightarrow> bytes"
    and faithful :: "bytes \<Rightarrow> bool"
  assumes read_show: "faithful b \<Longrightarrow> read_text (show_bytes b) = b"
begin

lemma show_inj: "faithful a \<Longrightarrow> faithful b \<Longrightarrow> show_bytes a = show_bytes b \<longleftrightarrow> a = b"
  using read_show by metis

lemma show_again: "faithful b \<Longrightarrow> show_bytes (read_text (show_bytes b)) = show_bytes b"
  by (simp add: read_show)

end

lemma read_base64: "bytes_of_string s ''base64'' = base64_bytes s"
    "bytes_of_string s ''base64url'' = base64_bytes s"
  by (simp_all add: bytes_of_string_def)

interpretation base64: text_form "\<lambda>b. base64_slice b None None" "\<lambda>s. bytes_of_string s ''base64''" "\<lambda>_. True"
  by unfold_locales (simp add: read_base64 base64_slice_def base64_bytes_text)

interpretation base64url: text_form "\<lambda>b. base64url_slice b None None" "\<lambda>s. bytes_of_string s ''base64url''" "\<lambda>_. True"
  by unfold_locales (simp add: read_base64 base64url_slice_def base64_bytes_text)

interpretation hex: text_form "\<lambda>b. hex_slice b None None" "\<lambda>s. bytes_of_string s ''hex''" "\<lambda>_. True"
  by unfold_locales (simp add: bytes_of_hex)

subsection \<open>The one byte encodings\<close>

lemma bytes_of_ascii: "bytes_of_string s ''ascii'' = map (\<lambda>u. ucast (u AND 0x7F)) s"
  by (simp add: bytes_of_string_def ascii_write_def write_room_def)

lemma bytes_of_latin1: "bytes_of_string s ''latin1'' = map (\<lambda>u. ucast (u AND 0xFF)) s"
  by (simp add: bytes_of_string_def latin1_write_def write_room_def)

lemma seven_bits: "unat b < 0x80 \<Longrightarrow> ucast (ucast (b AND 0x7F) AND 0x7F :: 16 word) = (b :: byte)"
proof -
  assume "unat b < 0x80"
  then have "take_bit 7 (unat b) = unat b" by (simp add: take_bit_nat_eq_self_iff)
  then have b: "take_bit 7 b = b" by (metis unsigned_take_bit_eq word_unat_eq_iff)
  then have "\<not> bit b 7" by (metis bit_take_bit_iff less_irrefl)
  then show ?thesis by (intro byte_eqI) (simp_all add: bit_simps)
qed

lemma eight_bits: "ucast (ucast b AND 0xFF :: 16 word) = (b :: byte)"
  by (rule byte_eqI) (simp_all add: bit_simps)

interpretation ascii: text_form "\<lambda>b. ascii_slice b None None" "\<lambda>s. bytes_of_string s ''ascii''"
  "\<lambda>b. \<forall>x\<in>set b. unat x < 0x80"
  by unfold_locales (simp add: ascii_slice_def bytes_of_ascii map_idI seven_bits)

lemma windows_1252_same:
  "\<forall>x\<in>set b. unat x < 0x80 \<or> 0xA0 \<le> unat x \<Longrightarrow> windows_1252_decode b = map ucast b"
  by (auto simp: windows_1252_decode_def)

interpretation latin1: text_form "\<lambda>b. latin1_slice b None None" "\<lambda>s. bytes_of_string s ''latin1''"
  "\<lambda>b. \<forall>x\<in>set b. unat x < 0x80 \<or> 0xA0 \<le> unat x"
  by unfold_locales (simp add: latin1_slice_def windows_1252_same bytes_of_latin1 eight_bits comp_def)

subsection \<open>utf-8 and utf-16\<close>

lemma bytes_of_utf8: "bytes_of_string s ''utf8'' = utf8_encode s"
  by (simp add: bytes_of_string_def)

lemma no_bom: "(s = [] \<or> hd s \<noteq> 0xFEFF) \<Longrightarrow> drop_bom s = s"
  by (cases s) (auto simp: drop_bom_def)

lemma length_unit_le [simp]: "length (unit_le u) = 2"
  by (simp add: unit_le_def)

lemma length_units_le [simp]: "length (concat (map unit_le s)) = 2 * length s"
  by (induction s) auto

lemma bytes_of_ucs2: "bytes_of_string s ''utf16le'' = concat (map unit_le s)"
  by (simp add: bytes_of_string_def ucs2_write_def write_room_def)

lemma join_unit: "of_nat (unat (ucast (u AND 0xFF) :: byte) + 256 * unat (ucast (drop_bit 8 u) :: byte)) = (u :: 16 word)"
proof -
  have a: "unat (ucast (u AND 0xFF) :: byte) = unat u mod 256"
  proof -
    have "u AND 0xFF = take_bit 8 u" by (simp add: take_bit_eq_mask mask_eq_exp_minus_1)
    then have "(ucast (u AND 0xFF) :: byte) = ucast u" by (intro bit_word_eqI) (auto simp: bit_simps)
    then show ?thesis by (simp add: unsigned_ucast_eq take_bit_eq_mod)
  qed
  have "unat (drop_bit 8 u) = unat u div 256" unfolding unat_drop_bit_eq by (simp add: drop_bit_eq_div)
  moreover have "unat u div 256 < 256" using unat16 [of u] by simp
  ultimately have b: "unat (ucast (drop_bit 8 u) :: byte) = unat u div 256"
    by (simp add: unsigned_ucast_eq take_bit_eq_mod)
  show ?thesis unfolding a b by simp
qed

lemma le_units_of: "le_units (concat (map unit_le s)) = s"
  by (induction s) (simp_all add: unit_le_def join_unit del: of_nat_add of_nat_mult)

lemma utf16_units_back: "well_formed_units s \<Longrightarrow> utf16le_decode (concat (map unit_le s)) = s"
  by (simp add: utf16le_decode_def le_units_of scalars_units)

lemma ucs2_slice_even: "even (length b) \<Longrightarrow> ucs2_slice b None None = drop_bom (utf16le_decode b)"
  by (simp add: ucs2_slice_def clamp_def subrange_def even_iff_mod_2_eq_zero)

subsection \<open>Properties\<close>

text \<open>Reading a buffer out as base64, base64url or hex text and decoding that text
  gives the buffer back, whatever its bytes.\<close>
theorem text_forms_roundtrip:
  "bytes_of_string (base64_slice buf None None) ''base64'' = buf \<and>
   bytes_of_string (base64url_slice buf None None) ''base64url'' = buf \<and>
   bytes_of_string (hex_slice buf None None) ''hex'' = buf"
  by (simp add: base64.read_show base64url.read_show hex.read_show)

text \<open>C20: A string whose surrogates are paired and that does not begin with U+FEFF comes
  back whole from a buffer it was written into as utf8 or utf16le.\<close>
theorem string_roundtrip:
  assumes "well_formed_units s" "s = [] \<or> hd s \<noteq> 0xFEFF"
  shows "utf8_slice (bytes_of_string s ''utf8'') None None = s \<and>
    ucs2_slice (bytes_of_string s ''utf16le'') None None = s"
  using assms
  by (simp add: utf8_slice_def bytes_of_utf8 decode_simps bytes_of_ucs2 ucs2_slice_even utf16_units_back no_bom)

lemma string_roundtrip_witness:
  "utf8_slice (bytes_of_string [0x41, 0x20AC, 0xD83D, 0xDE00] ''utf8'') None None =
     [0x41, 0x20AC, 0xD83D, 0xDE00] \<and>
   ucs2_slice (bytes_of_string [0x41, 0x20AC, 0xD83D, 0xDE00] ''utf16le'') None None =
     [0x41, 0x20AC, 0xD83D, 0xDE00]"
  by (rule string_roundtrip) (simp_all add: lead_surrogate_def trail_surrogate_def)

text \<open>C22: \<open>byteLengthUtf8\<close>, which counts without encoding, is the length of the string's
  utf-8 bytes; a write of that room into any buffer stores all of them.\<close>
theorem byte_length_exact:
  "byte_length_utf8 s = length (bytes_of_string s ''utf8'') \<and>
   utf8_write shared (replicate (byte_length_utf8 s) 0) s 0 (int (byte_length_utf8 s)) =
     (bytes_of_string s ''utf8'', int (byte_length_utf8 s))"
  using length_utf8_encode [of s]
  by (auto simp: bytes_of_utf8 byte_length_encode utf8_write_def write_room_def Let_def encode_into_all min_def)

text \<open>Writing text into a view of shared memory, through a private copy no larger than
  three bytes a unit, stores the same bytes and answers the same count as writing into
  unshared memory.\<close>
theorem shared_write_same: "utf8_write True buf s offset len = utf8_write False buf s offset len"
  by (simp add: utf8_write_def encode_into_scratch Let_def)



text \<open>C23: \<open>compare\<close> is the lexicographic order of the bytes, a proper prefix first.\<close>
theorem compare_is_lexicographic:
  "compare_buffers a b = (if a = b then 0 else if a < b then -1 else 1)"
  by (rule compare_order)

subsection \<open>What the platform's decoders lose\<close>

text \<open>\<open>TextDecoder\<close> drops a leading U+FEFF and its latin1 is windows-1252; its utf-16le
  replaces an unpaired surrogate.  Node's \<open>Buffer\<close> keeps all three.\<close>

lemma utf8_slice_loses_bom: "utf8_slice [0xEF, 0xBB, 0xBF, 0x41] None None = [0x41]"
  by (simp add: utf8_slice_def utf8_decode_def utf8_start.simps units_of_def drop_bom_def)

lemma latin1_slice_not_latin1:
  "latin1_slice [0x80] None None = [0x20AC]"
  "bytes_of_string (latin1_slice [0x80] None None) ''latin1'' = [0xAC]"
  by (simp_all add: bytes_of_latin1 latin1_slice_def windows_1252_decode_def windows_1252_high_def)

lemma ucs2_slice_replaces: "ucs2_slice [0x3D, 0xD8] None None = [0xFFFD]"
  by (simp add: ucs2_slice_even utf16le_decode_def lead_surrogate_def units_of_def drop_bom_def)

end
