(* ===== verification/StringDecoder.thy ===== *)
theory StringDecoder
  imports BufferProps
begin

text \<open>
  \<open>src/src/shims/string_decoder.ts\<close>: Node's incremental decoder.  A decoder holds back
  the bytes of an incomplete character in \<open>last_char\<close>: \<open>last_total\<close> is the length of
  that character, \<open>last_need\<close> how many of its bytes are still to come (zero: nothing is
  held).  A method of it takes the decoder and returns the decoder changed.

  The values a caller hands in are \<open>chunk\<close>s; a class value of another kind is
  \<open>OtherValue\<close> with whether it has a length that is not zero.  \<open>to_string\<close> is
  \<open>Buffer.prototype.toString\<close>, which answers from the binding's slices.  The names the
  source's alias object inherits (constructor, \_\_proto\_\_) are outside the model.
\<close>

unbundle bit_operations_syntax

datatype decoder_error =
  ERR_UNKNOWN_ENCODING | ERR_INVALID_ARG_TYPE | ERR_STRING_TOO_LONG

datatype encoding_arg = NoEncoding | EncodingName string | NotAString

datatype chunk =
  BufferChunk bytes | ArrayChunk bytes | DataViewChunk bytes | TextChunk units | OtherValue bool

record decoder =
  encoding :: encoding_name
  last_char :: bytes
  last_need :: nat
  last_total :: nat

definition to_string :: "encoding_name \<Rightarrow> bytes \<Rightarrow> nat \<Rightarrow> nat \<Rightarrow> units" where
  "to_string enc buf start stop =
     (let b = subrange buf start stop
      in if enc = ''utf16le'' then ucs2_slice b None None
         else if enc = ''latin1'' then latin1_slice b None None
         else if enc = ''ascii'' then ascii_slice b None None
         else if enc = ''base64'' then base64_slice b None None
         else if enc = ''base64url'' then base64url_slice b None None
         else if enc = ''hex'' then hex_slice b None None
         else utf8_slice b None None)"

definition to_lower_char :: "char \<Rightarrow> char" where
  "to_lower_char c =
     (let n = of_char c :: nat in if 65 \<le> n \<and> n \<le> 90 then char_of (n + 32) else c)"

definition encoding_aliases :: "(string \<times> encoding_name) list" where
  "encoding_aliases =
     [(''utf8'', ''utf8''), (''utf-8'', ''utf8''),
      (''ucs2'', ''utf16le''), (''ucs-2'', ''utf16le''), (''utf16le'', ''utf16le''), (''utf-16le'', ''utf16le''),
      (''latin1'', ''latin1''), (''binary'', ''latin1''),
      (''base64'', ''base64''), (''base64url'', ''base64url''),
      (''ascii'', ''ascii''), (''hex'', ''hex'')]"

definition normalize_encoding :: "encoding_arg \<Rightarrow> decoder_error + encoding_name" where
  "normalize_encoding arg =
     (case arg of
        NoEncoding \<Rightarrow> Inr ''utf8''
      | NotAString \<Rightarrow> Inl ERR_UNKNOWN_ENCODING
      | EncodingName s \<Rightarrow>
          if s = [] then Inr ''utf8''
          else case map_of encoding_aliases (map to_lower_char s) of
                 None \<Rightarrow> Inl ERR_UNKNOWN_ENCODING
               | Some enc \<Rightarrow> Inr enc)"

definition k_string_max_length :: nat where "k_string_max_length = 0x1fffffe8"

text \<open>Twice the characters a byte decodes to, a half being one of them.\<close>

definition half_chars_per_byte :: "encoding_name \<Rightarrow> nat" where
  "half_chars_per_byte enc =
     (if enc = ''utf16le'' then 1 else if enc \<in> {''hex'', ''base64'', ''base64url''} then 4 else 2)"

definition decoder_input :: "decoder \<Rightarrow> chunk \<Rightarrow> decoder_error + bytes" where
  "decoder_input d c =
     (let checked = (\<lambda>bs. if 2 * k_string_max_length < length bs * half_chars_per_byte (encoding d)
                          then Inl ERR_STRING_TOO_LONG else Inr bs)
      in case c of
           BufferChunk bs \<Rightarrow> checked bs
         | ArrayChunk bs \<Rightarrow> checked bs
         | DataViewChunk bs \<Rightarrow> checked bs
         | TextChunk s \<Rightarrow> Inl ERR_INVALID_ARG_TYPE
         | OtherValue l \<Rightarrow> Inl ERR_INVALID_ARG_TYPE)"

text \<open>\<open>buffer.length\<close> as a condition: a DataView has no length.\<close>

fun has_length :: "chunk \<Rightarrow> bool" where
  "has_length (BufferChunk bs) = (bs \<noteq> [])"
| "has_length (ArrayChunk bs) = (bs \<noteq> [])"
| "has_length (DataViewChunk bs) = False"
| "has_length (TextChunk s) = (s \<noteq> [])"
| "has_length (OtherValue l) = l"

subsection \<open>UTF-8\<close>

definition utf8_check_byte :: "byte \<Rightarrow> int" where
  "utf8_check_byte b =
     (if b \<le> 0x7F then 0
      else if drop_bit 5 b = 0x06 then 2
      else if drop_bit 4 b = 0x0E then 3
      else if drop_bit 3 b = 0x1E then 4
      else if drop_bit 6 b = 0x02 then -1 else -2)"

definition needing :: "decoder \<Rightarrow> int \<Rightarrow> decoder" where
  "needing d n = d\<lparr>last_need := nat n\<rparr>"

definition utf8_check_incomplete :: "decoder \<Rightarrow> bytes \<Rightarrow> nat \<Rightarrow> int \<times> decoder" where
  "utf8_check_incomplete d buf i =
     (let j = int (length buf) - 1
      in if j < int i then (0, d)
         else let nb = utf8_check_byte (buf ! nat j)
              in if 0 \<le> nb then (nb, if 0 < nb then needing d (nb - 1) else d)
                 else if j - 1 < int i \<or> nb = -2 then (0, d)
                 else let nb = utf8_check_byte (buf ! nat (j - 1))
                      in if 0 \<le> nb then (nb, if 0 < nb then needing d (nb - 2) else d)
                         else if j - 2 < int i \<or> nb = -2 then (0, d)
                         else let nb = utf8_check_byte (buf ! nat (j - 2))
                              in if 0 \<le> nb
                                 then (if nb = 2 then (0, d)
                                       else (nb, if 0 < nb then needing d (nb - 3) else d))
                                 else (0, d))"

definition utf8_broken_sequence :: "decoder \<Rightarrow> bytes \<Rightarrow> nat \<Rightarrow> nat \<Rightarrow> units" where
  "utf8_broken_sequence d buf p taken =
     (let bs = replicate (p + taken) 0;
          bs = store_from 0 (subrange (last_char d) 0 p) bs;
          bs = (if 0 < taken then store_from p (subrange buf 0 taken) bs else bs)
      in to_string ''utf8'' bs 0 (length bs))"

definition not_continuing :: "byte \<Rightarrow> bool" where
  "not_continuing b \<longleftrightarrow> b AND 0xC0 \<noteq> 0x80"

definition utf8_check_extra_bytes :: "decoder \<Rightarrow> bytes \<Rightarrow> nat \<Rightarrow> units option \<times> decoder" where
  "utf8_check_extra_bytes d buf p =
     (if not_continuing (buf ! 0)
      then (let d = d\<lparr>last_need := 0\<rparr> in (Some (utf8_broken_sequence d buf p 0), d))
      else if 1 < last_need d \<and> 1 < length buf
      then (if not_continuing (buf ! 1)
            then (let d = d\<lparr>last_need := 1\<rparr> in (Some (utf8_broken_sequence d buf p 1), d))
            else if 2 < last_need d \<and> 2 < length buf \<and> not_continuing (buf ! 2)
            then (let d = d\<lparr>last_need := 2\<rparr> in (Some (utf8_broken_sequence d buf p 2), d))
            else (None, d))
      else (None, d))"

definition fill_last :: "decoder \<Rightarrow> bytes \<Rightarrow> units option \<times> decoder" where
  "fill_last d buf =
     (let p = last_total d - last_need d
      in if last_need d \<le> length buf
         then (let d = d\<lparr>last_char := store_from p (subrange buf 0 (last_need d)) (last_char d)\<rparr>
               in (Some (to_string (encoding d) (last_char d) 0 (last_total d)), d))
         else (None, d\<lparr>last_char := store_from p buf (last_char d), last_need := last_need d - length buf\<rparr>))"

definition utf8_fill_last :: "decoder \<Rightarrow> bytes \<Rightarrow> units option \<times> decoder" where
  "utf8_fill_last d buf =
     (let p = last_total d - last_need d
      in case utf8_check_extra_bytes d buf p of
           (Some r, d) \<Rightarrow> (Some r, d)
         | (None, d) \<Rightarrow> 
             if last_need d \<le> length buf
             then (let d = d\<lparr>last_char := store_from p (subrange buf 0 (last_need d)) (last_char d)\<rparr>
                   in (Some (to_string (encoding d) (last_char d) 0 (last_total d)), d))
             else (None, d\<lparr>last_char := store_from p buf (last_char d),
                           last_need := last_need d - length buf\<rparr>))"

definition utf8_text :: "decoder \<Rightarrow> bytes \<Rightarrow> nat \<Rightarrow> units \<times> decoder" where
  "utf8_text d buf i =
     (case utf8_check_incomplete d buf i of (width, d) \<Rightarrow>
        if last_need d = 0 then (to_string ''utf8'' buf i (length buf), d)
        else let d = d\<lparr>last_total := nat width\<rparr>;
                 stop = length buf - (nat width - last_need d)
             in (to_string ''utf8'' buf i stop,
                 d\<lparr>last_char := store_from 0 (subrange buf stop (length buf)) (last_char d)\<rparr>))"

subsection \<open>UTF-16LE and base64\<close>

definition utf16_text :: "decoder \<Rightarrow> bytes \<Rightarrow> nat \<Rightarrow> units \<times> decoder" where
  "utf16_text d buf i =
     (let n = length buf
      in if even (n - i)
         then (let r = to_string ''utf16le'' buf i n
               in if r \<noteq> [] \<and> lead_surrogate (last r)
                  then (butlast r,
                        d\<lparr>last_need := 2, last_total := 4,
                          last_char := (last_char d)[0 := buf ! (n - 2), 1 := buf ! (n - 1)]\<rparr>)
                  else (r, d))
         else (to_string ''utf16le'' buf i (n - 1),
               d\<lparr>last_need := 1, last_total := 2, last_char := (last_char d)[0 := buf ! (n - 1)]\<rparr>))"

definition base64_chunk_text :: "decoder \<Rightarrow> bytes \<Rightarrow> nat \<Rightarrow> units \<times> decoder" where
  "base64_chunk_text d buf i =
     (let n = (length buf - i) mod 3; len = length buf
      in if n = 0 then (to_string (encoding d) buf i len, d)
         else let d = d\<lparr>last_need := 3 - n, last_total := 3,
                        last_char := (if n = 1 then (last_char d)[0 := buf ! (len - 1)]
                                      else (last_char d)[0 := buf ! (len - 2), 1 := buf ! (len - 1)])\<rparr>
              in (to_string (encoding d) buf i (len - n), d))"

subsection \<open>The decoder's methods\<close>

text \<open>Which methods the constructor leaves on the decoder, by its encoding.\<close>

definition is_base64 :: "encoding_name \<Rightarrow> bool" where
  "is_base64 enc \<longleftrightarrow> enc = ''base64'' \<or> enc = ''base64url''"

definition is_simple :: "encoding_name \<Rightarrow> bool" where
  "is_simple enc \<longleftrightarrow> enc \<noteq> ''utf16le'' \<and> enc \<noteq> ''utf8'' \<and> \<not> is_base64 enc"

definition decoder_text :: "decoder \<Rightarrow> bytes \<Rightarrow> nat \<Rightarrow> units \<times> decoder" where
  "decoder_text d buf i =
     (if encoding d = ''utf16le'' then utf16_text d buf i
      else if is_base64 (encoding d) then base64_chunk_text d buf i
      else utf8_text d buf i)"

definition decoder_fill_last :: "decoder \<Rightarrow> bytes \<Rightarrow> units option \<times> decoder" where
  "decoder_fill_last d buf =
     (if encoding d = ''utf8'' then utf8_fill_last d buf else fill_last d buf)"

definition new_decoder :: "encoding_arg \<Rightarrow> decoder_error + decoder" where
  "new_decoder arg =
     (case normalize_encoding arg of
        Inl e \<Rightarrow> Inl e
      | Inr enc \<Rightarrow>
          Inr \<lparr>encoding = enc,
               last_char = (if is_simple enc then [] else replicate (if is_base64 enc then 3 else 4) 0),
               last_need = 0, last_total = 0\<rparr>)"

definition write_bytes :: "decoder \<Rightarrow> bytes \<Rightarrow> units \<times> decoder" where
  "write_bytes d buf =
     (if buf = [] then ([], d)
      else let (r, i, d) =
             (if last_need d \<noteq> 0
              then (case decoder_fill_last d buf of
                      (None, d) \<Rightarrow> (None, 0, d)
                    | (Some r, d) \<Rightarrow> (Some r, last_need d, d\<lparr>last_need := 0\<rparr>))
              else (Some [], 0, d))
           in case r of
                None \<Rightarrow> ([], d)
              | Some r \<Rightarrow>
                  if i < length buf then (let (t, d) = decoder_text d buf i in (r @ t, d))
                  else (r, d))"

definition decoder_write :: "decoder \<Rightarrow> chunk \<Rightarrow> (decoder_error + units) \<times> decoder" where
  "decoder_write d c =
     (case c of
        TextChunk s \<Rightarrow> (Inr s, d)
      | _ \<Rightarrow>
          (case decoder_input d c of
             Inl e \<Rightarrow> (Inl e, d)
           | Inr buf \<Rightarrow>
               if is_simple (encoding d) then (Inr (to_string (encoding d) buf 0 (length buf)), d)
               else (let (r, d) = write_bytes d buf in (Inr r, d))))"

text \<open>What is held, decoded, with the decoder cleared: the flush of every \<open>end\<close>.\<close>

definition decoder_flush :: "decoder \<Rightarrow> units \<times> decoder" where
  "decoder_flush d =
     (if is_simple (encoding d) \<or> last_need d = 0 then ([], d)
      else let held = (if is_base64 (encoding d) then 3 - last_need d else last_total d - last_need d);
               d = d\<lparr>last_need := 0, last_total := 0\<rparr>
           in (to_string (encoding d) (last_char d) 0 held, d))"

definition decoder_end :: "decoder \<Rightarrow> chunk option \<Rightarrow> (decoder_error + units) \<times> decoder" where
  "decoder_end d c =
     (case (case c of
              Some c \<Rightarrow> if has_length c then decoder_write d c else (Inr [], d)
            | None \<Rightarrow> (Inr [], d)) of
        (Inl e, d) \<Rightarrow> (Inl e, d)
      | (Inr r, d) \<Rightarrow> (let (t, d) = decoder_flush d in (Inr (r @ t), d)))"

text \<open>A stream's chunks written one after another, and the end.\<close>

fun write_all :: "decoder \<Rightarrow> chunk list \<Rightarrow> (decoder_error + units) \<times> decoder" where
  "write_all d [] = (Inr [], d)"
| "write_all d (c # cs) =
     (case decoder_write d c of
        (Inl e, d) \<Rightarrow> (Inl e, d)
      | (Inr r, d) \<Rightarrow>
          (case write_all d cs of (Inl e, d) \<Rightarrow> (Inl e, d) | (Inr t, d) \<Rightarrow> (Inr (r @ t), d)))"

definition decode_stream :: "decoder \<Rightarrow> chunk list \<Rightarrow> (decoder_error + units) \<times> decoder" where
  "decode_stream d cs =
     (case write_all d cs of
        (Inl e, d) \<Rightarrow> (Inl e, d)
      | (Inr r, d) \<Rightarrow>
          (case decoder_end d None of (Inl e, d) \<Rightarrow> (Inl e, d) | (Inr t, d) \<Rightarrow> (Inr (r @ t), d)))"

end
