(* ===== verification/StringDecoderLaws.thy ===== *)
theory StringDecoderLaws
  imports StringDecoder
begin

text \<open>
  Why a stream decoded chunk by chunk is the stream decoded whole.  The locale
  \<open>incremental\<close> is the contract of a decoder that holds bytes back: what is pending,
  followed by a chunk and anything after it, decodes to what the chunk's write answers
  followed by what is then pending and the rest.  It is interpreted on the write of
  each encoding that holds bytes back.
\<close>

unbundle bit_operations_syntax

fun feed_all :: "('s \<Rightarrow> bytes \<Rightarrow> units \<times> 's) \<Rightarrow> 's \<Rightarrow> bytes list \<Rightarrow> units \<times> 's" where
  "feed_all feed s [] = ([], s)"
| "feed_all feed s (b # bs) =
     (let (out, s') = feed s b; (rest, s'') = feed_all feed s' bs in (out @ rest, s''))"

locale incremental =
  fixes feed :: "'s \<Rightarrow> bytes \<Rightarrow> units \<times> 's"
    and finish :: "'s \<Rightarrow> units"
    and pending :: "'s \<Rightarrow> bytes"
    and decode :: "bytes \<Rightarrow> units"
    and sound :: "'s \<Rightarrow> bool"
    and clean :: "bytes \<Rightarrow> bool"
  assumes feed_step: "sound s \<Longrightarrow> clean (pending s @ buf @ rest) \<Longrightarrow> feed s buf = (out, s') \<Longrightarrow>
      sound s' \<and> clean (pending s' @ rest) \<and>
      decode (pending s @ buf @ rest) = out @ decode (pending s' @ rest)"
    and finish_pending: "sound s \<Longrightarrow> clean (pending s) \<Longrightarrow> finish s = decode (pending s)"
begin

lemma feed_all_decodes:
  "sound s \<Longrightarrow> clean (pending s @ concat bufs) \<Longrightarrow> feed_all feed s bufs = (out, s') \<Longrightarrow>
   sound s' \<and> out @ finish s' = decode (pending s @ concat bufs)"
proof (induction bufs arbitrary: s out)
  case Nil
  then show ?case by (simp add: finish_pending)
next
  case (Cons b bs)
  obtain a s1 where a: "feed s b = (a, s1)" by fastforce
  obtain r s2 where r: "feed_all feed s1 bs = (r, s2)" by fastforce
  from Cons.prems(3) a r have out: "out = a @ r" "s' = s2" by auto
  have "sound s1 \<and> clean (pending s1 @ concat bs) \<and>
      decode (pending s @ b @ concat bs) = a @ decode (pending s1 @ concat bs)"
    using feed_step [OF Cons.prems(1) _ a] Cons.prems(2) by simp
  with Cons.IH [of s1 r] r out show ?case by simp
qed

end

subsection \<open>The bytes that begin and continue a character\<close>

lemma drop_bit_byte: "(drop_bit n (b :: byte) = of_nat k) \<longleftrightarrow> unat b div 2 ^ n = k" if "k < 256"
  using that unfolding word_unat_eq_iff unat_drop_bit_eq by (simp add: drop_bit_eq_div)

lemma check_byte_range:
  "utf8_check_byte b =
     (if unat b < 0x80 then 0 else if unat b < 0xC0 then -1 else if unat b < 0xE0 then 2
      else if unat b < 0xF0 then 3 else if unat b < 0xF8 then 4 else -2)"
proof -
  have d: "unat b div 32 = 6 \<longleftrightarrow> 0xC0 \<le> unat b \<and> unat b < 0xE0"
    "unat b div 16 = 14 \<longleftrightarrow> 0xE0 \<le> unat b \<and> unat b < 0xF0"
    "unat b div 8 = 30 \<longleftrightarrow> 0xF0 \<le> unat b \<and> unat b < 0xF8"
    "unat b div 64 = 2 \<longleftrightarrow> 0x80 \<le> unat b \<and> unat b < 0xC0"
    by auto
  have le: "b \<le> 0x7F \<longleftrightarrow> unat b < 0x80" by (auto simp: word_le_nat_alt)
  show ?thesis
    using drop_bit_byte [of 6 5 b] drop_bit_byte [of 14 4 b] drop_bit_byte [of 30 3 b] drop_bit_byte [of 2 6 b]
    unfolding utf8_check_byte_def le by (simp add: d)
qed

lemma check_continuation: "utf8_check_byte b = -1 \<longleftrightarrow> continuation b"
  by (auto simp: check_byte_range continuation_def)

lemma not_continuing_iff: "not_continuing b \<longleftrightarrow> \<not> continuation b"
proof -
  have "(b AND 0xC0 = 0x80) = (drop_bit 6 b = 2)"
  proof
    assume "b AND 0xC0 = 0x80"
    then have "drop_bit 6 (b AND 0xC0) = drop_bit 6 0x80" by simp
    moreover have "drop_bit 6 (b AND 0xC0) = drop_bit 6 b"
      by (rule byte_eqI) (simp_all add: bit_simps)
    ultimately show "drop_bit 6 b = 2" by simp
  next
    assume "drop_bit 6 b = 2"
    then have "push_bit 6 (drop_bit 6 b) = 0x80" by simp
    moreover have "b AND 0xC0 = push_bit 6 (drop_bit 6 b)"
      by (rule byte_eqI) (simp_all add: bit_simps)
    ultimately show "b AND 0xC0 = 0x80" by simp
  qed
  moreover have "drop_bit 6 b = 2 \<longleftrightarrow> continuation b"
    using drop_bit_byte [of 2 6 b] by (auto simp: continuation_def)
  ultimately show ?thesis by (simp add: not_continuing_def)
qed

text \<open>A decoder never waits for more than three bytes.\<close>

lemma start_takes: "still_takes (snd (utf8_start n)) \<le> 3"
  by (simp add: utf8_start.simps)

lemma step_takes: "still_takes s \<le> 3 \<Longrightarrow> still_takes (snd (utf8_step s n)) \<le> 3"
  using start_takes [of n] by (cases s) (auto simp: Let_def split: prod.splits)

lemma run_takes: "still_takes s \<le> 3 \<Longrightarrow> still_takes (snd (utf8_run s bs)) \<le> 3"
proof (induction bs arbitrary: s)
  case (Cons b bs)
  from Cons.IH [OF step_takes [OF Cons.prems, of "unat b"]] show ?case by (auto split: prod.splits)
qed simp

lemma lead_takes:
  assumes "waits_in_range s" "\<not> continuation b"
  shows "still_takes (snd (utf8_step s (unat b))) \<le> nat (utf8_check_byte b) - 1"
  using step_not_continuation [OF assms] assms(2)
  by (auto simp: utf8_start.simps check_byte_range continuation_def split: prod.splits)

definition settled :: "bytes \<Rightarrow> bool" where
  "settled bs \<longleftrightarrow> snd (utf8_run Idle bs) = Idle"

lemma settled_split: "settled xs \<Longrightarrow> utf8_decode (xs @ ys) = utf8_decode xs @ utf8_decode ys"
  by (simp add: settled_def utf8_decode_split)

lemma snd_run_append: "snd (utf8_run s (xs @ ys)) = snd (utf8_run (snd (utf8_run s xs)) ys)"
  by (auto simp: utf8_run_append split: prod.splits)

lemma settled_lead:
  assumes "\<not> continuation c" "\<forall>b\<in>set bs. continuation b" "nat (utf8_check_byte c) \<le> Suc (length bs)"
  shows "settled (pre @ c # bs)"
proof -
  let ?s = "snd (utf8_run Idle pre)"
  have "waits_in_range ?s" "waits_for_some ?s" by (simp_all add: run_in_range run_waits)
  with assms lead_takes [of ?s c] show ?thesis
    unfolding settled_def snd_run_append by (intro run_complete) auto
qed

lemma settled_continuations:
  assumes "\<forall>b\<in>set bs. continuation b" "3 \<le> length bs \<or> pre = []"
  shows "settled (pre @ bs)"
proof -
  let ?s = "snd (utf8_run Idle pre)"
  have "still_takes ?s \<le> 3" by (simp add: run_takes)
  moreover have "pre = [] \<Longrightarrow> still_takes ?s = 0" by simp
  ultimately have "still_takes ?s \<le> length bs" using assms(2) by auto
  then have "still_takes (snd (utf8_run ?s bs)) = 0"
    using run_continuations [OF assms(1), of ?s] by simp
  then show ?thesis
    unfolding settled_def snd_run_append by (simp add: takes_nothing_idle run_waits)
qed

subsection \<open>UTF-8: what a chunk's end holds back\<close>

text \<open>Either the bytes end a character, or they end in a lead and too few continuation bytes.\<close>

definition incomplete :: "bytes \<Rightarrow> nat \<Rightarrow> bool" where
  "incomplete held width \<longleftrightarrow>
     (\<exists>lead conts. held = lead # conts \<and> utf8_check_byte lead = int width \<and>
        (\<forall>b\<in>set conts. continuation b) \<and> length held < width)"

definition incomplete_spec :: "bytes \<Rightarrow> decoder \<Rightarrow> int \<times> decoder \<Rightarrow> bool" where
  "incomplete_spec s d r \<longleftrightarrow>
     (snd r = d \<and> settled s) \<or>
     (\<exists>pre held. s = pre @ held \<and> 0 < fst r \<and> incomplete held (nat (fst r)) \<and>
        snd r = d\<lparr>last_need := nat (fst r) - length held\<rparr>)"

lemma check_values: "utf8_check_byte b \<in> {0, 2, 3, 4, -1, -2}"
  by (simp add: check_byte_range)

lemma incomplete_specI:
  assumes "utf8_check_byte c = int w" "\<forall>b\<in>set bs. continuation b" "d' = d\<lparr>last_need := w - Suc (length bs)\<rparr>"
    "w \<le> Suc (length bs) \<longrightarrow> d' = d"
  shows "incomplete_spec (pre @ c # bs) d (int w, d')"
proof (cases "w \<le> Suc (length bs)")
  case True
  moreover have "\<not> continuation c" using assms(1) by (metis check_continuation int_nat_eq neg_0_le_iff_le not_one_le_zero of_nat_0_le_iff zero_le_one)
  ultimately show ?thesis
    using assms settled_lead [of c bs pre] by (auto simp: incomplete_spec_def)
next
  case False
  with assms show ?thesis
    unfolding incomplete_spec_def incomplete_def fst_conv snd_conv
    by (intro disjI2 exI [of _ pre] exI [of _ "c # bs"]) auto
qed

lemma need_zero: "last_need d = 0 \<Longrightarrow> d\<lparr>last_need := 0\<rparr> = d"
  by (cases d) simp

lemma spec_settled: "settled s \<Longrightarrow> incomplete_spec s d (w, d)"
  by (simp add: incomplete_spec_def)

text \<open>A byte that is not a continuation byte decides, with what follows it.\<close>

lemma decided_by_lead:
  assumes "0 \<le> utf8_check_byte c" "\<forall>b\<in>set bs. continuation b" "last_need d = 0"
    "d' = (if 0 < utf8_check_byte c then needing d (utf8_check_byte c - int (Suc (length bs))) else d)"
  shows "incomplete_spec (pre @ c # bs) d (utf8_check_byte c, d')"
proof -
  have w: "utf8_check_byte c = int (nat (utf8_check_byte c))" using assms(1) by simp
  have d': "d' = d\<lparr>last_need := nat (utf8_check_byte c) - Suc (length bs)\<rparr>"
    using assms need_zero by (auto simp: needing_def nat_diff_distrib')
  moreover have "nat (utf8_check_byte c) \<le> Suc (length bs) \<longrightarrow> d' = d"
    using d' need_zero [of d] assms(3) by simp
  ultimately show ?thesis
    by (subst w) (rule incomplete_specI [OF w assms(2)])
qed

lemma settled_invalid: "utf8_check_byte c = -2 \<Longrightarrow> \<forall>b\<in>set bs. continuation b \<Longrightarrow> settled (pre @ c # bs)"
  by (rule settled_lead) (auto simp: check_continuation [symmetric])

lemma check_negative: "\<not> 0 \<le> utf8_check_byte b \<Longrightarrow> utf8_check_byte b \<noteq> -2 \<Longrightarrow> continuation b"
  using check_values [of b] by (auto simp: check_continuation [symmetric])

lemma continuation_check: "continuation b \<Longrightarrow> utf8_check_byte b = -1"
  by (simp add: check_continuation)

text \<open>The check on a chunk whose last bytes are given.\<close>

definition decided :: "decoder \<Rightarrow> byte \<Rightarrow> nat \<Rightarrow> int \<times> decoder" where
  "decided d c n =
     (utf8_check_byte c, if 0 < utf8_check_byte c then needing d (utf8_check_byte c - int n) else d)"

lemma check_one:
  "utf8_check_incomplete d (q @ [x]) (length q) = (if 0 \<le> utf8_check_byte x then decided d x 1 else (0, d))"
  by (simp add: utf8_check_incomplete_def decided_def Let_def)

lemma nth_last:
  "(q @ p @ [z, y, x]) ! nat (int (length (q @ p @ [z, y, x])) - 1) = x"
  "(q @ p @ [z, y, x]) ! nat (int (length (q @ p @ [z, y, x])) - 1 - 1) = y"
  "(q @ p @ [z, y, x]) ! nat (int (length (q @ p @ [z, y, x])) - 1 - 2) = z"
  "(q @ [y, x]) ! nat (int (length (q @ [y, x])) - 1) = x"
  "(q @ [y, x]) ! nat (int (length (q @ [y, x])) - 1 - 1) = y"
proof -
  have n: "nat (int (length (q @ p @ [z, y, x])) - 1) = length (q @ p) + 2"
    "nat (int (length (q @ p @ [z, y, x])) - 1 - 1) = length (q @ p) + 1"
    "nat (int (length (q @ p @ [z, y, x])) - 1 - 2) = length (q @ p)"
    "nat (int (length (q @ [y, x])) - 1) = length q + 1"
    "nat (int (length (q @ [y, x])) - 1 - 1) = length q" by auto
  show "(q @ p @ [z, y, x]) ! nat (int (length (q @ p @ [z, y, x])) - 1) = x"
    "(q @ p @ [z, y, x]) ! nat (int (length (q @ p @ [z, y, x])) - 1 - 1) = y"
    "(q @ p @ [z, y, x]) ! nat (int (length (q @ p @ [z, y, x])) - 1 - 2) = z"
    "(q @ [y, x]) ! nat (int (length (q @ [y, x])) - 1) = x"
    "(q @ [y, x]) ! nat (int (length (q @ [y, x])) - 1 - 1) = y"
    unfolding n by (auto simp: nth_append)
qed

lemma check_two:
  "utf8_check_incomplete d (q @ [y, x]) (length q) =
     (if 0 \<le> utf8_check_byte x then decided d x 1
      else if utf8_check_byte x = -2 then (0, d)
      else if 0 \<le> utf8_check_byte y then decided d y 2 else (0, d))"
  unfolding utf8_check_incomplete_def Let_def nth_last by (simp add: decided_def)

lemma check_three:
  "utf8_check_incomplete d (q @ p @ [z, y, x]) (length q) =
     (if 0 \<le> utf8_check_byte x then decided d x 1
      else if utf8_check_byte x = -2 then (0, d)
      else if 0 \<le> utf8_check_byte y then decided d y 2
      else if utf8_check_byte y = -2 then (0, d)
      else if utf8_check_byte z = 2 then (0, d)
      else if 0 \<le> utf8_check_byte z then decided d z 3 else (0, d))"
  unfolding utf8_check_incomplete_def Let_def nth_last by (simp add: decided_def)

lemma spec_decided:
  "0 \<le> utf8_check_byte c \<Longrightarrow> \<forall>b\<in>set bs. continuation b \<Longrightarrow> last_need d = 0 \<Longrightarrow> n = Suc (length bs) \<Longrightarrow>
   incomplete_spec (pre @ c # bs) d (decided d c n)"
  unfolding decided_def by (rule decided_by_lead) auto

lemma incomplete_one:
  "last_need d = 0 \<Longrightarrow> incomplete_spec [x] d (utf8_check_incomplete d (q @ [x]) (length q))"
  unfolding check_one
  using spec_decided [of x "[]" d 1 "[]"] settled_invalid [of x "[]" "[]"] check_negative [of x]
    settled_continuations [of "[x]" "[]"] spec_settled [of "[x]"]
  by (cases "utf8_check_byte x = -2") auto

lemma incomplete_two:
  assumes "last_need d = 0"
  shows "incomplete_spec [y, x] d (utf8_check_incomplete d (q @ [y, x]) (length q))"
proof -
  consider "0 \<le> utf8_check_byte x" | "utf8_check_byte x = -2"
    | "continuation x" "0 \<le> utf8_check_byte y" | "continuation x" "utf8_check_byte y = -2"
    | "continuation x" "continuation y"
    using check_negative by blast
  then show ?thesis
    unfolding check_two using assms
    by cases (simp_all add: continuation_check spec_settled spec_decided [of _ "[]" _ _ "[y]", simplified]
        spec_decided [of _ "[x]" _ _ "[]", simplified] settled_invalid [of _ "[]" "[y]", simplified]
        settled_invalid [of _ "[x]" "[]", simplified] settled_continuations [of "[y, x]" "[]", simplified])
qed

lemma settled_two:
  "utf8_check_byte z = 2 \<Longrightarrow> continuation x \<Longrightarrow> continuation y \<Longrightarrow> settled (p @ [z, y, x])"
  by (rule settled_lead) (auto simp: check_continuation [symmetric])

lemma incomplete_three:
  assumes "last_need d = 0"
  shows "incomplete_spec (p @ [z, y, x]) d (utf8_check_incomplete d (q @ p @ [z, y, x]) (length q))"
proof -
  consider "0 \<le> utf8_check_byte x" | "utf8_check_byte x = -2"
    | "continuation x" "0 \<le> utf8_check_byte y" | "continuation x" "utf8_check_byte y = -2"
    | "continuation x" "continuation y" "utf8_check_byte z = 2"
    | "continuation x" "continuation y" "0 \<le> utf8_check_byte z" "utf8_check_byte z \<noteq> 2"
    | "continuation x" "continuation y" "utf8_check_byte z = -2"
    | "continuation x" "continuation y" "continuation z"
    using check_negative by blast
  then show ?thesis
    unfolding check_three using assms
    by cases (simp_all add: continuation_check spec_settled spec_decided [of _ "[]" _ _ "p @ [z, y]", simplified]
        spec_decided [of _ "[x]" _ _ "p @ [z]", simplified] spec_decided [of _ "[y, x]" _ _ p, simplified]
        settled_invalid [of _ "[]" "p @ [z, y]", simplified]
        settled_invalid [of _ "[x]" "p @ [z]", simplified] settled_invalid [of _ "[y, x]" p, simplified]
        settled_continuations [of "[z, y, x]" p, simplified] settled_two)
qed

lemma check_incomplete_spec:
  assumes "i < length buf" "last_need d = 0"
  shows "incomplete_spec (drop i buf) d (utf8_check_incomplete d buf i)"
proof -
  have buf: "buf = take i buf @ drop i buf" "length (take i buf) = i" using assms(1) by auto
  have "drop i buf \<noteq> []" using assms(1) by simp
  then consider x where "drop i buf = [x]" | y x where "drop i buf = [y, x]"
    | p z y x where "drop i buf = p @ [z, y, x]"
    by (metis append_Cons append_Nil append_assoc rev_exhaust)
  then show ?thesis
  proof cases
    case 1
    then show ?thesis using incomplete_one [OF assms(2), of x "take i buf"] buf by simp
  next
    case 2
    then show ?thesis using incomplete_two [OF assms(2), of y x "take i buf"] buf by simp
  next
    case 3
    then show ?thesis using incomplete_three [OF assms(2), of p z y x "take i buf"] buf by simp
  qed
qed

subsection \<open>UTF-8: a write\<close>

definition pending :: "decoder \<Rightarrow> bytes" where
  "pending d = (if last_need d = 0 then [] else take (last_total d - last_need d) (last_char d))"

definition utf8_sound :: "decoder \<Rightarrow> bool" where
  "utf8_sound d \<longleftrightarrow>
     encoding d = ''utf8'' \<and> length (last_char d) = 4 \<and>
     (last_need d = 0 \<or>
      incomplete (pending d) (last_total d) \<and> length (pending d) + last_need d = last_total d)"

lemma incomplete_width: "incomplete held w \<Longrightarrow> w \<le> 4"
proof -
  assume "incomplete held w"
  then obtain lead where "utf8_check_byte lead = int w" by (auto simp: incomplete_def)
  with check_values [of lead] show "w \<le> 4" by auto
qed

lemma incomplete_start: "incomplete held w \<Longrightarrow> held \<noteq> [] \<and> \<not> continuation (hd held)"
  by (auto simp: incomplete_def check_continuation [symmetric])

lemma to_string_utf8: "to_string ''utf8'' buf i j = drop_bom (utf8_decode (subrange buf i j))"
  by (simp add: to_string_def utf8_slice_def)

definition text_step :: "bytes \<Rightarrow> units \<times> decoder \<Rightarrow> bool" where
  "text_step s r \<longleftrightarrow>
     (\<exists>piece. fst r = drop_bom (utf8_decode piece) \<and> utf8_sound (snd r) \<and>
        (\<forall>rest. utf8_decode (s @ rest) = utf8_decode piece @ utf8_decode (pending (snd r) @ rest)))"

lemma utf8_text_step:
  assumes "utf8_sound d" "last_need d = 0" "i < length buf"
  shows "text_step (drop i buf) (utf8_text d buf i)"
proof -
  obtain w d1 where c: "utf8_check_incomplete d buf i = (w, d1)" by fastforce
  from check_incomplete_spec [OF assms(3,2)] c
  consider "d1 = d" "settled (drop i buf)"
    | pre held where "drop i buf = pre @ held" "0 < w" "incomplete held (nat w)"
        "d1 = d\<lparr>last_need := nat w - length held\<rparr>"
    by (auto simp: incomplete_spec_def)
  then show ?thesis
  proof cases
    case 1
    have "utf8_text d buf i = (drop_bom (utf8_decode (drop i buf)), d)"
      using c 1 assms(2) by (simp add: utf8_text_def to_string_utf8 subrange_def)
    with assms(1,2) settled_split [OF 1(2)] show ?thesis
      unfolding text_step_def by (intro exI [of _ "drop i buf"]) (auto simp: pending_def)
  next
    case 2
    define d2 where "d2 = d1\<lparr>last_total := nat w, last_char := store_from 0 held (last_char d1)\<rparr>"
    have len: "length buf = i + length pre + length held"
    proof -
      have "length buf - i = length pre + length held" by (metis 2(1) length_append length_drop)
      with assms(3) show ?thesis by linarith
    qed
    have short: "length held < nat w" "nat w \<le> 4"
      using 2(3) incomplete_width [OF 2(3)] by (auto simp: incomplete_def)
    have "subrange buf i (length buf - length held) = pre" "subrange buf (length buf - length held) (length buf) = held"
    proof -
      show "subrange buf i (length buf - length held) = pre"
        using 2(1) len by (simp add: subrange_def)
      have "drop (length buf - length held) buf = drop (length pre) (drop i buf)"
        using len by (simp add: add.commute)
      then show "subrange buf (length buf - length held) (length buf) = held"
        using 2(1) len by (simp add: subrange_def)
    qed
    moreover have "last_need d1 \<noteq> 0" "nat w - last_need d1 = length held" using 2(4) short by auto
    ultimately have r: "utf8_text d buf i = (drop_bom (utf8_decode pre), d2)"
      using c by (simp add: utf8_text_def to_string_utf8 d2_def Let_def)
    have "pending d2 = held" "last_need d2 = nat w - length held"
      using 2(4) short assms(1) by (auto simp: pending_def d2_def store_from_eq utf8_sound_def)
    moreover have "utf8_sound d2"
      using calculation 2(3,4) short assms(1) by (auto simp: utf8_sound_def d2_def)
    moreover have "utf8_decode (drop i buf @ rest) = utf8_decode pre @ utf8_decode (held @ rest)" for rest
      using utf8_decode_at_start [of "held @ rest" pre] incomplete_start [OF 2(3)] 2(1) by simp
    ultimately show ?thesis
      unfolding text_step_def r by (intro exI [of _ pre]) auto
  qed
qed

definition fill_step :: "bytes \<Rightarrow> bytes \<Rightarrow> units option \<times> decoder \<Rightarrow> bool" where
  "fill_step held buf r \<longleftrightarrow>
     (case fst r of
        None \<Rightarrow> utf8_sound (snd r) \<and> pending (snd r) = held @ buf
      | Some out \<Rightarrow>
          (\<exists>piece. out = drop_bom (utf8_decode piece) \<and> last_need (snd r) \<le> length buf \<and>
             utf8_sound ((snd r)\<lparr>last_need := 0\<rparr>) \<and>
             (\<forall>rest. utf8_decode (held @ buf @ rest) =
                utf8_decode piece @ utf8_decode (drop (last_need (snd r)) buf @ rest))))"

lemma broken_bytes:
  assumes "length (pending d) = p" "p = last_total d - last_need d" "last_need d \<noteq> 0" "taken \<le> length buf"
  shows "utf8_broken_sequence (d\<lparr>last_need := n\<rparr>) buf p taken =
    drop_bom (utf8_decode (pending d @ take taken buf))"
proof -
  have p: "take p (last_char d) = pending d" "length (take p (last_char d)) = p"
    using assms by (auto simp: pending_def)
  have "store_from 0 (take p (last_char d)) (replicate (p + taken) 0) = pending d @ replicate taken 0"
    using p by (subst store_from_eq) auto
  moreover have "store_from p (take taken buf) (pending d @ replicate taken 0) = pending d @ take taken buf"
    using assms(1,4) by (subst store_from_eq) auto
  ultimately show ?thesis
    using assms(1,4) by (auto simp: utf8_broken_sequence_def to_string_utf8 subrange_def Let_def)
qed

lemma fill_broken:
  assumes "utf8_sound d" "last_need d \<noteq> 0" "k < length buf" "\<not> continuation (buf ! k)"
  shows "fill_step (pending d) buf
    (Some (drop_bom (utf8_decode (pending d @ take k buf))), d\<lparr>last_need := k\<rparr>)"
proof -
  have "drop k buf @ rest \<noteq> [] \<and> \<not> continuation (hd (drop k buf @ rest))" for rest
    using assms(3,4) by (simp add: hd_drop_conv_nth)
  from utf8_decode_at_start [OF disjI2, OF conjunct2, OF this]
  have "utf8_decode (pending d @ buf @ rest) =
      utf8_decode (pending d @ take k buf) @ utf8_decode (drop k buf @ rest)" for rest
    by (metis append_assoc append_take_drop_id)
  with assms(1,3) show ?thesis
    unfolding fill_step_def by (auto simp: utf8_sound_def)
qed

lemma extra_bytes_none:
  assumes "utf8_check_extra_bytes d buf p = (None, d')" "last_need d \<le> 3" "buf \<noteq> []"
  shows "d' = d \<and> (\<forall>b\<in>set (take (last_need d) buf). continuation b)"
proof -
  have d: "d' = d" and c: "continuation (buf ! 0)" "1 < last_need d \<and> 1 < length buf \<longrightarrow> continuation (buf ! 1)"
      "2 < last_need d \<and> 2 < length buf \<longrightarrow> continuation (buf ! 2)"
    using assms by (auto simp: utf8_check_extra_bytes_def not_continuing_iff Let_def split: if_splits)
  have "continuation b" if "b \<in> set (take (last_need d) buf)" for b
  proof -
    from that obtain j where "j < last_need d" "j < length buf" "b = buf ! j"
      by (auto simp: in_set_conv_nth)
    moreover from this assms(2) have "j = 0 \<or> j = 1 \<or> j = 2" by auto
    ultimately show ?thesis using c by auto
  qed
  with d show ?thesis by blast
qed

lemma extra_bytes_some:
  assumes "utf8_check_extra_bytes d buf (last_total d - last_need d) = (Some r, d')"
    "utf8_sound d" "last_need d \<noteq> 0" "buf \<noteq> []"
  shows "fill_step (pending d) buf (Some r, d')"
proof -
  have p: "length (pending d) = last_total d - last_need d"
    using assms(2,3) by (auto simp: utf8_sound_def)
  have b: "k < length buf \<Longrightarrow> utf8_broken_sequence (d\<lparr>last_need := n\<rparr>) buf (last_total d - last_need d) k =
      drop_bom (utf8_decode (pending d @ take k buf))" for k n
    using broken_bytes [OF p refl assms(3)] by simp
  show ?thesis
  proof (cases "continuation (buf ! 0)")
    case False
    with assms(1) have "r = utf8_broken_sequence (d\<lparr>last_need := 0\<rparr>) buf (last_total d - last_need d) 0"
        "d' = d\<lparr>last_need := 0\<rparr>"
      by (auto simp: utf8_check_extra_bytes_def not_continuing_iff Let_def)
    with fill_broken [OF assms(2,3) _ False] assms(4) b [of 0] show ?thesis by simp
  next
    case c0: True
    show ?thesis
    proof (cases "continuation (buf ! 1)")
      case False
      with assms(1) c0 have "r = utf8_broken_sequence (d\<lparr>last_need := 1\<rparr>) buf (last_total d - last_need d) 1"
          "d' = d\<lparr>last_need := 1\<rparr>" "1 < length buf"
        by (auto simp: utf8_check_extra_bytes_def not_continuing_iff Let_def split: if_splits)
      with fill_broken [OF assms(2,3) _ False] b [of 1] show ?thesis by simp
    next
      case True
      with assms(1) c0 have "r = utf8_broken_sequence (d\<lparr>last_need := 2\<rparr>) buf (last_total d - last_need d) 2"
          "d' = d\<lparr>last_need := 2\<rparr>" "2 < length buf" "\<not> continuation (buf ! 2)"
        by (auto simp: utf8_check_extra_bytes_def not_continuing_iff Let_def split: if_splits)
      with fill_broken [OF assms(2,3)] b [of 2] show ?thesis by simp
    qed
  qed
qed

lemma fill_complete:
  assumes "utf8_sound d" "last_need d \<noteq> 0" "last_need d \<le> length buf"
    "\<forall>b\<in>set (take (last_need d) buf). continuation b"
    "d1 = d\<lparr>last_char := store_from (last_total d - last_need d) (subrange buf 0 (last_need d)) (last_char d)\<rparr>"
  shows "fill_step (pending d) buf (Some (to_string (encoding d1) (last_char d1) 0 (last_total d1)), d1)"
proof -
  let ?n = "last_need d"
  obtain lead conts where h: "pending d = lead # conts" "utf8_check_byte lead = int (last_total d)"
      "\<forall>b\<in>set conts. continuation b" "length (pending d) < last_total d"
    using assms(1,2) by (auto simp: utf8_sound_def incomplete_def)
  have w: "length (pending d) + ?n = last_total d" "last_total d \<le> 4" "length (last_char d) = 4"
    "encoding d = ''utf8''"
    using assms(1,2) incomplete_width by (auto simp: utf8_sound_def)
  obtain p where p: "last_total d = p + ?n" using w(1) by (metis)
  have pd: "pending d = take p (last_char d)" using assms(2) p by (simp add: pending_def)
  have lc: "take (last_total d) (last_char d1) = pending d @ take ?n buf"
    using w assms(3,5) unfolding p pd by (simp add: subrange_def store_from_eq)
  have "\<not> continuation lead" using h(2) by (auto simp: check_continuation [symmetric])
  then have "settled ([] @ lead # conts @ take ?n buf)"
    using h w assms(3,4) by (intro settled_lead) auto
  then have s: "settled (pending d @ take ?n buf)" using h(1) by simp
  have "pending d @ buf @ rest = (pending d @ take ?n buf) @ (drop ?n buf @ rest)" for rest
    by simp
  then have "utf8_decode (pending d @ buf @ rest) =
      utf8_decode (pending d @ take ?n buf) @ utf8_decode (drop ?n buf @ rest)" for rest
    using settled_split [OF s] by metis
  moreover have "to_string (encoding d1) (last_char d1) 0 (last_total d1) =
      drop_bom (utf8_decode (pending d @ take ?n buf))"
    using lc w assms(5) by (simp add: to_string_utf8 subrange_def)
  ultimately show ?thesis
    using assms(3,5) w unfolding fill_step_def
    by (auto simp: utf8_sound_def intro!: exI [of _ "pending d @ take ?n buf"])
qed

lemma fill_more:
  assumes "utf8_sound d" "last_need d \<noteq> 0" "length buf < last_need d" "\<forall>b\<in>set buf. continuation b"
    "d1 = d\<lparr>last_char := store_from (last_total d - last_need d) buf (last_char d), last_need := last_need d - length buf\<rparr>"
  shows "fill_step (pending d) buf (None, d1)"
proof -
  have w: "length (pending d) + last_need d = last_total d" "last_total d \<le> 4" "length (last_char d) = 4"
    using assms(1,2) incomplete_width by (auto simp: utf8_sound_def)
  obtain k where k: "last_total d = k + last_need d" using w(1) by metis
  have pd: "pending d = take k (last_char d)" using assms(2) k by (simp add: pending_def)
  have "k + last_need d - (last_need d - length buf) = k + length buf" using assms(3) by simp
  then have p: "pending d1 = pending d @ buf"
    using w assms(3,5) k unfolding pd by (simp add: pending_def store_from_eq)
  moreover have "incomplete (pending d @ buf) (last_total d)"
    using assms w by (auto simp: utf8_sound_def incomplete_def)
  ultimately show ?thesis
    using assms w unfolding fill_step_def by (auto simp: utf8_sound_def)
qed

lemma utf8_fill_step:
  assumes "utf8_sound d" "last_need d \<noteq> 0" "buf \<noteq> []"
  shows "fill_step (pending d) buf (utf8_fill_last d buf)"
proof -
  have n: "last_need d \<le> 3"
    using assms(1,2) incomplete_width [of "pending d" "last_total d"] incomplete_start [of "pending d" "last_total d"]
    by (cases "pending d") (auto simp: utf8_sound_def)
  obtain x d1 where e: "utf8_check_extra_bytes d buf (last_total d - last_need d) = (x, d1)" by fastforce
  show ?thesis
  proof (cases x)
    case (Some r)
    with e extra_bytes_some [OF _ assms] show ?thesis by (simp add: utf8_fill_last_def)
  next
    case None
    with extra_bytes_none [of d buf _ d1] e n assms(3)
    have d: "d1 = d" "\<forall>b\<in>set (take (last_need d) buf). continuation b" by auto
    show ?thesis
      using e None d fill_complete [OF assms(1,2)] fill_more [OF assms(1,2)]
      by (auto simp: utf8_fill_last_def Let_def)
  qed
qed

definition no_bom_inside :: "bytes \<Rightarrow> bool" where
  "no_bom_inside bs \<longleftrightarrow> 0xFEFF \<notin> set (utf8_decode bs)"

lemma text_step_clean:
  assumes "text_step s (out, d')" "no_bom_inside (s @ rest)"
  shows "utf8_sound d' \<and> no_bom_inside (pending d' @ rest) \<and>
    utf8_decode (s @ rest) = out @ utf8_decode (pending d' @ rest)"
  using assms by (auto simp: text_step_def no_bom_inside_def drop_bom_id)

lemma utf8_methods:
  "utf8_sound d \<Longrightarrow> decoder_text d buf i = utf8_text d buf i"
  "utf8_sound d \<Longrightarrow> decoder_fill_last d buf = utf8_fill_last d buf"
  by (auto simp: utf8_sound_def decoder_text_def decoder_fill_last_def is_base64_def)

lemma utf8_write_empty_hands:
  assumes "utf8_sound d" "last_need d = 0" "buf \<noteq> []" "no_bom_inside (buf @ rest)" "write_bytes d buf = (out, d')"
  shows "utf8_sound d' \<and> no_bom_inside (pending d' @ rest) \<and>
    utf8_decode (buf @ rest) = out @ utf8_decode (pending d' @ rest)"
  using utf8_text_step [OF assms(1,2), of 0 buf] text_step_clean [of buf out d' rest] assms
  by (auto simp: write_bytes_def utf8_methods Let_def split: prod.splits)

lemma utf8_write_pending:
  assumes "utf8_sound d" "last_need d \<noteq> 0" "buf \<noteq> []" "no_bom_inside (pending d @ buf @ rest)"
    "write_bytes d buf = (out, d')"
  shows "utf8_sound d' \<and> no_bom_inside (pending d' @ rest) \<and>
    utf8_decode (pending d @ buf @ rest) = out @ utf8_decode (pending d' @ rest)"
proof -
  obtain x d1 where f: "utf8_fill_last d buf = (x, d1)" by fastforce
  with utf8_fill_step [OF assms(1-3)] have step: "fill_step (pending d) buf (x, d1)" by simp
  show ?thesis
  proof (cases x)
    case None
    with f assms step show ?thesis
      by (auto simp: write_bytes_def utf8_methods fill_step_def)
  next
    case (Some r)
    define d2 where "d2 = d1\<lparr>last_need := 0\<rparr>"
    let ?i = "last_need d1"
    from step Some obtain piece where p: "r = drop_bom (utf8_decode piece)" "?i \<le> length buf" "utf8_sound d2"
        "\<And>rest. utf8_decode (pending d @ buf @ rest) = utf8_decode piece @ utf8_decode (drop ?i buf @ rest)"
      by (auto simp: fill_step_def d2_def)
    have r: "r = utf8_decode piece" and c: "no_bom_inside (drop ?i buf @ rest)"
      using assms(4) p by (auto simp: no_bom_inside_def drop_bom_id)
    show ?thesis
    proof (cases "?i < length buf")
      case True
      obtain t d3 where t: "utf8_text d2 buf ?i = (t, d3)" by fastforce
      have "write_bytes d buf = (r @ t, d3)"
        using assms(1-3) f Some True t p(3) by (simp add: write_bytes_def utf8_methods Let_def d2_def)
      moreover have "text_step (drop ?i buf) (t, d3)"
        using utf8_text_step [OF p(3) _ True] t by (simp add: d2_def)
      ultimately show ?thesis
        using text_step_clean [OF _ c] assms(5) p(4) r by auto
    next
      case False
      then have "write_bytes d buf = (r, d2)" "drop ?i buf = []"
        using assms(1-3) f Some by (simp_all add: write_bytes_def utf8_methods d2_def)
      with assms(5) c p r show ?thesis by (auto simp: pending_def d2_def)
    qed
  qed
qed

lemma utf8_flush_pending: "utf8_sound d \<Longrightarrow> fst (decoder_flush d) = drop_bom (utf8_decode (pending d))"
  by (auto simp: decoder_flush_def utf8_sound_def is_simple_def is_base64_def to_string_utf8 subrange_def
      pending_def)

interpretation utf8: incremental write_bytes "\<lambda>d. fst (decoder_flush d)" pending utf8_decode utf8_sound no_bom_inside
proof
  fix d buf rest out d'
  assume a: "utf8_sound d" "no_bom_inside (pending d @ buf @ rest)" "write_bytes d buf = (out, d')"
  show "utf8_sound d' \<and> no_bom_inside (pending d' @ rest) \<and>
      utf8_decode (pending d @ buf @ rest) = out @ utf8_decode (pending d' @ rest)"
  proof (cases "buf = []")
    case True
    with a show ?thesis by (auto simp: write_bytes_def)
  next
    case False
    show ?thesis
    proof (cases "last_need d = 0")
      case True
      then have "pending d = []" by (simp add: pending_def)
      with utf8_write_empty_hands [OF a(1) True False _ a(3)] a(2) show ?thesis by simp
    next
      case need: False
      from utf8_write_pending [OF a(1) need False a(2,3)] show ?thesis .
    qed
  qed
next
  fix d assume "utf8_sound d" "no_bom_inside (pending d)"
  then show "fst (decoder_flush d) = utf8_decode (pending d)"
    by (simp add: utf8_flush_pending no_bom_inside_def drop_bom_id)
qed

end
