(* ===== verification/StringDecoderProps.thy ===== *)
theory StringDecoderProps
  imports StringDecoderLaws
begin

text \<open>
  The other encodings that hold bytes back, base64 by groups of three bytes and utf-16
  by units of two, as interpretations of \<open>incremental\<close>; the encodings of one byte a
  character; and the properties of the decoder: a stream cut anywhere decodes to what
  it decodes to whole, and what a decoder refuses.
\<close>

subsection \<open>base64\<close>

lemma groups_append:
  "length xs mod 3 = 0 \<Longrightarrow> base64_groups (xs @ ys) = base64_groups xs @ base64_groups ys"
  by (induction xs rule: base64_groups.induct) auto

lemma text_append: "length xs mod 3 = 0 \<Longrightarrow> base64_text (xs @ ys) url = base64_text xs url @ base64_text ys url"
  by (simp add: base64_text_def groups_append Let_def)

definition base64_of :: "encoding_name \<Rightarrow> bytes \<Rightarrow> units" where
  "base64_of enc bs = base64_text bs (enc = ''base64url'')"

lemma base64_of_append: "length xs mod 3 = 0 \<Longrightarrow> base64_of enc (xs @ ys) = base64_of enc xs @ base64_of enc ys"
  by (simp add: base64_of_def text_append)

lemma to_string_base64: "is_base64 enc \<Longrightarrow> to_string enc buf i j = base64_of enc (subrange buf i j)"
  by (auto simp: is_base64_def to_string_def base64_slice_def base64url_slice_def base64_of_def)

definition base64_sound :: "encoding_name \<Rightarrow> decoder \<Rightarrow> bool" where
  "base64_sound enc d \<longleftrightarrow>
     encoding d = enc \<and> is_base64 enc \<and> length (last_char d) = 3 \<and>
     (last_need d = 0 \<or> last_total d = 3 \<and> last_need d \<le> 2)"

lemma base64_not_others: "is_base64 enc \<Longrightarrow> enc \<noteq> ''utf16le'' \<and> enc \<noteq> ''utf8'' \<and> \<not> is_simple enc"
  by (auto simp: is_base64_def is_simple_def)

lemma last_bytes:
  "length s mod 3 = 1 \<Longrightarrow> drop (length s - 1) s = [s ! (length s - 1)]"
  "length s mod 3 = 2 \<Longrightarrow> drop (length s - 2) s = [s ! (length s - 2), s ! (length s - 1)]"
proof -
  assume "length s mod 3 = 1"
  then have "length s - 1 < length s" "Suc (length s - 1) = length s" by (cases "length s"; simp)+
  then show "drop (length s - 1) s = [s ! (length s - 1)]"
    by (metis Cons_nth_drop_Suc drop_all order_refl)
next
  assume "length s mod 3 = 2"
  then have "2 \<le> length s" by (metis Suc_1 mod_less_eq_dividend)
  then have "length s - 2 < length s" "Suc (length s - 2) = length s - 1" "length s - 1 < length s"
    "Suc (length s - 1) = length s" by auto
  then show "drop (length s - 2) s = [s ! (length s - 2), s ! (length s - 1)]"
    by (metis Cons_nth_drop_Suc drop_all order_refl)
qed

lemma base64_chunk_step:
  assumes "base64_sound enc d" "last_need d = 0" "i \<le> length buf" "base64_chunk_text d buf i = (out, d')"
  shows "base64_sound enc d' \<and> base64_of enc (drop i buf @ rest) = out @ base64_of enc (pending d' @ rest)"
proof -
  define s where "s = drop i buf"
  define n where "n = length s mod 3"
  have len: "length s = length buf - i" by (simp add: s_def)
  have split: "s = take (length s - n) s @ drop (length s - n) s" by simp
  have three: "length (take (length s - n) s) mod 3 = 0" by (simp add: n_def minus_mod_eq_mult_div)
  have sub: "subrange buf i (length buf - n) = take (length s - n) s" "subrange buf i (length buf) = s"
    by (auto simp: subrange_def s_def diff_commute add.commute)
  have nth: "k \<le> length s \<Longrightarrow> 0 < k \<Longrightarrow> buf ! (length buf - k) = s ! (length s - k)" for k
    using assms(3) by (simp add: s_def nth_drop)
  have d: "encoding d = enc" "is_base64 enc" "length (last_char d) = 3" using assms(1) by (auto simp: base64_sound_def)
  consider "n = 0" | "n = 1" | "n = 2" by (fastforce simp: n_def)
  then have "base64_sound enc d' \<and> out = base64_of enc (take (length s - n) s) \<and> pending d' = drop (length s - n) s"
  proof cases
    case 1
    with assms d sub show ?thesis
      by (auto simp: base64_chunk_text_def to_string_base64 len [symmetric] n_def [symmetric] pending_def)
  next
    case 2
    then have "1 \<le> length s" using mod_less_eq_dividend [of "length s" 3] by (simp add: n_def)
    with 2 assms d sub last_bytes(1) [of s] nth [of 1] show ?thesis
      by (auto simp: base64_chunk_text_def to_string_base64 len [symmetric] n_def [symmetric] pending_def
          base64_sound_def Let_def take_Suc_conv_app_nth)
  next
    case 3
    then have "2 \<le> length s" using mod_less_eq_dividend [of "length s" 3] by (simp add: n_def)
    with 3 assms d sub last_bytes(2) [of s] nth [of 1] nth [of 2] show ?thesis
      by (auto simp: base64_chunk_text_def to_string_base64 len [symmetric] n_def [symmetric] pending_def
          base64_sound_def Let_def take_Suc_conv_app_nth numeral_2_eq_2)
  qed
  then show ?thesis
    using base64_of_append [OF three, of enc "drop (length s - n) s @ rest"] split
    by (metis append_assoc s_def)
qed

lemma base64_methods:
  "base64_sound enc d \<Longrightarrow> decoder_text d buf i = base64_chunk_text d buf i"
  "base64_sound enc d \<Longrightarrow> decoder_fill_last d buf = fill_last d buf"
  using base64_not_others by (auto simp: base64_sound_def decoder_text_def decoder_fill_last_def)

lemma base64_fill:
  assumes "base64_sound enc d" "last_need d \<noteq> 0" "fill_last d buf = (x, d1)"
  shows "if last_need d \<le> length buf
    then x = Some (base64_of enc (pending d @ take (last_need d) buf)) \<and> last_need d1 = last_need d \<and>
      base64_sound enc (d1\<lparr>last_need := 0\<rparr>) \<and> length (pending d @ take (last_need d) buf) = 3
    else x = None \<and> base64_sound enc d1 \<and> pending d1 = pending d @ buf"
proof -
  have d: "encoding d = enc" "is_base64 enc" "length (last_char d) = 3" "last_total d = 3"
    and n: "last_need d = 1 \<or> last_need d = 2"
    using assms(1,2) by (auto simp: base64_sound_def)
  obtain a b c where lc: "last_char d = [a, b, c]"
    using d(3) by (auto simp: length_Suc_conv numeral_3_eq_3)
  show ?thesis
  proof (cases "last_need d \<le> length buf")
    case True
    have "store_from (3 - last_need d) (take (last_need d) buf) [a, b, c] = pending d @ take (last_need d) buf"
      using n True d(4) lc by (subst store_from_eq) (auto simp: pending_def)
    with True assms(3) d n lc show ?thesis
      by (auto simp: fill_last_def to_string_base64 subrange_def base64_sound_def pending_def Let_def)
  next
    case False
    with n consider "last_need d = 1" "buf = []" | "last_need d = 2" "buf = []" | y where "last_need d = 2" "buf = [y]"
      by (cases buf; cases "tl buf") auto
    then show ?thesis
      using False assms(3) d lc
      by cases (auto simp: fill_last_def base64_sound_def pending_def Let_def)
  qed
qed

lemma base64_write_step:
  assumes "base64_sound enc d" "write_bytes d buf = (out, d')"
  shows "base64_sound enc d' \<and> base64_of enc (pending d @ buf @ rest) = out @ base64_of enc (pending d' @ rest)"
proof (cases "buf = []")
  case True
  with assms show ?thesis by (auto simp: write_bytes_def base64_of_def base64_text_def)
next
  case buf: False
  show ?thesis
  proof (cases "last_need d = 0")
    case True
    then show ?thesis
      using base64_chunk_step [OF assms(1) True, of 0 buf out d' rest] assms buf
      by (auto simp: write_bytes_def base64_methods pending_def Let_def split: prod.splits)
  next
    case need: False
    obtain x d1 where f: "fill_last d buf = (x, d1)" by fastforce
    note step = base64_fill [OF assms(1) need f]
    show ?thesis
    proof (cases "last_need d \<le> length buf")
      case False
      with step f need buf assms show ?thesis
        by (auto simp: write_bytes_def base64_methods base64_of_def base64_text_def)
    next
      case True
      let ?n = "last_need d"
      define d2 where "d2 = d1\<lparr>last_need := 0\<rparr>"
      obtain t d3 where t: "base64_chunk_text d2 buf ?n = (t, d3)" by fastforce
      from step True have s: "x = Some (base64_of enc (pending d @ take ?n buf))" "last_need d1 = ?n"
          "base64_sound enc d2" "length (pending d @ take ?n buf) mod 3 = 0"
        by (auto simp: d2_def)
      have whole: "base64_of enc (pending d @ buf @ rest) =
          base64_of enc (pending d @ take ?n buf) @ base64_of enc (drop ?n buf @ rest)"
        using base64_of_append [OF s(4), of enc "drop ?n buf @ rest"]
        by (metis append_assoc append_take_drop_id)
      show ?thesis
      proof (cases "?n < length buf")
        case True
        have "write_bytes d buf = (base64_of enc (pending d @ take ?n buf) @ t, d3)"
          using need buf f s(1,2,3) True t assms(1)
          by (simp add: write_bytes_def base64_methods Let_def d2_def)
        with base64_chunk_step [OF s(3) _ _ t, of rest] True whole assms(2) show ?thesis
          by (auto simp: d2_def)
      next
        case False
        have "write_bytes d buf = (base64_of enc (pending d @ take ?n buf), d2)"
          using need buf f s(1,2) False assms(1) by (simp add: write_bytes_def base64_methods d2_def)
        with False whole assms(2) s(3) show ?thesis by (auto simp: pending_def d2_def)
      qed
    qed
  qed
qed

lemma base64_flush:
  assumes "base64_sound enc d"
  shows "fst (decoder_flush d) = base64_of enc (pending d)"
proof -
  have e: "encoding d = enc" "is_base64 enc" "\<not> is_simple enc"
    using assms base64_not_others by (auto simp: base64_sound_def)
  have empty: "base64_of enc [] = []" by (simp add: base64_of_def base64_text_def)
  show ?thesis
    using assms e empty
    by (auto simp: decoder_flush_def base64_sound_def to_string_base64 pending_def subrange_def)
qed

interpretation base64_stream: incremental write_bytes "\<lambda>d. fst (decoder_flush d)" pending
  "base64_of ''base64''" "base64_sound ''base64''" "\<lambda>_. True"
  by unfold_locales (simp_all add: base64_write_step base64_flush)

interpretation base64url_stream: incremental write_bytes "\<lambda>d. fst (decoder_flush d)" pending
  "base64_of ''base64url''" "base64_sound ''base64url''" "\<lambda>_. True"
  by unfold_locales (simp_all add: base64_write_step base64_flush)

subsection \<open>UTF-16LE\<close>

text \<open>Text without surrogates and U+FEFF, which the platform's decoder passes unchanged.\<close>

definition plain_units :: "units \<Rightarrow> bool" where
  "plain_units us \<longleftrightarrow> (\<forall>u\<in>set us. \<not> lead_surrogate u \<and> \<not> trail_surrogate u \<and> u \<noteq> 0xFEFF)"

definition plain16 :: "bytes \<Rightarrow> bool" where
  "plain16 bs \<longleftrightarrow> plain_units (le_units bs)"

lemma le_units_append: "even (length xs) \<Longrightarrow> le_units (xs @ ys) = le_units xs @ le_units ys"
  by (induction xs rule: le_units.induct) auto

lemma le_units_odd: "odd (length xs) \<Longrightarrow> le_units (butlast xs) = le_units xs"
  by (induction xs rule: le_units.induct) auto

lemma plain_well_formed: "plain_units us \<Longrightarrow> well_formed_units us"
  by (induction us rule: well_formed_units.induct) (auto simp: plain_units_def)

lemma ucs2_slice_whole:
  "ucs2_slice b None None = drop_bom (utf16le_decode (if even (length b) then b else butlast b))"
proof (cases "even (length b)")
  case False
  then have "length b mod 2 = 1" by presburger
  with False show ?thesis by (simp add: ucs2_slice_def clamp_def subrange_def butlast_conv_take)
qed (simp add: ucs2_slice_even)

lemma utf16le_decode_plain: "even (length b) \<Longrightarrow> plain16 b \<Longrightarrow> utf16le_decode b = le_units b"
  by (simp add: utf16le_decode_def scalars_units plain_well_formed plain16_def)

lemma ucs2_slice_plain:
  assumes "plain16 b"
  shows "ucs2_slice b None None = le_units b"
proof -
  let ?c = "if even (length b) then b else butlast b"
  have c: "even (length ?c)" "le_units ?c = le_units b" by (auto simp: le_units_odd)
  with assms have "plain16 ?c" by (simp add: plain16_def)
  with c have "utf16le_decode ?c = le_units b" by (metis utf16le_decode_plain)
  moreover have "drop_bom (le_units b) = le_units b"
    using assms by (intro drop_bom_id) (auto simp: plain16_def plain_units_def)
  ultimately show ?thesis by (simp add: ucs2_slice_whole)
qed

definition utf16_sound :: "decoder \<Rightarrow> bool" where
  "utf16_sound d \<longleftrightarrow>
     encoding d = ''utf16le'' \<and> length (last_char d) = 4 \<and>
     (last_need d = 0 \<or> last_total d = 2 \<and> last_need d = 1)"

lemma to_string_utf16:
  "plain16 (subrange buf i j) \<Longrightarrow> to_string ''utf16le'' buf i j = le_units (subrange buf i j)"
  by (simp add: to_string_def ucs2_slice_plain)

lemma utf16_text_step:
  assumes "utf16_sound d" "last_need d = 0" "i < length buf" "plain16 (drop i buf @ rest)"
    "utf16_text d buf i = (out, d')"
  shows "utf16_sound d' \<and> plain16 (pending d' @ rest) \<and>
    le_units (drop i buf @ rest) = out @ le_units (pending d' @ rest)"
proof -
  let ?s = "drop i buf"
  have whole: "subrange buf i (length buf) = ?s" "subrange buf i (length buf - 1) = butlast ?s"
    by (auto simp: subrange_def butlast_conv_take)
  show ?thesis
  proof (cases "even (length ?s)")
    case True
    have p: "plain16 ?s" "plain16 rest"
      using assms(4) le_units_append [OF True, of rest] by (auto simp: plain16_def plain_units_def)
    have r: "to_string ''utf16le'' buf i (length buf) = le_units ?s"
      using to_string_utf16 [of buf i "length buf"] p whole by simp
    have c: "\<not> (le_units ?s \<noteq> [] \<and> lead_surrogate (last (le_units ?s)))"
      using p(1) by (auto simp: plain16_def plain_units_def)
    have "even (length buf - i)" using True by simp
    then have "utf16_text d buf i = (le_units ?s, d)"
      unfolding utf16_text_def Let_def r if_not_P [OF c] by (rule if_P)
    with assms(5) have "out = le_units ?s" "d' = d" by auto
    with assms(1,2) p le_units_append [OF True, of rest] show ?thesis by (simp add: pending_def)
  next
    case False
    then have s: "?s = butlast ?s @ [buf ! (length buf - 1)]" "even (length (butlast ?s))"
      using assms(3) append_butlast_last_id [of ?s] by (auto simp: last_conv_nth)
    have split: "le_units (?s @ rest) = le_units (butlast ?s) @ le_units (buf ! (length buf - 1) # rest)"
      using le_units_append [OF s(2), of "buf ! (length buf - 1) # rest"] s(1)
      by (metis append.assoc append_Cons append_Nil)
    with assms(4) have p: "plain16 (butlast ?s)" "plain16 (buf ! (length buf - 1) # rest)"
      by (auto simp: plain16_def plain_units_def)
    have "out = le_units (butlast ?s)"
      using False assms(5) to_string_utf16 [of buf i "length buf - 1"] p(1) whole(2)
      by (auto simp: utf16_text_def Let_def)
    moreover have "utf16_sound d'" "pending d' = [buf ! (length buf - 1)]"
      using False assms(1,5) by (auto simp: utf16_text_def utf16_sound_def pending_def Let_def
          take_Suc_conv_app_nth)
    ultimately show ?thesis using split p(2) by simp
  qed
qed

lemma utf16_methods:
  "utf16_sound d \<Longrightarrow> decoder_text d buf i = utf16_text d buf i"
  "utf16_sound d \<Longrightarrow> decoder_fill_last d buf = fill_last d buf"
  by (auto simp: utf16_sound_def decoder_text_def decoder_fill_last_def)

lemma utf16_fill:
  assumes "utf16_sound d" "last_need d \<noteq> 0" "plain16 (pending d @ b # cs)"
  shows "\<exists>d1. fill_last d (b # bs) = (Some (le_units (pending d @ [b])), d1) \<and> last_need d1 = 1 \<and>
    utf16_sound (d1\<lparr>last_need := 0\<rparr>) \<and> length (pending d) = 1"
proof -
  have d: "encoding d = ''utf16le''" "last_total d = 2" "last_need d = 1" "length (last_char d) = 4"
    using assms(1,2) by (auto simp: utf16_sound_def)
  obtain a x y z where lc: "last_char d = [a, x, y, z]"
    using d(4) by (auto simp: length_Suc_conv numeral_eq_Suc)
  have p: "pending d = [a]" using d lc by (simp add: pending_def)
  have "plain16 [a, b]" using assms(3) p by (auto simp: plain16_def plain_units_def)
  then have "to_string ''utf16le'' [a, b, y, z] 0 2 = le_units [a, b]"
    using to_string_utf16 [of "[a, b, y, z]" 0 2] by (simp add: subrange_def)
  with d lc p show ?thesis
    by (auto simp: fill_last_def subrange_def utf16_sound_def Let_def)
qed

lemma utf16_write_step:
  assumes "utf16_sound d" "plain16 (pending d @ buf @ rest)" "write_bytes d buf = (out, d')"
  shows "utf16_sound d' \<and> plain16 (pending d' @ rest) \<and>
    le_units (pending d @ buf @ rest) = out @ le_units (pending d' @ rest)"
proof (cases buf)
  case Nil
  with assms show ?thesis by (auto simp: write_bytes_def)
next
  case (Cons b bs)
  show ?thesis
  proof (cases "last_need d = 0")
    case True
    then show ?thesis
      using utf16_text_step [OF assms(1) True, of 0 buf rest out d'] assms Cons
      by (auto simp: write_bytes_def utf16_methods pending_def Let_def split: prod.splits)
  next
    case need: False
    have two: "le_units (pending d @ [b] @ ys) = le_units (pending d @ [b]) @ le_units ys"
      if "length (pending d) = 1" for ys
      using le_units_append [of "pending d @ [b]" ys] that by simp
    have len: "length (pending d) = 1"
      using assms(1) need by (auto simp: utf16_sound_def pending_def)
    have p: "plain16 (pending d @ b # (bs @ rest))" using assms(2) Cons by simp
    with two [OF len, of "bs @ rest"] have q: "plain16 (bs @ rest)" by (auto simp: plain16_def plain_units_def)
    from utf16_fill [OF assms(1) need p] obtain d1 where
      f: "fill_last d (b # bs) = (Some (le_units (pending d @ [b])), d1)" "last_need d1 = 1"
        "utf16_sound (d1\<lparr>last_need := 0\<rparr>)" by blast
    define d2 where "d2 = d1\<lparr>last_need := 0\<rparr>"
    show ?thesis
    proof (cases "bs = []")
      case True
      with Cons need f assms q two [OF len, of rest] show ?thesis
        by (auto simp: write_bytes_def utf16_methods pending_def)
    next
      case False
      obtain t d3 where t: "utf16_text d2 buf 1 = (t, d3)" by fastforce
      have "write_bytes d buf = (le_units (pending d @ [b]) @ t, d3)"
        using Cons need f False t assms(1) by (simp add: write_bytes_def utf16_methods Let_def d2_def)
      with utf16_text_step [of d2 1 buf rest t d3] f(3) t False Cons q two [OF len, of "bs @ rest"] assms(3)
      show ?thesis by (auto simp: d2_def)
    qed
  qed
qed

lemma utf16_flush:
  assumes "utf16_sound d" "plain16 (pending d)"
  shows "fst (decoder_flush d) = le_units (pending d)"
proof (cases "last_need d = 0")
  case True
  with assms show ?thesis by (simp add: decoder_flush_def pending_def)
next
  case False
  with assms(1) have d: "last_total d = 2" "last_need d = 1" "encoding d = ''utf16le''"
    by (auto simp: utf16_sound_def)
  then have p: "pending d = subrange (last_char d) 0 1" by (simp add: pending_def subrange_def)
  have "fst (decoder_flush d) = to_string ''utf16le'' (last_char d) 0 1"
    using d by (simp add: decoder_flush_def is_simple_def is_base64_def)
  also have "\<dots> = le_units (pending d)"
    using assms(2) unfolding p by (rule to_string_utf16)
  finally show ?thesis .
qed

interpretation utf16_stream: incremental write_bytes "\<lambda>d. fst (decoder_flush d)" pending
  le_units utf16_sound plain16
  by unfold_locales (rule utf16_write_step, assumption+, rule utf16_flush, assumption+)

subsection \<open>Streams\<close>

definition within_limit :: "encoding_name \<Rightarrow> bytes \<Rightarrow> bool" where
  "within_limit enc b \<longleftrightarrow> length b * half_chars_per_byte enc \<le> 2 * k_string_max_length"

definition stream_clean :: "encoding_name \<Rightarrow> bytes \<Rightarrow> bool" where
  "stream_clean enc bs =
     (if enc = ''utf8'' then no_bom_inside bs else if enc = ''utf16le'' then plain16 bs else True)"

definition node_encodings :: "encoding_name set" where
  "node_encodings = {''utf8'', ''utf16le'', ''latin1'', ''base64'', ''base64url'', ''ascii'', ''hex''}"

lemma normalize_range: "normalize_encoding arg = Inr enc \<Longrightarrow> enc \<in> node_encodings"
  by (auto simp: normalize_encoding_def encoding_aliases_def node_encodings_def
      split: encoding_arg.splits if_splits option.splits)

lemma new_decoder_fresh:
  "new_decoder arg = Inr d \<Longrightarrow> encoding d \<in> node_encodings \<and> last_need d = 0 \<and>
     length (last_char d) =
       (if is_simple (encoding d) then 0 else if is_base64 (encoding d) then 3 else 4)"
  using normalize_range by (auto simp: new_decoder_def split: sum.splits)

lemma fill_last_encoding: "fill_last d buf = (x, d') \<Longrightarrow> encoding d' = encoding d"
  by (auto simp: fill_last_def Let_def split: if_splits)

lemma extra_bytes_encoding: "utf8_check_extra_bytes d buf p = (x, d') \<Longrightarrow> encoding d' = encoding d"
  by (auto simp: utf8_check_extra_bytes_def Let_def split: if_splits)

lemma utf8_fill_encoding: "utf8_fill_last d buf = (x, d') \<Longrightarrow> encoding d' = encoding d"
  using extra_bytes_encoding
  by (fastforce simp: utf8_fill_last_def Let_def split: if_splits prod.splits option.splits)

lemma incomplete_encoding: "utf8_check_incomplete d buf i = (w, d') \<Longrightarrow> encoding d' = encoding d"
  by (auto simp: utf8_check_incomplete_def Let_def needing_def split: if_splits)

lemma text_encoding: "decoder_text d buf i = (out, d') \<Longrightarrow> encoding d' = encoding d"
  using incomplete_encoding
  by (fastforce simp: decoder_text_def utf16_text_def base64_chunk_text_def utf8_text_def Let_def
      split: if_splits prod.splits)

lemma write_encoding: "write_bytes d buf = (out, d') \<Longrightarrow> encoding d' = encoding d"
  using fill_last_encoding utf8_fill_encoding text_encoding
  by (fastforce simp: write_bytes_def decoder_fill_last_def Let_def
      split: if_splits prod.splits option.splits)

lemma write_all_feeds:
  assumes "\<not> is_simple (encoding d)" "\<forall>b\<in>set bufs. within_limit (encoding d) b"
  shows "write_all d (map BufferChunk bufs) = (Inr (fst (feed_all write_bytes d bufs)), snd (feed_all write_bytes d bufs))"
  using assms
proof (induction bufs arbitrary: d)
  case (Cons b bs)
  obtain out d1 where w: "write_bytes d b = (out, d1)" by fastforce
  with write_encoding have e: "encoding d1 = encoding d" by blast
  have "decoder_write d (BufferChunk b) = (Inr out, d1)"
    using Cons.prems w by (simp add: decoder_write_def decoder_input_def within_limit_def)
  moreover have "write_all d1 (map BufferChunk bs) =
      (Inr (fst (feed_all write_bytes d1 bs)), snd (feed_all write_bytes d1 bs))"
    using Cons.prems e by (intro Cons.IH) auto
  ultimately show ?case using w by (auto split: prod.splits)
qed simp

lemma write_all_simple:
  assumes "is_simple (encoding d)" "\<forall>b\<in>set bufs. within_limit (encoding d) b"
  shows "write_all d (map BufferChunk bufs) =
    (Inr (concat (map (\<lambda>b. to_string (encoding d) b 0 (length b)) bufs)), d)"
  using assms
  by (induction bufs) (auto simp: decoder_write_def decoder_input_def within_limit_def)

lemma simple_append:
  "enc \<in> node_encodings \<Longrightarrow> is_simple enc \<Longrightarrow>
   to_string enc (xs @ ys) 0 (length (xs @ ys)) = to_string enc xs 0 (length xs) @ to_string enc ys 0 (length ys)"
  by (auto simp: node_encodings_def is_simple_def is_base64_def to_string_def latin1_slice_def ascii_slice_def
      hex_slice_def windows_1252_decode_def subrange_def)

lemma simple_concat:
  assumes "enc \<in> node_encodings" "is_simple enc"
  shows "concat (map (\<lambda>b. to_string enc b 0 (length b)) bufs) =
    to_string enc (concat bufs) 0 (length (concat bufs))"
proof (induction bufs)
  case Nil
  from assms show ?case
    by (auto simp: node_encodings_def is_simple_def is_base64_def to_string_def latin1_slice_def
        ascii_slice_def hex_slice_def windows_1252_decode_def subrange_def)
next
  case (Cons b bs)
  with simple_append [OF assms, of b "concat bs"] show ?case by simp
qed

lemma decoder_end_none: "decoder_end d None = (Inr (fst (decoder_flush d)), snd (decoder_flush d))"
  by (simp add: decoder_end_def split: prod.splits)

lemma flush_clears: "\<not> is_simple (encoding d) \<Longrightarrow> last_need (snd (decoder_flush d)) = 0"
  by (simp add: decoder_flush_def Let_def)

lemma streamed:
  assumes "\<not> is_simple (encoding d)" "\<forall>b\<in>set bufs. within_limit (encoding d) b"
    "feed_all write_bytes d bufs = (out, d')"
  shows "decode_stream d (map BufferChunk bufs) =
    (Inr (out @ fst (decoder_flush d')), snd (decoder_flush d'))"
  using write_all_feeds [OF assms(1,2)] assms(3) by (simp add: decode_stream_def decoder_end_none)

lemma utf8_stream_whole:
  assumes "utf8_sound d" "last_need d = 0" "no_bom_inside (concat bufs)" "feed_all write_bytes d bufs = (out, d')"
  shows "out @ fst (decoder_flush d') = to_string ''utf8'' (concat bufs) 0 (length (concat bufs))"
  using utf8.feed_all_decodes [OF assms(1) _ assms(4)] assms(2,3)
  by (simp add: pending_def to_string_utf8 subrange_def no_bom_inside_def drop_bom_id)

lemma base64_stream_whole:
  assumes "base64_sound enc d" "last_need d = 0" "feed_all write_bytes d bufs = (out, d')"
  shows "out @ fst (decoder_flush d') = to_string enc (concat bufs) 0 (length (concat bufs))"
proof -
  have "is_base64 enc" using assms(1) by (simp add: base64_sound_def)
  with base64_stream.feed_all_decodes [OF _ _ assms(3)] base64url_stream.feed_all_decodes [OF _ _ assms(3)] assms(1,2)
  show ?thesis by (auto simp: is_base64_def to_string_base64 pending_def subrange_def)
qed

lemma utf16_stream_whole:
  assumes "utf16_sound d" "last_need d = 0" "plain16 (concat bufs)" "feed_all write_bytes d bufs = (out, d')"
  shows "out @ fst (decoder_flush d') = to_string ''utf16le'' (concat bufs) 0 (length (concat bufs))"
  using utf16_stream.feed_all_decodes [OF assms(1) _ assms(4)] assms(2,3)
    to_string_utf16 [of "concat bufs" 0 "length (concat bufs)"]
  by (simp add: pending_def subrange_def)

lemma held_stream_whole:
  assumes "new_decoder arg = Inr d" "\<not> is_simple (encoding d)" "stream_clean (encoding d) (concat bufs)"
    "feed_all write_bytes d bufs = (out, d')"
  shows "out @ fst (decoder_flush d') = to_string (encoding d) (concat bufs) 0 (length (concat bufs))"
proof -
  note new = new_decoder_fresh [OF assms(1)]
  consider "encoding d = ''utf8''" | "encoding d = ''utf16le''" | "is_base64 (encoding d)"
    using assms(2) by (auto simp: is_simple_def)
  then show ?thesis
  proof cases
    case 1
    with new have "utf8_sound d" by (simp add: utf8_sound_def is_simple_def is_base64_def)
    from utf8_stream_whole [OF this _ _ assms(4)] 1 new assms(3) show ?thesis by (simp add: stream_clean_def)
  next
    case 2
    with new have "utf16_sound d" by (simp add: utf16_sound_def is_simple_def is_base64_def)
    from utf16_stream_whole [OF this _ _ assms(4)] 2 new assms(3) show ?thesis by (simp add: stream_clean_def)
  next
    case 3
    with new have "base64_sound (encoding d) d" by (simp add: base64_sound_def is_simple_def)
    from base64_stream_whole [OF this _ assms(4)] new show ?thesis by simp
  qed
qed

text \<open>C24: Wherever a clean stream of bytes is cut into chunks, each within the string limit, writing the
  chunks and ending the decoder gives the text the whole stream decodes to, with nothing left held.  Every
  stream is clean for base64, base64url, hex, ascii and latin1; a utf8 stream is when it
  decodes to no U+FEFF, however malformed it is; a utf16le stream when it has no surrogates and no U+FEFF,
  whether or not its length is even.  (A surrogate pair that is cut decodes otherwise:
  \<open>utf16_pair_cut\<close> below.)\<close>
theorem stream_cut_anywhere:
  assumes "new_decoder arg = Inr d" "\<forall>b\<in>set bufs. within_limit (encoding d) b"
    "stream_clean (encoding d) (concat bufs)"
  shows "fst (decode_stream d (map BufferChunk bufs)) =
      Inr (to_string (encoding d) (concat bufs) 0 (length (concat bufs))) \<and>
    last_need (snd (decode_stream d (map BufferChunk bufs))) = 0"
proof (cases "is_simple (encoding d)")
  case True
  with assms new_decoder_fresh [OF assms(1)] show ?thesis
    by (simp add: decode_stream_def write_all_simple decoder_end_none decoder_flush_def simple_concat)
next
  case False
  obtain out d' where f: "feed_all write_bytes d bufs = (out, d')" by fastforce
  have "encoding d' = encoding d" using f
  proof (induction bufs arbitrary: d out)
    case (Cons b bs)
    then show ?case using write_encoding by (auto split: prod.splits)
  qed simp
  with streamed [OF False assms(2) f] held_stream_whole [OF assms(1) False assms(3) f] False show ?thesis
    by (simp add: flush_clears)
qed

lemma euro_decodes: "utf8_decode [0xE2, 0x82, 0xAC] = [0x20AC]"
  by (simp add: utf8_decode_def utf8_start.simps units_of_def)

definition fresh_decoder :: "encoding_name \<Rightarrow> decoder" where
  "fresh_decoder enc = \<lparr>encoding = enc, last_char = replicate 4 0, last_need = 0, last_total = 0\<rparr>"

lemma named_decoders:
  "new_decoder (EncodingName ''UTF-8'') = Inr (fresh_decoder ''utf8'')"
  "new_decoder (EncodingName ''utf16le'') = Inr (fresh_decoder ''utf16le'')"
proof -
  have "normalize_encoding (EncodingName ''UTF-8'') = Inr ''utf8''"
    "normalize_encoding (EncodingName ''utf16le'') = Inr ''utf16le''" by code_simp+
  then show "new_decoder (EncodingName ''UTF-8'') = Inr (fresh_decoder ''utf8'')"
    "new_decoder (EncodingName ''utf16le'') = Inr (fresh_decoder ''utf16le'')"
    by (simp_all add: new_decoder_def fresh_decoder_def is_simple_def is_base64_def)
qed

lemma stream_cut_anywhere_witness:
  "fst (decode_stream (fresh_decoder ''utf8'') (map BufferChunk [[0xE2], [0x82], [0xAC]])) = Inr [0x20AC]"
proof -
  have "fst (decode_stream (fresh_decoder ''utf8'') (map BufferChunk [[0xE2], [0x82], [0xAC]])) =
      Inr (to_string ''utf8'' [0xE2, 0x82, 0xAC] 0 3)"
    using stream_cut_anywhere [OF named_decoders(1), of "[[0xE2], [0x82], [0xAC]]"]
    by (simp add: within_limit_def half_chars_per_byte_def k_string_max_length_def stream_clean_def
        no_bom_inside_def euro_decodes fresh_decoder_def numeral_3_eq_3)
  then show ?thesis by (simp add: to_string_utf8 subrange_def euro_decodes drop_bom_def)
qed

subsection \<open>What the decoder refuses\<close>

fun chunk_bytes :: "chunk \<Rightarrow> bytes option" where
  "chunk_bytes (BufferChunk bs) = Some bs"
| "chunk_bytes (ArrayChunk bs) = Some bs"
| "chunk_bytes (DataViewChunk bs) = Some bs"
| "chunk_bytes (TextChunk s) = None"
| "chunk_bytes (OtherValue l) = None"

text \<open>A write refuses exactly a value that is neither bytes nor a string, with
  ERR\_INVALID\_ARG\_TYPE, and bytes that could decode to more than the longest string,
  with ERR\_STRING\_TOO\_LONG; a refused write leaves the decoder as it was.\<close>
theorem write_refuses:
  "decoder_write d c = (Inl e, d') \<longleftrightarrow>
     d' = d \<and>
     ((\<exists>l. c = OtherValue l) \<and> e = ERR_INVALID_ARG_TYPE \<or>
      (\<exists>bs. chunk_bytes c = Some bs \<and> \<not> within_limit (encoding d) bs) \<and> e = ERR_STRING_TOO_LONG)"
  by (cases c) (auto simp: decoder_write_def decoder_input_def within_limit_def Let_def split: prod.splits)

subsection \<open>Where the decoder and Node part\<close>

text \<open>A surrogate pair cut between its units decodes to two U+FFFD: the platform's
  decoder has replaced the lone lead before \<open>utf16Text\<close> looks for one.\<close>

lemma slice_of_pair:
  "ucs2_slice [0x3D, 0xD8] None None = [0xFFFD]" "ucs2_slice [0x00, 0xDE] None None = [0xFFFD]"
  "ucs2_slice [0x3D, 0xD8, 0x00, 0xDE] None None = [0xD83D, 0xDE00]"
  by (simp_all add: ucs2_slice_whole utf16le_decode_def lead_surrogate_def trail_surrogate_def
      units_of_def drop_bom_def)

lemma utf16_pair_cut:
  "fst (decode_stream (fresh_decoder ''utf16le'') [BufferChunk [0x3D, 0xD8], BufferChunk [0x00, 0xDE]]) =
     Inr [0xFFFD, 0xFFFD]"
  "to_string ''utf16le'' [0x3D, 0xD8, 0x00, 0xDE] 0 4 = [0xD83D, 0xDE00]"
  by (simp_all add: decode_stream_def decoder_write_def decoder_input_def fresh_decoder_def half_chars_per_byte_def
      k_string_max_length_def is_simple_def is_base64_def write_bytes_def decoder_text_def utf16_text_def
      to_string_def subrange_def slice_of_pair lead_surrogate_def decoder_end_def decoder_flush_def)

text \<open>\<open>end\<close> asks the chunk's length first, which a DataView does not have, and drops it.\<close>

lemma end_drops_data_view:
  "decoder_end d (Some (DataViewChunk bs)) = decoder_end d None"
  by (simp add: decoder_end_def)

end
