(* ===== verification/ProcessRegistry.thy ===== *)
theory ProcessRegistry
  imports Prelude
begin

text \<open>
  \<open>src/src/process-registry.ts\<close>: the engine's own process registry, a table of the
  realm's processes (\<open>createProcessRegistryOwner\<close>).  An \<open>owner\<close> holds the pid counter,
  the numbers held, the live processes and which scope answers for each; a \<open>scope\<close> is
  one realm's view, by its place in the owner's list.  An operation takes the owner and
  returns its result or the error thrown, with the owner changed.

  The allocator an embedder installs is not under src: its answers are a sequence,
  \<open>answers\<close>, read from place \<open>asked\<close> on.  A scope's signal handler is not either: a
  handler is a number and \<open>handle\<close> says what each does to the owner it is called in.
\<close>

type_synonym pid = int
type_synonym token = string

text \<open>
  A run's identity.  An entry of the tables is an object, and two objects of equal contents
  are two: \<open>id_entry\<close> says which one it is, the number of entries made before it.
\<close>

record identity =
  id_pid :: pid
  id_ppid :: pid
  id_pgid :: "int option"
  id_argv :: "string list option"
  id_cwd :: "string option"
  id_env :: "string list option"
  id_started :: "int option"
  id_entry :: nat

record scope =
  allocated :: "pid set"
  claimed :: "pid set"
  runs :: "(token \<times> identity) list"
  disposed :: bool
  handler :: "nat option"

record owner =
  next_pid :: pid
  allocator :: bool
  asked :: nat
  held :: "pid set"
  live :: "(pid \<times> identity) list"
  receivers :: "(pid \<times> nat) list"
  scopes :: "scope list"
  entries :: nat

datatype registry_error =
  ScopeClosed | SpaceExhausted | InvalidPid | AlreadyHeld | GroupCannotChange | NotOwnedByRun |
  InvalidParent | ParentNotOwned | InvalidGroup | KillEINVAL

type_synonym 'a registry_result = "(registry_error + 'a) \<times> owner"

abbreviation max_pid :: int where "max_pid \<equiv> 0x7fffffff"

definition described_identity :: "identity \<Rightarrow> identity" where
  "described_identity i =
     i\<lparr>id_argv := (case id_argv i of Some a \<Rightarrow> if length a \<le> 4096 then Some a else None | None \<Rightarrow> None),
       id_cwd := (case id_cwd i of Some d \<Rightarrow> if prefix ''/'' d then Some d else None | None \<Rightarrow> None),
       id_env := (case id_env i of
           Some e \<Rightarrow> if length e \<le> 65536 \<and> list_all (\<lambda>x. CHR ''='' \<in> set x) e then Some e else None
         | None \<Rightarrow> None)\<rparr>"

definition update_scope :: "nat \<Rightarrow> (scope \<Rightarrow> scope) \<Rightarrow> owner \<Rightarrow> owner" where
  "update_scope s f ow = ow\<lparr>scopes := (scopes ow)[s := f (scopes ow ! s)]\<rparr>"

definition taken :: "owner \<Rightarrow> pid \<Rightarrow> bool" where
  "taken ow p \<longleftrightarrow> p \<in> held ow \<or> map_of (live ow) p \<noteq> None"

definition create_scope :: "owner \<Rightarrow> nat \<times> owner" where
  "create_scope ow =
     (length (scopes ow),
      ow\<lparr>scopes := scopes ow @ [\<lparr>allocated = {}, claimed = {}, runs = [], disposed = False, handler = None\<rparr>]\<rparr>)"

definition install_allocator :: "owner \<Rightarrow> owner" where
  "install_allocator ow = ow\<lparr>allocator := True\<rparr>"

definition new_owner :: "pid \<Rightarrow> owner" where
  "new_owner first =
     \<lparr>next_pid = first, allocator = False, asked = 0, held = {}, live = [], receivers = [], scopes = [],
      entries = 0\<rparr>"

subsection \<open>Numbers\<close>

definition draw :: "(nat \<Rightarrow> int) \<Rightarrow> owner \<Rightarrow> pid \<times> owner" where
  "draw answers ow =
     (if allocator ow then (answers (asked ow), ow\<lparr>asked := asked ow + 1\<rparr>)
      else (next_pid ow, ow\<lparr>next_pid := next_pid ow + 1\<rparr>))"

text \<open>The loop of \<open>allocate\<close>, which an allocator that only names held numbers keeps going.\<close>

partial_function (option) allocate_loop :: "(nat \<Rightarrow> int) \<Rightarrow> nat \<Rightarrow> owner \<Rightarrow> pid registry_result option" where
  "allocate_loop answers s ow =
     (if \<not> allocator ow \<and> max_pid < next_pid ow then Some (Inl SpaceExhausted, ow)
      else let (p, ow) = draw answers ow
           in if p < 2 \<or> max_pid < p then Some (Inl SpaceExhausted, ow)
              else if taken ow p then allocate_loop answers s ow
              else Some (Inr p, update_scope s (\<lambda>sc. sc\<lparr>allocated := insert p (allocated sc)\<rparr>)
                                  (ow\<lparr>held := insert p (held ow)\<rparr>)))"

definition allocate :: "(nat \<Rightarrow> int) \<Rightarrow> nat \<Rightarrow> owner \<Rightarrow> pid registry_result option" where
  "allocate answers s ow =
     (if disposed (scopes ow ! s) then Some (Inl ScopeClosed, ow) else allocate_loop answers s ow)"

definition claim :: "nat \<Rightarrow> pid \<Rightarrow> owner \<Rightarrow> unit registry_result" where
  "claim s p ow =
     (if disposed (scopes ow ! s) then (Inl ScopeClosed, ow)
      else if p < 2 \<or> max_pid < p then (Inl InvalidPid, ow)
      else if taken ow p then (Inl AlreadyHeld, ow)
      else (Inr (), update_scope s
              (\<lambda>sc. sc\<lparr>allocated := insert p (allocated sc), claimed := insert p (claimed sc)\<rparr>)
              (ow\<lparr>held := insert p (held ow)\<rparr>)))"

subsection \<open>Runs\<close>

definition parent_of :: "scope \<Rightarrow> identity \<Rightarrow> identity option" where
  "parent_of sc i = find (\<lambda>r. id_pid r = id_ppid i) (map snd (runs sc))"

definition inherited_group :: "scope \<Rightarrow> identity \<Rightarrow> int" where
  "inherited_group sc i =
     (case parent_of sc i of
        None \<Rightarrow> id_pid i
      | Some r \<Rightarrow> (case id_pgid r of Some g \<Rightarrow> g | None \<Rightarrow> id_pid r))"

definition publish_new :: "nat \<Rightarrow> token \<Rightarrow> identity \<Rightarrow> owner \<Rightarrow> unit registry_result" where
  "publish_new s t i ow =
     (let sc = scopes ow ! s;
          inherited = inherited_group sc i;
          pgid = (case id_pgid i of Some g \<Rightarrow> g | None \<Rightarrow> inherited)
      in if id_ppid i < 0 \<or> max_pid < id_ppid i then (Inl InvalidParent, ow)
         else if id_ppid i \<noteq> 0 \<and> parent_of sc i = None \<and> id_pid i \<notin> claimed sc then (Inl ParentNotOwned, ow)
         else if pgid < 1 \<or> max_pid < pgid \<or> (pgid \<noteq> id_pid i \<and> pgid \<noteq> inherited) then (Inl InvalidGroup, ow)
         else let entry = (described_identity (i\<lparr>id_pgid := Some pgid\<rparr>))\<lparr>id_entry := entries ow\<rparr>
              in (Inr (), update_scope s (\<lambda>sc. sc\<lparr>runs := AList.update t entry (runs sc)\<rparr>)
                    (ow\<lparr>live := AList.update (id_pid entry) entry (live ow),
                        receivers := AList.update (id_pid entry) s (receivers ow),
                        entries := Suc (entries ow)\<rparr>)))"

definition publish :: "nat \<Rightarrow> token \<Rightarrow> identity \<Rightarrow> owner \<Rightarrow> unit registry_result" where
  "publish s t i ow =
     (let sc = scopes ow ! s
      in if disposed sc then (Inl ScopeClosed, ow)
         else case map_of (runs sc) t of
                Some previous \<Rightarrow>
                  if id_pid previous = id_pid i \<and> id_ppid previous = id_ppid i
                  then (if id_pgid i \<noteq> None \<and> id_pgid i \<noteq> id_pgid previous then (Inl GroupCannotChange, ow)
                        else (Inr (), ow))
                  else (Inl NotOwnedByRun, ow)
              | None \<Rightarrow>
                  if id_pid i \<notin> allocated sc \<or> map_of (live ow) (id_pid i) \<noteq> None
                  then (Inl NotOwnedByRun, ow)
                  else publish_new s t i ow)"

definition exec_run :: "nat \<Rightarrow> token \<Rightarrow> identity \<Rightarrow> owner \<Rightarrow> unit registry_result" where
  "exec_run s t i ow =
     (case claim s (id_pid i) ow of
        (Inl e, ow) \<Rightarrow> (Inl e, ow)
      | (Inr _, ow) \<Rightarrow> publish s t i ow)"

definition reap :: "int \<Rightarrow> string option \<Rightarrow> int \<times> string option" where
  "reap code signal = (code, signal)"

definition forget :: "nat \<Rightarrow> token \<Rightarrow> owner \<Rightarrow> unit registry_result" where
  "forget s t ow =
     (let sc = scopes ow ! s
      in if disposed sc then (Inl ScopeClosed, ow)
         else case map_of (runs sc) t of
                None \<Rightarrow> (Inr (), ow)
              | Some entry \<Rightarrow>
                  (let p = id_pid entry
                   in (Inr (), update_scope s
                         (\<lambda>sc. sc\<lparr>runs := AList.delete t (runs sc), allocated := allocated sc - {p},
                                 claimed := claimed sc - {p}\<rparr>)
                         (ow\<lparr>live := AList.delete p (live ow), receivers := AList.delete p (receivers ow),
                             held := held ow - {p}\<rparr>))))"

definition dispose :: "nat \<Rightarrow> owner \<Rightarrow> owner" where
  "dispose s ow =
     (let sc = scopes ow ! s
      in if disposed sc then ow
         else update_scope s
                (\<lambda>sc. sc\<lparr>disposed := True, handler := None, runs := [], allocated := {}, claimed := {}\<rparr>)
                (ow\<lparr>live := fold (\<lambda>r. AList.delete (id_pid r)) (map snd (runs sc)) (live ow),
                    receivers := fold (\<lambda>r. AList.delete (id_pid r)) (map snd (runs sc)) (receivers ow),
                    held := held ow - allocated sc\<rparr>))"

definition receive_signals :: "nat \<Rightarrow> nat \<Rightarrow> owner \<Rightarrow> unit registry_result" where
  "receive_signals s h ow =
     (if disposed (scopes ow ! s) then (Inl ScopeClosed, ow)
      else (Inr (), update_scope s (\<lambda>sc. sc\<lparr>handler := Some h\<rparr>) ow))"

subsection \<open>Signals\<close>

type_synonym handlers = "nat \<Rightarrow> pid \<Rightarrow> string \<Rightarrow> owner \<Rightarrow> bool \<times> owner"

definition lookup :: "nat \<Rightarrow> pid \<Rightarrow> owner \<Rightarrow> identity option registry_result" where
  "lookup s p ow =
     (if disposed (scopes ow ! s) then (Inl ScopeClosed, ow) else (Inr (map_of (live ow) p), ow))"

definition in_group :: "int option \<Rightarrow> identity \<Rightarrow> bool" where
  "in_group g i \<longleftrightarrow> id_pgid i = g"

definition exists_target :: "nat \<Rightarrow> pid \<Rightarrow> pid option \<Rightarrow> owner \<Rightarrow> bool" where
  "exists_target s p caller ow =
     (let sc = scopes ow ! s; all = map snd (live ow)
      in if 0 < p then map_of (live ow) p \<noteq> None \<or> (Some p = caller \<and> p \<in> allocated sc)
         else if p = -1 then list_ex (\<lambda>i. Some (id_pid i) \<noteq> caller \<and> id_pid i \<noteq> 1) all
         else let pgid = (if p = 0
                          then (case map_of (live ow) (case caller of Some c \<Rightarrow> c | None \<Rightarrow> 0) of
                                  Some i \<Rightarrow> (case id_pgid i of Some g \<Rightarrow> Some g | None \<Rightarrow> caller)
                                | None \<Rightarrow> caller)
                          else Some (- p))
              in (p = 0 \<and> (case caller of Some c \<Rightarrow> c \<in> allocated sc | None \<Rightarrow> False)) \<or>
                 list_ex (in_group pgid) all)"

definition deliver :: "handlers \<Rightarrow> pid \<Rightarrow> string \<Rightarrow> owner \<Rightarrow> bool \<times> owner" where
  "deliver handle p sig ow =
     (case map_of (receivers ow) p of
        None \<Rightarrow> (False, ow)
      | Some s \<Rightarrow> (case handler (scopes ow ! s) of None \<Rightarrow> (False, ow) | Some h \<Rightarrow> handle h p sig ow))"

definition signal :: "handlers \<Rightarrow> nat \<Rightarrow> pid \<Rightarrow> string \<Rightarrow> pid option \<Rightarrow> owner \<Rightarrow> bool registry_result" where
  "signal handle s p sig caller ow =
     (if disposed (scopes ow ! s) then (Inl ScopeClosed, ow)
      else if sig = ''0''
      then (if p < - 0x80000000 \<or> max_pid < p then (Inl KillEINVAL, ow)
            else (Inr (exists_target s p caller ow), ow))
      else if map_of (live ow) p = None then (Inr False, ow)
      else (let (took, ow) = deliver handle p sig ow in (Inr took, ow)))"

definition lookup_group :: "nat \<Rightarrow> int \<Rightarrow> owner \<Rightarrow> bool registry_result" where
  "lookup_group s g ow =
     (if disposed (scopes ow ! s) then (Inl ScopeClosed, ow)
      else (Inr (list_ex (in_group (Some g)) (map snd (live ow))), ow))"

text \<open>\<open>live.get(pid) === identity\<close>: the entry is the very object of the snapshot.\<close>

definition same_entry :: "owner \<Rightarrow> identity \<Rightarrow> bool" where
  "same_entry ow i \<longleftrightarrow> (case map_of (live ow) (id_pid i) of Some j \<Rightarrow> id_entry j = id_entry i | None \<Rightarrow> False)"

fun deliver_each :: "handlers \<Rightarrow> string \<Rightarrow> identity list \<Rightarrow> owner \<Rightarrow> bool \<times> owner" where
  "deliver_each handle sig [] ow = (False, ow)"
| "deliver_each handle sig (i # rest) ow =
     (let (took, ow) = (if same_entry ow i then deliver handle (id_pid i) sig ow
                        else (False, ow));
          (delivered, ow) = deliver_each handle sig rest ow
      in (took \<or> delivered, ow))"

definition signal_group :: "handlers \<Rightarrow> nat \<Rightarrow> int \<Rightarrow> string \<Rightarrow> owner \<Rightarrow> bool registry_result" where
  "signal_group handle s g sig ow =
     (if disposed (scopes ow ! s) then (Inl ScopeClosed, ow)
      else let members = filter (in_group (Some g)) (map snd (live ow))
           in if sig = ''0'' then (Inr (members \<noteq> []), ow)
              else (let (delivered, ow) = deliver_each handle sig members ow in (Inr delivered, ow)))"

end
