(* ===== verification/ProcessRegistryInv.thy ===== *)
theory ProcessRegistryInv
  imports ProcessRegistry
begin

text \<open>
  The registry's invariant: numbers are held by one scope each, and the live table, the
  receivers and the scopes' runs agree.  Every operation keeps it, so every reachable
  owner has it.
\<close>

named_theorems registry_simps \<open>how an operation changes the owner's tables\<close>

subsection \<open>The tables\<close>

lemma scope_update [registry_simps]:
  "s < length (scopes ow) \<Longrightarrow>
   scopes (update_scope s f ow) ! s' = (if s' = s then f (scopes ow ! s) else scopes ow ! s')"
  by (simp add: update_scope_def nth_list_update)

lemma update_scope_fields [registry_simps, simp]:
  "length (scopes (update_scope s f ow)) = length (scopes ow)"
  "held (update_scope s f ow) = held ow" "live (update_scope s f ow) = live ow"
  "receivers (update_scope s f ow) = receivers ow" "next_pid (update_scope s f ow) = next_pid ow"
  "allocator (update_scope s f ow) = allocator ow" "asked (update_scope s f ow) = asked ow"
  "entries (update_scope s f ow) = entries ow"
  by (simp_all add: update_scope_def)

lemma update_scope_comm [registry_simps]:
  "update_scope s f (ow\<lparr>held := h\<rparr>) = (update_scope s f ow)\<lparr>held := h\<rparr>"
  "update_scope s f (ow\<lparr>live := l\<rparr>) = (update_scope s f ow)\<lparr>live := l\<rparr>"
  "update_scope s f (ow\<lparr>receivers := r\<rparr>) = (update_scope s f ow)\<lparr>receivers := r\<rparr>"
  "update_scope s f (ow\<lparr>entries := e\<rparr>) = (update_scope s f ow)\<lparr>entries := e\<rparr>"
  by (simp_all add: update_scope_def)

lemma fold_delete:
  "map_of (fold (\<lambda>r. AList.delete (id_pid r)) rs m) p = (if p \<in> id_pid ` set rs then None else map_of m p)"
  by (induction rs arbitrary: m) auto

text \<open>A scope by its place; a place no scope has is a scope that holds nothing.\<close>

definition no_scope :: scope where
  "no_scope = \<lparr>allocated = {}, claimed = {}, runs = [], disposed = False, handler = None\<rparr>"

definition scope_at :: "owner \<Rightarrow> nat \<Rightarrow> scope" where
  "scope_at ow s = (if s < length (scopes ow) then scopes ow ! s else no_scope)"

lemma scope_at_in: "s < length (scopes ow) \<Longrightarrow> scopes ow ! s = scope_at ow s"
  by (simp add: scope_at_def)

lemma scope_at_update [registry_simps]:
  "s < length (scopes ow) \<Longrightarrow> scope_at (update_scope s f ow) = (scope_at ow)(s := f (scope_at ow s))"
  by (auto simp: scope_at_def update_scope_def nth_list_update fun_eq_iff)

lemma scope_at_fields [registry_simps, simp]:
  "scope_at (ow\<lparr>held := h\<rparr>) = scope_at ow" "scope_at (ow\<lparr>live := l\<rparr>) = scope_at ow"
  "scope_at (ow\<lparr>receivers := r\<rparr>) = scope_at ow" "scope_at (ow\<lparr>next_pid := n\<rparr>) = scope_at ow"
  "scope_at (ow\<lparr>asked := k\<rparr>) = scope_at ow" "scope_at (ow\<lparr>allocator := b\<rparr>) = scope_at ow"
  "scope_at (ow\<lparr>entries := e\<rparr>) = scope_at ow"
  by (simp_all add: scope_at_def fun_eq_iff)

lemma scope_at_create [registry_simps]: "scope_at (snd (create_scope ow)) = scope_at ow"
  by (auto simp: scope_at_def create_scope_def nth_append no_scope_def fun_eq_iff)

subsection \<open>The invariant, over the tables as functions\<close>

text \<open>\<open>A\<close> and \<open>C\<close> are the numbers each scope has allocated and claimed, \<open>H\<close> those held, \<open>R\<close>
  the scopes' runs, \<open>L\<close> the live processes, \<open>V\<close> their receivers.\<close>

definition numbers_ok :: "(nat \<Rightarrow> pid set) \<Rightarrow> (nat \<Rightarrow> pid set) \<Rightarrow> pid set \<Rightarrow> bool" where
  "numbers_ok A C H \<longleftrightarrow>
     (\<forall>s. A s \<subseteq> H \<and> C s \<subseteq> A s) \<and> (\<forall>s s' p. p \<in> A s \<longrightarrow> p \<in> A s' \<longrightarrow> s = s') \<and>
     (\<forall>p\<in>H. 2 \<le> p \<and> p \<le> max_pid \<and> (\<exists>s. p \<in> A s))"

definition runs_ok ::
    "(nat \<Rightarrow> pid set) \<Rightarrow> (nat \<Rightarrow> token \<Rightarrow> identity option) \<Rightarrow> (pid \<Rightarrow> identity option) \<Rightarrow> (pid \<Rightarrow> nat option) \<Rightarrow> bool" where
  "runs_ok A R L V \<longleftrightarrow>
     (\<forall>s t i. R s t = Some i \<longrightarrow> id_pid i \<in> A s \<and> L (id_pid i) = Some i \<and> V (id_pid i) = Some s \<and>
        id_pgid i \<noteq> None) \<and>
     (\<forall>s t t' i i'. R s t = Some i \<longrightarrow> R s t' = Some i' \<longrightarrow> id_pid i = id_pid i' \<longrightarrow> t = t') \<and>
     (\<forall>p i. L p = Some i \<longrightarrow> id_pid i = p \<and> (\<exists>s t. R s t = Some i)) \<and>
     (\<forall>p. V p = None \<longleftrightarrow> L p = None)"

definition alloc_of :: "owner \<Rightarrow> nat \<Rightarrow> pid set" where
  "alloc_of ow s = allocated (scope_at ow s)"

definition claims_of :: "owner \<Rightarrow> nat \<Rightarrow> pid set" where
  "claims_of ow s = claimed (scope_at ow s)"

definition run_of :: "owner \<Rightarrow> nat \<Rightarrow> token \<Rightarrow> identity option" where
  "run_of ow s = map_of (runs (scope_at ow s))"

text \<open>A scope's list of runs has no token twice, and a scope closed has nothing.\<close>

definition scope_ok :: "scope \<Rightarrow> bool" where
  "scope_ok sc \<longleftrightarrow> distinct_keys (runs sc) \<and>
     (disposed sc \<longrightarrow> allocated sc = {} \<and> runs sc = [] \<and> handler sc = None)"

definition registry_inv :: "owner \<Rightarrow> bool" where
  "registry_inv ow \<longleftrightarrow>
     numbers_ok (alloc_of ow) (claims_of ow) (held ow) \<and>
     runs_ok (alloc_of ow) (run_of ow) (map_of (live ow)) (map_of (receivers ow)) \<and>
     (\<forall>s. scope_ok (scope_at ow s))"

lemma tables_fold:
  "allocated (scope_at ow s) = alloc_of ow s" "claimed (scope_at ow s) = claims_of ow s"
  "map_of (runs (scope_at ow s)) = run_of ow s"
  by (simp_all add: alloc_of_def claims_of_def run_of_def)

lemma tables_update [registry_simps]:
  assumes "s < length (scopes ow)"
  shows "alloc_of (update_scope s f ow) = (alloc_of ow)(s := allocated (f (scope_at ow s)))"
    "claims_of (update_scope s f ow) = (claims_of ow)(s := claimed (f (scope_at ow s)))"
    "run_of (update_scope s f ow) = (run_of ow)(s := map_of (runs (f (scope_at ow s))))"
  using assms by (auto simp: alloc_of_def claims_of_def run_of_def scope_at_update fun_eq_iff)

lemma tables_fields [registry_simps, simp]:
  "alloc_of (ow\<lparr>held := h\<rparr>) = alloc_of ow" "alloc_of (ow\<lparr>live := l\<rparr>) = alloc_of ow"
  "alloc_of (ow\<lparr>receivers := r\<rparr>) = alloc_of ow" "alloc_of (ow\<lparr>next_pid := n\<rparr>) = alloc_of ow"
  "alloc_of (ow\<lparr>asked := k\<rparr>) = alloc_of ow" "alloc_of (ow\<lparr>allocator := b\<rparr>) = alloc_of ow"
  "claims_of (ow\<lparr>held := h\<rparr>) = claims_of ow" "claims_of (ow\<lparr>live := l\<rparr>) = claims_of ow"
  "claims_of (ow\<lparr>receivers := r\<rparr>) = claims_of ow" "claims_of (ow\<lparr>next_pid := n\<rparr>) = claims_of ow"
  "claims_of (ow\<lparr>asked := k\<rparr>) = claims_of ow" "claims_of (ow\<lparr>allocator := b\<rparr>) = claims_of ow"
  "run_of (ow\<lparr>held := h\<rparr>) = run_of ow" "run_of (ow\<lparr>live := l\<rparr>) = run_of ow"
  "run_of (ow\<lparr>receivers := r\<rparr>) = run_of ow" "run_of (ow\<lparr>next_pid := n\<rparr>) = run_of ow"
  "run_of (ow\<lparr>asked := k\<rparr>) = run_of ow" "run_of (ow\<lparr>allocator := b\<rparr>) = run_of ow"
  "alloc_of (ow\<lparr>entries := e\<rparr>) = alloc_of ow" "claims_of (ow\<lparr>entries := e\<rparr>) = claims_of ow"
  "run_of (ow\<lparr>entries := e\<rparr>) = run_of ow"
  by (simp_all add: alloc_of_def claims_of_def run_of_def fun_eq_iff)

lemma tables_create [registry_simps]:
  "alloc_of (snd (create_scope ow)) = alloc_of ow" "claims_of (snd (create_scope ow)) = claims_of ow"
  "run_of (snd (create_scope ow)) = run_of ow"
  by (simp_all add: alloc_of_def claims_of_def run_of_def scope_at_create fun_eq_iff)

subsection \<open>Each change of the tables\<close>

lemma numbers_hold:
  assumes "numbers_ok A C H" "p \<notin> H" "2 \<le> p" "p \<le> max_pid" "B = C s \<or> B = insert p (C s)"
  shows "numbers_ok (A(s := insert p (A s))) (C(s := B)) (insert p H)"
  using assms unfolding numbers_ok_def
  by (auto split: if_splits)

lemma runs_hold: "runs_ok A R L V \<Longrightarrow> runs_ok (A(s := insert p (A s))) R L V"
  unfolding runs_ok_def by (auto split: if_splits)

lemma numbers_release:
  "numbers_ok A C H \<Longrightarrow> p \<in> A s \<Longrightarrow> numbers_ok (A(s := A s - {p})) (C(s := C s - {p})) (H - {p})"
  unfolding numbers_ok_def by (auto split: if_splits)

lemma runs_forget:
  assumes "runs_ok A R L V" "R s t = Some i"
  shows "runs_ok (A(s := A s - {id_pid i})) (R(s := (R s)(t := None))) (L(id_pid i := None)) (V(id_pid i := None))"
proof -
  have r: "\<And>s' t' j. R s' t' = Some j \<Longrightarrow> id_pid j = id_pid i \<Longrightarrow> s' = s \<and> t' = t"
    using assms unfolding runs_ok_def by (metis option.inject)
  have l: "\<And>p j. L p = Some j \<Longrightarrow> p \<noteq> id_pid i \<Longrightarrow> \<exists>s' t'. (R(s := (R s)(t := None))) s' t' = Some j"
  proof -
    fix p j assume "L p = Some j" "p \<noteq> id_pid i"
    then obtain s' t' where "R s' t' = Some j" "id_pid j = p" using assms(1) unfolding runs_ok_def by blast
    with \<open>p \<noteq> id_pid i\<close> assms(2) have "\<not> (s' = s \<and> t' = t)" by auto
    with \<open>R s' t' = Some j\<close> have "(R(s := (R s)(t := None))) s' t' = Some j" by auto
    then show "\<exists>s' t'. (R(s := (R s)(t := None))) s' t' = Some j" by blast
  qed
  have k: "\<And>s' t' j. (R(s := (R s)(t := None))) s' t' = Some j \<Longrightarrow> R s' t' = Some j \<and> id_pid j \<noteq> id_pid i"
    using r by (auto split: if_splits)
  show ?thesis
    unfolding runs_ok_def
  proof (intro conjI allI impI)
    fix s' t' j assume "(R(s := (R s)(t := None))) s' t' = Some j"
    note kj = k [OF this]
    with assms(1) have "id_pid j \<in> A s'" "L (id_pid j) = Some j" "V (id_pid j) = Some s'" "id_pgid j \<noteq> None"
      unfolding runs_ok_def by blast+
    with kj show "id_pid j \<in> (A(s := A s - {id_pid i})) s'" "(L(id_pid i := None)) (id_pid j) = Some j"
      "(V(id_pid i := None)) (id_pid j) = Some s'" "id_pgid j \<noteq> None" by auto
  next
    fix s' t1 t2 i1 i2
    assume "(R(s := (R s)(t := None))) s' t1 = Some i1" "(R(s := (R s)(t := None))) s' t2 = Some i2"
      "id_pid i1 = id_pid i2"
    with k assms(1) show "t1 = t2" unfolding runs_ok_def by blast
  next
    fix p j assume "(L(id_pid i := None)) p = Some j"
    then have "L p = Some j" "p \<noteq> id_pid i" by (auto split: if_splits)
    with l assms(1) show "id_pid j = p" "\<exists>s' t'. (R(s := (R s)(t := None))) s' t' = Some j"
      unfolding runs_ok_def by blast+
  next
    fix p show "((V(id_pid i := None)) p = None) = ((L(id_pid i := None)) p = None)"
      using assms(1) unfolding runs_ok_def by simp
  qed
qed

lemma runs_publish:
  assumes "runs_ok A R L V" "R s t = None" "id_pid i \<in> A s" "L (id_pid i) = None" "id_pgid i \<noteq> None"
  shows "runs_ok A (R(s := (R s)(t \<mapsto> i))) (L(id_pid i \<mapsto> i)) (V(id_pid i \<mapsto> s))"
proof -
  have r: "\<And>s' t' j. R s' t' = Some j \<Longrightarrow> id_pid j \<noteq> id_pid i"
    using assms unfolding runs_ok_def by (metis option.distinct(1))
  have l: "\<And>p j. L p = Some j \<Longrightarrow> \<exists>s' t'. (R(s := (R s)(t \<mapsto> i))) s' t' = Some j"
    using assms(1,2) unfolding runs_ok_def by (metis fun_upd_apply option.distinct(1))
  show ?thesis
    using assms r l unfolding runs_ok_def by (auto split: if_splits)
qed

lemma numbers_dispose: "numbers_ok A C H \<Longrightarrow> numbers_ok (A(s := {})) (C(s := {})) (H - A s)"
  unfolding numbers_ok_def by (auto split: if_splits)

lemma runs_dispose:
  assumes "runs_ok A R L V" "P = id_pid ` ran (R s)"
  shows "runs_ok (A(s := {})) (R(s := Map.empty)) (\<lambda>p. if p \<in> P then None else L p)
    (\<lambda>p. if p \<in> P then None else V p)"
proof -
  have other: "id_pid j \<notin> P" if "R s' t = Some j" "s' \<noteq> s" for s' t j
  proof
    assume "id_pid j \<in> P"
    then obtain t' i where "R s t' = Some i" "id_pid i = id_pid j" using assms(2) by (auto simp: ran_def)
    with that assms(1) show False unfolding runs_ok_def by (metis option.inject)
  qed
  have l: "\<exists>s' t'. (R(s := Map.empty)) s' t' = Some j" if "L p = Some j" "p \<notin> P" for p j
  proof -
    from that(1) assms(1) obtain s' t' where "R s' t' = Some j" "id_pid j = p" unfolding runs_ok_def by blast
    moreover from this that(2) assms(2) have "s' \<noteq> s" by (auto simp: ran_def)
    ultimately show ?thesis by (intro exI [of _ s'] exI [of _ t']) auto
  qed
  show ?thesis
    unfolding runs_ok_def
  proof (intro conjI allI impI)
    fix s' t j assume "(R(s := Map.empty)) s' t = Some j"
    then have j: "R s' t = Some j" "s' \<noteq> s" by (auto split: if_splits)
    with assms(1) have "id_pid j \<in> A s'" "L (id_pid j) = Some j" "V (id_pid j) = Some s'" "id_pgid j \<noteq> None"
      unfolding runs_ok_def by blast+
    with j other [OF j] show "id_pid j \<in> (A(s := {})) s'" "(if id_pid j \<in> P then None else L (id_pid j)) = Some j"
      "(if id_pid j \<in> P then None else V (id_pid j)) = Some s'" "id_pgid j \<noteq> None" by auto
  next
    fix s' t1 t2 i1 i2
    assume "(R(s := Map.empty)) s' t1 = Some i1" "(R(s := Map.empty)) s' t2 = Some i2" "id_pid i1 = id_pid i2"
    then have "R s' t1 = Some i1" "R s' t2 = Some i2" by (auto split: if_splits)
    with \<open>id_pid i1 = id_pid i2\<close> assms(1) show "t1 = t2" unfolding runs_ok_def by blast
  next
    fix p j assume "(if p \<in> P then None else L p) = Some j"
    then have "L p = Some j" "p \<notin> P" by (auto split: if_splits)
    with l assms(1) show "id_pid j = p" "\<exists>s' t'. (R(s := Map.empty)) s' t' = Some j"
      unfolding runs_ok_def by blast+
  next
    fix p show "((if p \<in> P then None else V p) = None) = ((if p \<in> P then None else L p) = None)"
      using assms(1) unfolding runs_ok_def by simp
  qed
qed

subsection \<open>Every operation keeps the invariant\<close>

lemma inv_new: "registry_inv (new_owner first)"
  by (simp add: registry_inv_def numbers_ok_def runs_ok_def scope_at_def new_owner_def no_scope_def
      alloc_of_def claims_of_def run_of_def scope_ok_def)

lemma inv_install: "registry_inv ow \<Longrightarrow> registry_inv (install_allocator ow)"
  by (simp add: registry_inv_def install_allocator_def)

lemma inv_draw: "registry_inv ow \<Longrightarrow> registry_inv (snd (draw answers ow))"
  by (simp add: registry_inv_def draw_def)

lemma inv_create: "registry_inv ow \<Longrightarrow> registry_inv (snd (create_scope ow))"
  unfolding registry_inv_def tables_create scope_at_create by (simp add: create_scope_def)

lemma scopes_ok_update:
  "s < length (scopes ow) \<Longrightarrow> \<forall>k. scope_ok (scope_at ow k) \<Longrightarrow> scope_ok (f (scope_at ow s)) \<Longrightarrow>
   scope_ok (scope_at (update_scope s f ow) k)"
  by (simp add: scope_at_update)

lemma inv_receive:
  assumes "registry_inv ow" "s < length (scopes ow)"
  shows "registry_inv (snd (receive_signals s h ow))"
  using assms scopes_ok_update [of s ow "\<lambda>sc. sc\<lparr>handler := Some h\<rparr>"]
  by (auto simp: receive_signals_def registry_inv_def scope_at_in tables_update tables_fold scope_ok_def)

lemma inv_hold:
  assumes "registry_inv ow" "s < length (scopes ow)" "\<not> disposed (scope_at ow s)" "p \<notin> held ow"
    "2 \<le> p" "p \<le> max_pid"
    "\<And>sc. allocated (f sc) = insert p (allocated sc) \<and> runs (f sc) = runs sc \<and> disposed (f sc) = disposed sc \<and>
       (claimed (f sc) = claimed sc \<or> claimed (f sc) = insert p (claimed sc))"
  shows "registry_inv (update_scope s f (ow\<lparr>held := insert p (held ow)\<rparr>))"
proof -
  have n: "numbers_ok (alloc_of ow) (claims_of ow) (held ow)"
    and r: "runs_ok (alloc_of ow) (run_of ow) (map_of (live ow)) (map_of (receivers ow))"
    using assms(1) by (auto simp: registry_inv_def)
  have "claimed (f (scope_at ow s)) = claims_of ow s \<or> claimed (f (scope_at ow s)) = insert p (claims_of ow s)"
    using assms(7) by (metis tables_fold(2))
  then have "numbers_ok ((alloc_of ow)(s := insert p (alloc_of ow s)))
      ((claims_of ow)(s := claimed (f (scope_at ow s)))) (insert p (held ow))"
    using numbers_hold [OF n assms(4-6)] by blast
  moreover have "scope_ok (f (scope_at ow s))"
    using assms(1,3,7) by (simp add: registry_inv_def scope_ok_def)
  ultimately show ?thesis
    using assms(1,2,7) runs_hold [OF r, of s p]
    by (auto simp: registry_inv_def tables_update tables_fold scope_at_update)
qed

lemma inv_claim:
  assumes "registry_inv ow" "s < length (scopes ow)"
  shows "registry_inv (snd (claim s p ow))"
  using assms inv_hold [of ow s p]
  by (auto simp: claim_def scope_at_in taken_def)

lemma inv_forget:
  assumes "registry_inv ow" "s < length (scopes ow)"
  shows "registry_inv (snd (forget s t ow))"
proof (cases "disposed (scope_at ow s) \<or> run_of ow s t = None")
  case True
  with assms show ?thesis by (auto simp: forget_def scope_at_in tables_fold Let_def)
next
  case False
  then obtain i where i: "run_of ow s t = Some i" "\<not> disposed (scope_at ow s)" by auto
  have n: "numbers_ok (alloc_of ow) (claims_of ow) (held ow)"
    and r: "runs_ok (alloc_of ow) (run_of ow) (map_of (live ow)) (map_of (receivers ow))"
    using assms(1) by (auto simp: registry_inv_def)
  have a: "id_pid i \<in> alloc_of ow s" using r i(1) unfolding runs_ok_def by blast
  have "distinct_keys (AList.delete t (runs (scope_at ow s)))"
    using assms(1) by (simp add: registry_inv_def scope_ok_def distinct_delete)
  with assms i numbers_release [OF n a] runs_forget [OF r i(1)] show ?thesis
    by (auto simp: forget_def scope_at_in tables_fold registry_inv_def tables_update scope_at_update
        delete_conv' scope_ok_def Let_def)
qed

lemma described_fields [simp]:
  "id_pid (described_identity i) = id_pid i" "id_ppid (described_identity i) = id_ppid i"
  "id_pgid (described_identity i) = id_pgid i"
  by (simp_all add: described_identity_def)

definition publish_pgid :: "scope \<Rightarrow> identity \<Rightarrow> int" where
  "publish_pgid sc i = (case id_pgid i of Some g \<Rightarrow> g | None \<Rightarrow> inherited_group sc i)"

definition published :: "nat \<Rightarrow> scope \<Rightarrow> identity \<Rightarrow> identity" where
  "published k sc i = (described_identity (i\<lparr>id_pgid := Some (publish_pgid sc i)\<rparr>))\<lparr>id_entry := k\<rparr>"

lemma published_fields [simp]:
  "id_pid (published k sc i) = id_pid i" "id_pgid (published k sc i) = Some (publish_pgid sc i)"
  by (simp_all add: published_def)

definition record_run :: "nat \<Rightarrow> token \<Rightarrow> identity \<Rightarrow> owner \<Rightarrow> owner" where
  "record_run s t entry ow =
     update_scope s (\<lambda>sc. sc\<lparr>runs := AList.update t entry (runs sc)\<rparr>)
       (ow\<lparr>live := AList.update (id_pid entry) entry (live ow),
           receivers := AList.update (id_pid entry) s (receivers ow), entries := Suc (entries ow)\<rparr>)"

text \<open>What \<open>publish\<close> may answer: an error, nothing to do, or the run recorded.\<close>

lemma publish_cases:
  assumes "s < length (scopes ow)" "publish s t i ow = (r, ow')"
  shows "ow' = ow \<and> (isl r \<or> (\<exists>prev. run_of ow s t = Some prev \<and> id_pid prev = id_pid i)) \<or>
    ow' = record_run s t (published (entries ow) (scope_at ow s) i) ow \<and> r = Inr () \<and>
      run_of ow s t = None \<and> id_pid i \<in> alloc_of ow s \<and> map_of (live ow) (id_pid i) = None \<and>
      \<not> disposed (scope_at ow s)"
  using assms
  by (auto simp: publish_def publish_new_def Let_def scope_at_in tables_fold published_def publish_pgid_def
      record_run_def split: if_splits option.splits)

lemma inv_record:
  assumes "registry_inv ow" "s < length (scopes ow)" "run_of ow s t = None" "id_pid i \<in> alloc_of ow s"
    "map_of (live ow) (id_pid i) = None" "\<not> disposed (scope_at ow s)" "id_pgid i \<noteq> None"
  shows "registry_inv (record_run s t i ow)"
proof -
  have r: "runs_ok (alloc_of ow) (run_of ow) (map_of (live ow)) (map_of (receivers ow))"
    using assms(1) by (auto simp: registry_inv_def)
  have "distinct_keys (AList.update t i (runs (scope_at ow s)))"
    using assms(1) by (simp add: registry_inv_def scope_ok_def distinct_update)
  with assms runs_publish [where s = s and t = t, OF r assms(3,4,5,7)] show ?thesis
    by (auto simp: record_run_def registry_inv_def tables_update tables_fold scope_at_update update_conv' scope_ok_def
        fun_upd_triv [of "alloc_of ow"])
qed

lemma inv_publish:
  assumes "registry_inv ow" "s < length (scopes ow)"
  shows "registry_inv (snd (publish s t i ow))"
  using publish_cases [OF assms(2), of t i "fst (publish s t i ow)" "snd (publish s t i ow)"]
    inv_record [OF assms] assms(1) by auto

lemma length_scopes:
  "length (scopes (snd (claim s p ow))) = length (scopes ow)"
  "length (scopes (snd (publish s t i ow))) = length (scopes ow)"
  "length (scopes (snd (forget s t ow))) = length (scopes ow)"
  "length (scopes (dispose s ow)) = length (scopes ow)"
  by (auto simp: claim_def publish_def publish_new_def forget_def dispose_def Let_def split: option.splits)

lemma inv_exec:
  assumes "registry_inv ow" "s < length (scopes ow)"
  shows "registry_inv (snd (exec_run s t i ow))"
  using inv_claim [OF assms, of "id_pid i"] inv_publish length_scopes(1) [of s "id_pid i" ow] assms
  by (auto simp: exec_run_def split: prod.splits sum.splits)

lemma ran_runs: "distinct_keys m \<Longrightarrow> id_pid ` ran (map_of m) = id_pid ` set (map snd m)"
  by (simp add: ran_distinct)

lemma inv_dispose:
  assumes "registry_inv ow" "s < length (scopes ow)"
  shows "registry_inv (dispose s ow)"
proof (cases "disposed (scope_at ow s)")
  case True
  with assms show ?thesis by (simp add: dispose_def scope_at_in)
next
  case False
  let ?rs = "map snd (runs (scope_at ow s))"
  have n: "numbers_ok (alloc_of ow) (claims_of ow) (held ow)"
    and r: "runs_ok (alloc_of ow) (run_of ow) (map_of (live ow)) (map_of (receivers ow))"
    and d: "distinct_keys (runs (scope_at ow s))"
    using assms(1) by (auto simp: registry_inv_def scope_ok_def)
  have P: "id_pid ` set ?rs = id_pid ` ran (run_of ow s)"
    using ran_runs [OF d] by (simp add: tables_fold)
  have f: "map_of (fold (\<lambda>r. AList.delete (id_pid r)) ?rs m) =
      (\<lambda>p. if p \<in> id_pid ` set ?rs then None else map_of m p)" for m :: "(pid \<times> 'b) list"
    by (auto simp: fold_delete fun_eq_iff)
  show ?thesis
    using assms False numbers_dispose [OF n, of s] runs_dispose [OF r P]
    unfolding registry_inv_def
    by (auto simp: dispose_def scope_at_in tables_update tables_fold f scope_at_update scope_ok_def Let_def)
qed

subsection \<open>Allocation\<close>

lemma draw_fields [simp]:
  "scopes (snd (draw answers ow)) = scopes ow" "held (snd (draw answers ow)) = held ow"
  "live (snd (draw answers ow)) = live ow" "allocator (snd (draw answers ow)) = allocator ow"
  "scope_at (snd (draw answers ow)) = scope_at ow"
  by (simp_all add: draw_def scope_at_def fun_eq_iff)

definition allocated_to :: "nat \<Rightarrow> owner \<Rightarrow> pid \<Rightarrow> owner \<Rightarrow> bool" where
  "allocated_to s ow p ow' \<longleftrightarrow>
     p \<notin> held ow \<and> map_of (live ow) p = None \<and> 2 \<le> p \<and> p \<le> max_pid \<and>
     held ow' = insert p (held ow) \<and> alloc_of ow' = (alloc_of ow)(s := insert p (alloc_of ow s)) \<and>
     live ow' = live ow \<and> run_of ow' = run_of ow"

definition allocation_ok :: "nat \<Rightarrow> owner \<Rightarrow> pid registry_result \<Rightarrow> bool" where
  "allocation_ok s ow r \<longleftrightarrow>
     (registry_inv ow \<longrightarrow> s < length (scopes ow) \<longrightarrow> \<not> disposed (scope_at ow s) \<longrightarrow>
        registry_inv (snd r) \<and> length (scopes (snd r)) = length (scopes ow) \<and>
        (\<forall>p. fst r = Inr p \<longrightarrow> allocated_to s ow p (snd r)))"

lemma tables_draw [simp]:
  "alloc_of (snd (draw answers ow)) = alloc_of ow" "run_of (snd (draw answers ow)) = run_of ow"
  by (simp_all add: draw_def)

lemma allocation_drawn:
  "allocation_ok s (snd (draw answers ow)) r \<Longrightarrow> allocation_ok s ow r"
  by (simp add: allocation_ok_def allocated_to_def inv_draw)

lemma allocation_found:
  assumes "\<not> taken ow p" "2 \<le> p" "p \<le> max_pid"
  shows "allocation_ok s ow (Inr p, update_scope s (\<lambda>sc. sc\<lparr>allocated := insert p (allocated sc)\<rparr>)
    (ow\<lparr>held := insert p (held ow)\<rparr>))"
  using assms inv_hold [of ow s p "\<lambda>sc. sc\<lparr>allocated := insert p (allocated sc)\<rparr>"]
  by (auto simp: allocation_ok_def allocated_to_def taken_def tables_update tables_fold fun_upd_triv)

lemma allocate_loop_ok:
  assumes "allocate_loop answers s ow = Some r"
  shows "allocation_ok s ow r"
proof (rule allocate_loop.raw_induct [where P = "\<lambda>answers s ow r. allocation_ok s ow r", OF _ assms])
  fix f :: "(nat \<Rightarrow> int) \<Rightarrow> nat \<Rightarrow> owner \<Rightarrow> pid registry_result option" and answers s ow r
  assume 1: "\<And>answers s ow r. f answers s ow = Some r \<Longrightarrow> allocation_ok s ow r"
    "(if \<not> allocator ow \<and> max_pid < next_pid ow then Some (Inl SpaceExhausted, ow)
      else let (p, ow) = draw answers ow
           in if p < 2 \<or> max_pid < p then Some (Inl SpaceExhausted, ow)
              else if taken ow p then f answers s ow
              else Some (Inr p, update_scope s (\<lambda>sc. sc\<lparr>allocated := insert p (allocated sc)\<rparr>)
                                  (ow\<lparr>held := insert p (held ow)\<rparr>))) = Some r"
  obtain p ow1 where d: "draw answers ow = (p, ow1)" by fastforce
  then have drawn: "ow1 = snd (draw answers ow)" by simp
  show "allocation_ok s ow r"
  proof (cases "\<not> allocator ow \<and> max_pid < next_pid ow \<or> p < 2 \<or> max_pid < p")
    case True
    with 1(2) d have "r = (Inl SpaceExhausted, ow) \<or> r = (Inl SpaceExhausted, ow1)"
      by (auto simp: Let_def split: if_splits)
    then show ?thesis unfolding drawn by (auto simp: allocation_ok_def inv_draw)
  next
    case False
    have "allocation_ok s ow1 r"
    proof (cases "taken ow1 p")
      case True
      with False 1(2) d have "f answers s ow1 = Some r" by (auto simp: Let_def split: if_splits)
      then show ?thesis by (rule 1(1))
    next
      case free: False
      with False 1(2) d have "r = (Inr p, update_scope s (\<lambda>sc. sc\<lparr>allocated := insert p (allocated sc)\<rparr>)
          (ow1\<lparr>held := insert p (held ow1)\<rparr>))"
        by (auto simp: Let_def split: if_splits)
      with allocation_found [OF free] False show ?thesis by simp
    qed
    then show ?thesis unfolding drawn by (rule allocation_drawn)
  qed
qed

text \<open>With the realm's own counter the loop ends: each round takes a number off a finite space.\<close>

lemma own_counter_ends:
  "\<not> allocator ow \<Longrightarrow> \<exists>r. allocate_loop answers s ow = Some r"
proof (induction "nat (0x80000000 - next_pid ow)" arbitrary: ow rule: less_induct)
  case less
  show ?case
  proof (cases "max_pid < next_pid ow \<or> next_pid ow < 2 \<or> \<not> taken (snd (draw answers ow)) (next_pid ow)")
    case True
    with less.prems show ?thesis
      by (subst allocate_loop.simps) (auto simp: draw_def Let_def)
  next
    case False
    with less.prems have "\<exists>r. allocate_loop answers s (snd (draw answers ow)) = Some r"
      by (intro less.hyps) (auto simp: draw_def)
    with False less.prems show ?thesis
      by (subst allocate_loop.simps) (auto simp: draw_def Let_def)
  qed
qed

text \<open>With an embedder's allocator it ends at the first answer that is free or not a pid.\<close>

lemma allocator_ends:
  "allocator ow \<Longrightarrow> asked ow \<le> n \<Longrightarrow>
   answers n < 2 \<or> max_pid < answers n \<or> \<not> taken ow (answers n) \<Longrightarrow>
   \<exists>r. allocate_loop answers s ow = Some r"
proof (induction "n - asked ow" arbitrary: ow rule: less_induct)
  case less
  let ?o = "snd (draw answers ow)"
  have d: "draw answers ow = (answers (asked ow), ow\<lparr>asked := asked ow + 1\<rparr>)"
    using less.prems(1) by (simp add: draw_def)
  show ?case
  proof (cases "answers (asked ow) < 2 \<or> max_pid < answers (asked ow) \<or> \<not> taken ow (answers (asked ow))")
    case True
    with less.prems d show ?thesis by (subst allocate_loop.simps) (auto simp: taken_def)
  next
    case False
    with less.prems(2,3) have "asked ow < n" by (cases "asked ow = n") auto
    with less.prems d have "\<exists>r. allocate_loop answers s ?o = Some r"
      by (intro less.hyps) (auto simp: taken_def)
    with False less.prems d show ?thesis by (subst allocate_loop.simps) (auto simp: taken_def)
  qed
qed

end
