(* ===== verification/ProcessRegistryProps.thy ===== *)
theory ProcessRegistryProps
  imports ProcessRegistryInv
begin

text \<open>
  The registry's histories as a step relation, and its properties.  A signal's handler
  runs while its process is asked for, and may itself call the registry: its calls are
  steps like any other, which is why signals are not steps of their own.
\<close>

inductive registry_step :: "(nat \<Rightarrow> int) \<Rightarrow> owner \<Rightarrow> owner \<Rightarrow> bool" for answers where
  step_create: "create_scope ow = (s, ow') \<Longrightarrow> registry_step answers ow ow'"
| step_install: "registry_step answers ow (install_allocator ow)"
| step_allocate: "s < length (scopes ow) \<Longrightarrow> allocate answers s ow = Some (r, ow') \<Longrightarrow> registry_step answers ow ow'"
| step_claim: "s < length (scopes ow) \<Longrightarrow> claim s p ow = (r, ow') \<Longrightarrow> registry_step answers ow ow'"
| step_publish: "s < length (scopes ow) \<Longrightarrow> publish s t i ow = (r, ow') \<Longrightarrow> registry_step answers ow ow'"
| step_exec: "s < length (scopes ow) \<Longrightarrow> exec_run s t i ow = (r, ow') \<Longrightarrow> registry_step answers ow ow'"
| step_forget: "s < length (scopes ow) \<Longrightarrow> forget s t ow = (r, ow') \<Longrightarrow> registry_step answers ow ow'"
| step_receive: "s < length (scopes ow) \<Longrightarrow> receive_signals s h ow = (r, ow') \<Longrightarrow> registry_step answers ow ow'"
| step_dispose: "s < length (scopes ow) \<Longrightarrow> registry_step answers ow (dispose s ow)"

inductive registry_reach :: "(nat \<Rightarrow> int) \<Rightarrow> owner \<Rightarrow> bool" for answers where
  reach_new: "registry_reach answers (new_owner first)"
| reach_step: "registry_reach answers ow \<Longrightarrow> registry_step answers ow ow' \<Longrightarrow> registry_reach answers ow'"

inductive_cases registry_stepE: "registry_step answers ow ow'"

lemma inv_allocate:
  assumes "registry_inv ow" "s < length (scopes ow)" "allocate answers s ow = Some (r, ow')"
  shows "registry_inv ow'"
  using assms allocate_loop_ok [of answers s ow "(r, ow')"]
  by (auto simp: allocate_def scope_at_in allocation_ok_def split: if_splits)

lemma inv_step:
  assumes "registry_inv ow" "registry_step answers ow ow'"
  shows "registry_inv ow'"
  using assms(2,1)
proof cases
  case (step_create s)
  with inv_create [OF assms(1)] show ?thesis by simp
next
  case (step_claim s p r)
  with inv_claim [OF assms(1), of s p] show ?thesis by simp
next
  case (step_publish s t i r)
  with inv_publish [OF assms(1), of s t i] show ?thesis by simp
next
  case (step_exec s t i r)
  with inv_exec [OF assms(1), of s t i] show ?thesis by simp
next
  case (step_forget s t r)
  with inv_forget [OF assms(1), of s t] show ?thesis by simp
next
  case (step_receive s h r)
  with inv_receive [OF assms(1), of s h] show ?thesis by simp
qed (simp_all add: inv_install inv_dispose inv_allocate)

lemma reach_inv: "registry_reach answers ow \<Longrightarrow> registry_inv ow"
  by (induction rule: registry_reach.induct) (auto intro: inv_new inv_step)

text \<open>A small history: a scope, a claimed number, a run published under it.\<close>

definition shell :: identity where
  "shell = \<lparr>id_pid = 7, id_ppid = 1, id_pgid = None, id_argv = Some [''sh''], id_cwd = Some ''/'',
     id_env = None, id_started = Some 0, id_entry = 0\<rparr>"

definition one_run :: owner where
  "one_run = snd (exec_run 0 ''t'' shell (snd (receive_signals 0 5 (snd (create_scope (new_owner 1000))))))"

definition no_answers :: "nat \<Rightarrow> int" where "no_answers n = 0"

lemma one_run_reached: "registry_reach no_answers one_run"
proof -
  let ?a = "snd (create_scope (new_owner 1000))" and ?b = "snd (receive_signals 0 5 (snd (create_scope (new_owner 1000))))"
  have "registry_reach no_answers ?a"
    by (rule reach_step [OF reach_new [of _ 1000]], rule step_create) (simp add: prod_eq_iff)
  moreover have "registry_step no_answers ?a ?b"
    by (rule step_receive [of 0 _ 5 "fst (receive_signals 0 5 ?a)"]) (simp_all add: create_scope_def new_owner_def)
  moreover have "registry_step no_answers ?b one_run"
    by (rule step_exec [of 0 _ "''t''" shell "fst (exec_run 0 ''t'' shell ?b)"])
      (simp_all add: one_run_def, simp add: create_scope_def new_owner_def receive_signals_def update_scope_def)
  ultimately show ?thesis by (blast intro: reach_step)
qed

lemma one_run_facts:
  "length (scopes one_run) = 1" "map_of (live one_run) 7 = Some (shell\<lparr>id_pgid := Some 7\<rparr>)"
  "\<not> disposed (scopes one_run ! 0)" "held one_run = {7}" "allocated (scopes one_run ! 0) = {7}"
  "map_of (receivers one_run) 7 = Some 0" "handler (scopes one_run ! 0) = Some 5"
  "\<not> allocator one_run" "next_pid one_run = 1000"
  by (simp_all add: one_run_def exec_run_def claim_def publish_def publish_new_def receive_signals_def
      create_scope_def new_owner_def update_scope_def taken_def shell_def parent_of_def inherited_group_def
      described_identity_def Let_def)

text \<open>C25: Whatever is done to the registry, in any order, a number is held by one scope at
  most, every live process is a run of exactly one scope, which is the one that answers
  its signals, and a closed scope holds nothing.\<close>
theorem registry_consistent:
  assumes "registry_reach answers ow"
  shows "registry_inv ow"
  using assms by (rule reach_inv)

lemma registry_consistent_witness: "registry_inv one_run"
  by (rule registry_consistent [OF one_run_reached])

text \<open>C26: A number \<open>allocate\<close> answers is a valid pid no scope held and no process carried;
  it is the asking scope's from then on, and no other table changes.\<close>
theorem allocate_fresh:
  assumes "registry_reach answers ow" "s < length (scopes ow)" "allocate answers s ow = Some (Inr p, ow')"
  shows "allocated_to s ow p ow' \<and> (\<forall>k. p \<notin> alloc_of ow k)"
proof -
  note inv = reach_inv [OF assms(1)]
  have "allocated_to s ow p ow'"
    using assms inv allocate_loop_ok [of answers s ow "(Inr p, ow')"]
    by (auto simp: allocate_def scope_at_in allocation_ok_def split: if_splits)
  moreover from this inv have "\<forall>k. p \<notin> alloc_of ow k"
    by (auto simp: allocated_to_def registry_inv_def numbers_ok_def)
  ultimately show ?thesis by blast
qed

lemma one_run_allocates:
  "allocate no_answers 0 one_run = Some (Inr 1000,
     update_scope 0 (\<lambda>sc. sc\<lparr>allocated := insert 1000 (allocated sc)\<rparr>) (one_run\<lparr>next_pid := 1001, held := {1000, 7}\<rparr>))"
proof -
  have "live one_run = [(7, shell\<lparr>id_pgid := Some 7\<rparr>)]"
    by (simp add: one_run_def exec_run_def claim_def publish_def publish_new_def receive_signals_def
      create_scope_def new_owner_def update_scope_def taken_def shell_def parent_of_def inherited_group_def
      described_identity_def Let_def)
  then show ?thesis
    by (simp add: allocate_def one_run_facts, subst allocate_loop.simps)
      (simp add: draw_def taken_def one_run_facts Let_def)
qed

lemma allocate_fresh_witness: "1000 \<notin> alloc_of one_run 0"
  using allocate_fresh [OF one_run_reached _ one_run_allocates] one_run_facts(1) by simp

text \<open>C27: \<open>allocate\<close> always answers where the realm numbers its processes itself; with an
  embedder's allocator it answers as soon as a number it names is free or not a pid.\<close>
theorem allocate_answers:
  assumes "\<not> allocator ow \<or> (\<exists>n\<ge>asked ow. \<not> taken ow (answers n))"
  shows "\<exists>r. allocate answers s ow = Some r"
  using assms own_counter_ends [of ow answers s] allocator_ends [of ow _ answers s]
  by (auto simp: allocate_def)

lemma allocate_answers_witness: "\<exists>r. allocate no_answers 0 one_run = Some r"
  by (rule allocate_answers) (simp add: one_run_facts)

text \<open>C28: A signal to a live process runs the handler of the scope whose run it is, and no
  other; one to a number that is not live runs none.\<close>
theorem signal_reaches_owner:
  assumes "registry_reach answers ow" "\<not> disposed (scopes ow ! s)" "sig \<noteq> ''0''"
    "run_of ow k t = Some i"
  shows "signal handle s (id_pid i) sig caller ow =
    (case handler (scopes ow ! k) of
       None \<Rightarrow> (Inr False, ow)
     | Some h \<Rightarrow> (Inr (fst (handle h (id_pid i) sig ow)), snd (handle h (id_pid i) sig ow)))"
proof -
  have "runs_ok (alloc_of ow) (run_of ow) (map_of (live ow)) (map_of (receivers ow))"
    using reach_inv [OF assms(1)] by (simp add: registry_inv_def)
  with assms(4) have "map_of (live ow) (id_pid i) = Some i" "map_of (receivers ow) (id_pid i) = Some k"
    unfolding runs_ok_def by blast+
  with assms(2,3) show ?thesis
    by (auto simp: signal_def deliver_def split: option.splits prod.splits)
qed

lemma signal_reaches_owner_witness:
  "signal (\<lambda>h p sg ow. (h = 5, ow)) 0 7 ''SIGTERM'' None one_run = (Inr True, one_run)"
proof -
  have "run_of one_run 0 ''t'' = Some (shell\<lparr>id_pgid := Some 7\<rparr>)"
    by (simp add: run_of_def scope_at_def one_run_facts) (simp add: one_run_def exec_run_def claim_def publish_def
        publish_new_def receive_signals_def create_scope_def new_owner_def update_scope_def taken_def shell_def
        parent_of_def inherited_group_def described_identity_def Let_def)
  from signal_reaches_owner [OF one_run_reached one_run_facts(3) _ this, of "''SIGTERM''" "\<lambda>h p sg ow. (h = 5, ow)" None]
  show ?thesis by (simp add: one_run_facts shell_def)
qed

text \<open>A run that cannot be published after its number was claimed leaves the number held.\<close>

lemma exec_leaks_number:
  "fst (exec_run 0 ''t'' (shell\<lparr>id_pid := 8\<rparr>) one_run) = Inl NotOwnedByRun"
  "held (snd (exec_run 0 ''t'' (shell\<lparr>id_pid := 8\<rparr>) one_run)) = {7, 8}"
  "map_of (live (snd (exec_run 0 ''t'' (shell\<lparr>id_pid := 8\<rparr>) one_run))) 8 = None"
  by (auto simp: one_run_def exec_run_def claim_def publish_def publish_new_def receive_signals_def
      create_scope_def new_owner_def update_scope_def taken_def shell_def parent_of_def inherited_group_def
      described_identity_def Let_def)

end
