(* ===== verification/Strings.thy ===== *)
theory Strings
  imports Prelude
begin

text \<open>
  The string operations several components use, on lists of characters (Latin-1): \<open>trim\<close>,
  \<open>includes\<close>, \<open>split\<close>, \<open>parseInt\<close>, a number's decimal text, and what is true of them.
\<close>

subsection \<open>Characters and strings\<close>

definition is_digit :: "char \<Rightarrow> bool" where
  "is_digit c \<longleftrightarrow> c \<in> set ''0123456789''"

definition is_space :: "char \<Rightarrow> bool" where
  "is_space c \<longleftrightarrow> (of_char c :: nat) \<in> {9, 10, 11, 12, 13, 32, 160}"

definition trim :: "string \<Rightarrow> string" where
  "trim s = rev (dropWhile is_space (rev (dropWhile is_space s)))"

fun contains :: "string \<Rightarrow> string \<Rightarrow> bool" where
  "contains pat [] = (pat = [])"
| "contains pat (c # cs) = (prefix pat (c # cs) \<or> contains pat cs)"

function split_str :: "string \<Rightarrow> string \<Rightarrow> string \<Rightarrow> string list" where
  "split_str sep acc s =
     (if sep \<noteq> [] \<and> prefix sep s then rev acc # split_str sep [] (drop (length sep) s)
      else case s of [] \<Rightarrow> [rev acc] | c # cs \<Rightarrow> split_str sep (c # acc) cs)"
  by pat_completeness auto
termination by (relation "measure (\<lambda>(sep, acc, s). length s)") (auto simp: prefix_def)

declare split_str.simps [simp del]

text \<open>\<open>split(/\s+/).filter(Boolean)\<close>: the words.\<close>

fun words_acc :: "string \<Rightarrow> string \<Rightarrow> string list" where
  "words_acc acc [] = (if acc = [] then [] else [rev acc])"
| "words_acc acc (c # cs) =
     (if is_space c then (if acc = [] then words_acc [] cs else rev acc # words_acc [] cs)
      else words_acc (c # acc) cs)"

definition digit_value :: "char \<Rightarrow> nat" where
  "digit_value c = of_char c - 48"

definition decimal :: "string \<Rightarrow> nat" where
  "decimal s = foldl (\<lambda>n c. 10 * n + digit_value c) 0 s"

fun nat_str :: "nat \<Rightarrow> string" where
  "nat_str n = (if n < 10 then [''0123456789'' ! n] else nat_str (n div 10) @ [''0123456789'' ! (n mod 10)])"

declare nat_str.simps [simp del]

text \<open>\<open>parseInt(s, 10)\<close>, \<open>None\<close> for NaN.\<close>

definition parse_int :: "string \<Rightarrow> int option" where
  "parse_int s =
     (let s = dropWhile is_space s;
          neg = (s \<noteq> [] \<and> hd s = CHR ''-'');
          s = (if s \<noteq> [] \<and> (hd s = CHR ''-'' \<or> hd s = CHR ''+'') then tl s else s);
          d = takeWhile is_digit s
      in if d = [] then None else Some (if neg then - int (decimal d) else int (decimal d)))"

subsection \<open>Decimal text\<close>

lemma nat_str_digits: "list_all is_digit (nat_str n) \<and> nat_str n \<noteq> []"
proof (induction n rule: nat_str.induct)
  case (1 n)
  have d: "is_digit (''0123456789'' ! k)" if "k < 10" for k
    using that by (auto simp: is_digit_def less_Suc_eq numeral_eq_Suc)
  show ?case
  proof (cases "n < 10")
    case True
    then show ?thesis using d by (subst (1 2) nat_str.simps) simp
  next
    case False
    then show ?thesis using 1 d [of "n mod 10"] by (subst (1 2) nat_str.simps) simp
  qed
qed

lemma decimal_snoc: "decimal (s @ [c]) = 10 * decimal s + digit_value c"
  by (simp add: decimal_def)

lemma digit_value_nth: "k < 10 \<Longrightarrow> digit_value (''0123456789'' ! k) = k"
  by (auto simp: digit_value_def less_Suc_eq numeral_eq_Suc)

lemma decimal_nat_str [simp]: "decimal (nat_str n) = n"
proof (induction n rule: nat_str.induct)
  case (1 n)
  show ?case
  proof (cases "n < 10")
    case True
    then show ?thesis by (subst nat_str.simps) (simp add: decimal_def digit_value_nth)
  next
    case False
    then have "decimal (nat_str n) = 10 * (n div 10) + n mod 10"
      using 1 by (subst nat_str.simps) (simp add: decimal_snoc digit_value_nth)
    then show ?thesis by simp
  qed
qed

text \<open>Splitting where the separator is known.\<close>

lemma split_past: "hd sep \<notin> set p \<Longrightarrow> sep \<noteq> [] \<Longrightarrow> split_str sep acc (p @ t) = split_str sep (rev p @ acc) t"
proof (induction p arbitrary: acc)
  case (Cons c p)
  then have "\<not> prefix sep (c # p @ t)" by (cases sep) auto
  then show ?case using Cons by (simp add: split_str.simps [of sep acc "c # p @ t"])
qed simp

lemma split_sep: "sep \<noteq> [] \<Longrightarrow> split_str sep acc (sep @ t) = rev acc # split_str sep [] t"
  by (simp add: split_str.simps [of sep acc "sep @ t"])

lemma split_Nil: "split_str sep acc [] = [rev acc]"
  by (simp add: split_str.simps)

lemma split_last: "hd sep \<notin> set p \<Longrightarrow> sep \<noteq> [] \<Longrightarrow> split_str sep acc p = [rev acc @ p]"
  using split_past [of sep p acc "[]"] by (simp add: split_Nil)

lemma contains_here: "contains p (a @ p @ b)"
proof (induction a)
  case Nil
  show ?case by (cases "p @ b") (simp, metis append_Nil contains.simps(2) prefixI)
qed simp

lemma contains_set: "contains p s \<Longrightarrow> set p \<subseteq> set s"
proof (induction s)
  case (Cons a s)
  then show ?case using set_mono_prefix [of p "a # s"] by auto
qed simp

end
