(* ===== verification/Semver.thy ===== *)
theory Semver
  imports Strings
begin

text \<open>
  \<open>src/src/npm/resolver.ts\<close>, its versions and ranges: \<open>parseVersion\<close>,
  \<open>compareVersions\<close>, \<open>satisfies\<close> and \<open>findBestVersion\<close>.  A string is a list of
  characters and a version's numbers are naturals (\<open>parseInt\<close> below the double's
  precision).  Each regular expression is the scan it stands for: none of those here can
  match again with a shorter run of digits or spaces, since what follows would be one
  more of them.  \<open>String.prototype.localeCompare\<close> depends on the realm's locale, and is
  the parameter \<open>lc\<close>.  \<open>satisfies\<close> calls itself on parts of a range it has rewritten; it
  is a partial function, \<open>None\<close> where the calls would not end.
\<close>

type_synonym collation = "string \<Rightarrow> string \<Rightarrow> int"

subsection \<open>Versions\<close>

record version =
  major :: nat
  minor :: nat
  patch :: nat
  prerelease :: "string option"

text \<open>The digits a string begins with, read and dropped, where there is one.\<close>

definition digits :: "string \<Rightarrow> (string \<times> string) option" where
  "digits s = (let d = takeWhile is_digit s in if d = [] then None else Some (d, dropWhile is_digit s))"

definition dot :: "string \<Rightarrow> string option" where
  "dot s = (case s of c # cs \<Rightarrow> if c = CHR ''.'' then Some cs else None | [] \<Rightarrow> None)"

text \<open>\<open>\d+\.\d+\.\d+\<close> at the front of a string.\<close>

definition three_numbers :: "string \<Rightarrow> (string \<times> string \<times> string \<times> string) option" where
  "three_numbers s =
     Option.bind (digits s) (\<lambda>(a, r). Option.bind (dot r) (\<lambda>r.
     Option.bind (digits r) (\<lambda>(b, r). Option.bind (dot r) (\<lambda>r.
     Option.bind (digits r) (\<lambda>(c, r). Some (a, b, c, r))))))"

definition line_end :: "char \<Rightarrow> bool" where
  "line_end c \<longleftrightarrow> c = CHR 0x0A \<or> c = CHR 0x0D"

definition parse_version :: "string \<Rightarrow> version option" where
  "parse_version s =
     (case three_numbers s of
        None \<Rightarrow> None
      | Some (a, b, c, r) \<Rightarrow>
          (let v = \<lparr>major = decimal a, minor = decimal b, patch = decimal c, prerelease = None\<rparr>
           in case r of
                [] \<Rightarrow> Some v
              | x # pre \<Rightarrow>
                  if x = CHR ''-'' \<and> pre \<noteq> [] \<and> \<not> list_ex line_end pre then Some (v\<lparr>prerelease := Some pre\<rparr>)
                  else None))"

definition compare_versions :: "collation \<Rightarrow> string \<Rightarrow> string \<Rightarrow> int" where
  "compare_versions lc a b =
     (case (parse_version a, parse_version b) of
        (Some x, Some y) \<Rightarrow>
          if major x \<noteq> major y then int (major x) - int (major y)
          else if minor x \<noteq> minor y then int (minor x) - int (minor y)
          else if patch x \<noteq> patch y then int (patch x) - int (patch y)
          else (case (prerelease x, prerelease y) of
                  (Some p, None) \<Rightarrow> -1
                | (None, Some q) \<Rightarrow> 1
                | (Some p, Some q) \<Rightarrow> lc p q
                | (None, None) \<Rightarrow> 0)
      | _ \<Rightarrow> lc a b)"

subsection \<open>Rewriting a range\<close>

text \<open>\<open>range.replace(/^=\s*/, "").replace(/^v(?=\d)/, "")\<close>\<close>

definition strip_exact :: "string \<Rightarrow> string" where
  "strip_exact s =
     (let s = (case s of c # cs \<Rightarrow> if c = CHR ''='' then dropWhile is_space cs else s | [] \<Rightarrow> [])
      in case s of c # d # cs \<Rightarrow> if c = CHR ''v'' \<and> is_digit d then d # cs else s | _ \<Rightarrow> s)"

definition operator :: "string \<Rightarrow> (string \<times> string) option" where
  "operator s =
     (if prefix ''>='' s \<or> prefix ''<='' s then Some (take 2 s, drop 2 s)
      else if s \<noteq> [] \<and> hd s \<in> set ''><='' then Some ([hd s], tl s)
      else None)"

text \<open>\<open>(>=|<=|>|<|=)\s*(\d+)(\.\d+)?(?![.\d])\<close> at the front: operator, major, minor, rest.\<close>

definition optional_minor :: "string \<Rightarrow> string option \<times> string" where
  "optional_minor r =
     (case Option.bind (dot r) digits of Some (m, r') \<Rightarrow> (Some m, r') | None \<Rightarrow> (None, r))"

definition partial_operand :: "string \<Rightarrow> (string \<times> string \<times> string option \<times> string) option" where
  "partial_operand s =
     Option.bind (operator s) (\<lambda>(op, r).
     Option.bind (digits (dropWhile is_space r)) (\<lambda>(d, r).
       case optional_minor r of (m, r) \<Rightarrow>
         if r \<noteq> [] \<and> (hd r = CHR ''.'' \<or> is_digit (hd r)) then None else Some (op, d, m, r)))"

lemma length_dropWhile_digits: "length (dropWhile P s) \<le> length s"
  by (simp add: length_dropWhile_le)

lemma digits_shorter: "digits s = Some (d, r) \<Longrightarrow> length r < length s"
proof -
  assume "digits s = Some (d, r)"
  then have d: "takeWhile is_digit s \<noteq> []" "r = dropWhile is_digit s" by (auto simp: digits_def Let_def split: if_splits)
  have "length (takeWhile is_digit s) + length (dropWhile is_digit s) = length s"
    by (metis length_append takeWhile_dropWhile_id)
  with d show ?thesis by (cases "takeWhile is_digit s") auto
qed

lemma operator_shorter: "operator s = Some (op, r) \<Longrightarrow> length r < length s"
  by (auto simp: operator_def prefix_def split: if_splits)

lemma dot_shorter: "dot s = Some r \<Longrightarrow> length r < length s"
  by (auto simp: dot_def split: list.splits if_splits)

lemma partial_shorter:
  assumes "partial_operand s = Some (op, d, m, r)"
  shows "length r < length s"
proof -
  from assms obtain r1 r2 where o: "operator s = Some (op, r1)" "digits (dropWhile is_space r1) = Some (d, r2)"
      and r: "optional_minor r2 = (m, r)"
    by (cases "optional_minor (snd (the (digits (dropWhile is_space (snd (the (operator s)))))))")
      (auto simp: partial_operand_def bind_eq_Some_conv split: if_splits)
  have "length r \<le> length r2"
    using r by (auto simp: optional_minor_def bind_eq_Some_conv split: option.splits dest!: digits_shorter dot_shorter)
  also have "length r2 < length (dropWhile is_space r1)" using digits_shorter [OF o(2)] .
  also have "\<dots> \<le> length r1" by (rule length_dropWhile_digits)
  also have "\<dots> < length s" using operator_shorter [OF o(1)] .
  finally show ?thesis .
qed

function expand_partials :: "string \<Rightarrow> string" where
  "expand_partials s =
     (case partial_operand s of
        Some (op, d, m, r) \<Rightarrow>
          op @ '' '' @ d @ (case m of None \<Rightarrow> ''.0.0'' | Some m \<Rightarrow> ''.'' @ m @ ''.0'') @ expand_partials r
      | None \<Rightarrow> (case s of [] \<Rightarrow> [] | c # cs \<Rightarrow> c # expand_partials cs))"
  by pat_completeness auto
termination
  by (relation "measure length") (auto dest: partial_shorter)

declare expand_partials.simps [simp del]

definition normal_range :: "string \<Rightarrow> string" where
  "normal_range rng = expand_partials (strip_exact (trim rng))"

subsection \<open>The kinds of range\<close>

text \<open>\<open>/^([~^])(\d+)(?:\.(\d+))?(?:\.(\d+))?$/\<close>\<close>

definition partial_range :: "string \<Rightarrow> (char \<times> nat \<times> nat option \<times> nat option) option" where
  "partial_range s =
     (case s of
        [] \<Rightarrow> None
      | op # r \<Rightarrow>
          if op \<noteq> CHR ''~'' \<and> op \<noteq> CHR ''^'' then None
          else Option.bind (digits r) (\<lambda>(a, r).
            if r = [] then Some (op, decimal a, None, None)
            else Option.bind (dot r) (\<lambda>r. Option.bind (digits r) (\<lambda>(b, r).
              if r = [] then Some (op, decimal a, Some (decimal b), None)
              else Option.bind (dot r) (\<lambda>r. Option.bind (digits r) (\<lambda>(c, r).
                if r = [] then Some (op, decimal a, Some (decimal b), Some (decimal c)) else None))))))"

definition version_str :: "nat \<Rightarrow> nat \<Rightarrow> nat \<Rightarrow> string" where
  "version_str a b c = nat_str a @ ''.'' @ nat_str b @ ''.'' @ nat_str c"

definition partial_bounds :: "char \<Rightarrow> nat \<Rightarrow> nat option \<Rightarrow> nat option \<Rightarrow> string \<times> string" where
  "partial_bounds op a b c =
     (let mi = (case b of Some n \<Rightarrow> n | None \<Rightarrow> 0); pa = (case c of Some n \<Rightarrow> n | None \<Rightarrow> 0)
      in (version_str a mi pa,
          if op = CHR ''~''
          then (if b \<noteq> None then version_str a (mi + 1) 0 else version_str (a + 1) 0 0)
          else if 0 < a \<or> b = None then version_str (a + 1) 0 0
          else if 0 < mi \<or> c = None then version_str 0 (mi + 1) 0
          else version_str 0 0 (pa + 1)))"

text \<open>\<open>/^(\d+\.\d+\.\d+(?:-[^\s]+)?)/\<close> on a range without spaces.\<close>

definition exact_version :: "string \<Rightarrow> string option" where
  "exact_version rng =
     (if CHR '' '' \<in> set rng then None
      else case three_numbers rng of
             None \<Rightarrow> None
           | Some (a, b, c, r) \<Rightarrow>
               Some (a @ ''.'' @ b @ ''.'' @ c @
                 (case r of
                    x # pre \<Rightarrow> if x = CHR ''-'' then
                        (let w = takeWhile (\<lambda>c. \<not> is_space c) pre in if w = [] then [] else x # w)
                      else []
                  | [] \<Rightarrow> [])))"

text \<open>\<open>(>=|<=|>|<|=)?\s*(\d+\.\d+\.\d+(?:-[^\s]*)?)\<close> at the front: operator, version, rest.\<close>

definition operand :: "string \<Rightarrow> (string \<times> string \<times> string) option" where
  "operand s =
     (let (op, r) = (case operator s of Some x \<Rightarrow> x | None \<Rightarrow> ([], s))
      in case three_numbers (dropWhile is_space r) of
           None \<Rightarrow> None
         | Some (a, b, c, r) \<Rightarrow>
             (let n = a @ ''.'' @ b @ ''.'' @ c
              in if r \<noteq> [] \<and> hd r = CHR ''-''
                 then Some (op, n @ ''-'' @ takeWhile (\<lambda>c. \<not> is_space c) (tl r),
                            dropWhile (\<lambda>c. \<not> is_space c) (tl r))
                 else Some (op, n, r)))"

lemma three_numbers_shorter: "three_numbers s = Some (a, b, c, r) \<Longrightarrow> length r < length s"
  by (auto simp: three_numbers_def bind_eq_Some_conv dest!: digits_shorter dot_shorter)

lemma operand_shorter: "operand s = Some (op, v, r) \<Longrightarrow> length r < length s"
proof -
  assume o: "operand s = Some (op, v, r)"
  obtain op' r' where r': "(case operator s of Some x \<Rightarrow> x | None \<Rightarrow> ([], s)) = (op', r')" by fastforce
  then have "length r' \<le> length s" by (auto split: option.splits dest: operator_shorter)
  moreover have "length (dropWhile is_space r') \<le> length r'" by (rule length_dropWhile_digits)
  moreover from o r' obtain a b c q where q: "three_numbers (dropWhile is_space r') = Some (a, b, c, q)"
      "r = q \<or> r = dropWhile (\<lambda>c. \<not> is_space c) (tl q)"
    by (auto simp: operand_def Let_def split: option.splits if_splits)
  moreover have "length r \<le> length q"
    using q(2) length_dropWhile_digits [of "\<lambda>c. \<not> is_space c" "tl q"] by auto
  ultimately show ?thesis using three_numbers_shorter [OF q(1)] by simp
qed

function operands :: "string \<Rightarrow> (string \<times> string) list" where
  "operands s =
     (case operand s of
        Some (op, v, r) \<Rightarrow> (op, v) # operands r
      | None \<Rightarrow> (case s of [] \<Rightarrow> [] | c # cs \<Rightarrow> operands cs))"
  by pat_completeness auto
termination by (relation "measure length") (auto dest: operand_shorter)

declare operands.simps [simp del]

definition operand_holds :: "collation \<Rightarrow> string \<Rightarrow> string \<times> string \<Rightarrow> bool" where
  "operand_holds lc v opv =
     (let (op, ver) = opv; c = compare_versions lc v ver
      in if op = ''>='' then 0 \<le> c else if op = ''<='' then c \<le> 0
         else if op = ''>'' then 0 < c else if op = ''<'' then c < 0 else c = 0)"

text \<open>A range that begins with a caret or a tilde and is not a partial one.\<close>

definition caret_holds :: "collation \<Rightarrow> version \<Rightarrow> string \<Rightarrow> string \<Rightarrow> bool" where
  "caret_holds lc parsed v base =
     (case parse_version base of
        None \<Rightarrow> False
      | Some b \<Rightarrow>
          major parsed = major b \<and>
          (major b = 0 \<longrightarrow>
             \<not> (minor b \<noteq> 0 \<and> minor parsed \<noteq> minor b) \<and> \<not> (minor b = 0 \<and> minor parsed \<noteq> 0)) \<and>
          0 \<le> compare_versions lc v base)"

definition tilde_holds :: "collation \<Rightarrow> version \<Rightarrow> string \<Rightarrow> string \<Rightarrow> bool" where
  "tilde_holds lc parsed v base =
     (case parse_version base of
        None \<Rightarrow> False
      | Some b \<Rightarrow> major parsed = major b \<and> minor parsed = minor b \<and> 0 \<le> compare_versions lc v base)"

definition x_parts :: "string \<Rightarrow> string list option" where
  "x_parts rng =
     (if CHR ''x'' \<in> set rng \<or> CHR ''X'' \<in> set rng \<or> (rng \<noteq> [] \<and> list_all is_digit rng) \<or>
         (case digits rng of Some (d, r) \<Rightarrow> (case Option.bind (dot r) digits of Some (e, r) \<Rightarrow> r = [] | None \<Rightarrow> False)
          | None \<Rightarrow> False)
      then Some (filter (\<lambda>p. p \<noteq> []) (split_str ''.'' [] (filter (\<lambda>c. c \<noteq> CHR ''x'' \<and> c \<noteq> CHR ''X'') rng)))
      else None)"

definition x_range :: "version \<Rightarrow> string \<Rightarrow> bool option" where
  "x_range parsed rng =
     (case x_parts rng of
        Some [a] \<Rightarrow> Some (Some (int (major parsed)) = parse_int a)
      | Some [a, b] \<Rightarrow>
          Some (Some (int (major parsed)) = parse_int a \<and> Some (int (minor parsed)) = parse_int b)
      | _ \<Rightarrow> None)"

subsection \<open>Satisfying a range\<close>

text \<open>\<open>some\<close> and \<open>every\<close> stop at the first element that decides.\<close>

fun some_of :: "('a \<Rightarrow> bool option) \<Rightarrow> 'a list \<Rightarrow> bool option" where
  "some_of f [] = Some False"
| "some_of f (x # xs) = Option.bind (f x) (\<lambda>b. if b then Some True else some_of f xs)"

fun every_of :: "('a \<Rightarrow> bool option) \<Rightarrow> 'a list \<Rightarrow> bool option" where
  "every_of f [] = Some True"
| "every_of f (x # xs) = Option.bind (f x) (\<lambda>b. if b then every_of f xs else Some False)"

lemma some_of_mono [partial_function_mono]:
  "(\<And>x. mono_option (\<lambda>f. B f x)) \<Longrightarrow> mono_option (\<lambda>f. some_of (B f) xs)"
  by (induction xs) (auto intro!: partial_function_mono option.const_mono)

lemma every_of_mono [partial_function_mono]:
  "(\<And>x. mono_option (\<lambda>f. B f x)) \<Longrightarrow> mono_option (\<lambda>f. every_of (B f) xs)"
  by (induction xs) (auto intro!: partial_function_mono option.const_mono)

text \<open>The branches after those that ask the range's parts, in the code's order.\<close>

definition single_range :: "collation \<Rightarrow> version \<Rightarrow> string \<Rightarrow> string \<Rightarrow> bool option" where
  "single_range lc parsed v rng =
     (if contains '' - '' rng
      then (let parts = map trim (split_str '' - '' [] rng)
            in Some (0 \<le> compare_versions lc v (parts ! 0) \<and> compare_versions lc v (parts ! 1) \<le> 0))
      else if 1 < length (operands rng) then Some (list_all (operand_holds lc v) (operands rng))
      else if prefix ''^'' rng then Some (caret_holds lc parsed v (drop 1 rng))
      else if prefix ''~'' rng then Some (tilde_holds lc parsed v (drop 1 rng))
      else if prefix ''>='' rng then Some (0 \<le> compare_versions lc v (trim (drop 2 rng)))
      else if prefix ''>'' rng then Some (0 < compare_versions lc v (trim (drop 1 rng)))
      else if prefix ''<='' rng then Some (compare_versions lc v (trim (drop 2 rng)) \<le> 0)
      else if prefix ''<'' rng then Some (compare_versions lc v (trim (drop 1 rng)) < 0)
      else x_range parsed rng)"

partial_function (option) satisfies :: "collation \<Rightarrow> string \<Rightarrow> string \<Rightarrow> bool option" where
  "satisfies lc v rng =
     (case parse_version v of
        None \<Rightarrow> Some False
      | Some parsed \<Rightarrow>
          if prerelease parsed \<noteq> None \<and> CHR ''-'' \<notin> set rng then Some False
          else let r = normal_range rng
            in case partial_range r of
                 Some (op, a, b, c) \<Rightarrow>
                   (let (lower, upper) = partial_bounds op a b c
                    in Some (0 \<le> compare_versions lc v lower \<and> compare_versions lc v upper < 0))
               | None \<Rightarrow>
                   (case exact_version r of
                      Some w \<Rightarrow> Some (compare_versions lc v w = 0)
                    | None \<Rightarrow>
                        if r \<in> {''*'', ''latest'', []} then Some True
                        else if contains ''||'' r
                        then some_of (\<lambda>p. satisfies lc v (trim p)) (split_str ''||'' [] r)
                        else case single_range lc parsed v r of
                               Some b \<Rightarrow> Some b
                             | None \<Rightarrow>
                                 if CHR '' '' \<in> set r then every_of (\<lambda>p. satisfies lc v p) (words_acc [] r)
                                 else Some (compare_versions lc v r = 0)))"

subsection \<open>The best version\<close>

text \<open>\<open>sort\<close> by \<open>compareVersions(b, a)\<close>: stable, the greatest first.\<close>

fun insert_version :: "collation \<Rightarrow> string \<Rightarrow> string list \<Rightarrow> string list" where
  "insert_version lc v [] = [v]"
| "insert_version lc v (w # ws) = (if compare_versions lc w v \<le> 0 then v # w # ws else w # insert_version lc v ws)"

definition sort_versions :: "collation \<Rightarrow> string list \<Rightarrow> string list" where
  "sort_versions lc vs = foldr (insert_version lc) vs []"

fun first_satisfying :: "collation \<Rightarrow> string \<Rightarrow> string list \<Rightarrow> string option option" where
  "first_satisfying lc rng [] = Some None"
| "first_satisfying lc rng (v # vs) =
     Option.bind (satisfies lc v rng) (\<lambda>b. if b then Some (Some v) else first_satisfying lc rng vs)"

definition find_best_version :: "collation \<Rightarrow> string list \<Rightarrow> string \<Rightarrow> string option option" where
  "find_best_version lc versions rng = first_satisfying lc rng (sort_versions lc versions)"

end
