(* ===== verification/SemverProps.thy ===== *)
theory SemverProps
  imports Semver "HOL-Library.Product_Lexorder"
begin

text \<open>
  What the ranges mean.  A \<open>release\<close> is a version's three numbers, ordered as the library
  orders nested pairs; \<open>simple\<close> lists the shapes of range a manifest writes, \<open>range_text\<close>
  how each is written and \<open>in_range\<close> which releases it names.
\<close>

subsection \<open>Versions as text\<close>

definition stops :: "string \<Rightarrow> bool" where
  "stops t \<longleftrightarrow> (case t of [] \<Rightarrow> True | c # cs \<Rightarrow> \<not> is_digit c)"

lemma digits_nat_str [simp]: "stops t \<Longrightarrow> digits (nat_str n @ t) = Some (nat_str n, t)"
proof -
  assume t: "stops t"
  have all: "\<forall>c \<in> set (nat_str n). is_digit c" and ne: "nat_str n \<noteq> []"
    using nat_str_digits [of n] by (auto simp: list_all_iff)
  have "takeWhile is_digit t = [] \<and> dropWhile is_digit t = t"
    using t by (cases t) (auto simp: stops_def)
  then show ?thesis using all ne by (simp add: digits_def takeWhile_append2 dropWhile_append2)
qed

lemma stops_simps [simp]: "stops []" "stops (c # cs) \<longleftrightarrow> \<not> is_digit c"
  by (auto simp: stops_def)

lemma not_digit [simp]:
  "\<not> is_digit (CHR ''.'')" "\<not> is_digit (CHR ''-'')" "\<not> is_digit (CHR '' '')" "\<not> is_digit (CHR ''^'')"
  "\<not> is_digit (CHR ''~'')" "\<not> is_digit (CHR ''>'')" "\<not> is_digit (CHR ''<'')" "\<not> is_digit (CHR ''='')"
  "\<not> is_digit (CHR ''x'')" "\<not> is_digit (CHR ''X'')" "\<not> is_digit (CHR ''*'')" "\<not> is_digit (CHR ''|'')"
  by (auto simp: is_digit_def)

lemma dot_dot [simp]: "dot (CHR ''.'' # cs) = Some cs" "dot [] = None"
  by (simp_all add: dot_def)

lemma three_numbers_version [simp]:
  "stops t \<Longrightarrow> three_numbers (version_str a b c @ t) = Some (nat_str a, nat_str b, nat_str c, t)"
  by (simp add: three_numbers_def version_str_def)

type_synonym release = "nat \<times> nat \<times> nat"

fun release_text :: "release \<Rightarrow> string" where
  "release_text (a, b, c) = version_str a b c"

fun release_of :: "release \<Rightarrow> version" where
  "release_of (a, b, c) = \<lparr>major = a, minor = b, patch = c, prerelease = None\<rparr>"

lemma parse_version_str [simp]:
  "parse_version (version_str a b c) = Some \<lparr>major = a, minor = b, patch = c, prerelease = None\<rparr>"
  using three_numbers_version [of "[]" a b c] by (simp add: parse_version_def)

lemma parse_release [simp]: "parse_version (release_text r) = Some (release_of r)"
  by (cases r) simp

text \<open>\<open>compareVersions\<close> of two releases is their order, whatever the collation.\<close>

lemma compare_release:
  "0 \<le> compare_versions lc (release_text r) (release_text s) \<longleftrightarrow> s \<le> r"
  "compare_versions lc (release_text r) (release_text s) \<le> 0 \<longleftrightarrow> r \<le> s"
  "compare_versions lc (release_text r) (release_text s) = 0 \<longleftrightarrow> r = s"
  by (cases r; cases s; auto simp: compare_versions_def less_eq_prod_def)+

lemma compare_release_less:
  "compare_versions lc (release_text r) (release_text s) < 0 \<longleftrightarrow> r < s"
  "0 < compare_versions lc (release_text r) (release_text s) \<longleftrightarrow> s < r"
  using compare_release [of lc r s] by (auto simp: not_le [symmetric])

subsection \<open>Ranges as text\<close>

datatype simple =
    Any | Exactly release | Caret release | CaretMinor nat nat | CaretMajor nat
  | Tilde release | TildeMinor nat nat | TildeMajor nat
  | AtLeast release | Above release | AtMost release | Below release
  | AtLeastMajor nat | BelowMajor nat
  | Between release release | Hyphen release release
  | Minor nat nat | Major nat | MinorX nat nat | MajorX nat

definition minor_text :: "nat \<Rightarrow> nat \<Rightarrow> string" where
  "minor_text a b = nat_str a @ ''.'' @ nat_str b"

fun range_text :: "simple \<Rightarrow> string" where
  "range_text Any = ''*''"
| "range_text (Exactly r) = release_text r"
| "range_text (Caret r) = ''^'' @ release_text r"
| "range_text (CaretMinor a b) = ''^'' @ minor_text a b"
| "range_text (CaretMajor a) = ''^'' @ nat_str a"
| "range_text (Tilde r) = ''~'' @ release_text r"
| "range_text (TildeMinor a b) = ''~'' @ minor_text a b"
| "range_text (TildeMajor a) = ''~'' @ nat_str a"
| "range_text (AtLeast r) = ''>='' @ release_text r"
| "range_text (Above r) = ''>'' @ release_text r"
| "range_text (AtMost r) = ''<='' @ release_text r"
| "range_text (Below r) = ''<'' @ release_text r"
| "range_text (AtLeastMajor a) = ''>='' @ nat_str a"
| "range_text (BelowMajor a) = ''<'' @ nat_str a"
| "range_text (Between r s) = ''>='' @ release_text r @ '' <'' @ release_text s"
| "range_text (Hyphen r s) = release_text r @ '' - '' @ release_text s"
| "range_text (Minor a b) = minor_text a b"
| "range_text (Major a) = nat_str a"
| "range_text (MinorX a b) = minor_text a b @ ''.x''"
| "range_text (MajorX a) = nat_str a @ ''.x''"

fun caret_end :: "release \<Rightarrow> release" where
  "caret_end (a, b, c) = (if 0 < a then (a + 1, 0, 0) else if 0 < b then (0, b + 1, 0) else (0, 0, c + 1))"

fun tilde_end :: "release \<Rightarrow> release" where
  "tilde_end (a, b, c) = (a, b + 1, 0)"

fun in_range :: "release \<Rightarrow> simple \<Rightarrow> bool" where
  "in_range v Any = True"
| "in_range v (Exactly r) = (v = r)"
| "in_range v (Caret r) = (r \<le> v \<and> v < caret_end r)"
| "in_range v (CaretMinor a b) = ((a, b, 0) \<le> v \<and> v < (if 0 < a then (a + 1, 0, 0) else (0, b + 1, 0)))"
| "in_range v (CaretMajor a) = (fst v = a)"
| "in_range v (Tilde r) = (r \<le> v \<and> v < tilde_end r)"
| "in_range v (TildeMinor a b) = (fst v = a \<and> fst (snd v) = b)"
| "in_range v (TildeMajor a) = (fst v = a)"
| "in_range v (AtLeast r) = (r \<le> v)"
| "in_range v (Above r) = (r < v)"
| "in_range v (AtMost r) = (v \<le> r)"
| "in_range v (Below r) = (v < r)"
| "in_range v (AtLeastMajor a) = (a \<le> fst v)"
| "in_range v (BelowMajor a) = (fst v < a)"
| "in_range v (Between r s) = (r \<le> v \<and> v < s)"
| "in_range v (Hyphen r s) = (r \<le> v \<and> v \<le> s)"
| "in_range v (Minor a b) = (fst v = a \<and> fst (snd v) = b)"
| "in_range v (Major a) = (fst v = a)"
| "in_range v (MinorX a b) = (fst v = a \<and> fst (snd v) = b)"
| "in_range v (MajorX a) = (fst v = a)"

subsection \<open>Scans over a text whose characters are known\<close>

definition numeric :: "string \<Rightarrow> bool" where
  "numeric s \<longleftrightarrow> (\<forall>c \<in> set s. is_digit c \<or> c = CHR ''.'')"

lemma numeric_simps [simp]:
  "numeric []" "numeric (c # s) \<longleftrightarrow> (is_digit c \<or> c = CHR ''.'') \<and> numeric s"
  "numeric (s @ t) \<longleftrightarrow> numeric s \<and> numeric t"
  by (auto simp: numeric_def)

lemma numeric_nat_str [simp]: "numeric (nat_str n)"
  using nat_str_digits [of n] by (auto simp: numeric_def list_all_iff)

lemma numeric_texts [simp]: "numeric (version_str a b c)" "numeric (minor_text a b)" "numeric (release_text r)"
  by (auto simp: version_str_def minor_text_def) (cases r; simp add: version_str_def)

lemma nat_str_ne [simp]: "nat_str n \<noteq> []" "version_str a b c \<noteq> []" "minor_text a b \<noteq> []"
  using nat_str_digits [of n] nat_str_digits [of a] by (auto simp: version_str_def minor_text_def)

lemma release_text_ne [simp]: "release_text r \<noteq> []"
  by (cases r) simp

lemma digit_cases: "is_digit c \<Longrightarrow> c \<in> set ''0123456789''"
  by (simp add: is_digit_def)

lemma numeric_not: "numeric s \<Longrightarrow> \<not> is_digit c \<Longrightarrow> c \<noteq> CHR ''.'' \<Longrightarrow> c \<notin> set s"
  by (auto simp: numeric_def)

lemma digit_no_space: "is_digit c \<Longrightarrow> \<not> is_space c"
  by (auto simp: is_digit_def is_space_def)

lemma numeric_no_space: "numeric s \<Longrightarrow> c \<in> set s \<Longrightarrow> \<not> is_space c"
  using digit_no_space by (auto simp: numeric_def is_space_def)

lemma trim_id:
  assumes "s \<noteq> []" "\<not> is_space (hd s)" "\<not> is_space (last s)"
  shows "trim s = s"
proof -
  have "dropWhile is_space s = s" using assms by (cases s) auto
  moreover have "dropWhile is_space (rev s) = rev s" using assms by (cases s rule: rev_cases) auto
  ultimately show ?thesis by (simp add: trim_def)
qed

lemma trim_numeric [simp]: "numeric s \<Longrightarrow> trim s = s"
  by (cases "s = []") (simp add: trim_def, simp add: trim_id numeric_no_space)

lemma contains_first: "contains (c # p) s \<Longrightarrow> c \<in> set s"
  by (induction s) auto

lemma operator_other: "c \<noteq> CHR ''>'' \<Longrightarrow> c \<noteq> CHR ''<'' \<Longrightarrow> c \<noteq> CHR ''='' \<Longrightarrow> operator (c # s) = None"
  by (auto simp: operator_def)

lemma operator_Nil [simp]: "operator [] = None"
  by (simp add: operator_def)

lemma expand_Nil [simp]: "expand_partials [] = []"
  by (simp add: expand_partials.simps [of "[]"] partial_operand_def)

lemma expand_other:
  "c \<noteq> CHR ''>'' \<Longrightarrow> c \<noteq> CHR ''<'' \<Longrightarrow> c \<noteq> CHR ''='' \<Longrightarrow> expand_partials (c # s) = c # expand_partials s"
  by (simp add: expand_partials.simps [of "c # s"] partial_operand_def operator_other)

lemma expand_through:
  "CHR ''>'' \<notin> set p \<Longrightarrow> CHR ''<'' \<notin> set p \<Longrightarrow> CHR ''='' \<notin> set p \<Longrightarrow> expand_partials (p @ s) = p @ expand_partials s"
  by (induction p) (auto simp: expand_other)

lemma numeric_without:
  "numeric s \<Longrightarrow> CHR ''>'' \<notin> set s" "numeric s \<Longrightarrow> CHR ''<'' \<notin> set s" "numeric s \<Longrightarrow> CHR ''='' \<notin> set s"
  "numeric s \<Longrightarrow> CHR '' '' \<notin> set s" "numeric s \<Longrightarrow> CHR ''-'' \<notin> set s" "numeric s \<Longrightarrow> CHR ''|'' \<notin> set s"
  "numeric s \<Longrightarrow> CHR ''x'' \<notin> set s" "numeric s \<Longrightarrow> CHR ''X'' \<notin> set s" "numeric s \<Longrightarrow> CHR ''*'' \<notin> set s"
  by (simp_all add: numeric_not)

lemma expand_numeric [simp]: "numeric p \<Longrightarrow> expand_partials (p @ s) = p @ expand_partials s"
  by (rule expand_through) (simp_all add: numeric_without)

lemma expand_only [simp]: "numeric p \<Longrightarrow> expand_partials p = p"
  using expand_numeric [of p "[]"] by simp

text \<open>An operator before a whole version is left as it is, one before a major alone is filled up.\<close>

lemma operator_two [simp]:
  "operator (CHR ''>'' # CHR ''='' # s) = Some (''>='', s)" "operator (CHR ''<'' # CHR ''='' # s) = Some (''<='', s)"
  by (simp_all add: operator_def)

lemma operator_one [simp]:
  "s \<noteq> [] \<Longrightarrow> hd s \<noteq> CHR ''='' \<Longrightarrow> operator (CHR ''>'' # s) = Some (''>'', s)"
  "s \<noteq> [] \<Longrightarrow> hd s \<noteq> CHR ''='' \<Longrightarrow> operator (CHR ''<'' # s) = Some (''<'', s)"
  "operator (CHR ''='' # s) = Some (''='', s)"
  by (cases s; auto simp: operator_def)+

lemma hd_nat_str: "is_digit (hd (nat_str n @ t))"
  using nat_str_digits [of n] by (cases "nat_str n") auto

lemma hd_version: "is_digit (hd (version_str a b c @ t))"
  using hd_nat_str [of a] by (simp add: version_str_def)

lemma hd_number_not:
  "hd (nat_str n @ t) \<noteq> CHR ''=''" "hd (version_str a b c @ t) \<noteq> CHR ''=''"
  using hd_nat_str [of n t] hd_version [of a b c t] by (metis not_digit)+

lemma skip_no_space [simp]:
  "dropWhile is_space (nat_str n @ t) = nat_str n @ t"
  "dropWhile is_space (version_str a b c @ t) = version_str a b c @ t"
proof -
  have *: "dropWhile is_space u = u" if "u \<noteq> []" "is_digit (hd u)" for u
    using that digit_no_space by (cases u) auto
  show "dropWhile is_space (nat_str n @ t) = nat_str n @ t"
    "dropWhile is_space (version_str a b c @ t) = version_str a b c @ t"
    using hd_nat_str hd_version by (intro *; simp)+
qed

lemma whole_string [simp]:
  "digits (nat_str n) = Some (nat_str n, [])" "dropWhile is_space (nat_str n) = nat_str n"
  "three_numbers (version_str a b c) = Some (nat_str a, nat_str b, nat_str c, [])"
  "dropWhile is_space (version_str a b c) = version_str a b c"
  using digits_nat_str [where t = "[]"] skip_no_space [where t = "[]"] three_numbers_version [where t = "[]"]
  by simp_all

lemma partial_operand_version:
  "operator s = Some (op, version_str a b c @ t) \<Longrightarrow> stops t \<Longrightarrow> partial_operand s = None"
  by (simp add: partial_operand_def) (simp add: version_str_def optional_minor_def)

lemma partial_operand_major:
  "operator s = Some (op, nat_str a @ t) \<Longrightarrow> stops t \<Longrightarrow> t = [] \<or> hd t \<noteq> CHR ''.'' \<Longrightarrow>
   partial_operand s = Some (op, nat_str a, None, t)"
  by (cases t) (auto simp: partial_operand_def optional_minor_def dot_def)

lemma expand_version:
  assumes "stops t" "op \<in> {''>='', ''<='', ''>'', ''<'', ''=''}"
  shows "expand_partials (op @ version_str a b c @ t) = op @ version_str a b c @ expand_partials t"
proof -
  let ?v = "version_str a b c @ t"
  have none: "expand_partials (x # s) = x # expand_partials s" if "partial_operand (x # s) = None" for x s
    using that by (simp add: expand_partials.simps [of "x # s"])
  have e: "expand_partials (CHR ''='' # ?v) = CHR ''='' # version_str a b c @ expand_partials t"
    by (subst none) (simp_all add: partial_operand_version assms(1))
  show ?thesis
    using assms(2) partial_operand_version [OF _ assms(1), of _ _ a b c] hd_number_not(2) [of a b c t]
    by (auto simp: none e)
qed

lemma expand_major:
  assumes "stops t" "t = [] \<or> hd t \<noteq> CHR ''.''" "op \<in> {''>='', ''<='', ''>'', ''<'', ''=''}"
  shows "expand_partials (op @ nat_str a @ t) = op @ '' '' @ nat_str a @ ''.0.0'' @ expand_partials t"
proof -
  have "operator (op @ nat_str a @ t) = Some (op, nat_str a @ t)"
    using assms(3) hd_number_not(1) [of a t] by auto
  from partial_operand_major [OF this assms(1,2)] show ?thesis
    by (simp add: expand_partials.simps [of "op @ nat_str a @ t"])
qed

text \<open>The operands a comparison lists.\<close>

fun dotted :: "string \<Rightarrow> nat" where
  "dotted [] = 0"
| "dotted (c # s) = (if c = CHR ''.'' \<and> \<not> stops s then Suc (dotted s) else dotted s)"

lemma dotted_append: "dotted t \<le> dotted (s @ t)"
  by (induction s) auto

lemma dotted_dropWhile: "dotted (dropWhile P s) \<le> dotted s"
  by (induction s) auto

lemma digits_append: "digits s = Some (d, r) \<Longrightarrow> s = d @ r \<and> \<not> stops s"
proof -
  assume "digits s = Some (d, r)"
  then have d: "d = takeWhile is_digit s" "r = dropWhile is_digit s" "d \<noteq> []"
    by (auto simp: digits_def Let_def split: if_splits)
  then show ?thesis by (cases s) (auto simp: stops_def split: if_splits)
qed

lemma digits_dotted: "digits s = Some (d, r) \<Longrightarrow> dotted r \<le> dotted s"
  using dotted_append digits_append by metis

lemma dot_dotted: "dot s = Some r \<Longrightarrow> digits r = Some x \<Longrightarrow> dotted s = Suc (dotted r)"
  using digits_append [of r] by (cases s; cases x) (auto simp: dot_def split: if_splits)

lemma three_numbers_needs_dots:
  assumes "three_numbers s = Some x"
  shows "2 \<le> dotted s"
proof -
  from assms obtain a r1 r2 b r3 r4 c r5 where
    n: "digits s = Some (a, r1)" "dot r1 = Some r2" "digits r2 = Some (b, r3)" "dot r3 = Some r4" "digits r4 = Some (c, r5)"
    by (auto simp: three_numbers_def bind_eq_Some_conv)
  then show ?thesis
    using digits_dotted [OF n(1)] dot_dotted [OF n(2,3)] digits_dotted [OF n(3)] dot_dotted [OF n(4,5)] by simp
qed

lemma operand_needs_dots:
  assumes o: "operand s = Some x"
  shows "2 \<le> dotted s"
proof -
  obtain op r where r: "(case operator s of Some x \<Rightarrow> x | None \<Rightarrow> ([], s)) = (op, r)" by fastforce
  then have "dotted r \<le> dotted s"
    by (cases s; cases "tl s") (auto simp: operator_def prefix_def split: option.splits if_splits)
  moreover from o r obtain y where "three_numbers (dropWhile is_space r) = Some y"
    by (auto simp: operand_def Let_def split: option.splits)
  ultimately show ?thesis
    using three_numbers_needs_dots dotted_dropWhile [of is_space r] by fastforce
qed

lemma no_operands: "dotted s < 2 \<Longrightarrow> operands s = []"
proof (induction s)
  case (Cons c s)
  have "operand (c # s) = None" using Cons.prems operand_needs_dots [of "c # s"] by (cases "operand (c # s)") auto
  then show ?case using Cons by (simp add: operands.simps [of "c # s"] split: if_splits)
qed (simp add: operands.simps [of "[]"] operand_def three_numbers_def digits_def)

lemma dotted_through [simp]: "CHR ''.'' \<notin> set p \<Longrightarrow> dotted (p @ s) = dotted s"
  by (induction p) auto

lemma operands_Nil [simp]: "operands [] = []"
  by (simp add: no_operands)

definition free :: "string \<Rightarrow> bool" where
  "free t \<longleftrightarrow> stops t \<and> (t = [] \<or> hd t \<noteq> CHR ''-'')"

lemma operator_number [simp]: "operator (version_str a b c @ t) = None" "operator (nat_str a @ t) = None"
proof -
  have *: "operator u = None" if "u \<noteq> []" "is_digit (hd u)" for u
    using that by (cases u) (auto simp: operator_def)
  show "operator (version_str a b c @ t) = None" "operator (nat_str a @ t) = None"
    using hd_version hd_nat_str by (intro *; simp)+
qed

lemma operand_version [simp]:
  "free t \<Longrightarrow> operand (version_str a b c @ t) = Some ([], version_str a b c, t)"
  by (auto simp: operand_def free_def Let_def) (simp_all add: version_str_def)

lemma operand_op_version:
  "operator s = Some (op, u) \<Longrightarrow> dropWhile is_space u = version_str a b c @ t \<Longrightarrow> free t \<Longrightarrow>
   operand s = Some (op, version_str a b c, t)"
  by (auto simp: operand_def free_def Let_def) (simp_all add: version_str_def)

lemma operands_version [simp]: "free t \<Longrightarrow> operands (version_str a b c @ t) = ([], version_str a b c) # operands t"
  by (subst operands.simps) simp

lemma operands_op_version:
  "operator s = Some (op, u) \<Longrightarrow> dropWhile is_space u = version_str a b c @ t \<Longrightarrow> free t \<Longrightarrow>
   operands s = (op, version_str a b c) # operands t"
  by (subst operands.simps) (simp add: operand_op_version)

subsection \<open>The branches of \<open>satisfies\<close>\<close>

lemma normal_range_start:
  assumes "s \<noteq> []" "\<not> is_space (hd s)" "\<not> is_space (last s)" "hd s \<noteq> CHR ''=''" "hd s \<noteq> CHR ''v''"
  shows "normal_range s = expand_partials s"
proof -
  have "strip_exact s = s" using assms by (cases s; cases "tl s") (auto simp: strip_exact_def)
  then show ?thesis using assms by (simp add: normal_range_def trim_id)
qed

lemma ends_digit [simp]: "\<not> is_space (last (nat_str n))" "\<not> is_space (last (version_str a b c))"
    "\<not> is_space (last (minor_text a b))" "\<not> is_space (last (release_text r))"
  using numeric_no_space [OF _ last_in_set] by auto

lemma starts_digit: "is_digit c \<Longrightarrow> \<not> is_space c \<and> c \<noteq> CHR ''='' \<and> c \<noteq> CHR ''v'' \<and> c \<noteq> CHR ''l'' \<and> c \<noteq> CHR ''^'' \<and> c \<noteq> CHR ''~''"
  by (auto simp: is_digit_def is_space_def)

lemma partial_range_other: "s = [] \<or> hd s \<noteq> CHR ''^'' \<and> hd s \<noteq> CHR ''~'' \<Longrightarrow> partial_range s = None"
  by (cases s) (auto simp: partial_range_def)

lemma partial_range_caret [simp]:
  assumes "op = CHR ''^'' \<or> op = CHR ''~''"
  shows "partial_range (op # version_str a b c) = Some (op, a, Some b, Some c)"
    "partial_range (op # minor_text a b) = Some (op, a, Some b, None)"
    "partial_range (op # nat_str a) = Some (op, a, None, None)"
  using assms by (auto simp: partial_range_def version_str_def minor_text_def)

lemma release_of_fields [simp]:
  "major (release_of v) = fst v" "minor (release_of v) = fst (snd v)" "patch (release_of v) = snd (snd v)"
  "prerelease (release_of v) = None"
  by (cases v; simp)+

lemma satisfies_partial:
  assumes "normal_range rng = r" "partial_range r = Some (op, a, b, c)"
  shows "satisfies lc (release_text v) rng =
    Some (0 \<le> compare_versions lc (release_text v) (fst (partial_bounds op a b c)) \<and>
          compare_versions lc (release_text v) (snd (partial_bounds op a b c)) < 0)"
  using assms by (simp add: satisfies.simps [of lc "release_text v"] case_prod_beta)

lemma satisfies_exact:
  assumes "normal_range rng = r" "partial_range r = None" "exact_version r = Some w"
  shows "satisfies lc (release_text v) rng = Some (compare_versions lc (release_text v) w = 0)"
  using assms by (simp add: satisfies.simps [of lc "release_text v"])

lemma satisfies_single:
  assumes "normal_range rng = r" "partial_range r = None" "exact_version r = None"
    "r \<notin> {''*'', ''latest'', []}" "\<not> contains ''||'' r"
    "single_range lc (release_of v) (release_text v) r = Some b"
  shows "satisfies lc (release_text v) rng = Some b"
  using assms by (simp add: satisfies.simps [of lc "release_text v"])

lemma satisfies_any: "satisfies lc (release_text v) ''*'' = Some True"
proof -
  have "normal_range ''*'' = ''*''"
    by (subst normal_range_start) (simp_all add: is_space_def expand_other)
  moreover have "exact_version ''*'' = None"
    by (simp add: exact_version_def three_numbers_def digits_def)
  moreover have "partial_range ''*'' = None" by (simp add: partial_range_other)
  ultimately show ?thesis by (simp add: satisfies.simps [of lc "release_text v"])
qed

text \<open>Comparing against bounds written from numbers.\<close>

lemma compare_bounds:
  "0 \<le> compare_versions lc (release_text v) (version_str a b c) \<longleftrightarrow> (a, b, c) \<le> v"
  "compare_versions lc (release_text v) (version_str a b c) \<le> 0 \<longleftrightarrow> v \<le> (a, b, c)"
  "compare_versions lc (release_text v) (version_str a b c) = 0 \<longleftrightarrow> v = (a, b, c)"
  "compare_versions lc (release_text v) (version_str a b c) < 0 \<longleftrightarrow> v < (a, b, c)"
  "0 < compare_versions lc (release_text v) (version_str a b c) \<longleftrightarrow> (a, b, c) < v"
  using compare_release [of lc v "(a, b, c)"] compare_release_less [of lc v "(a, b, c)"] by simp_all

lemma hat_normal:
  "op = CHR ''^'' \<or> op = CHR ''~'' \<Longrightarrow> numeric s \<Longrightarrow> s \<noteq> [] \<Longrightarrow> normal_range (op # s) = op # s"
  by (subst normal_range_start) (auto simp: is_space_def expand_other dest: numeric_no_space [OF _ last_in_set])

lemma satisfies_caret_tilde:
  assumes "op = CHR ''^'' \<or> op = CHR ''~''"
  shows "satisfies lc (release_text v) (op # version_str a b c) =
      Some ((a, b, c) \<le> v \<and> v < (if op = CHR ''~'' then (a, b + 1, 0) else caret_end (a, b, c)))"
    "satisfies lc (release_text v) (op # minor_text a b) =
      Some ((a, b, 0) \<le> v \<and> v < (if op = CHR ''~'' \<or> a = 0 then (a, b + 1, 0) else (a + 1, 0, 0)))"
    "satisfies lc (release_text v) (op # nat_str a) = Some ((a, 0, 0) \<le> v \<and> v < (a + 1, 0, 0))"
  using assms
  by (auto simp: satisfies_partial [OF hat_normal partial_range_caret(1)] satisfies_partial [OF hat_normal partial_range_caret(2)]
       satisfies_partial [OF hat_normal partial_range_caret(3)] partial_bounds_def compare_bounds)

lemma major_order: "(a, 0, 0) \<le> (v :: release) \<and> v < (a + 1, 0, 0) \<longleftrightarrow> fst v = a"
  by (cases v) (auto simp: less_eq_prod_def less_prod_def)

lemma minor_order: "(a, b, 0) \<le> (v :: release) \<and> v < (a, b + 1, 0) \<longleftrightarrow> fst v = a \<and> fst (snd v) = b"
  by (cases v) (auto simp: less_eq_prod_def less_prod_def)

lemma satisfies_hat:
  assumes "rng \<in> {Caret r, CaretMinor a b, CaretMajor a, Tilde r, TildeMinor a b, TildeMajor a}"
  shows "satisfies lc (release_text v) (range_text rng) = Some (in_range v rng)"
proof -
  obtain x y z where r: "r = (x, y, z)" by (cases r)
  have "rng = Caret r \<or> rng = CaretMinor a b \<or> rng = CaretMajor a \<or> rng = Tilde r \<or> rng = TildeMinor a b \<or> rng = TildeMajor a"
    using assms by simp
  then show ?thesis
    unfolding r
    by (elim disjE) (simp_all add: satisfies_caret_tilde major_order minor_order del: caret_end.simps One_nat_def add_Suc_right)
qed

lemma numeric_start: "numeric s \<Longrightarrow> s \<noteq> [] \<Longrightarrow> c \<in> set ''^~>=<v|-*l '' \<Longrightarrow> hd s \<noteq> c"
  by (cases s) (auto simp: is_digit_def)

lemma normal_number:
  assumes "numeric s" "s \<noteq> []"
  shows "normal_range (s @ t) = (if t = [] then s else if is_space (last t) then normal_range (s @ t) else s @ expand_partials t)"
proof -
  have "normal_range (s @ t) = expand_partials (s @ t)" if "\<not> is_space (last (s @ t))"
    using assms that numeric_start [OF assms] numeric_no_space [OF assms(1), of "hd s"]
    by (intro normal_range_start) simp_all
  then show ?thesis
    using assms numeric_no_space [OF assms(1) last_in_set] by (auto simp: last_append)
qed

lemma exact_version_release [simp]: "exact_version (version_str a b c) = Some (version_str a b c)"
  by (simp add: exact_version_def numeric_without) (simp add: version_str_def)

lemma satisfies_version: "satisfies lc (release_text v) (release_text r) = Some (v = r)"
proof -
  obtain a b c where r: "r = (a, b, c)" by (cases r)
  have n: "normal_range (version_str a b c) = version_str a b c"
    using normal_number [of "version_str a b c" "[]"] by simp
  have "partial_range (version_str a b c) = None"
    using numeric_start [of "version_str a b c"] by (intro partial_range_other) simp
  from satisfies_exact [OF n this exact_version_release] show ?thesis by (simp add: r compare_bounds)
qed

lemma exact_no_start: "s = [] \<or> \<not> is_digit (hd s) \<Longrightarrow> exact_version s = None"
  by (cases s) (auto simp: exact_version_def three_numbers_def digits_def)

text \<open>One operator and one version, with or without a space between.\<close>

lemma space_is_space [simp]: "is_space (CHR '' '')" "\<not> is_space (CHR ''>'')" "\<not> is_space (CHR ''<'')"
  by (simp_all add: is_space_def)

lemma number_no_keyword: "s \<noteq> [] \<Longrightarrow> is_digit (hd s) \<Longrightarrow> s \<notin> {''*'', ''latest'', []}"
  by (auto simp: is_digit_def)

lemma skip_space: "dropWhile is_space (CHR '' '' # s) = dropWhile is_space s"
  by simp

lemma trim_space [simp]: "trim (CHR '' '' # s) = trim s"
  by (simp add: trim_def)

lemma op_starts: "prefix [c] s \<longleftrightarrow> s \<noteq> [] \<and> hd s = c" "prefix [c, d] (x # s) \<longleftrightarrow> x = c \<and> s \<noteq> [] \<and> hd s = d"
  by (cases s; auto)+

lemma prefix_eq [simp]: "prefix [c] (version_str a b d) \<longleftrightarrow> hd (version_str a b d) = c"
  by (simp add: op_starts)

lemma one_operand:
  assumes op: "op \<in> {''>='', ''<='', ''>'', ''<''}" and sp: "sp = [] \<or> sp = '' ''"
  shows "single_range lc p w (op @ sp @ version_str a b c) = Some (operand_holds lc w (op, version_str a b c))"
proof -
  let ?s = "op @ sp @ version_str a b c"
  have h: "hd (version_str a b c) \<noteq> CHR ''=''" using numeric_start [of "version_str a b c"] by simp
  have "operator ?s = Some (op, sp @ version_str a b c)"
    using op sp h by (auto simp: operator_def)
  moreover have t: "dropWhile is_space (sp @ version_str a b c) = version_str a b c @ []" using sp by auto
  ultimately have "operands ?s = [(op, version_str a b c)]"
    by (subst operands_op_version) (auto simp: free_def)
  moreover have "CHR ''-'' \<notin> set ?s" using op sp by (auto simp: numeric_without)
  then have "\<not> contains '' - '' ?s" using contains_set [of "'' - ''" ?s] by fastforce
  moreover have "trim (sp @ version_str a b c) = version_str a b c" using sp by auto
  moreover have "hd (sp @ version_str a b c) \<noteq> CHR ''=''" "sp @ version_str a b c \<noteq> []" using sp h by auto
  ultimately show ?thesis
    using op by (elim insertE emptyE; simp only:) (simp_all add: single_range_def operand_holds_def op_starts)
qed

lemma satisfies_operator:
  assumes op: "op \<in> {''>='', ''<='', ''>'', ''<''}" and sp: "sp = [] \<or> sp = '' ''"
    and n: "normal_range rng = op @ sp @ version_str a b c"
  shows "satisfies lc (release_text v) rng = Some (operand_holds lc (release_text v) (op, version_str a b c))"
proof (rule satisfies_single [OF n])
  let ?s = "op @ sp @ version_str a b c"
  show "partial_range ?s = None" "exact_version ?s = None" "?s \<notin> {''*'', ''latest'', []}"
    using op by (auto intro!: partial_range_other exact_no_start)
  show "\<not> contains ''||'' ?s"
    using op sp by (auto dest!: contains_set simp: numeric_without)
qed (rule one_operand [OF op sp])

lemma normal_operator:
  assumes "op \<in> {''>='', ''<='', ''>'', ''<''}"
  shows "normal_range (op @ version_str a b c) = op @ version_str a b c"
    "normal_range (op @ nat_str a) = op @ '' '' @ version_str a 0 0"
proof -
  have "normal_range (op @ s) = expand_partials (op @ s)" if "numeric s" "s \<noteq> []" for s
    using assms that numeric_no_space [OF that(1) last_in_set]
    by (intro normal_range_start) (auto simp: is_space_def)
  then show "normal_range (op @ version_str a b c) = op @ version_str a b c"
      "normal_range (op @ nat_str a) = op @ '' '' @ version_str a 0 0"
    using expand_version [of "[]" op a b c] expand_major [of "[]" op a] assms
    by (auto simp: version_str_def nat_str.simps [of 0])
qed

lemma satisfies_compare:
  assumes "rng \<in> {AtLeast r, Above r, AtMost r, Below r, AtLeastMajor a, BelowMajor a}"
  shows "satisfies lc (release_text v) (range_text rng) = Some (in_range v rng)"
proof -
  obtain x y z where r: "r = (x, y, z)" by (cases r)
  have one: "satisfies lc (release_text v) (op @ version_str x y z) = Some (operand_holds lc (release_text v) (op, version_str x y z))"
    if "op \<in> {''>='', ''<='', ''>'', ''<''}" for op
    using satisfies_operator [OF that, of "[]"] normal_operator(1) [OF that] by simp
  have two: "satisfies lc (release_text v) (op @ nat_str a) = Some (operand_holds lc (release_text v) (op, version_str a 0 0))"
    if "op \<in> {''>='', ''<='', ''>'', ''<''}" for op
    using satisfies_operator [OF that, of "'' ''"] normal_operator(2) [OF that] by simp
  have "(a, 0, 0) \<le> v \<longleftrightarrow> a \<le> fst v" "v < (a, 0, 0) \<longleftrightarrow> fst v < a"
    by (cases v; auto simp: less_eq_prod_def less_prod_def)+
  then show ?thesis
    using assms one [of "''>=''"] one [of "''<=''"] one [of "''>''"] one [of "''<''"] two [of "''>=''"] two [of "''<''"]
    by (auto simp: r operand_holds_def compare_bounds)
qed

lemma between_operands:
  "operands (''>='' @ version_str a b c @ '' <'' @ version_str x y z) = [(''>='', version_str a b c), (''<'', version_str x y z)]"
proof -
  have "operator (''<'' @ version_str x y z) = Some (''<'', version_str x y z)"
    using hd_number_not(2) [of x y z "[]"] by simp
  then have "operands (''<'' @ version_str x y z) = (''<'', version_str x y z) # operands []"
    by (rule operands_op_version) (simp_all add: free_def)
  moreover have "operand ('' <'' @ version_str x y z) = None"
    by (simp add: operand_def operator_other three_numbers_def digits_def is_space_def is_digit_def)
  ultimately have t: "operands ('' <'' @ version_str x y z) = [(''<'', version_str x y z)]"
    by (simp add: operands.simps [of "CHR '' '' # CHR ''<'' # version_str x y z"])
  have "operands (''>='' @ version_str a b c @ '' <'' @ version_str x y z) =
      (''>='', version_str a b c) # operands ('' <'' @ version_str x y z)"
    by (rule operands_op_version [where u = "version_str a b c @ '' <'' @ version_str x y z"]) (simp_all add: free_def)
  then show ?thesis using t by simp
qed

lemma satisfies_between:
  "satisfies lc (release_text v) (range_text (Between r s)) = Some (in_range v (Between r s))"
proof -
  obtain a b c x y z where rs: "r = (a, b, c)" "s = (x, y, z)" by (metis prod_cases3)
  let ?s = "''>='' @ version_str a b c @ '' <'' @ version_str x y z"
  have e: "expand_partials ('' <'' @ version_str x y z) = '' <'' @ version_str x y z"
    using expand_version [of "[]" "''<''" x y z] by (simp add: expand_other)
  have n: "normal_range ?s = ?s"
    using expand_version [of "'' <'' @ version_str x y z" "''>=''" a b c] e
    by (subst normal_range_start) simp_all
  have "CHR ''-'' \<notin> set ?s" "CHR ''|'' \<notin> set ?s" by (simp_all add: numeric_without)
  then have c: "\<not> contains '' - '' ?s" "\<not> contains ''||'' ?s"
    using contains_set [of "'' - ''" ?s] contains_set [of "''||''" ?s] by fastforce+
  have "satisfies lc (release_text v) ?s = Some ((a, b, c) \<le> v \<and> v < (x, y, z))"
  proof (rule satisfies_single [OF n])
    show "partial_range ?s = None" "exact_version ?s = None" "?s \<notin> {''*'', ''latest'', []}"
      by (auto intro!: partial_range_other exact_no_start)
    show "single_range lc (release_of v) (release_text v) ?s = Some ((a, b, c) \<le> v \<and> v < (x, y, z))"
      using c by (simp only: single_range_def between_operands) (simp add: operand_holds_def compare_bounds)
  qed (rule c)
  then show ?thesis by (simp add: rs)
qed

lemma satisfies_hyphen:
  "satisfies lc (release_text v) (range_text (Hyphen r s)) = Some (in_range v (Hyphen r s))"
proof -
  obtain a b c x y z where rs: "r = (a, b, c)" "s = (x, y, z)" by (metis prod_cases3)
  let ?s = "version_str a b c @ '' - '' @ version_str x y z"
  have n: "normal_range ?s = ?s"
    using normal_number [of "version_str a b c" "'' - '' @ version_str x y z"]
    by (simp add: expand_other)
  have "CHR ''|'' \<notin> set ?s" by (simp add: numeric_without)
  then have c: "\<not> contains ''||'' ?s" using contains_set [of "''||''" ?s] by fastforce
  have p: "split_str '' - '' [] ?s = [version_str a b c, version_str x y z]"
    by (simp only: split_past [of "'' - ''" "version_str a b c"] split_sep list.sel numeric_without numeric_texts
        not_Cons_self2 list.distinct split_last simp_thms append_Nil2 rev_rev_ident rev.simps append_Nil)
  have d: "is_digit (hd ?s)" "?s \<noteq> []" by (rule hd_version) simp
  have "satisfies lc (release_text v) ?s = Some ((a, b, c) \<le> v \<and> v \<le> (x, y, z))"
  proof (rule satisfies_single [OF n])
    show "partial_range ?s = None" using d by (intro partial_range_other) auto
    show "exact_version ?s = None" by (simp add: exact_version_def)
    show "?s \<notin> {''*'', ''latest'', []}" using number_no_keyword [OF d(2,1)] .
    show "single_range lc (release_of v) (release_text v) ?s = Some ((a, b, c) \<le> v \<and> v \<le> (x, y, z))"
      using contains_here [of "'' - ''" "version_str a b c" "version_str x y z"]
      by (simp only: single_range_def p if_True Let_def) (simp add: compare_bounds)
  qed (rule c)
  then show ?thesis by (simp add: rs)
qed

subsection \<open>Majors, minors and the letter x\<close>

lemma parse_int_nat [simp]: "parse_int (nat_str n) = Some (int n)"
proof -
  have d: "is_digit (hd (nat_str n))" using hd_nat_str [of n "[]"] by simp
  then have "hd (nat_str n) \<noteq> CHR ''-''" "hd (nat_str n) \<noteq> CHR ''+''" by (auto simp: is_digit_def)
  moreover have "takeWhile is_digit (nat_str n) = nat_str n"
    using nat_str_digits [of n] by (simp add: list_all_iff takeWhile_eq_all_conv)
  moreover have "dropWhile is_space (nat_str n) = nat_str n" by simp
  ultimately show ?thesis by (simp add: parse_int_def del: takeWhile_eq_all_conv)
qed

lemma not_dot [simp]: "CHR ''.'' \<notin> set (nat_str n)"
  using nat_str_digits [of n] by (auto simp: list_all_iff)

lemma not_x: "numeric s \<Longrightarrow> filter (\<lambda>c. c \<noteq> CHR ''x'' \<and> c \<noteq> CHR ''X'') s = s"
  by (auto simp: filter_id_conv dest: numeric_without(7,8))

lemma dot_split:
  "split_str ''.'' [] (nat_str a) = [nat_str a]"
  "split_str ''.'' [] (nat_str a @ CHR ''.'' # t) = nat_str a # split_str ''.'' [] t"
  using split_last [of "''.''" "nat_str a" "[]"] split_past [of "''.''" "nat_str a" "[]"]
    split_sep [of "''.''" "rev (nat_str a)" t] by simp_all

lemma all_digits_nat: "list_all is_digit (nat_str a)"
  using nat_str_digits by simp

lemma x_parts_texts:
  "x_parts (nat_str a) = Some [nat_str a]"
  "x_parts (nat_str a @ ''.x'') = Some [nat_str a]"
  "x_parts (minor_text a b) = Some [nat_str a, nat_str b]"
  "x_parts (minor_text a b @ ''.x'') = Some [nat_str a, nat_str b]"
  using all_digits_nat [of a]
  by (simp_all add: x_parts_def minor_text_def not_x dot_split split_Nil)

lemma satisfies_number:
  assumes s: "s = nat_str a \<or> s = minor_text a b" and t: "t = [] \<or> t = ''.x''"
    and x: "x_range (release_of v) (s @ t) = Some r"
  shows "satisfies lc (release_text v) (s @ t) = Some r"
proof -
  let ?s = "s @ t"
  have ne: "s \<noteq> []" and num: "numeric s" using s by (elim disjE; simp)+
  have hd: "is_digit (hd ?s)" "?s \<noteq> []" using s hd_nat_str [of a] ne by (auto simp: minor_text_def)
  have n: "normal_range ?s = ?s"
    using normal_number [OF num ne, of t] t by (auto simp: expand_other is_space_def)
  have "dotted (nat_str m) = 0" for m using dotted_through [of "nat_str m" "[]"] by simp
  then have "dotted ?s < 2" using s t by (auto simp: minor_text_def)
  then have o: "operands ?s = []" by (rule no_operands)
  have c: "\<not> contains '' - '' ?s" "\<not> contains ''||'' ?s"
    using contains_set [of "'' - ''" ?s] contains_set [of "''||''" ?s] num t by (auto dest: numeric_without(4,6))
  have start: "hd ?s \<noteq> CHR ''^''" "hd ?s \<noteq> CHR ''~''" "hd ?s \<noteq> CHR ''>''" "hd ?s \<noteq> CHR ''<''"
    using hd(1) by auto
  show ?thesis
  proof (rule satisfies_single [OF n])
    show "partial_range ?s = None" using start by (intro partial_range_other) simp
    have "three_numbers ?s = None"
      using \<open>dotted ?s < 2\<close> three_numbers_needs_dots [of ?s] by (cases "three_numbers ?s") auto
    then show "exact_version ?s = None" by (simp add: exact_version_def)
    show "?s \<notin> {''*'', ''latest'', []}" using number_no_keyword [OF hd(2,1)] .
    show "single_range lc (release_of v) (release_text v) ?s = Some r"
      using start c hd(2) x o by (cases ?s) (auto simp: single_range_def)
  qed (rule c)
qed

lemma satisfies_x:
  assumes "rng \<in> {Minor a b, Major a, MinorX a b, MajorX a}"
  shows "satisfies lc (release_text v) (range_text rng) = Some (in_range v rng)"
  using assms satisfies_number [of "nat_str a" a b "[]" v _ lc] satisfies_number [of "nat_str a" a b "''.x''" v _ lc]
    satisfies_number [of "minor_text a b" a b "[]" v _ lc] satisfies_number [of "minor_text a b" a b "''.x''" v _ lc]
  by (auto simp: x_range_def x_parts_texts)

subsection \<open>The properties\<close>

lemmas satisfies_cases =
  satisfies_any satisfies_version satisfies_hat satisfies_compare satisfies_between satisfies_hyphen satisfies_x

lemma satisfies_range:
  "satisfies lc (release_text v) (range_text rng) = Some (in_range v rng)"
proof (cases rng)
  case (Hyphen r s)
  then show ?thesis using satisfies_hyphen by simp
next
  case (Between r s)
  then show ?thesis using satisfies_between by simp
next
  case Any
  then show ?thesis using satisfies_any by simp
next
  case (Exactly r)
  then show ?thesis using satisfies_version by simp
qed (use satisfies_hat satisfies_compare satisfies_x in \<open>metis insertI1 insertI2\<close>)+

subsection \<open>Unions\<close>

definition union_text :: "simple list \<Rightarrow> string" where
  "union_text rngs = join_with '' || '' (map range_text rngs)"

text \<open>What rewriting makes of a range: a major alone after an operator is filled up.\<close>

fun normal_text :: "simple \<Rightarrow> string" where
  "normal_text (AtLeastMajor a) = ''>= '' @ version_str a 0 0"
| "normal_text (BelowMajor a) = ''< '' @ version_str a 0 0"
| "normal_text rng = range_text rng"

lemma version_zero: "version_str a 0 0 = nat_str a @ ''.0.0''"
  by (simp add: version_str_def nat_str.simps [of 0])

lemma expand_range:
  assumes t: "t = [] \<or> hd t = CHR '' ''"
  shows "expand_partials (range_text rng @ t) = normal_text rng @ expand_partials t"
proof -
  have st: "stops t" "t = [] \<or> hd t \<noteq> CHR ''.''" using t by (cases t; simp)+
  have v: "expand_partials (op @ release_text r @ t) = op @ release_text r @ expand_partials t"
    if "op \<in> {''>='', ''<='', ''>'', ''<''}" for op r
    using expand_version [OF st(1)] that by (cases r) auto
  have m: "expand_partials (op @ nat_str a @ t) = op @ '' '' @ version_str a 0 0 @ expand_partials t"
    if "op \<in> {''>='', ''<''}" for op a
    using expand_major [OF st] that by (auto simp: version_zero)
  show ?thesis
  proof (cases rng)
    case (Between r s)
    obtain a b c where r: "r = (a, b, c)" by (cases r)
    have "expand_partials (''>='' @ release_text r @ '' <'' @ release_text s @ t) =
        ''>='' @ release_text r @ expand_partials ('' <'' @ release_text s @ t)"
      using expand_version [of "'' <'' @ release_text s @ t" "''>=''" a b c] by (simp add: r)
    also have "expand_partials ('' <'' @ release_text s @ t) = '' <'' @ release_text s @ expand_partials t"
      using v [of "''<''" s] by (simp add: expand_other)
    finally show ?thesis using Between by simp
  next
    case (AtLeast r)
    then show ?thesis using v [of "''>=''" r] by simp
  next
    case (Above r)
    then show ?thesis using v [of "''>''" r] by simp
  next
    case (AtMost r)
    then show ?thesis using v [of "''<=''" r] by simp
  next
    case (Below r)
    then show ?thesis using v [of "''<''" r] by simp
  next
    case (AtLeastMajor a)
    then show ?thesis using m [of "''>=''" a] by simp
  next
    case (BelowMajor a)
    then show ?thesis using m [of "''<''" a] by simp
  qed (simp_all add: expand_other)
qed

lemma satisfies_normal: "satisfies lc (release_text v) (normal_text rng) = Some (in_range v rng)"
proof -
  have filled: "satisfies lc (release_text v) (op @ '' '' @ version_str a 0 0) =
      Some (operand_holds lc (release_text v) (op, version_str a 0 0))" if op: "op = ''>='' \<or> op = ''<''" for op a
  proof (rule satisfies_operator)
    have x: "expand_partials ('' '' @ version_str a 0 0) = '' '' @ version_str a 0 0" by (simp add: expand_other)
    have none: "partial_operand s = None" if "operator s = Some (o', CHR '' '' # version_str a 0 0)" for s o'
      using that by (simp add: partial_operand_def) (simp add: version_str_def optional_minor_def)
    have one: "expand_partials (c # s) = c # expand_partials s" if "partial_operand (c # s) = None" for c s
      using that by (simp add: expand_partials.simps [of "c # s"])
    have eq: "expand_partials (CHR ''='' # CHR '' '' # version_str a 0 0) = CHR ''='' # CHR '' '' # version_str a 0 0"
      using x by (subst one) (simp_all add: none)
    have "expand_partials (op @ '' '' @ version_str a 0 0) = op @ '' '' @ version_str a 0 0"
      using op
    proof
      assume "op = ''>=''"
      then show ?thesis using eq by (simp, subst one) (simp_all add: none)
    next
      assume "op = ''<''"
      then show ?thesis using x by (simp, subst one) (simp_all add: none operator_one)
    qed
    then show "normal_range (op @ '' '' @ version_str a 0 0) = op @ '' '' @ version_str a 0 0"
      using op by (subst normal_range_start) auto
  qed (use op in auto)
  have "(a, 0, 0) \<le> v \<longleftrightarrow> a \<le> fst v" "v < (a, 0, 0) \<longleftrightarrow> fst v < a" for a
    by (cases v; auto simp: less_eq_prod_def less_prod_def)+
  then show ?thesis
    using filled [of "''>=''"] filled [of "''<''"] satisfies_range [of lc v rng]
    by (cases rng) (auto simp: operand_holds_def compare_bounds)
qed

lemma expand_union:
  "expand_partials (join_with '' || '' (map range_text rngs)) = join_with '' || '' (map normal_text rngs)"
proof (induction rngs)
  case (Cons rng rngs)
  show ?case
  proof (cases rngs)
    case Nil
    then show ?thesis using expand_range [of "[]" rng] by simp
  next
    case (Cons r rs)
    have "expand_partials ('' || '' @ s) = '' || '' @ expand_partials s" for s by (rule expand_through) simp_all
    then show ?thesis
      using Cons.IH Cons expand_range [of "'' || '' @ join_with '' || '' (map range_text rngs)" rng] by simp
  qed
qed simp

text \<open>A text without bars, and with no space at its ends.\<close>

definition part :: "string \<Rightarrow> bool" where
  "part s \<longleftrightarrow> s \<noteq> [] \<and> CHR ''|'' \<notin> set s \<and> \<not> is_space (hd s) \<and> \<not> is_space (last s)"

lemma numeric_part: "numeric s \<Longrightarrow> s \<noteq> [] \<Longrightarrow> part s"
  using numeric_no_space by (auto simp: part_def dest: numeric_without(6))

lemma part_around: "part s \<Longrightarrow> c \<noteq> CHR ''|'' \<Longrightarrow> \<not> is_space c \<Longrightarrow> part (c # s)"
  by (simp add: part_def)

lemma part_between: "part s \<Longrightarrow> part t \<Longrightarrow> CHR ''|'' \<notin> set u \<Longrightarrow> part (s @ u @ t)"
  by (simp add: part_def)

lemma part_texts: "part (range_text rng)" "part (normal_text rng)"
proof -
  have op: "\<not> is_space (CHR ''='')" "\<not> is_space (CHR ''^'')" "\<not> is_space (CHR ''~'')" "\<not> is_space (CHR ''*'')"
    "\<not> is_space (CHR ''x'')" by (simp_all add: is_space_def)
  have n: "part (release_text r)" "part (version_str a b c)" "part (minor_text a b)" "part (nat_str a)" for r a b c
    by (rule numeric_part; simp)+
  have x: "part [CHR ''x'']" "part [CHR ''*'']" using op by (simp_all add: part_def)
  note around = part_around n op
  show r: "part (range_text rng)" for rng
  proof (cases rng)
    case (Between r s)
    have "part (CHR ''<'' # release_text s)" by (rule around(1)) (simp_all add: n)
    from part_between [OF n(1) this, of "'' ''" r] have "part (release_text r @ '' <'' @ release_text s)" by simp
    then have "part (CHR ''='' # release_text r @ '' <'' @ release_text s)" by (rule around(1)) (simp_all add: op)
    then have "part (CHR ''>'' # CHR ''='' # release_text r @ '' <'' @ release_text s)" by (rule around(1)) simp_all
    then show ?thesis using Between by simp
  qed (use part_between [OF n(1) n(1), of "'' - ''"] part_between [OF n(3) x(1), of "''.''"]
      part_between [OF n(4) x(1), of "''.''"] x(2) n op in \<open>auto intro!: around(1)\<close>)
  have "part (''>= '' @ version_str a 0 0)" "part (''< '' @ version_str a 0 0)" for a
    using n(2) [of a 0 0] op by (auto simp: part_def)
  moreover have "normal_text rng = range_text rng \<or> (\<exists>a. rng = AtLeastMajor a \<or> rng = BelowMajor a)"
    by (cases rng) simp_all
  ultimately show "part (normal_text rng)" using r [of rng] by auto
qed

lemma part_trim:
  assumes "part p"
  shows "trim p = p" "trim (p @ '' '') = p"
proof -
  have p: "p \<noteq> []" "\<not> is_space (hd p)" "\<not> is_space (last p)" using assms by (simp_all add: part_def)
  then show "trim p = p" by (rule trim_id)
  have "dropWhile is_space (p @ '' '') = p @ '' ''" using p(1,2) by (cases p) auto
  moreover have "dropWhile is_space (rev p) = rev p" using p(1,3) by (cases p rule: rev_cases) auto
  ultimately show "trim (p @ '' '') = p" by (simp add: trim_def)
qed

lemma split_union:
  assumes "list_all part ps" "ps \<noteq> []" "pre = [] \<or> pre = '' ''"
  shows "map trim (split_str ''||'' [] (pre @ join_with '' || '' ps)) = ps"
  using assms
proof (induction ps arbitrary: pre)
  case (Cons p ps)
  have p: "part p" "CHR ''|'' \<notin> set (pre @ p)" using Cons.prems by (auto simp: part_def)
  have trims: "trim (pre @ p) = p" "trim (pre @ p @ '' '') = p"
    using Cons.prems(3) part_trim [OF p(1)] by auto
  show ?case
  proof (cases ps)
    case Nil
    then show ?thesis using split_last [of "''||''" "pre @ p" "[]"] p(2) trims(1) by simp
  next
    case (Cons q qs)
    have "pre @ join_with '' || '' (p # ps) = (pre @ p @ '' '') @ ''||'' @ '' '' @ join_with '' || '' ps"
      using Cons by simp
    moreover have "split_str ''||'' [] ((pre @ p @ '' '') @ ''||'' @ s) = (pre @ p @ '' '') # split_str ''||'' [] s" for s
      using split_past [of "''||''" "pre @ p @ '' ''" "[]" "''||'' @ s"] split_sep [of "''||''" "rev (pre @ p @ '' '')" s] p(2)
      by simp
    ultimately show ?thesis
      using Cons.IH [of "'' ''"] Cons.prems Cons trims(2) by simp
  qed
qed simp

lemma partial_no_bar:
  assumes "partial_range s = Some x"
  shows "CHR ''|'' \<notin> set s"
proof -
  have d: "CHR ''|'' \<notin> set d" if "digits u = Some (d, r)" for u d r
    using that by (auto simp: digits_def Let_def is_digit_def dest!: set_takeWhileD split: if_splits)
  have e: "set s = insert (CHR ''.'') (set r)" if "dot s = Some r" for s r
    using that by (auto simp: dot_def split: list.splits if_splits)
  have a: "set u = set d \<union> set r" if "digits u = Some (d, r)" for u d r
    using digits_append [OF that] by simp
  show ?thesis
    using assms
    by (auto simp: partial_range_def bind_eq_Some_conv e a dest: d split: list.splits if_splits)
qed

lemma some_of_map: "some_of (\<lambda>p. f (g p)) xs = some_of f (map g xs)"
  by (induction xs) (simp_all cong: if_cong)

lemma some_of_ranges:
  "some_of (satisfies lc (release_text v)) (map normal_text rngs) = Some (list_ex (in_range v) rngs)"
  by (induction rngs) (simp_all add: satisfies_normal)

lemma join_ends:
  assumes "list_all part ps" "ps \<noteq> []"
  shows "join_with sep ps \<noteq> []" "hd (join_with sep ps) = hd (hd ps)" "last (join_with sep ps) = last (last ps)"
  using assms by (induction sep ps rule: join_with.induct) (auto simp: part_def)

lemma range_start: "hd (range_text rng) \<noteq> CHR ''=''" "hd (range_text rng) \<noteq> CHR ''v''"
proof -
  have d: "hd (nat_str a @ t) \<noteq> CHR ''v''" "hd (nat_str a @ t) \<noteq> CHR ''=''" for a t
    using starts_digit [OF hd_nat_str [of a t]] by simp_all
  have r: "\<exists>a u. release_text r = nat_str a @ u" for r by (cases r) (auto simp: version_str_def)
  have "(\<exists>a u. range_text rng = nat_str a @ u) \<or> (\<exists>c u. range_text rng = c # u \<and> c \<in> set ''*^~><'')"
  proof (cases rng)
    case (Exactly x)
    with r [of x] show ?thesis by auto
  next
    case (Hyphen x y)
    from r [of x] obtain a u where "release_text x = nat_str a @ u" by blast
    then show ?thesis
      using Hyphen by (intro disjI1 exI [of _ a] exI [of _ "u @ '' - '' @ release_text y"]) simp
  next
    case (Major a)
    then show ?thesis by (intro disjI1 exI [of _ a] exI [of _ "[]"]) simp
  qed (auto simp: minor_text_def)
  with d show "hd (range_text rng) \<noteq> CHR ''=''" "hd (range_text rng) \<noteq> CHR ''v''" by auto
qed

lemma normal_union:
  assumes "rngs \<noteq> []"
  shows "normal_range (union_text rngs) = join_with '' || '' (map normal_text rngs)"
proof -
  have "list_all part (map range_text rngs)" "map range_text rngs \<noteq> []"
    using part_texts(1) assms by (simp_all add: list_all_iff)
  note ends = join_ends [OF this, of "'' || ''"]
  have "hd (map range_text rngs) = range_text (hd rngs)" "last (map range_text rngs) = range_text (last rngs)"
    using assms by (simp_all add: hd_map last_map)
  then show ?thesis
    using ends part_texts(1) [of "hd rngs"] part_texts(1) [of "last rngs"] range_start [of "hd rngs"]
    unfolding union_text_def part_def by (subst normal_range_start) (simp_all only: expand_union not_False_eq_True)
qed

lemma satisfies_two_or_more:
  "satisfies lc (release_text v) (union_text (r # q # rs)) = Some (list_ex (in_range v) (r # q # rs))"
proof -
  define ps where "ps = map normal_text (r # q # rs)"
  define n where "n = join_with '' || '' ps"
  have parts: "list_all part ps" "ps \<noteq> []" using part_texts(2) by (simp_all add: ps_def list_all_iff)
  have nr: "normal_range (union_text (r # q # rs)) = n"
    unfolding n_def ps_def by (rule normal_union) simp
  have shape: "n = (normal_text r @ '' '') @ ''||'' @ '' '' @ join_with '' || '' (map normal_text (q # rs))"
    by (simp add: n_def ps_def)
  have bar: "CHR ''|'' \<in> set n" and space: "CHR '' '' \<in> set n" by (simp_all add: shape)
  have p: "partial_range n = None" using bar partial_no_bar by (cases "partial_range n") blast+
  have e: "exact_version n = None" using space by (simp add: exact_version_def)
  have k: "n \<notin> {''*'', ''latest'', []}" using bar by auto
  have c: "contains ''||'' n" unfolding shape by (rule contains_here)
  have s: "map trim (split_str ''||'' [] n) = ps"
    using split_union [OF parts, of "[]"] by (simp add: n_def)
  have "satisfies lc (release_text v) (union_text (r # q # rs)) = some_of (satisfies lc (release_text v)) ps"
    using p e k c s by (simp only: satisfies.simps [of lc "release_text v" "union_text (r # q # rs)"] nr Let_def)
      (simp add: some_of_map)
  then show ?thesis using some_of_ranges by (simp only: ps_def)
qed

subsection \<open>The best version\<close>

text \<open>\<open>findBestVersion\<close> sorts by \<open>compareVersions\<close> and takes the first that satisfies.\<close>

lemma insert_version_texts:
  assumes "sorted_wrt (\<ge>) ws"
  shows "\<exists>us. insert_version lc (release_text v) (map release_text ws) = map release_text us \<and>
    sorted_wrt (\<ge>) us \<and> set us = insert v (set ws)"
  using assms
proof (induction ws)
  case Nil
  show ?case by (intro exI [of _ "[v]"]) simp
next
  case (Cons w ws)
  show ?case
  proof (cases "w \<le> v")
    case True
    then show ?thesis using Cons.prems by (intro exI [of _ "v # w # ws"]) (auto simp: compare_release)
  next
    case False
    moreover obtain us where "insert_version lc (release_text v) (map release_text ws) = map release_text us"
        "sorted_wrt (\<ge>) us" "set us = insert v (set ws)"
      using Cons by auto
    ultimately show ?thesis using Cons.prems by (intro exI [of _ "w # us"]) (auto simp: compare_release)
  qed
qed

lemma sort_versions_texts:
  "\<exists>us. sort_versions lc (map release_text vs) = map release_text us \<and> sorted_wrt (\<ge>) us \<and> set us = set vs"
proof (induction vs)
  case (Cons v vs)
  then obtain us where us: "sort_versions lc (map release_text vs) = map release_text us" "sorted_wrt (\<ge>) us" "set us = set vs"
    by blast
  from insert_version_texts [OF us(2), of lc v] us show ?case by (auto simp: sort_versions_def)
qed (simp add: sort_versions_def)

lemma first_satisfying_texts:
  assumes "sorted_wrt (\<ge>) us"
  shows "first_satisfying lc (range_text rng) (map release_text us) =
    Some (if {v \<in> set us. in_range v rng} = {} then None
          else Some (release_text (Max {v \<in> set us. in_range v rng})))"
  using assms
proof (induction us)
  case (Cons u us)
  show ?case
  proof (cases "in_range u rng")
    case True
    have "Max {v \<in> set (u # us). in_range v rng} = u"
      using Cons.prems True by (intro Max_eqI) auto
    moreover have "{v \<in> set (u # us). in_range v rng} \<noteq> {}" using True by (metis (mono_tags, lifting) empty_iff list.set_intros(1) mem_Collect_eq)
    ultimately show ?thesis using True satisfies_range [of lc u rng] by (simp only: list.map first_satisfying.simps) simp
  next
    case False
    then have "{v \<in> set (u # us). in_range v rng} = {v \<in> set us. in_range v rng}" by auto
    then show ?thesis using False Cons satisfies_range [of lc u rng] by (simp only: list.map first_satisfying.simps) simp
  qed
qed simp

text \<open>C30: \<open>satisfies\<close> answers, for a release and a union (\<open>||\<close> with a space on each side) of one or more
  ranges of the shapes \<open>simple\<close> lists, whether the release lies in the interval that one of them stands
  for; it always answers, and never asks the collation.  The shapes are \<open>*\<close>; a release, alone or after
  \<open>^\<close>, \<open>~\<close>, \<open>>=\<close>, \<open>>\<close>, \<open><=\<close> or \<open><\<close> with no space between; a major and minor, or a major, alone, after \<open>^\<close> or
  \<open>~\<close>, or before \<open>.x\<close>; \<open>>=\<close> or \<open><\<close> and a major; \<open>>=\<close> one release \<open><\<close> another; and two releases with a hyphen
  between.  Prereleases, other lists of comparisons, other partial operands and partial hyphen ranges are
  not among them; the lemmas at the end show where the last two and prereleases part from npm.\<close>

theorem satisfies_means:
  "satisfies lc (release_text v) (union_text (rng # rngs)) = Some (list_ex (in_range v) (rng # rngs))"
proof (cases rngs)
  case Nil
  then show ?thesis using satisfies_range by (simp add: union_text_def)
next
  case (Cons q qs)
  then show ?thesis using satisfies_two_or_more by (simp only:)
qed

text \<open>C31: \<open>findBestVersion\<close> answers the greatest of the releases offered that the range
  accepts, and null exactly when it accepts none, in whatever order they are offered.\<close>

theorem best_is_greatest:
  "find_best_version lc (map release_text vs) (range_text rng) =
    Some (if {v \<in> set vs. in_range v rng} = {} then None
          else Some (release_text (Max {v \<in> set vs. in_range v rng})))"
proof -
  obtain us where us: "sort_versions lc (map release_text vs) = map release_text us" "sorted_wrt (\<ge>) us" "set us = set vs"
    using sort_versions_texts by blast
  show ?thesis using first_satisfying_texts [OF us(2)] us(1,3) by (simp add: find_best_version_def)
qed

text \<open>Where the code parts from npm: a partial operand is filled with zeros whatever its
  operator, so \<open>>1\<close> accepts 1.5.0, which npm's \<open>>=2.0.0\<close> does not, and \<open><=1\<close> refuses it.\<close>

lemma above_major_accepts: "satisfies lc (release_text v) (''>'' @ nat_str a) = Some ((a, 0, 0) < v)"
  and at_most_major_refuses: "satisfies lc (release_text v) (''<='' @ nat_str a) = Some (v \<le> (a, 0, 0))"
  using satisfies_operator [of "''>''" "'' ''" "''>'' @ nat_str a"] satisfies_operator [of "''<=''" "'' ''" "''<='' @ nat_str a"]
    normal_operator(2) [of "''>''" a] normal_operator(2) [of "''<=''" a]
  by (simp_all add: operand_holds_def compare_bounds)

text \<open>A union written without spaces begins like an exact version and is taken for it.\<close>

declare satisfies.simps [code]

lemma tight_union_refuses: "satisfies (\<lambda>a b. 0) ''2.0.0'' ''1.2.3||2.0.0'' = Some False"
  by code_simp

text \<open>A caret before a prerelease is not held below the next patch.\<close>

lemma prerelease_caret_accepts: "satisfies (\<lambda>a b. 0) ''0.0.9'' ''^0.0.3-beta'' = Some True"
  by code_simp

lemma hyphen_of_partials: "satisfies (\<lambda>a b. -1) ''1.5.0'' ''1.2 - 2.3'' = Some False"
  by code_simp

end
