(* ===== verification/Sockets.thy ===== *)
theory Sockets
  imports Strings
begin

unbundle bit_operations_syntax

text \<open>
  \<open>src/src/host-sockets.ts\<close>: the bytes a process hands its kernel's socket calls and reads
  rear from them.  \<open>SCM_RIGHTS\<close> control records (\<open>rightsControl\<close>, \<open>receivedRights\<close>),
  addresses as text (\<open>ipv4Bytes\<close>, \<open>ipv6Bytes\<close>, \<open>ipv6Text\<close>), a \<open>struct sockaddr\<close>
  (\<open>socketAddress\<close>, \<open>readSocketName\<close>), an option's value and the interfaces' addresses.

  A \<open>Uint8Array\<close> is its bytes, a \<open>DataView\<close> read the bytes at an offset, \<open>None\<close> where it
  throws.  Lengths stay below \<open>2^31\<close>, where the 32-bit arithmetic of \<open>cmsgAlign\<close> is that of the
  naturals.  The kernel's \<open>getifaddrs\<close> is the list it answers, empty where the tree offers no
  sockets or the call throws.
\<close>

subsection \<open>Reading and writing integers\<close>

definition le32 :: "32 word \<Rightarrow> bytes" where
  "le32 w = [ucast w, ucast (drop_bit 8 w), ucast (drop_bit 16 w), ucast (drop_bit 24 w)]"

definition word_of_le :: "bytes \<Rightarrow> 32 word" where
  "word_of_le bs =
     ucast (bs ! 0) OR push_bit 8 (ucast (bs ! 1)) OR push_bit 16 (ucast (bs ! 2)) OR push_bit 24 (ucast (bs ! 3))"

definition get_u32 :: "bytes \<Rightarrow> nat \<Rightarrow> nat option" where
  "get_u32 bs pos = (if pos + 4 \<le> length bs then Some (unat (word_of_le (drop pos bs))) else None)"

definition get_i32 :: "bytes \<Rightarrow> nat \<Rightarrow> int option" where
  "get_i32 bs pos = (if pos + 4 \<le> length bs then Some (sint (word_of_le (drop pos bs))) else None)"

definition u32_le :: "nat \<Rightarrow> bytes" where "u32_le n = le32 (of_nat n)"
definition i32_le :: "int \<Rightarrow> bytes" where "i32_le n = le32 (of_int n)"

subsection \<open>Descriptors in control records\<close>

definition CMSG_HEADER :: nat where "CMSG_HEADER = 16"
definition SOL_SOCKET :: int where "SOL_SOCKET = 1"
definition SCM_RIGHTS :: int where "SCM_RIGHTS = 1"

definition cmsg_align :: "nat \<Rightarrow> nat" where
  "cmsg_align n = (n + 7) div 8 * 8"

definition rights_space :: "nat \<Rightarrow> nat" where
  "rights_space n = cmsg_align (CMSG_HEADER + 4 * n)"

text \<open>
  The record: its length in the header's first four bytes (the upper four of the eight stay
  zero), level, type, the descriptors, zeros up to the alignment.
\<close>

definition rights_control :: "int list \<Rightarrow> bytes" where
  "rights_control fds =
     u32_le (CMSG_HEADER + 4 * length fds) @ replicate 4 0 @ i32_le SOL_SOCKET @ i32_le SCM_RIGHTS @
     concat (map i32_le fds) @
     replicate (rights_space (length fds) - (CMSG_HEADER + 4 * length fds)) 0"

text \<open>The descriptors of one record: four bytes each from the header to the record's end.\<close>

fun record_fds :: "bytes \<Rightarrow> nat \<Rightarrow> nat \<Rightarrow> int list option" where
  "record_fds control pos 0 = Some []"
| "record_fds control pos (Suc n) =
     Option.bind (get_i32 control pos) (\<lambda>fd. map_option ((#) fd) (record_fds control (pos + 4) n))"

lemma cmsg_align_ge: "n \<le> cmsg_align n"
  by (simp add: cmsg_align_def)

function received_from :: "bytes \<Rightarrow> nat \<Rightarrow> nat \<Rightarrow> int list option" where
  "received_from control len pos =
     (if pos + CMSG_HEADER \<le> len
      then Option.bind (get_u32 control pos) (\<lambda>size.
        if size < CMSG_HEADER \<or> len < pos + size then Some []
        else Option.bind (get_i32 control (pos + 8)) (\<lambda>level.
          Option.bind (if level = SOL_SOCKET then get_i32 control (pos + 12) else Some 0) (\<lambda>kind.
          Option.bind (if level = SOL_SOCKET \<and> kind = SCM_RIGHTS
                       then record_fds control (pos + CMSG_HEADER) ((size - CMSG_HEADER) div 4) else Some []) (\<lambda>fds.
          map_option ((@) fds) (received_from control len (pos + cmsg_align size))))))
      else Some [])"
  by pat_completeness auto
termination
proof (relation "measure (\<lambda>(control, len, pos). len - pos)", goal_cases)
  case (2 control len pos size)
  then show ?case using cmsg_align_ge [of size] by (auto simp: CMSG_HEADER_def)
qed simp

declare received_from.simps [simp del]

definition received_rights :: "bytes \<Rightarrow> nat \<Rightarrow> int list option" where
  "received_rights control len = received_from control len 0"

subsection \<open>IPv4 addresses\<close>

text \<open>\<open>/^(0|[1-9]\d{0,2})$/\<close> and below 256.\<close>

definition octet :: "string \<Rightarrow> nat option" where
  "octet part =
     (if (part = ''0'' \<or> part \<noteq> [] \<and> length part \<le> 3 \<and> hd part \<noteq> CHR ''0'' \<and> list_all is_digit part) \<and> decimal part \<le> 255
      then Some (decimal part) else None)"

definition ipv4_bytes :: "string \<Rightarrow> bytes option" where
  "ipv4_bytes text =
     (case map octet (split_on (CHR ''.'') text) of
        [Some a, Some b, Some c, Some d] \<Rightarrow> Some [of_nat a, of_nat b, of_nat c, of_nat d]
      | _ \<Rightarrow> None)"

definition ipv4_text :: "byte \<Rightarrow> byte \<Rightarrow> byte \<Rightarrow> byte \<Rightarrow> string" where
  "ipv4_text a b c d =
     nat_str (unat a) @ ''.'' @ nat_str (unat b) @ ''.'' @ nat_str (unat c) @ ''.'' @ nat_str (unat d)"

subsection \<open>IPv6 addresses\<close>

text \<open>Two bytes as a 16-bit number, the high one first.\<close>

definition be16 :: "byte \<Rightarrow> byte \<Rightarrow> nat" where
  "be16 a b = 256 * unat a + unat b"

definition hex_digit_of :: "char \<Rightarrow> nat option" where
  "hex_digit_of c =
     (let n = of_char c :: nat
      in if 48 \<le> n \<and> n \<le> 57 then Some (n - 48)
         else if 97 \<le> n \<and> n \<le> 102 then Some (n - 87)
         else if 65 \<le> n \<and> n \<le> 70 then Some (n - 55) else None)"

text \<open>\<open>/^[0-9a-fA-F]{1,4}$/\<close> and \<open>parseInt(group, 16)\<close>.\<close>

definition hex_group :: "string \<Rightarrow> nat option" where
  "hex_group g =
     (if g \<noteq> [] \<and> length g \<le> 4 \<and> list_all (\<lambda>c. hex_digit_of c \<noteq> None) g
      then Some (foldl (\<lambda>n c. 16 * n + the (hex_digit_of c)) 0 g) else None)"

fun all_some :: "'a option list \<Rightarrow> 'a list option" where
  "all_some [] = Some []"
| "all_some (x # xs) = Option.bind x (\<lambda>a. map_option ((#) a) (all_some xs))"

definition groups :: "string \<Rightarrow> nat list option" where
  "groups half = (if half = [] then Some [] else all_some (map hex_group (split_on (CHR '':'') half)))"

text \<open>
  \<open>/:(\d{1,3}\.\d{1,3}\.\d{1,3}\.\d{1,3})$/\<close>: what follows the last colon, where it has the shape
  of a dotted quad; with it, what the colon ends.
\<close>

definition quad_shape :: "string \<Rightarrow> bool" where
  "quad_shape s \<longleftrightarrow>
     (let ps = split_on (CHR ''.'') s
      in length ps = 4 \<and> list_all (\<lambda>p. p \<noteq> [] \<and> length p \<le> 3 \<and> list_all is_digit p) ps)"

definition dotted_tail :: "string \<Rightarrow> (string \<times> string) option" where
  "dotted_tail s =
     (let colon = last_index_of (CHR '':'') s
      in if 0 \<le> colon \<and> quad_shape (drop (nat colon + 1) s)
         then Some (take (nat colon + 1) s, drop (nat colon + 1) s) else None)"

definition ends_with :: "string \<Rightarrow> string \<Rightarrow> bool" where
  "ends_with p s \<longleftrightarrow> prefix (rev p) (rev s)"

definition tail_words :: "string \<Rightarrow> (string \<times> nat list) option" where
  "tail_words text =
     (case dotted_tail text of
        None \<Rightarrow> Some (text, [])
      | Some (rest, quad) \<Rightarrow>
          (case ipv4_bytes quad of
             None \<Rightarrow> None
           | Some bs \<Rightarrow>
               Some (if ends_with '':'' rest \<and> \<not> ends_with ''::'' rest then butlast rest else rest,
                     [be16 (bs ! 0) (bs ! 1), be16 (bs ! 2) (bs ! 3)])))"

definition bytes_of_words :: "nat list \<Rightarrow> bytes" where
  "bytes_of_words ws = concat (map (\<lambda>w. [of_nat (w div 256), of_nat (w mod 256)]) ws)"

definition ipv6_bytes :: "string \<Rightarrow> bytes option" where
  "ipv6_bytes text =
     Option.bind (tail_words text) (\<lambda>(rest, tail).
       let halves = split_str ''::'' [] rest
       in if 2 < length halves then None
          else Option.bind (groups (halves ! 0)) (\<lambda>head.
               Option.bind (if length halves = 2 then groups (halves ! 1) else Some []) (\<lambda>rear.
                 let n = length head + length rear + length tail
                 in if (if length halves = 1 then n \<noteq> 8 else 7 < n) then None
                    else Some (bytes_of_words (head @ replicate (8 - n) 0 @ rear @ tail)))))"

subsection \<open>IPv6 text\<close>

definition words_of_bytes :: "bytes \<Rightarrow> nat list" where
  "words_of_bytes bs = map (\<lambda>i. be16 (bs ! (2 * i)) (bs ! (2 * i + 1))) [0..<8]"

text \<open>A run of zero words: where it starts, none for \<open>base = -1\<close>, and its length.\<close>

type_synonym zero_run = "(nat \<times> nat) option"

definition better :: "zero_run \<Rightarrow> zero_run \<Rightarrow> zero_run" where
  "better best current =
     (case current of
        None \<Rightarrow> best
      | Some (b, n) \<Rightarrow> (case best of None \<Rightarrow> current | Some (b', n') \<Rightarrow> if n' < n then current else best))"

fun longest_run :: "nat \<Rightarrow> nat list \<Rightarrow> zero_run \<Rightarrow> zero_run \<Rightarrow> zero_run" where
  "longest_run i [] best current = better best current"
| "longest_run i (w # ws) best current =
     (if w = 0
      then longest_run (Suc i) ws best (case current of None \<Rightarrow> Some (i, 1) | Some (b, n) \<Rightarrow> Some (b, n + 1))
      else longest_run (Suc i) ws (better best current) None)"

definition best_run :: "nat list \<Rightarrow> zero_run" where
  "best_run ws =
     (case longest_run 0 ws None None of
        Some (b, n) \<Rightarrow> if n < 2 then None else Some (b, n)
      | None \<Rightarrow> None)"

fun hex_str :: "nat \<Rightarrow> string" where
  "hex_str n = (if n < 16 then [''0123456789abcdef'' ! n] else hex_str (n div 16) @ [''0123456789abcdef'' ! (n mod 16)])"

declare hex_str.simps [simp del]

definition in_run :: "zero_run \<Rightarrow> nat \<Rightarrow> bool" where
  "in_run r i = (case r of None \<Rightarrow> False | Some (b, n) \<Rightarrow> b \<le> i \<and> i < b + n)"

definition prints_quad :: "nat list \<Rightarrow> zero_run \<Rightarrow> nat \<Rightarrow> bool" where
  "prints_quad ws r i \<longleftrightarrow>
     (case r of None \<Rightarrow> False
      | Some (b, n) \<Rightarrow> i = 6 \<and> b = 0 \<and> (n = 6 \<or> (n = 7 \<and> ws ! 7 \<noteq> 1) \<or> (n = 5 \<and> ws ! 5 = 65535)))"

text \<open>The printing loop from word \<open>i\<close>, with \<open>k\<close> words left.\<close>

fun print_words :: "bytes \<Rightarrow> nat list \<Rightarrow> zero_run \<Rightarrow> nat \<Rightarrow> nat \<Rightarrow> string" where
  "print_words bs ws r i 0 = []"
| "print_words bs ws r i (Suc k) =
     (if in_run r i then (if Some i = map_option fst r then '':'' else []) @ print_words bs ws r (Suc i) k
      else (if i \<noteq> 0 then '':'' else []) @
           (if prints_quad ws r i then ipv4_text (bs ! 12) (bs ! 13) (bs ! 14) (bs ! 15)
            else hex_str (ws ! i) @ print_words bs ws r (Suc i) k))"

definition ipv6_text :: "bytes \<Rightarrow> string" where
  "ipv6_text bs =
     (let ws = words_of_bytes bs; r = best_run ws
      in print_words bs ws r 0 8 @ (case r of Some (b, n) \<Rightarrow> if b + n = 8 then '':'' else [] | None \<Rightarrow> []))"

subsection \<open>Socket addresses\<close>

datatype net_family = IPv4 | IPv6

record socket_name =
  address :: string
  family :: net_family
  port :: nat
  scopeid :: "nat option"

record interface_entry =
  if_name :: string
  if_flags :: nat
  if_address :: bytes
  if_netmask :: bytes
  if_hardware :: "bytes option"

definition AF_INET :: nat where "AF_INET = 2"
definition AF_INET6 :: nat where "AF_INET6 = 10"

definition u16_le :: "bytes \<Rightarrow> nat \<Rightarrow> nat" where
  "u16_le bs i = unat (bs ! i) + 256 * unat (bs ! (i + 1))"

definition u16_be :: "bytes \<Rightarrow> nat \<Rightarrow> nat" where
  "u16_be bs i = be16 (bs ! i) (bs ! (i + 1))"

text \<open>\<open>readSocketName\<close> with no sockets to ask a zone's name of.\<close>

definition plain_socket_name :: "bytes \<Rightarrow> socket_name option" where
  "plain_socket_name bs =
     (if length bs < 4 then None
      else if u16_le bs 0 = AF_INET \<and> 8 \<le> length bs
      then Some \<lparr>address = ipv4_text (bs ! 4) (bs ! 5) (bs ! 6) (bs ! 7), family = IPv4, port = u16_be bs 2, scopeid = None\<rparr>
      else if u16_le bs 0 = AF_INET6 \<and> 28 \<le> length bs
      then Some \<lparr>address = ipv6_text (take 16 (drop 8 bs)), family = IPv6, port = u16_be bs 2,
                 scopeid = get_u32 bs 24\<rparr>
      else None)"

definition scope_of :: "interface_entry \<Rightarrow> nat option" where
  "scope_of e =
     (case plain_socket_name (if_address e) of
        Some n \<Rightarrow> if family n = IPv6 then scopeid n else None
      | None \<Rightarrow> None)"

definition zone_index :: "string \<Rightarrow> interface_entry list \<Rightarrow> nat" where
  "zone_index zone entries =
     (if zone \<noteq> [] \<and> list_all is_digit zone then decimal zone
      else (case [n. e \<leftarrow> entries, if_name e = zone, n \<leftarrow> (case scope_of e of Some n \<Rightarrow> [n] | None \<Rightarrow> []), n \<noteq> 0] of
              n # ns \<Rightarrow> n
            | [] \<Rightarrow> 0))"

definition zone_name :: "nat \<Rightarrow> interface_entry list \<Rightarrow> string" where
  "zone_name index entries =
     (case filter (\<lambda>e. scope_of e = Some index) entries of
        e # es \<Rightarrow> if_name e
      | [] \<Rightarrow> nat_str index)"

text \<open>\<open>readSocketName\<close>: with sockets given, a link-local address carries its interface's name.\<close>

definition read_socket_name :: "bytes \<Rightarrow> interface_entry list option \<Rightarrow> socket_name option" where
  "read_socket_name bs sockets =
     map_option (\<lambda>n.
       case (sockets, scopeid n) of
         (Some entries, Some scope) \<Rightarrow>
           if bs ! 8 = 0xFE \<and> bs ! 9 AND 0xC0 = 0x80 \<and> 0 < scope
           then n\<lparr>address := address n @ ''%'' @ zone_name scope entries\<rparr> else n
       | _ \<Rightarrow> n) (plain_socket_name bs)"

definition u16_bytes_be :: "nat \<Rightarrow> bytes" where
  "u16_bytes_be n = [of_nat (n div 256), of_nat n]"

definition socket_address :: "net_family \<Rightarrow> string \<Rightarrow> nat \<Rightarrow> interface_entry list \<Rightarrow> bytes option" where
  "socket_address fam text prt entries =
     (case fam of
        IPv4 \<Rightarrow>
          map_option (\<lambda>bs. [of_nat AF_INET, 0] @ u16_bytes_be prt @ bs @ replicate 8 0) (ipv4_bytes text)
      | IPv6 \<Rightarrow>
          (let percent = index_of (CHR ''%'') text
           in map_option (\<lambda>bs.
                [of_nat AF_INET6, 0] @ u16_bytes_be prt @ replicate 4 0 @ bs @
                u32_le (if percent < 0 then 0 else zone_index (drop (nat percent + 1) text) entries))
              (ipv6_bytes (if percent < 0 then text else take (nat percent) text))))"

subsection \<open>Options and interfaces\<close>

definition int_option :: "int \<Rightarrow> bytes" where
  "int_option v = i32_le v"

definition read_int_option :: "bytes \<Rightarrow> int option" where
  "read_int_option bs = get_i32 bs 0"

record interface_address =
  ia_name :: string
  ia_address :: string
  ia_netmask :: string
  ia_family :: net_family
  ia_mac :: string
  ia_internal :: bool
  ia_scopeid :: int

definition IFF_UP :: nat where "IFF_UP = 1"
definition IFF_LOOPBACK :: nat where "IFF_LOOPBACK = 8"
definition IFF_RUNNING :: nat where "IFF_RUNNING = 64"

definition pad2 :: "string \<Rightarrow> string" where
  "pad2 s = replicate (2 - length s) (CHR ''0'') @ s"

definition mac_text :: "bytes option \<Rightarrow> string" where
  "mac_text hw =
     (case hw of
        Some bs \<Rightarrow> if 6 \<le> length bs then join_with '':'' (map (\<lambda>b. pad2 (hex_str (unat b))) (take 6 bs))
                   else ''00:00:00:00:00:00''
      | None \<Rightarrow> ''00:00:00:00:00:00'')"

definition interface_address_of :: "interface_entry \<Rightarrow> interface_address option" where
  "interface_address_of e =
     (if (if_flags e AND (IFF_UP OR IFF_RUNNING)) \<noteq> (IFF_UP OR IFF_RUNNING) then None
      else (case (plain_socket_name (if_address e), plain_socket_name (if_netmask e)) of
              (Some a, Some m) \<Rightarrow>
                Some \<lparr>ia_name = if_name e, ia_address = address a, ia_netmask = address m, ia_family = family a,
                      ia_mac = mac_text (if_hardware e), ia_internal = (if_flags e AND IFF_LOOPBACK \<noteq> 0),
                      ia_scopeid = (case family a of IPv6 \<Rightarrow> (case scopeid a of Some n \<Rightarrow> int n | None \<Rightarrow> 0) | IPv4 \<Rightarrow> -1)\<rparr>
            | _ \<Rightarrow> None))"

definition interface_addresses :: "interface_entry list \<Rightarrow> interface_address list" where
  "interface_addresses entries = List.map_filter interface_address_of entries"

end
