(* ===== verification/SocketsProps.thy ===== *)
theory SocketsProps
  imports Sockets
begin

unbundle bit_operations_syntax

text \<open>
  What the socket codecs keep: the descriptors of every \<open>SCM_RIGHTS\<close> record of a control come
  back in order, whatever other records it holds and wherever it is cut, a \<open>sockaddr\<close> names
  the address and port it was made of, and the text of an IPv6 address reads back as its
  sixteen bytes.
\<close>

subsection \<open>Integers\<close>

lemma length_le32 [simp]: "length (le32 w) = 4"
  by (simp add: le32_def)

lemma word_of_le32 [simp]: "word_of_le (le32 w @ t) = w"
proof (rule bit_word_eqI)
  fix n
  assume n: "n < LENGTH(32)"
  consider "n < 8" | "8 \<le> n" "n < 16" | "16 \<le> n" "n < 24" | "24 \<le> n" by linarith
  then show "bit (word_of_le (le32 w @ t)) n = bit w n"
    using n by cases (simp_all add: word_of_le_def le32_def bit_or_iff bit_push_bit_iff bit_drop_bit_eq bit_ucast_iff less_diff_conv2)
qed

lemma word_of_le32_alone [simp]: "word_of_le (le32 w) = w"
  using word_of_le32 [of w "[]"] by simp

lemma length_i32 [simp]: "length (i32_le i) = 4" "length (u32_le n) = 4" for i :: int and n :: nat
  by (simp_all add: i32_le_def u32_le_def)

definition is_i32 :: "int \<Rightarrow> bool" where
  "is_i32 n \<longleftrightarrow> - (2 ^ 31) \<le> n \<and> n < 2 ^ 31"

lemma get_i32_here: "is_i32 n \<Longrightarrow> drop pos bs = i32_le n @ t \<Longrightarrow> get_i32 bs pos = Some n"
proof -
  assume n: "is_i32 n" and d: "drop pos bs = i32_le n @ t"
  then have "length (drop pos bs) \<ge> 4" by simp
  then have "pos + 4 \<le> length bs" by simp
  moreover have "sint (word_of_int n :: 32 word) = n"
    using n by (simp add: is_i32_def sint_sbintrunc' signed_take_bit_int_eq_self)
  ultimately show ?thesis using d by (simp add: get_i32_def i32_le_def)
qed

lemma get_u32_here: "n < 2 ^ 32 \<Longrightarrow> drop pos bs = u32_le n @ t \<Longrightarrow> get_u32 bs pos = Some n"
proof -
  assume n: "n < 2 ^ 32" and d: "drop pos bs = u32_le n @ t"
  then have "length (drop pos bs) \<ge> 4" by simp
  then have "pos + 4 \<le> length bs" by simp
  moreover have "unat (word_of_nat n :: 32 word) = n" using n by (simp add: unat_of_nat)
  ultimately show ?thesis using d by (simp add: get_u32_def u32_le_def)
qed

lemma int_option_roundtrip: "is_i32 n \<Longrightarrow> read_int_option (int_option n) = Some n"
  using get_i32_here [of n 0 "i32_le n" "[]"] by (simp add: read_int_option_def int_option_def)

subsection \<open>Control records\<close>

lemma record_fds_here:
  "list_all is_i32 fds \<Longrightarrow> drop pos bs = concat (map i32_le fds) @ t \<Longrightarrow> record_fds bs pos (length fds) = Some fds"
proof (induction fds arbitrary: pos)
  case (Cons fd fds)
  then have "get_i32 bs pos = Some fd" by (intro get_i32_here) auto
  moreover have "drop (pos + 4) bs = drop 4 (drop pos bs)" by (simp add: add.commute)
  then have "record_fds bs (pos + 4) (length fds) = Some fds"
    using Cons by simp
  ultimately show ?case by simp
qed simp

text \<open>
  A control record as the kernel lays it out: the length in eight bytes, level, type, the
  data, zeros up to the alignment.  A received control mixes the records of \<open>rightsControl\<close>
  with others (credentials, timestamps, another level's), and the received length may end
  anywhere in it, since a control that has no room is cut.
\<close>

definition control_record :: "int \<Rightarrow> int \<Rightarrow> bytes \<Rightarrow> bytes" where
  "control_record level kind bs =
     u32_le (CMSG_HEADER + length bs) @ replicate 4 0 @ i32_le level @ i32_le kind @ bs @
     replicate (cmsg_align (CMSG_HEADER + length bs) - (CMSG_HEADER + length bs)) 0"

datatype control_item = Rights "int list" | OtherRecord int int bytes

fun item_bytes :: "control_item \<Rightarrow> bytes" where
  "item_bytes (Rights fds) = rights_control fds"
| "item_bytes (OtherRecord level kind bs) = control_record level kind bs"

text \<open>The length a record's header gives.\<close>

fun item_length :: "control_item \<Rightarrow> nat" where
  "item_length (Rights fds) = 16 + 4 * length fds"
| "item_length (OtherRecord level kind bs) = 16 + length bs"

fun item_ok :: "control_item \<Rightarrow> bool" where
  "item_ok (Rights fds) = (list_all is_i32 fds \<and> 16 + 4 * length fds < 2 ^ 32)"
| "item_ok (OtherRecord level kind bs) =
     ((level \<noteq> 1 \<or> kind \<noteq> 1) \<and> is_i32 level \<and> is_i32 kind \<and> 16 + length bs < 2 ^ 32)"

fun item_fds :: "control_item \<Rightarrow> int list" where
  "item_fds (Rights fds) = fds"
| "item_fds (OtherRecord level kind bs) = []"

text \<open>The descriptors of the records that lie whole within the first \<open>n\<close> bytes.\<close>

fun fds_within :: "nat \<Rightarrow> control_item list \<Rightarrow> int list" where
  "fds_within n [] = []"
| "fds_within n (it # its) =
     (if item_length it \<le> n then item_fds it @ fds_within (n - length (item_bytes it)) its else [])"

lemma length_fds: "length (concat (map i32_le fds)) = 4 * length fds"
  by (induction fds) simp_all

lemma rights_record: "rights_control fds = control_record SOL_SOCKET SCM_RIGHTS (concat (map i32_le fds))"
  by (simp add: rights_control_def control_record_def length_fds rights_space_def)

lemma length_control_record: "length (control_record level kind bs) = cmsg_align (16 + length bs)"
  using cmsg_align_ge [of "16 + length bs"] by (simp add: control_record_def CMSG_HEADER_def)

lemma length_item: "length (item_bytes it) = cmsg_align (item_length it)"
  by (cases it) (simp_all add: rights_record length_control_record length_fds)

text \<open>One step of the walk, at a record of any kind.\<close>

lemma received_from_record:
  assumes d: "drop pos bs = control_record level kind x @ t" and ok: "is_i32 level" "is_i32 kind" "16 + length x < 2 ^ 32"
    and len: "len \<le> length bs" "pos + 16 + length x \<le> len"
    and fds: "level = SOL_SOCKET \<Longrightarrow> kind = SCM_RIGHTS \<Longrightarrow> record_fds bs (pos + 16) (length x div 4) = Some fds"
  shows "received_from bs len pos =
    map_option ((@) (if level = SOL_SOCKET \<and> kind = SCM_RIGHTS then fds else []))
      (received_from bs len (pos + length (control_record level kind x)))"
proof -
  let ?n = "CMSG_HEADER + length x"
  have r: "drop pos bs = u32_le ?n @ replicate 4 0 @ i32_le level @ i32_le kind @ x @ replicate (cmsg_align ?n - ?n) 0 @ t"
    using d by (simp add: control_record_def)
  have later: "drop (pos + k) bs = drop k (drop pos bs)" for k by (simp add: add.commute)
  have u: "get_u32 bs pos = Some ?n" using ok(3) r by (intro get_u32_here) (auto simp: CMSG_HEADER_def)
  have lv: "get_i32 bs (pos + 8) = Some level"
    by (rule get_i32_here [OF ok(1)]) (simp only: later r, simp)
  have kd: "get_i32 bs (pos + 12) = Some kind"
    by (rule get_i32_here [OF ok(2)]) (simp only: later r, simp)
  show ?thesis
    using len u lv kd fds
    by (subst received_from.simps)
      (auto simp: CMSG_HEADER_def length_control_record option.map_ident comp_def)
qed

lemma rights_read:
  assumes d: "drop pos bs = rights_control fds @ t" and ok: "list_all is_i32 fds"
  shows "record_fds bs (pos + 16) (length fds) = Some fds"
proof -
  have "drop (pos + 16) bs = drop 16 (drop pos bs)" by (simp add: add.commute)
  then show ?thesis
    by (intro record_fds_here [OF ok]) (simp only: d, simp add: rights_control_def CMSG_HEADER_def)
qed

lemma received_from_item:
  assumes d: "drop pos bs = item_bytes it @ t" and ok: "item_ok it" and len: "len \<le> length bs" "pos + item_length it \<le> len"
  shows "received_from bs len pos = map_option ((@) (item_fds it)) (received_from bs len (pos + length (item_bytes it)))"
proof (cases it)
  case (Rights fds)
  have d': "drop pos bs = control_record SOL_SOCKET SCM_RIGHTS (concat (map i32_le fds)) @ t"
    using d Rights by (simp add: rights_record)
  have "record_fds bs (pos + 16) (length fds) = Some fds"
    using rights_read [of pos bs fds t] d ok Rights by simp
  then show ?thesis
    using received_from_record [OF d', of len fds] ok len Rights
    by (simp add: is_i32_def SOL_SOCKET_def SCM_RIGHTS_def rights_record length_fds)
next
  case (OtherRecord level kind x)
  then show ?thesis
    using received_from_record [of pos bs level kind x t len "[]"] d ok len
    by (auto simp: SOL_SOCKET_def SCM_RIGHTS_def)
qed

text \<open>A record that does not lie within the length ends the walk.\<close>

lemma item_size_read:
  assumes "drop pos bs = item_bytes it @ t" and "item_ok it"
  shows "get_u32 bs pos = Some (item_length it)"
  using assms by (cases it) (auto intro!: get_u32_here simp: rights_control_def control_record_def CMSG_HEADER_def)

lemma received_from_cut:
  assumes d: "drop pos bs = item_bytes it @ t" and ok: "item_ok it" and len: "len < pos + item_length it"
  shows "received_from bs len pos = Some []"
  using len item_size_read [OF d ok] by (subst received_from.simps) (simp add: CMSG_HEADER_def)

lemma received_from_end: "len < pos + 16 \<Longrightarrow> received_from bs len pos = Some []"
  by (subst received_from.simps) (simp add: CMSG_HEADER_def)

lemma item_length_ge: "16 \<le> item_length it"
  by (cases it) simp_all

lemma received_from_items:
  assumes "list_all item_ok its" "drop pos bs = concat (map item_bytes its) @ t" "len \<le> length bs"
    "len \<le> pos + length (concat (map item_bytes its))"
  shows "received_from bs len pos = Some (fds_within (len - pos) its)"
  using assms
proof (induction its arbitrary: pos)
  case Nil
  then show ?case by (simp add: received_from_end)
next
  case (Cons it its)
  have d: "drop pos bs = item_bytes it @ concat (map item_bytes its) @ t" using Cons.prems by simp
  have ok: "item_ok it" using Cons.prems by simp
  show ?case
  proof (cases "pos + item_length it \<le> len")
    case True
    have "drop (pos + length (item_bytes it)) bs = drop (length (item_bytes it)) (drop pos bs)"
      by (simp add: add.commute)
    then have "drop (pos + length (item_bytes it)) bs = concat (map item_bytes its) @ t" by (simp add: d)
    then have "received_from bs len (pos + length (item_bytes it)) =
        Some (fds_within (len - (pos + length (item_bytes it))) its)"
      using Cons.prems by (intro Cons.IH) simp_all
    then show ?thesis
      using received_from_item [OF d ok Cons.prems(3) True] True by simp
  next
    case False
    then show ?thesis using received_from_cut [OF d ok, of len] item_length_ge [of it] by auto
  qed
qed



subsection \<open>IPv4 addresses\<close>

lemma nat_str_snoc: "\<not> n < 10 \<Longrightarrow> nat_str n = nat_str (n div 10) @ [''0123456789'' ! (n mod 10)]"
  by (subst nat_str.simps) simp

lemma nat_str_one: "n < 10 \<Longrightarrow> nat_str n = [''0123456789'' ! n]"
  by (subst nat_str.simps) simp

lemma nat_str_not_zero: "0 < n \<Longrightarrow> hd (nat_str n) \<noteq> CHR ''0''"
proof (induction n rule: nat_str.induct)
  case (1 n)
  show ?case
  proof (cases "n < 10")
    case True
    then show ?thesis using "1.prems" by (auto simp: nat_str_one less_Suc_eq numeral_eq_Suc)
  next
    case False
    then have "0 < n div 10" by simp
    moreover have "nat_str (n div 10) \<noteq> []" using nat_str_digits [of "n div 10"] by simp
    ultimately show ?thesis using 1 False by (simp add: nat_str_snoc)
  qed
qed

lemma length_nat_str: "n < 10 ^ Suc k \<Longrightarrow> length (nat_str n) \<le> Suc k"
proof (induction k arbitrary: n)
  case (Suc k)
  show ?case
  proof (cases "n < 10")
    case False
    have "n div 10 < 10 ^ Suc k" using Suc.prems by (simp add: less_mult_imp_div_less)
    then show ?thesis using Suc.IH [of "n div 10"] False by (simp add: nat_str_snoc)
  qed (simp add: nat_str_one)
qed (simp add: nat_str_one)

lemma decimal_zero [simp]: "decimal ''0'' = 0"
  by (simp add: decimal_def digit_value_def)

lemma octet_nat_str [simp]: "n \<le> 255 \<Longrightarrow> octet (nat_str n) = Some n"
proof -
  assume n: "n \<le> 255"
  then have "length (nat_str n) \<le> 3" using length_nat_str [of n 2] by simp
  moreover have "nat_str 0 = ''0''" by (simp add: nat_str_one)
  ultimately show ?thesis
    using n nat_str_digits [of n] nat_str_not_zero [of n] by (cases "n = 0") (auto simp: octet_def)
qed

lemma digit_nth: "is_digit c \<Longrightarrow> \<exists>k < 10. c = ''0123456789'' ! k"
proof -
  assume "is_digit c"
  then obtain k where "k < length ''0123456789''" "''0123456789'' ! k = c"
    unfolding is_digit_def in_set_conv_nth by blast
  then show ?thesis by (intro exI [of _ k]) auto
qed

lemma nat_str_decimal: "list_all is_digit s \<Longrightarrow> s \<noteq> [] \<Longrightarrow> hd s \<noteq> CHR ''0'' \<Longrightarrow> nat_str (decimal s) = s \<and> 0 < decimal s"
proof (induction s rule: rev_induct)
  case (snoc c s)
  have c: "is_digit c" using snoc.prems(1) by simp
  then obtain k where k: "k < 10" "c = ''0123456789'' ! k"
    using digit_nth by blast
  then have pos: "c \<noteq> CHR ''0'' \<Longrightarrow> 0 < k" by (cases k) simp_all
  show ?case
  proof (cases "s = []")
    case True
    have "digit_value c = k" "nat_str k = [c]"
      using k by (simp_all only: digit_value_nth nat_str_one)
    then show ?thesis using True pos snoc.prems by (simp add: decimal_def)
  next
    case False
    then have ih: "nat_str (decimal s) = s" "0 < decimal s" using snoc by auto
    have d: "decimal (s @ [c]) = 10 * decimal s + k" using k by (simp add: decimal_snoc digit_value_nth)
    then have "nat_str (decimal (s @ [c])) = nat_str (decimal s) @ [''0123456789'' ! k]"
      using ih(2) k(1) by (subst nat_str_snoc) simp_all
    then show ?thesis using ih k(2) d by simp
  qed
qed simp

lemma octet_canonical:
  assumes "octet p = Some n"
  shows "nat_str n = p \<and> n \<le> 255"
proof -
  have some: "(if C then Some m else None) = Some n \<Longrightarrow> C \<and> n = m" for C and m :: nat
    by (cases C) simp_all
  have n: "n = decimal p" "n \<le> 255" and p: "p = ''0'' \<or> p \<noteq> [] \<and> hd p \<noteq> CHR ''0'' \<and> list_all is_digit p"
    using some [OF assms [unfolded octet_def]] by blast+
  then have "nat_str (decimal p) = p"
    using nat_str_decimal [of p] by (elim disjE) (simp_all add: nat_str_one)
  with n show ?thesis by simp
qed

lemma no_digit [simp]: "\<not> is_digit (CHR ''.'')" "\<not> is_digit (CHR '':'')"
  by (simp_all add: is_digit_def)

lemma nat_str_set: "\<not> is_digit c \<Longrightarrow> c \<notin> set (nat_str n)"
  using nat_str_digits [of n] by (auto simp only: list_all_iff)

lemma dot_not_in: "CHR ''.'' \<notin> set (nat_str n)"
  by (simp add: nat_str_set)

lemma quad_split: "split_on (CHR ''.'') (ipv4_text a b c d) = [nat_str (unat a), nat_str (unat b), nat_str (unat c), nat_str (unat d)]"
  by (simp only: ipv4_text_def append_Cons append_Nil split_on_append_sep split_on_no_sep dot_not_in not_False_eq_True)

lemma byte_255: "unat (b :: byte) \<le> 255"
proof -
  have "unat b < 2 ^ LENGTH(8)" by (rule unsigned_less)
  then show ?thesis by simp
qed

lemma ipv4_bytes_text [simp]: "ipv4_bytes (ipv4_text a b c d) = Some [a, b, c, d]"
  by (simp add: ipv4_bytes_def quad_split byte_255)

lemma ipv4_text_bytes:
  assumes "ipv4_bytes text = Some bs"
  shows "length bs = 4 \<and> ipv4_text (bs ! 0) (bs ! 1) (bs ! 2) (bs ! 3) = text"
proof -
  obtain p q r s where ps: "split_on (CHR ''.'') text = [p, q, r, s]"
    and os: "octet p \<noteq> None" "octet q \<noteq> None" "octet r \<noteq> None" "octet s \<noteq> None"
    and bs: "bs = [of_nat (the (octet p)), of_nat (the (octet q)), of_nat (the (octet r)), of_nat (the (octet s))]"
    using assms by (auto simp: ipv4_bytes_def split: list.splits option.splits)
  have oct: "nat_str (unat (of_nat (the (octet x)) :: byte)) = x" if "octet x \<noteq> None" for x
    using that octet_canonical [of x] by (auto simp: unat_of_nat)
  have "text = join_with ''.'' [p, q, r, s]" using join_split [of "CHR ''.''" "text"] ps by simp
  then show ?thesis using os by (simp add: bs ipv4_text_def oct)
qed

text \<open>A \<open>sockaddr_in\<close> made of an address and a port reads back as that very text and the port's
  low sixteen bits, whether or not a zone's name could be asked for.\<close>

theorem ipv4_name_roundtrip:
  assumes "socket_address IPv4 text prt entries = Some bs"
  shows "length bs = 16 \<and>
    read_socket_name bs sockets = Some \<lparr>address = text, family = IPv4, port = prt mod 65536, scopeid = None\<rparr>"
proof -
  obtain q where q: "ipv4_bytes text = Some q" and bs: "bs = [of_nat AF_INET, 0] @ u16_bytes_be prt @ q @ replicate 8 0"
    using assms by (auto simp: socket_address_def)
  obtain a b c d where q4: "q = [a, b, c, d]" and four: "ipv4_text a b c d = text"
    using ipv4_text_bytes [OF q] by (auto simp: numeral_eq_Suc length_Suc_conv)
  have p: "u16_be bs 2 = prt mod 65536"
  proof -
    have "u16_be bs 2 = 256 * (prt div 256 mod 256) + prt mod 256"
      by (simp add: bs u16_be_def be16_def u16_bytes_be_def unat_of_nat)
    also have "\<dots> = prt mod 65536" using mod_mult2_eq [of prt 256 256] by simp
    finally show ?thesis .
  qed
  have "u16_le bs 0 = AF_INET" by (simp add: bs u16_le_def AF_INET_def)
  moreover have "length bs = 16" by (simp add: bs q4 u16_bytes_be_def)
  moreover have "ipv4_text (bs ! 4) (bs ! 5) (bs ! 6) (bs ! 7) = text"
    using four by (simp add: bs q4 u16_bytes_be_def)
  ultimately show ?thesis using p by (simp add: read_socket_name_def plain_socket_name_def split: option.splits)
qed

theorem ipv4_name_roundtrip_witness:
  "length (the (socket_address IPv4 ''10.0.0.7'' 8080 [])) = 16 \<and>
   read_socket_name (the (socket_address IPv4 ''10.0.0.7'' 8080 [])) None =
     Some \<lparr>address = ''10.0.0.7'', family = IPv4, port = 8080, scopeid = None\<rparr>"
proof -
  have "''10.0.0.7'' = ipv4_text 10 0 0 7" by (simp add: ipv4_text_def nat_str_one nat_str_snoc)
  then have "ipv4_bytes ''10.0.0.7'' \<noteq> None" by (simp only: ipv4_bytes_text) simp
  then have "socket_address IPv4 ''10.0.0.7'' 8080 [] = Some (the (socket_address IPv4 ''10.0.0.7'' 8080 []))"
    by (simp add: socket_address_def del: not_None_eq)
  from ipv4_name_roundtrip [OF this, of None] show ?thesis by simp
qed

subsection \<open>IPv6 text\<close>

text \<open>Hexadecimal groups.\<close>

definition hex_chars :: string where
  "hex_chars = ''0123456789abcdef''"

lemma hex_digit_chars: "n < 16 \<Longrightarrow> hex_digit_of (hex_chars ! n) = Some n \<and> hex_chars ! n \<in> set hex_chars"
  by (auto simp: less_Suc_eq numeral_eq_Suc hex_chars_def hex_digit_of_def)

lemma hex_str_one: "n < 16 \<Longrightarrow> hex_str n = [hex_chars ! n]"
  by (subst hex_str.simps) (simp add: hex_chars_def)

lemma hex_str_snoc: "\<not> n < 16 \<Longrightarrow> hex_str n = hex_str (n div 16) @ [hex_chars ! (n mod 16)]"
  by (subst hex_str.simps) (simp add: hex_chars_def)

lemma hex_str_read:
  "list_all (\<lambda>c. hex_digit_of c \<noteq> None \<and> c \<in> set hex_chars) (hex_str n) \<and> hex_str n \<noteq> [] \<and>
   foldl (\<lambda>n c. 16 * n + the (hex_digit_of c)) 0 (hex_str n) = n"
proof (induction n rule: hex_str.induct)
  case (1 n)
  show ?case
  proof (cases "n < 16")
    case True
    then show ?thesis using hex_digit_chars [of n] by (simp add: hex_str_one)
  next
    case False
    then show ?thesis using 1 hex_digit_chars [of "n mod 16"] by (simp add: hex_str_snoc)
  qed
qed

lemma length_hex_str: "n < 16 ^ Suc k \<Longrightarrow> length (hex_str n) \<le> Suc k"
proof (induction k arbitrary: n)
  case (Suc k)
  show ?case
  proof (cases "n < 16")
    case False
    have "n div 16 < 16 ^ Suc k" using Suc.prems by (simp add: less_mult_imp_div_less)
    then show ?thesis using Suc.IH [of "n div 16"] False by (simp add: hex_str_snoc)
  qed (simp add: hex_str_one)
qed (simp add: hex_str_one)

lemma hex_group_str: "n < 65536 \<Longrightarrow> hex_group (hex_str n) = Some n"
  using hex_str_read [of n] length_hex_str [of n 3] by (simp add: hex_group_def list_all_iff)

lemma not_hex: "CHR '':'' \<notin> set (hex_str n)" "CHR ''.'' \<notin> set (hex_str n)"
proof -
  have "CHR '':'' \<notin> set hex_chars" "CHR ''.'' \<notin> set hex_chars" by (simp_all add: hex_chars_def)
  then show "CHR '':'' \<notin> set (hex_str n)" "CHR ''.'' \<notin> set (hex_str n)"
    using hex_str_read [of n] by (auto simp only: list_all_iff)
qed

text \<open>Groups joined by single colons.\<close>

definition colons :: "nat list \<Rightarrow> string" where
  "colons ws = join_with '':'' (map hex_str ws)"

lemma colons_simps [simp]:
  "colons [] = []" "colons [w] = hex_str w" "colons (v # w # ws) = hex_str v @ CHR '':'' # colons (w # ws)"
  by (simp_all add: colons_def)

lemma colons_Nil_iff [simp]: "colons ws = [] \<longleftrightarrow> ws = []"
  using hex_str_read by (cases ws rule: remdups_adj.cases) auto

lemma no_dot_colons: "CHR ''.'' \<notin> set (colons ws)"
  by (induction ws rule: induct_list012) (simp_all add: not_hex)

lemma all_some_map: "\<forall>x \<in> set xs. f x = Some (g x) \<Longrightarrow> all_some (map f xs) = Some (map g xs)"
  by (induction xs) simp_all

lemma groups_colons: "\<forall>w \<in> set ws. w < 65536 \<Longrightarrow> groups (colons ws) = Some ws"
proof (cases "ws = []")
  case False
  assume ok: "\<forall>w \<in> set ws. w < 65536"
  have "split_on (CHR '':'') (colons ws) = map hex_str ws"
    unfolding colons_def using False by (intro split_join) (auto simp: not_hex)
  moreover have "all_some (map hex_group (map hex_str ws)) = Some (map (\<lambda>w. w) ws)"
    unfolding map_map by (rule all_some_map) (use ok in \<open>simp add: hex_group_str\<close>)
  ultimately show ?thesis using False by (simp add: groups_def)
qed (simp add: groups_def)

lemma hex_str_start: "\<exists>c cs. hex_str n = c # cs \<and> c \<noteq> CHR '':''"
  using hex_str_read [of n] not_hex(1) [of n] by (cases "hex_str n") auto

lemma colons_start: "ws \<noteq> [] \<Longrightarrow> \<exists>c cs. colons ws = c # cs \<and> c \<noteq> CHR '':''"
  using hex_str_start [of "hd ws"] by (cases ws rule: remdups_adj.cases) auto

lemma split_hex: "split_str ''::'' acc (hex_str w @ t) = split_str ''::'' (rev (hex_str w) @ acc) t"
  by (rule split_past) (simp_all add: not_hex)

lemma split_one_colon:
  "ws \<noteq> [] \<Longrightarrow> split_str ''::'' acc (CHR '':'' # colons ws @ t) = split_str ''::'' (CHR '':'' # acc) (colons ws @ t)"
  using colons_start [of ws] by (subst split_str.simps) auto

lemma split_colons: "split_str ''::'' acc (colons ws @ t) = split_str ''::'' (rev (colons ws) @ acc) t"
proof (induction ws arbitrary: acc rule: induct_list012)
  case (3 v w ws)
  then show ?case using split_hex [of acc v] split_one_colon [of "w # ws"] by simp
qed (simp_all add: split_hex)

lemma split_colons_last: "split_str ''::'' acc (colons ws) = [rev acc @ colons ws]"
  using split_colons [of acc ws "[]"] by (simp add: split_Nil)

lemma split_double: "split_str ''::'' [] (colons us @ ''::'' @ colons vs) = [colons us, colons vs]"
  using split_colons [of "[]" us] split_sep [of "''::''" "rev (colons us)" "colons vs"] split_colons_last [of "[]" vs]
  by simp

text \<open>The run the printer compresses.\<close>

definition run_ok :: "nat list \<Rightarrow> nat \<Rightarrow> zero_run \<Rightarrow> bool" where
  "run_ok ws i r = (case r of None \<Rightarrow> True | Some (b, n) \<Rightarrow> b + n \<le> i \<and> (\<forall>j. b \<le> j \<and> j < b + n \<longrightarrow> ws ! j = 0))"

definition run_to :: "nat \<Rightarrow> zero_run \<Rightarrow> bool" where
  "run_to i r = (case r of None \<Rightarrow> True | Some (b, n) \<Rightarrow> b + n = i)"

lemma run_ok_mono: "run_ok ws i r \<Longrightarrow> i \<le> j \<Longrightarrow> run_ok ws j r"
  by (auto simp: run_ok_def split: option.splits)

lemma better_ok: "run_ok ws i best \<Longrightarrow> run_ok ws i current \<Longrightarrow> run_ok ws i (better best current)"
  by (auto simp: better_def split: option.splits)

lemma longest_run_ok:
  assumes "run_ok ws i best" "run_ok ws i current" "run_to i current" "drop i ws = vs" "i + length vs = length ws"
  shows "run_ok ws (length ws) (longest_run i vs best current)"
  using assms
proof (induction i vs best current rule: longest_run.induct)
  case (1 i best current)
  then show ?case by (simp add: better_ok)
next
  case (2 i w vs best current)
  have i: "i < length ws" using "2.prems"(5) by simp
  then have "ws ! i = w" "drop (Suc i) ws = vs"
    using "2.prems"(4) by (simp_all add: Cons_nth_drop_Suc [symmetric])
  moreover have "run_ok ws (Suc i) (case current of None \<Rightarrow> Some (i, 1) | Some (b, n) \<Rightarrow> Some (b, n + 1))" if "ws ! i = 0"
    using "2.prems"(2,3) that by (auto simp: run_ok_def run_to_def less_Suc_eq split: option.splits)
  moreover have "run_to (Suc i) (case current of None \<Rightarrow> Some (i, 1) | Some (b, n) \<Rightarrow> Some (b, n + 1))"
    using "2.prems"(3) by (auto simp: run_to_def split: option.splits)
  moreover have "run_ok ws (Suc i) best" "run_ok ws (Suc i) (better best current)" "run_ok ws (Suc i) None" "run_to (Suc i) None"
    using "2.prems"(1,2) better_ok run_ok_mono [of ws i _ "Suc i"] by (simp_all add: run_ok_def [of _ _ None] run_to_def)
  ultimately show ?case using 2 by simp
qed

lemma best_run_ok:
  assumes "best_run ws = Some (b, n)"
  shows "2 \<le> n \<and> b + n \<le> length ws \<and> (\<forall>j. b \<le> j \<and> j < b + n \<longrightarrow> ws ! j = 0)"
proof -
  have "run_ok ws (length ws) (longest_run 0 ws None None)"
    by (rule longest_run_ok) (simp_all add: run_ok_def run_to_def)
  then show ?thesis using assms by (auto simp: best_run_def run_ok_def split: option.splits if_splits)
qed

text \<open>What the printing loop makes.\<close>

definition plain_print :: "nat list \<Rightarrow> zero_run \<Rightarrow> bool" where
  "plain_print ws r \<longleftrightarrow> (\<forall>i. \<not> in_run r i \<longrightarrow> \<not> prints_quad ws r i)"

definition colon_each :: "nat list \<Rightarrow> nat \<Rightarrow> nat \<Rightarrow> string" where
  "colon_each ws i k = concat (map (\<lambda>j. CHR '':'' # hex_str (ws ! j)) [i..<i + k])"

lemma colon_each_simps [simp]:
  "colon_each ws i 0 = []" "colon_each ws i (Suc k) = CHR '':'' # hex_str (ws ! i) @ colon_each ws (Suc i) k"
proof -
  have "[i..<i + Suc k] = i # [Suc i..<Suc i + k]" using upt_conv_Cons [of i "i + Suc k"] by simp
  then show "colon_each ws i (Suc k) = CHR '':'' # hex_str (ws ! i) @ colon_each ws (Suc i) k"
    by (simp add: colon_each_def del: upt_Suc)
qed (simp add: colon_each_def)

lemma colons_upt: "colons (map ((!) ws) [i..<i + Suc k]) = hex_str (ws ! i) @ colon_each ws (Suc i) k"
proof (induction k arbitrary: i)
  case (Suc k)
  have "[i..<i + Suc (Suc k)] = i # [Suc i..<Suc i + Suc k]" using upt_conv_Cons [of i "i + Suc (Suc k)"] by simp
  moreover have "[Suc i..<Suc i + Suc k] = Suc i # [Suc (Suc i)..<Suc i + Suc k]" using upt_conv_Cons [of "Suc i" "Suc i + Suc k"] by simp
  ultimately show ?case using Suc [of "Suc i"] by (simp del: upt_Suc)
qed simp

lemma print_after:
  "\<forall>j \<ge> i. \<not> in_run r j \<Longrightarrow> 0 < i \<Longrightarrow> plain_print ws r \<Longrightarrow> print_words bs ws r i k = colon_each ws i k"
  by (induction k arbitrary: i) (simp_all add: plain_print_def)

lemma print_in:
  "b < i \<Longrightarrow> i \<le> b + n \<Longrightarrow> b + n \<le> i + k \<Longrightarrow>
   print_words bs ws (Some (b, n)) i k = print_words bs ws (Some (b, n)) (b + n) (i + k - (b + n))"
proof (induction k arbitrary: i)
  case (Suc k)
  then show ?case by (cases "i = b + n") (auto simp: in_run_def)
qed simp

lemma print_before:
  "0 < i \<Longrightarrow> i \<le> b \<Longrightarrow> b \<le> i + k \<Longrightarrow> plain_print ws (Some (b, n)) \<Longrightarrow>
   print_words bs ws (Some (b, n)) i k = colon_each ws i (b - i) @ print_words bs ws (Some (b, n)) b (i + k - b)"
proof (induction k arbitrary: i)
  case (Suc k)
  show ?case
  proof (cases "i = b")
    case False
    then have d: "b - i = Suc (b - Suc i)" using Suc.prems by simp
    show ?thesis using Suc False unfolding d by (simp add: in_run_def plain_print_def)
  qed simp
qed simp

lemma print_words_none:
  assumes "plain_print ws None"
  shows "print_words bs ws None 0 8 = colons (map ((!) ws) [0..<8])"
proof -
  have "print_words bs ws None 0 (Suc 7) = hex_str (ws ! 0) @ colon_each ws 1 7"
    using print_after [of 1 None ws bs 7] assms
    unfolding print_words.simps by (simp add: in_run_def plain_print_def)
  then show ?thesis using colons_upt [of ws 0 7] by simp
qed

lemma print_words_run:
  assumes p: "plain_print ws (Some (b, n))" and n: "2 \<le> n" "b + n \<le> 8"
  shows "print_words bs ws (Some (b, n)) 0 8 @ (if b + n = 8 then '':'' else []) =
    colons (map ((!) ws) [0..<b]) @ ''::'' @ colons (map ((!) ws) [b + n..<8])"
proof -
  let ?r = "Some (b, n)"
  have tail: "print_words bs ws ?r b (8 - b) @ (if b + n = 8 then '':'' else []) = ''::'' @ colons (map ((!) ws) [b + n..<8])"
  proof -
    have s: "8 - b = Suc (7 - b)" using n by simp
    have "print_words bs ws ?r b (8 - b) = CHR '':'' # print_words bs ws ?r (Suc b) (7 - b)"
      unfolding s using n by (simp add: in_run_def)
    also have "print_words bs ws ?r (Suc b) (7 - b) = print_words bs ws ?r (b + n) (8 - (b + n))"
      using print_in [of b "Suc b" n "7 - b" bs ws] n by simp
    also have "\<dots> = colon_each ws (b + n) (8 - (b + n))"
      using n p by (intro print_after) (auto simp: in_run_def)
    finally have h: "print_words bs ws ?r b (8 - b) = CHR '':'' # colon_each ws (b + n) (8 - (b + n))" .
    show ?thesis
    proof (cases "b + n = 8")
      case False
      then have k: "8 - (b + n) = Suc (7 - (b + n))" "b + n + Suc (7 - (b + n)) = 8" using n by simp_all
      show ?thesis using colons_upt [of ws "b + n" "7 - (b + n)"] False unfolding h k(1) by (simp only: k(2)) simp
    qed (simp add: h)
  qed
  show ?thesis
  proof (cases b)
    case 0
    then show ?thesis using tail by simp
  next
    case (Suc c)
    have "print_words bs ws ?r 0 (Suc 7) = hex_str (ws ! 0) @ print_words bs ws ?r 1 7"
      using Suc p unfolding print_words.simps by (simp add: in_run_def plain_print_def)
    also have "print_words bs ws ?r 1 7 = colon_each ws 1 c @ print_words bs ws ?r b (8 - b)"
      using print_before [of 1 b 7 ws n bs] Suc p n by simp
    finally have "print_words bs ws ?r 0 8 = colons (map ((!) ws) [0..<b]) @ print_words bs ws ?r b (8 - b)"
      using colons_upt [of ws 0 c] Suc by simp
    then show ?thesis using tail by simp
  qed
qed

text \<open>A text without a dot has no dotted tail, and a quad after a colon is one.\<close>

lemma no_dot_tail:
  assumes "CHR ''.'' \<notin> set s"
  shows "tail_words s = Some (s, [])"
proof -
  have "CHR ''.'' \<notin> set (drop k s)" for k using assms by (meson in_set_dropD)
  then have "\<not> quad_shape (drop k s)" for k by (simp add: quad_shape_def split_on_no_sep)
  then show ?thesis by (simp add: tail_words_def dotted_tail_def Let_def)
qed

lemma quad_shape_text: "quad_shape (ipv4_text a b c d)"
proof -
  have "length (nat_str (unat x)) \<le> 3" for x :: byte using length_nat_str [of "unat x" 2] byte_255 [of x] by simp
  moreover have "list_all is_digit (nat_str n)" "nat_str n \<noteq> []" for n using nat_str_digits [of n] by simp_all
  ultimately show ?thesis by (simp add: quad_shape_def quad_split)
qed

lemma no_colon_quad: "CHR '':'' \<notin> set (ipv4_text a b c d)"
  by (simp add: ipv4_text_def nat_str_set)

lemma dotted_quad: "dotted_tail (s @ CHR '':'' # ipv4_text a b c d) = Some (s @ '':'', ipv4_text a b c d)"
  by (simp add: dotted_tail_def last_index_of_append no_colon_quad quad_shape_text)

subsection \<open>Sixteen bytes\<close>

lemma byte_pair: "word_of_nat (be16 a b div 256) = a" "word_of_nat (be16 a b mod 256) = b" "be16 a b < 65536"
  using byte_255 [of a] byte_255 [of b] by (simp_all add: be16_def)

lemma bytes_of_pairs:
  "bytes_of_words (map (\<lambda>i. be16 (f (2 * i)) (f (2 * i + 1))) [0..<k]) = map f [0..<2 * k]"
  by (induction k) (simp_all add: bytes_of_words_def byte_pair)

lemma words_of_sixteen:
  assumes "length bs = 16"
  shows "bytes_of_words (words_of_bytes bs) = bs" "length (words_of_bytes bs) = 8" "\<forall>w \<in> set (words_of_bytes bs). w < 65536"
proof -
  have e: "bs = map ((!) bs) [0..<16]" using assms by (metis map_nth)
  have "bytes_of_words (words_of_bytes bs) = map ((!) bs) [0..<16]"
    using bytes_of_pairs [of "(!) bs" 8] by (simp add: words_of_bytes_def)
  then show "bytes_of_words (words_of_bytes bs) = bs" using e by simp
  show "length (words_of_bytes bs) = 8" by (simp add: words_of_bytes_def)
  show "\<forall>w \<in> set (words_of_bytes bs). w < 65536" by (auto simp: words_of_bytes_def byte_pair)
qed

lemma run_of_zeros:
  assumes "\<forall>j. b \<le> j \<and> j < b + n \<longrightarrow> ws ! j = 0" "b + n \<le> 8" "length ws = 8"
  shows "map ((!) ws) [0..<b] @ replicate n 0 @ map ((!) ws) [b + n..<8] = ws"
  by (rule nth_equalityI) (use assms in \<open>auto simp: nth_append\<close>)

lemma ipv6_plain:
  assumes ws: "length ws = 8" "\<forall>w \<in> set ws. w < 65536" and p: "plain_print ws (best_run ws)"
    and t: "t = print_words bs ws (best_run ws) 0 8 @ (case best_run ws of Some (b, n) \<Rightarrow> if b + n = 8 then '':'' else [] | None \<Rightarrow> [])"
  shows "ipv6_bytes t = Some (bytes_of_words ws)"
proof (cases "best_run ws")
  case None
  have m: "map ((!) ws) [0..<8] = ws" using ws(1) by (metis map_nth)
  have "t = colons ws" using print_words_none [of ws bs] p None t m by simp
  then have "tail_words t = Some (t, [])" "split_str ''::'' [] t = [colons ws]" "groups (colons ws) = Some ws"
    using no_dot_tail no_dot_colons split_colons_last [of "[]" ws] groups_colons ws(2) by simp_all
  then show ?thesis using ws(1) by (simp add: ipv6_bytes_def Let_def)
next
  case (Some r)
  obtain b n where r: "r = (b, n)" by (cases r)
  have run: "2 \<le> n" "b + n \<le> 8" "\<forall>j. b \<le> j \<and> j < b + n \<longrightarrow> ws ! j = 0"
    using best_run_ok [of ws b n] Some r ws(1) by simp_all
  let ?head = "map ((!) ws) [0..<b]" and ?rear = "map ((!) ws) [b + n..<8]"
  have e: "t = colons ?head @ ''::'' @ colons ?rear"
    using print_words_run [of ws b n bs] p Some r run(1,2) t by simp
  have "CHR ''.'' \<notin> set t" using no_dot_colons by (simp add: e)
  moreover have "groups (colons ?head) = Some ?head" "groups (colons ?rear) = Some ?rear"
    using ws run(2) by (intro groups_colons; auto)+
  moreover have "8 - (b + (8 - (b + n))) = n" "b + (8 - (b + n)) \<le> 7" using run by simp_all
  ultimately show ?thesis
    using split_double [of ?head ?rear] run_of_zeros [OF run(3,2) ws(1)]
    by (simp add: ipv6_bytes_def no_dot_tail Let_def e)
qed

text \<open>The two shapes that end in a dotted quad.\<close>

lemma quad_run:
  assumes "\<not> plain_print ws r"
  obtains n where "r = Some (0, n)" "n = 6 \<or> n = 5 \<and> ws ! 5 = 65535"
proof -
  obtain i where "\<not> in_run r i" "prints_quad ws r i" using assms by (auto simp: plain_print_def)
  then show thesis
    using that by (auto simp: prints_quad_def in_run_def split: option.splits)
qed

lemma hex_ffff: "hex_str 65535 = ''ffff''"
  by (simp add: hex_str_snoc hex_str_one hex_chars_def)

lemma quad_print:
  assumes "r = Some (0, n)" "n = 6 \<or> n = 5 \<and> ws ! 5 = 65535"
  shows "print_words bs ws r 0 8 = ''::'' @ (if n = 5 then ''ffff:'' else []) @ ipv4_text (bs ! 12) (bs ! 13) (bs ! 14) (bs ! 15)"
proof -
  let ?quad = "ipv4_text (bs ! 12) (bs ! 13) (bs ! 14) (bs ! 15)"
  have six: "print_words bs ws r 6 2 = CHR '':'' # ?quad"
    using assms print_words.simps(2) [of bs ws r 6 1] by (auto simp: in_run_def prints_quad_def numeral_2_eq_2)
  have "print_words bs ws r 0 8 = CHR '':'' # print_words bs ws r 1 7"
    using assms print_words.simps(2) [of bs ws r 0 7] by (auto simp: in_run_def)
  also have "print_words bs ws r 1 7 = print_words bs ws r n (8 - n)"
    using print_in [of 0 1 n 7 bs ws] assms by auto
  also have "\<dots> = (if n = 5 then '':ffff'' else []) @ CHR '':'' # ?quad"
  proof (cases "n = 5")
    case True
    have "print_words bs ws r 5 3 = CHR '':'' # hex_str (ws ! 5) @ print_words bs ws r 6 2"
      using assms True print_words.simps(2) [of bs ws r 5 2] by (simp add: in_run_def prints_quad_def)
    then show ?thesis using True assms(2) six hex_ffff by simp
  qed (use assms(2) six in simp)
  finally show ?thesis by simp
qed

lemma ipv6_quad:
  assumes "n = 6 \<or> n = 5" and t: "t = ''::'' @ (if n = 5 then ''ffff:'' else []) @ ipv4_text a b c d"
  shows "ipv6_bytes t = Some (bytes_of_words (replicate n 0 @ (if n = 5 then [65535] else []) @ [be16 a b, be16 c d]))"
proof -
  have e: "groups [] = Some []" by (simp add: groups_def)
  show ?thesis
  proof (cases "n = 5")
    case True
    have "tail_words t = Some (''::ffff'', [be16 a b, be16 c d])"
      using dotted_quad [of "''::ffff''" a b c d] True by (simp add: t tail_words_def ends_with_def)
    moreover have "split_str ''::'' [] ''::ffff'' = [[], ''ffff'']"
      using split_double [of "[]" "[65535]"] by (simp add: hex_ffff)
    moreover have "groups ''ffff'' = Some [65535]"
      using groups_colons [of "[65535]"] by (simp add: hex_ffff)
    ultimately show ?thesis using True e by (simp add: ipv6_bytes_def Let_def)
  next
    case False
    have "tail_words t = Some (''::'', [be16 a b, be16 c d])"
      using dotted_quad [of "'':''" a b c d] False by (simp add: t tail_words_def ends_with_def)
    moreover have "split_str ''::'' [] ''::'' = [[], []]"
      using split_double [of "[]" "[]"] by simp
    ultimately show ?thesis using False assms(1) e by (simp add: ipv6_bytes_def Let_def)
  qed
qed

lemma eight_words: "length bs = 16 \<Longrightarrow> words_of_bytes bs ! 6 = be16 (bs ! 12) (bs ! 13) \<and> words_of_bytes bs ! 7 = be16 (bs ! 14) (bs ! 15)"
  by (simp add: words_of_bytes_def)

lemma ipv6_text_read: 
  assumes "length bs = 16"
  shows "ipv6_bytes (ipv6_text bs) = Some bs"
proof -
  let ?ws = "words_of_bytes bs"
  note w = words_of_sixteen [OF assms]
  show ?thesis
  proof (cases "plain_print ?ws (best_run ?ws)")
    case True
    from ipv6_plain [OF w(2,3) True refl, of bs] show ?thesis by (simp add: ipv6_text_def Let_def w(1))
  next
    case False
    then obtain n where n: "best_run ?ws = Some (0, n)" "n = 6 \<or> n = 5 \<and> ?ws ! 5 = 65535" by (rule quad_run)
    have z: "\<forall>j < n. ?ws ! j = 0" using best_run_ok [OF n(1)] by simp
    have "?ws = replicate n 0 @ (if n = 5 then [65535] else []) @ [be16 (bs ! 12) (bs ! 13), be16 (bs ! 14) (bs ! 15)]"
    proof -
      have "map ((!) ?ws) [0..<n] = replicate n 0"
        using z by (intro nth_equalityI) simp_all
      moreover have "map ((!) ?ws) [n..<8] = (if n = 5 then [65535] else []) @ [be16 (bs ! 12) (bs ! 13), be16 (bs ! 14) (bs ! 15)]"
        using n(2) eight_words [OF assms] by (auto simp: upt_rec)
      moreover have "?ws = map ((!) ?ws) [0..<n] @ map ((!) ?ws) [n..<8]"
        using w(2) n(2) map_nth [of ?ws] upt_add_eq_append [of 0 n "8 - n"] by (auto simp flip: map_append)
      ultimately show ?thesis by simp
    qed
    moreover have "ipv6_text bs = ''::'' @ (if n = 5 then ''ffff:'' else []) @ ipv4_text (bs ! 12) (bs ! 13) (bs ! 14) (bs ! 15)"
      using quad_print [OF n(1,2), of bs] n by (auto simp: ipv6_text_def Let_def)
    ultimately show ?thesis using ipv6_quad [of n] n(2) w(1) by auto
  qed
qed

text \<open>C32: The text the engine prints for an IPv6 address reads back as the same sixteen bytes,
  whatever run of zeros it compresses and where it ends in a dotted quad.\<close>

theorem ipv6_text_roundtrip:
  assumes "length bs = 16"
  shows "ipv6_bytes (ipv6_text bs) = Some bs"
  by (rule ipv6_text_read [OF assms])

theorem ipv6_text_roundtrip_witness: "ipv6_bytes (ipv6_text (replicate 15 0 @ [1])) = Some (replicate 15 0 @ [1])"
  using ipv6_text_roundtrip [of "replicate 15 0 @ [1]"] by simp

end
