(* ===== verification/Locks.thy ===== *)
theory Locks
  imports Prelude "HOL-Library.Multiset"
begin

text \<open>
  \<open>src/src/node-lib/internals/locks.ts\<close>: the Web Locks manager of one process.  A lock or a
  request is its number, name and mode; the manager keeps the locks held and the requests
  waiting, both in order.  A callback runs from its grant until its promise settles, and a
  stolen lock's callback runs on without the lock.  The steps are \<open>request\<close>, the settling of
  a callback (\<open>release\<close>, then the promise), and the abort of a waiting request's signal.
  What a program sees is the log: callbacks called with a lock or with null, promises
  resolved and rejected.
\<close>

datatype lock_mode = Exclusive | Shared

record lock =
  lock_id :: nat
  lock_name :: string
  lock_mode :: lock_mode

datatype lock_error =
    NotFunction | BadMode string | HyphenName | StealIfAvailable | StealShared | SignalWithOther
  | SignalReason | WasStolen

datatype lock_event =
    CalledWithLock nat | CalledWithNull nat
  | Rejected nat lock_error | Resolved nat | CallbackFailed nat

datatype abort_signal = Pending | Aborted

record lock_options =
  mode_option :: "string option"
  if_available :: bool
  steal :: bool
  signal_option :: "abort_signal option"

record manager =
  held :: "lock list"
  waiting :: "lock list"
  running :: "nat list"
  stolen :: "nat set"
  null_calls :: "nat list"
  with_signal :: "nat set"
  next_id :: nat
  log :: "lock_event list"

definition new_manager :: manager where
  "new_manager =
     \<lparr>held = [], waiting = [], running = [], stolen = {}, null_calls = [], with_signal = {}, next_id = 0, log = []\<rparr>"

definition grantable :: "lock list \<Rightarrow> string \<Rightarrow> lock_mode \<Rightarrow> bool" where
  "grantable hs name m =
     (let same = filter (\<lambda>l. lock_name l = name) hs
      in same = [] \<or> (m = Shared \<and> list_all (\<lambda>l. lock_mode l = Shared) same))"

text \<open>
  The pass over the waiting requests: the locks held after it and the requests left, in order.
  A name is blocked once a request for it was passed over or an exclusive one granted.
\<close>

fun advance_over :: "lock list \<Rightarrow> string list \<Rightarrow> lock list \<Rightarrow> lock list \<times> lock list" where
  "advance_over [] blocked hs = (hs, [])"
| "advance_over (r # rs) blocked hs =
     (if lock_name r \<in> set blocked \<or> \<not> grantable hs (lock_name r) (lock_mode r)
      then (case advance_over rs (lock_name r # blocked) hs of (hs', ws) \<Rightarrow> (hs', r # ws))
      else advance_over rs (if lock_mode r = Exclusive then lock_name r # blocked else blocked) (hs @ [r]))"

text \<open>\<open>run\<close>: the lock is held and its callback called with it.\<close>

definition run_lock :: "lock \<Rightarrow> manager \<Rightarrow> manager" where
  "run_lock l m =
     m\<lparr>held := held m @ [l], running := running m @ [lock_id l], log := log m @ [CalledWithLock (lock_id l)]\<rparr>"

definition advance :: "manager \<Rightarrow> manager" where
  "advance m =
     (case advance_over (waiting m) [] (held m) of
        (hs, ws) \<Rightarrow>
          (let granted = map lock_id (drop (length (held m)) hs)
           in m\<lparr>held := hs, waiting := ws, running := running m @ granted,
                log := log m @ map CalledWithLock granted\<rparr>))"

fun mode_of :: "string option \<Rightarrow> lock_error + lock_mode" where
  "mode_of None = Inr Exclusive"
| "mode_of (Some s) =
     (if s = ''exclusive'' then Inr Exclusive else if s = ''shared'' then Inr Shared else Inl (BadMode s))"

text \<open>The checks before a request is made, in their order.\<close>

definition check_request :: "string \<Rightarrow> bool \<Rightarrow> lock_options \<Rightarrow> lock_error + lock_mode" where
  "check_request name callback opts =
     (if \<not> callback then Inl NotFunction
      else (case mode_of (mode_option opts) of
              Inl e \<Rightarrow> Inl e
            | Inr md \<Rightarrow>
                if prefix ''-'' name then Inl HyphenName
                else if steal opts \<and> if_available opts then Inl StealIfAvailable
                else if steal opts \<and> md \<noteq> Exclusive then Inl StealShared
                else if signal_option opts \<noteq> None \<and> (steal opts \<or> if_available opts) then Inl SignalWithOther
                else if signal_option opts = Some Aborted then Inl SignalReason
                else Inr md))"

definition reject :: "nat \<Rightarrow> lock_error \<Rightarrow> manager \<Rightarrow> manager" where
  "reject n e m = m\<lparr>log := log m @ [Rejected n e]\<rparr>"

text \<open>The locks of a name are taken from their holders, whose promises are rejected.\<close>

definition steal_from :: "string \<Rightarrow> manager \<Rightarrow> manager" where
  "steal_from name m =
     (let ids = map lock_id (filter (\<lambda>l. lock_name l = name) (held m))
      in m\<lparr>held := filter (\<lambda>l. lock_name l \<noteq> name) (held m), stolen := stolen m \<union> set ids,
           log := log m @ map (\<lambda>n. Rejected n WasStolen) ids\<rparr>)"

definition request :: "string \<Rightarrow> bool \<Rightarrow> lock_options \<Rightarrow> manager \<Rightarrow> manager" where
  "request name callback opts m =
     (let n = next_id m; m = m\<lparr>next_id := n + 1\<rparr>
      in case check_request name callback opts of
           Inl e \<Rightarrow> reject n e m
         | Inr md \<Rightarrow>
             (let l = \<lparr>lock_id = n, lock_name = name, lock_mode = md\<rparr>
              in if steal opts then run_lock l (steal_from name m)
                 else if if_available opts
                 then (if grantable (held m) name md \<and> \<not> list_ex (\<lambda>w. lock_name w = name) (waiting m)
                       then run_lock l m
                       else m\<lparr>null_calls := null_calls m @ [n], log := log m @ [CalledWithNull n]\<rparr>)
                 else advance
                   (m\<lparr>waiting := waiting m @ [l],
                      with_signal := (if signal_option opts = None then with_signal m else insert n (with_signal m))\<rparr>)))"

text \<open>The promise of a callback settles: the lock is released, then the request's promise.\<close>

definition release_lock :: "nat \<Rightarrow> manager \<Rightarrow> manager" where
  "release_lock n m = advance (m\<lparr>held := filter (\<lambda>l. lock_id l \<noteq> n) (held m)\<rparr>)"

definition outcome_event :: "nat \<Rightarrow> bool \<Rightarrow> lock_event" where
  "outcome_event n ok = (if ok then Resolved n else CallbackFailed n)"

definition settle :: "nat \<Rightarrow> bool \<Rightarrow> manager \<Rightarrow> manager" where
  "settle n ok m =
     (if n \<in> set (running m)
      then (let m = release_lock n (m\<lparr>running := filter (\<lambda>k. k \<noteq> n) (running m)\<rparr>)
            in if n \<in> stolen m then m else m\<lparr>log := log m @ [outcome_event n ok]\<rparr>)
      else if n \<in> set (null_calls m)
      then m\<lparr>null_calls := filter (\<lambda>k. k \<noteq> n) (null_calls m), log := log m @ [outcome_event n ok]\<rparr>
      else m)"

text \<open>\<open>cancel\<close>: a waiting request whose signal is aborted.  A granted one no longer listens.\<close>

definition abort_request :: "nat \<Rightarrow> manager \<Rightarrow> manager" where
  "abort_request n m =
     (if n \<in> with_signal m \<and> list_ex (\<lambda>w. lock_id w = n) (waiting m)
      then advance (reject n SignalReason (m\<lparr>waiting := filter (\<lambda>w. lock_id w \<noteq> n) (waiting m)\<rparr>))
      else m)"

definition query :: "manager \<Rightarrow> (string \<times> lock_mode) list \<times> (string \<times> lock_mode) list" where
  "query m =
     (map (\<lambda>l. (lock_name l, lock_mode l)) (held m), map (\<lambda>l. (lock_name l, lock_mode l)) (waiting m))"

text \<open>The managers of a realm, by their numbers: one for each process asked for, one for none.\<close>

record lock_realm =
  managers :: "manager list"
  realm_manager :: "nat option"
  process_managers :: "(nat \<times> nat) list"

definition locks_of :: "nat option \<Rightarrow> lock_realm \<Rightarrow> nat \<times> lock_realm" where
  "locks_of process r =
     (let n = length (managers r); made = r\<lparr>managers := managers r @ [new_manager]\<rparr>
      in case process of
           None \<Rightarrow>
             (case realm_manager r of Some k \<Rightarrow> (k, r) | None \<Rightarrow> (n, made\<lparr>realm_manager := Some n\<rparr>))
         | Some p \<Rightarrow>
             (case map_of (process_managers r) p of
                Some k \<Rightarrow> (k, r)
              | None \<Rightarrow> (n, made\<lparr>process_managers := AList.update p n (process_managers r)\<rparr>)))"

inductive lock_step :: "manager \<Rightarrow> manager \<Rightarrow> bool" where
  Request: "lock_step m (request name callback opts m)"
| Settle: "lock_step m (settle n ok m)"
| Abort: "lock_step m (abort_request n m)"

inductive lock_reachable :: "manager \<Rightarrow> bool" where
  Start: "lock_reachable new_manager"
| Step: "lock_reachable m \<Longrightarrow> lock_step m m' \<Longrightarrow> lock_reachable m'"

subsection \<open>One pass over the waiting requests\<close>

definition compatible :: "lock list \<Rightarrow> bool" where
  "compatible hs \<longleftrightarrow>
     (\<forall>name. let same = filter (\<lambda>l. lock_name l = name) hs
             in length same \<le> 1 \<or> (\<forall>l \<in> set same. lock_mode l = Shared))"

definition head_waits :: "lock list \<Rightarrow> lock list \<Rightarrow> bool" where
  "head_waits hs ws \<longleftrightarrow>
     (\<forall>us r vs. ws = us @ r # vs \<longrightarrow> lock_name r \<notin> lock_name ` set us \<longrightarrow> \<not> grantable hs (lock_name r) (lock_mode r))"

lemma compatible_snoc:
  assumes "compatible hs" "grantable hs (lock_name l) (lock_mode l)"
  shows "compatible (hs @ [l])"
  unfolding compatible_def Let_def
proof
  fix name
  show "length (filter (\<lambda>l. lock_name l = name) (hs @ [l])) \<le> 1 \<or>
      (\<forall>k \<in> set (filter (\<lambda>l. lock_name l = name) (hs @ [l])). lock_mode k = Shared)"
    using assms by (cases "lock_name l = name") (auto simp: compatible_def grantable_def list_all_iff Let_def)
qed

lemma compatible_filter: "compatible hs \<Longrightarrow> compatible (filter P hs)"
proof -
  assume c: "compatible hs"
  have "length (filter Q (filter P hs)) \<le> length (filter Q hs)" for Q
    by (induction hs) auto
  then show ?thesis
    using c unfolding compatible_def Let_def by (metis (no_types, lifting) filter_is_subset filter_filter filter_cong le_trans mem_Collect_eq set_filter)
qed

lemma advance_over_compatible:
  "compatible hs \<Longrightarrow> compatible (fst (advance_over ws blocked hs))"
  by (induction ws blocked hs rule: advance_over.induct) (auto simp: compatible_snoc split: prod.splits)

lemma advance_over_extends:
  "\<exists>gs. fst (advance_over ws blocked hs) = hs @ gs \<and> mset ws = mset gs + mset (snd (advance_over ws blocked hs))"
  by (induction ws blocked hs rule: advance_over.induct) (auto split: prod.splits)

lemma grantable_mono: "grantable (hs @ gs) name m \<Longrightarrow> grantable hs name m"
  by (auto simp: grantable_def Let_def)

lemma exclusive_blocks: "l \<in> set hs \<Longrightarrow> lock_mode l = Exclusive \<Longrightarrow> \<not> grantable hs (lock_name l) m"
  by (auto simp: grantable_def Let_def filter_empty_conv list_all_iff)

lemma advance_over_head:
  assumes "snd (advance_over ws blocked hs) = us @ r # vs" "lock_name r \<notin> lock_name ` set us" "lock_name r \<notin> set blocked"
  shows "\<not> grantable (fst (advance_over ws blocked hs)) (lock_name r) (lock_mode r)"
  using assms
proof (induction ws blocked hs arbitrary: us rule: advance_over.induct)
  case (2 q rs blocked hs)
  show ?case
  proof (cases "lock_name q \<in> set blocked \<or> \<not> grantable hs (lock_name q) (lock_mode q)")
    case True
    let ?a = "advance_over rs (lock_name q # blocked) hs"
    have a: "advance_over (q # rs) blocked hs = (fst ?a, q # snd ?a)" using True by (simp split: prod.splits)
    show ?thesis
    proof (cases us)
      case Nil
      then have "r = q" using "2.prems"(1) a by simp
      then have "\<not> grantable hs (lock_name r) (lock_mode r)" using True "2.prems"(3) by simp
      then show ?thesis
        using a advance_over_extends [of rs "lock_name q # blocked" hs] grantable_mono by (metis fst_conv)
    next
      case (Cons u us')
      then show ?thesis
        using "2.IH"(1) [OF True, of us'] "2.prems" [unfolded a] unfolding a by (auto simp del: advance_over.simps)
    qed
  next
    case False
    let ?b = "if lock_mode q = Exclusive then lock_name q # blocked else blocked"
    have a: "advance_over (q # rs) blocked hs = advance_over rs ?b (hs @ [q])" using False by simp
    show ?thesis
    proof (cases "lock_mode q = Exclusive \<and> lock_name r = lock_name q")
      case True
      obtain gs where "fst (advance_over rs ?b (hs @ [q])) = (hs @ [q]) @ gs" using advance_over_extends by metis
      then show ?thesis using exclusive_blocks [of q] True a by (metis append_is_Nil_conv in_set_conv_decomp list.set_intros(1) Un_iff set_append)
    next
      case f: False
      then show ?thesis using "2.IH"(2) [OF False, of us] "2.prems" a by (auto split: if_splits)
    qed
  qed
qed simp

subsection \<open>The manager's invariant\<close>

definition lock_ids :: "manager \<Rightarrow> nat list" where
  "lock_ids m = map lock_id (held m) @ map lock_id (waiting m)"

definition manager_ok :: "manager \<Rightarrow> bool" where
  "manager_ok m \<longleftrightarrow>
     compatible (held m) \<and> head_waits (held m) (waiting m) \<and> distinct (lock_ids m) \<and>
     (\<forall>n \<in> set (lock_ids m). n < next_id m) \<and> set (map lock_id (held m)) \<subseteq> set (running m)"

text \<open>What \<open>advance\<close> asks of a state, and gives.\<close>

definition ready :: "manager \<Rightarrow> bool" where
  "ready m \<longleftrightarrow>
     compatible (held m) \<and> distinct (lock_ids m) \<and> (\<forall>n \<in> set (lock_ids m). n < next_id m) \<and>
     set (map lock_id (held m)) \<subseteq> set (running m)"

lemma advance_fields [simp]:
  "next_id (advance m) = next_id m" "stolen (advance m) = stolen m" "null_calls (advance m) = null_calls m"
  by (simp_all add: advance_def Let_def split: prod.splits)

lemma advance_parts:
  obtains gs where "held (advance m) = held m @ gs" "running (advance m) = running m @ map lock_id gs"
    "log (advance m) = log m @ map (\<lambda>l. CalledWithLock (lock_id l)) gs"
    "mset (waiting m) = mset gs + mset (waiting (advance m))"
    "waiting (advance m) = snd (advance_over (waiting m) [] (held m))"
    "held (advance m) = fst (advance_over (waiting m) [] (held m))"
proof -
  obtain hs ws where a: "advance_over (waiting m) [] (held m) = (hs, ws)" by fastforce
  then obtain gs where "hs = held m @ gs" "mset (waiting m) = mset gs + mset ws"
    using advance_over_extends [of "waiting m" "[]" "held m"] by auto
  with a show ?thesis by (intro that [of gs]) (simp_all add: advance_def Let_def comp_def)
qed

lemma advance_ids: "mset (lock_ids (advance m)) = mset (lock_ids m)"
proof -
  obtain gs where g: "held (advance m) = held m @ gs" "mset (waiting m) = mset gs + mset (waiting (advance m))"
    by (rule advance_parts)
  have "mset (map lock_id (waiting m)) = mset (map lock_id gs) + mset (map lock_id (waiting (advance m)))"
    using arg_cong [OF g(2), of "image_mset lock_id"] by simp
  then show ?thesis by (simp add: lock_ids_def g(1))
qed

lemma advance_ok: "ready m \<Longrightarrow> manager_ok (advance m)"
proof -
  assume r: "ready m"
  obtain gs where g: "held (advance m) = held m @ gs" "running (advance m) = running m @ map lock_id gs"
      "waiting (advance m) = snd (advance_over (waiting m) [] (held m))"
      "held (advance m) = fst (advance_over (waiting m) [] (held m))"
    by (rule advance_parts)
  have "compatible (held (advance m))" using r g(4) advance_over_compatible by (simp add: ready_def)
  moreover have "head_waits (held (advance m)) (waiting (advance m))"
    unfolding head_waits_def g(3,4) using advance_over_head by force
  moreover have "distinct (lock_ids (advance m))"
    using r advance_ids [of m] by (metis ready_def mset_eq_imp_distinct_iff)
  moreover have "set (lock_ids (advance m)) = set (lock_ids m)"
    using advance_ids [of m] by (metis mset_eq_setD)
  ultimately show ?thesis using r g(1,2) by (auto simp: manager_ok_def ready_def)
qed

lemma ok_ready: "manager_ok m \<Longrightarrow> ready m"
  by (simp add: manager_ok_def ready_def)

lemma head_waits_snoc: "head_waits hs ws \<Longrightarrow> head_waits (hs @ gs) ws"
  unfolding head_waits_def using grantable_mono by blast

lemma grantable_other: "lock_name l \<noteq> name \<Longrightarrow> grantable (filter (\<lambda>k. lock_name k \<noteq> lock_name l) hs @ [l]) name md = grantable hs name md"
proof -
  assume "lock_name l \<noteq> name"
  then have "filter (\<lambda>k. lock_name k = name) (filter (\<lambda>k. lock_name k \<noteq> lock_name l) hs @ [l]) = filter (\<lambda>k. lock_name k = name) hs"
    by (auto intro: filter_cong)
  then show ?thesis by (simp add: grantable_def)
qed

lemma ok_release: "manager_ok m \<Longrightarrow> manager_ok (release_lock n (m\<lparr>running := filter (\<lambda>k. k \<noteq> n) (running m)\<rparr>))"
  unfolding release_lock_def
proof (rule advance_ok)
  assume ok: "manager_ok m"
  have "distinct (map lock_id (filter P (held m)) @ map lock_id (waiting m))" for P
    using ok by (auto simp: manager_ok_def lock_ids_def distinct_map_filter)
  then show "ready ((m\<lparr>running := filter (\<lambda>k. k \<noteq> n) (running m)\<rparr>)
      \<lparr>held := filter (\<lambda>l. lock_id l \<noteq> n) (held (m\<lparr>running := filter (\<lambda>k. k \<noteq> n) (running m)\<rparr>))\<rparr>)"
    using ok by (auto simp: ready_def manager_ok_def lock_ids_def compatible_filter)
qed

lemma ok_settle: "manager_ok m \<Longrightarrow> manager_ok (settle n ok m)"
  using ok_release [of m n] by (auto simp: settle_def Let_def manager_ok_def lock_ids_def)

lemma ok_abort: "manager_ok m \<Longrightarrow> manager_ok (abort_request n m)"
proof -
  assume ok: "manager_ok m"
  have "distinct (map lock_id (held m) @ map lock_id (filter P (waiting m)))" for P
    using ok by (auto simp: manager_ok_def lock_ids_def distinct_map_filter)
  then have "ready (reject n SignalReason (m\<lparr>waiting := filter (\<lambda>w. lock_id w \<noteq> n) (waiting m)\<rparr>))"
    using ok by (auto simp: ready_def reject_def manager_ok_def lock_ids_def)
  then show ?thesis using ok advance_ok by (simp add: abort_request_def)
qed

lemma ok_run:
  assumes ok: "manager_ok m" and l: "lock_id l = next_id m" "grantable (held m) (lock_name l) (lock_mode l)"
  shows "manager_ok (run_lock l (m\<lparr>next_id := next_id m + 1\<rparr>))"
  using assms head_waits_snoc [of "held m" "waiting m" "[l]"] compatible_snoc [of "held m" l]
  by (auto simp: manager_ok_def run_lock_def lock_ids_def less_Suc_eq)

lemma ok_steal:
  assumes ok: "manager_ok m" and l: "lock_id l = next_id m" "lock_mode l = Exclusive"
  shows "manager_ok (run_lock l (steal_from (lock_name l) (m\<lparr>next_id := next_id m + 1\<rparr>)))"
proof -
  let ?hs = "filter (\<lambda>k. lock_name k \<noteq> lock_name l) (held m)"
  have "compatible (?hs @ [l])"
    using ok by (intro compatible_snoc) (auto simp: manager_ok_def compatible_filter grantable_def Let_def)
  moreover have "head_waits (?hs @ [l]) (waiting m)"
    unfolding head_waits_def
  proof (intro allI impI)
    fix us r vs
    assume w: "waiting m = us @ r # vs" "lock_name r \<notin> lock_name ` set us"
    show "\<not> grantable (?hs @ [l]) (lock_name r) (lock_mode r)"
    proof (cases "lock_name r = lock_name l")
      case True
      then show ?thesis using exclusive_blocks [of l "?hs @ [l]"] l(2) by simp
    next
      case False
      have "\<not> grantable (held m) (lock_name r) (lock_mode r)"
        using ok w unfolding manager_ok_def head_waits_def by blast
      then show ?thesis using grantable_other [of l "lock_name r"] False by simp
    qed
  qed
  moreover have "distinct (map lock_id ?hs @ map lock_id (waiting m))"
    using ok by (auto simp: manager_ok_def lock_ids_def distinct_map_filter)
  ultimately show ?thesis
    using ok l(1) by (auto simp: manager_ok_def run_lock_def steal_from_def lock_ids_def Let_def less_Suc_eq)
qed

lemma check_steal: "check_request name callback opts = Inr md \<Longrightarrow> steal opts \<Longrightarrow> md = Exclusive"
  by (auto simp: check_request_def split: if_splits sum.splits)

lemma ok_request: "manager_ok m \<Longrightarrow> manager_ok (request name callback opts m)"
proof -
  assume ok: "manager_ok m"
  show ?thesis
  proof (cases "check_request name callback opts")
    case (Inl e)
    then show ?thesis using ok by (auto simp: request_def Let_def reject_def manager_ok_def lock_ids_def less_Suc_eq)
  next
    case (Inr md)
    let ?l = "\<lparr>lock_id = next_id m, lock_name = name, lock_mode = md\<rparr>"
    let ?w = "m\<lparr>next_id := next_id m + 1, waiting := waiting m @ [?l],
      with_signal := (if signal_option opts = None then with_signal m else insert (next_id m) (with_signal m))\<rparr>"
    have "ready ?w"
      using ok by (auto simp: ready_def manager_ok_def lock_ids_def less_Suc_eq)
    then have "manager_ok (advance ?w)" by (rule advance_ok)
    moreover have "manager_ok (m\<lparr>next_id := next_id m + 1, null_calls := q, log := g\<rparr>)" for q g
      using ok by (auto simp: manager_ok_def lock_ids_def less_Suc_eq)
    ultimately show ?thesis
      using ok_run [OF ok, of ?l] ok_steal [OF ok, of ?l] check_steal [OF Inr] Inr
      by (auto simp: request_def Let_def split: if_splits)
  qed
qed

lemma reachable_manager_ok: "lock_reachable m \<Longrightarrow> manager_ok m"
proof (induction rule: lock_reachable.induct)
  case Start
  show ?case by (simp add: manager_ok_def new_manager_def lock_ids_def compatible_def head_waits_def)
next
  case (Step m m')
  from Step.hyps(2) Step.IH show ?case
    by (cases rule: lock_step.cases) (simp_all add: ok_request ok_settle ok_abort)
qed

subsection \<open>Every waiting request is granted\<close>

text \<open>
  The holders' callbacks settle one after another, in any order: \<open>pick\<close> names the next one
  among the locks held.
\<close>

definition settle_one :: "(manager \<Rightarrow> nat) \<Rightarrow> manager \<Rightarrow> manager" where
  "settle_one pick m = (if held m = [] then m else settle (lock_id (held m ! (pick m mod length (held m)))) True m)"

lemma settle_held:
  assumes ok: "manager_ok m" and l: "l \<in> set (held m)"
  shows "length (lock_ids (settle (lock_id l) r m)) < length (lock_ids m)"
    and "lock_id ` set (waiting m) \<subseteq> lock_id ` set (waiting (settle (lock_id l) r m)) \<union> {n. CalledWithLock n \<in> set (log (settle (lock_id l) r m))}"
    and "set (log m) \<subseteq> set (log (settle (lock_id l) r m))"
proof -
  let ?n = "lock_id l"
  let ?m = "m\<lparr>running := filter (\<lambda>k. k \<noteq> ?n) (running m), held := filter (\<lambda>l. lock_id l \<noteq> ?n) (held m)\<rparr>"
  have run: "?n \<in> set (running m)" using ok l by (auto simp: manager_ok_def)
  have s: "settle ?n r m = (let m' = advance ?m in if ?n \<in> stolen m then m' else m'\<lparr>log := log m' @ [outcome_event ?n r]\<rparr>)"
    using run by (simp add: settle_def release_lock_def Let_def)
  obtain gs where g: "held (advance ?m) = held ?m @ gs" "mset (waiting m) = mset gs + mset (waiting (advance ?m))"
    "log (advance ?m) = log m @ map (\<lambda>l. CalledWithLock (lock_id l)) gs"
    by (rule advance_parts [of ?m]) simp
  have "length (filter (\<lambda>l. lock_id l \<noteq> ?n) (held m)) < length (held m)"
    using l by (metis (mono_tags, lifting) length_filter_less)
  moreover have "length (lock_ids (advance ?m)) = length (lock_ids ?m)"
    using advance_ids [of ?m] by (metis mset_eq_length)
  ultimately show "length (lock_ids (settle ?n r m)) < length (lock_ids m)"
    by (simp add: s Let_def lock_ids_def)
  have "set (waiting m) = set gs \<union> set (waiting (advance ?m))"
    using arg_cong [OF g(2), of set_mset] by simp
  then show "lock_id ` set (waiting m) \<subseteq> lock_id ` set (waiting (settle ?n r m)) \<union> {n. CalledWithLock n \<in> set (log (settle ?n r m))}"
    by (auto simp: s Let_def g(3))
  show "set (log m) \<subseteq> set (log (settle ?n r m))"
    by (auto simp: s Let_def g(3))
qed

lemma waiting_needs_holder:
  assumes "manager_ok m" "waiting m \<noteq> []"
  shows "held m \<noteq> []"
proof
  assume h: "held m = []"
  obtain w ws where "waiting m = [] @ w # ws" using assms(2) by (cases "waiting m") auto
  then have "\<not> grantable (held m) (lock_name w) (lock_mode w)"
    using assms(1) unfolding manager_ok_def head_waits_def by (metis empty_iff image_empty list.set(1))
  then show False by (simp add: h grantable_def)
qed

lemma settle_one_member: "held m \<noteq> [] \<Longrightarrow> held m ! (pick m mod length (held m)) \<in> set (held m)"
  by simp

lemma drain:
  assumes "manager_ok m" "length (lock_ids m) \<le> k"
  shows "waiting ((settle_one pick ^^ k) m) = [] \<and>
    lock_id ` set (waiting m) \<subseteq> {n. CalledWithLock n \<in> set (log ((settle_one pick ^^ k) m))} \<and>
    set (log m) \<subseteq> set (log ((settle_one pick ^^ k) m))"
  using assms
proof (induction k arbitrary: m)
  case 0
  then show ?case by (simp add: lock_ids_def)
next
  case (Suc k)
  show ?case
  proof (cases "held m = []")
    case True
    then have "waiting m = []" using waiting_needs_holder Suc.prems(1) by blast
    moreover have "(settle_one pick ^^ j) m = m" for j using True by (induction j) (simp_all add: settle_one_def)
    ultimately show ?thesis by (simp del: funpow.simps)
  next
    case False
    let ?l = "held m ! (pick m mod length (held m))"
    let ?m = "settle (lock_id ?l) True m"
    note h = settle_held [OF Suc.prems(1) settle_one_member [OF False], of pick True]
    have "settle_one pick m = ?m" using False by (simp add: settle_one_def)
    then have p: "(settle_one pick ^^ Suc k) m = (settle_one pick ^^ k) ?m" by (simp add: funpow_Suc_right del: funpow.simps)
    have "length (lock_ids ?m) \<le> k" using h(1) Suc.prems(2) by simp
    from Suc.IH [OF ok_settle [OF Suc.prems(1)] this] show ?thesis
      using h(2,3) unfolding p by blast
  qed
qed

subsection \<open>The properties\<close>

text \<open>C35: In every state the manager reaches, whatever was requested, stolen, aborted or settled, the
  locks held of one name are a single lock or all shared.\<close>

theorem locks_exclude:
  assumes "lock_reachable m" "l \<in> set (held m)" "k \<in> set (held m)" "lock_name l = lock_name k" "l \<noteq> k"
  shows "lock_mode l = Shared \<and> lock_mode k = Shared"
proof -
  let ?same = "filter (\<lambda>x. lock_name x = lock_name k) (held m)"
  have c: "length ?same \<le> 1 \<or> (\<forall>x \<in> set ?same. lock_mode x = Shared)"
    using reachable_manager_ok [OF assms(1)] unfolding manager_ok_def compatible_def Let_def by blast
  have in_same: "l \<in> set ?same" "k \<in> set ?same" using assms by auto
  have "\<not> length ?same \<le> 1"
  proof
    assume "length ?same \<le> 1"
    with in_same have "?same = [k]" by (cases ?same) auto
    with in_same(1) show False using assms(5) by simp
  qed
  with c in_same show ?thesis by blast
qed

text \<open>C34: Once no further request comes, every request that waits is granted: settle the holders'
  callbacks in any order, as many as there are locks and requests, and each waiting request's
  callback has been called with its lock and none waits.\<close>

theorem waiting_granted:
  assumes "lock_reachable m" "w \<in> set (waiting m)" "length (held m) + length (waiting m) \<le> k"
  shows "waiting ((settle_one pick ^^ k) m) = [] \<and> CalledWithLock (lock_id w) \<in> set (log ((settle_one pick ^^ k) m))"
  using drain [OF reachable_manager_ok [OF assms(1)], of k pick] assms(2,3) by (auto simp: lock_ids_def)

definition plain_options :: lock_options where
  "plain_options = \<lparr>mode_option = None, if_available = False, steal = False, signal_option = None\<rparr>"

definition two_requests :: manager where
  "two_requests = request ''db'' True plain_options (request ''db'' True plain_options new_manager)"

lemma two_requests_state:
  "lock_reachable two_requests"
  "held two_requests = [\<lparr>lock_id = 0, lock_name = ''db'', lock_mode = Exclusive\<rparr>]"
  "waiting two_requests = [\<lparr>lock_id = 1, lock_name = ''db'', lock_mode = Exclusive\<rparr>]"
proof -
  show "lock_reachable two_requests"
    unfolding two_requests_def by (rule Step [OF Step [OF Start Request] Request])
  show "held two_requests = [\<lparr>lock_id = 0, lock_name = ''db'', lock_mode = Exclusive\<rparr>]"
    "waiting two_requests = [\<lparr>lock_id = 1, lock_name = ''db'', lock_mode = Exclusive\<rparr>]"
    by (simp_all add: two_requests_def request_def check_request_def plain_options_def new_manager_def advance_def
        grantable_def Let_def)
qed

theorem waiting_granted_witness:
  "CalledWithLock 1 \<in> set (log ((settle_one (\<lambda>m. 0) ^^ 2) two_requests))"
  using waiting_granted [OF two_requests_state(1), of _ 2 "\<lambda>m. 0"] by (simp add: two_requests_state(2,3))

definition two_shared :: manager where
  "two_shared = request ''db'' True (plain_options\<lparr>mode_option := Some ''shared''\<rparr>)
    (request ''db'' True (plain_options\<lparr>mode_option := Some ''shared''\<rparr>) new_manager)"

theorem locks_exclude_witness:
  "lock_mode (held two_shared ! 0) = Shared \<and> lock_mode (held two_shared ! 1) = Shared"
proof (rule locks_exclude [of two_shared])
  show "lock_reachable two_shared"
    unfolding two_shared_def by (rule Step [OF Step [OF Start Request] Request])
  have h: "held two_shared = [\<lparr>lock_id = 0, lock_name = ''db'', lock_mode = Shared\<rparr>, \<lparr>lock_id = 1, lock_name = ''db'', lock_mode = Shared\<rparr>]"
    by (simp add: two_shared_def request_def check_request_def plain_options_def new_manager_def advance_def
        grantable_def Let_def)
  show "held two_shared ! 0 \<in> set (held two_shared)" "held two_shared ! 1 \<in> set (held two_shared)"
    "lock_name (held two_shared ! 0) = lock_name (held two_shared ! 1)" "held two_shared ! 0 \<noteq> held two_shared ! 1"
    by (simp_all add: h)
qed

end
