(* ===== verification/NodeResolution.thy ===== *)
theory NodeResolution
  imports Paths "HOL-Library.State_Monad"
begin

text \<open>
  \<open>src/src/node-resolution.ts\<close>: \<open>createNodeResolver\<close>, Node's module resolution over a
  filesystem.  Every function that probes the tree runs in the state monad over what the
  resolution in hand has been answered and what its process keeps (\<open>ResolutionKept\<close>), so
  a cache read, a cache fill and the probe between them are steps in the code's order.

  The tree (\<open>ResolutionFs\<close>), \<open>JSON.parse\<close> and \<open>resolve.exports\<close> are not in this file: they are
  the fields of \<open>tree\<close> and \<open>lane\<close>, functions of their arguments while one synchronous
  resolution runs.  A parsed manifest is the fields the resolver reads of it.  The instruments
  (\<open>probes\<close>, \<open>packageConfigs\<close>) are left out.  A package's \<open>imports\<close> may name another of its
  imports, without end: that recursion has fuel, and \<open>Endless\<close> is fuel run out.
\<close>

subsection \<open>The tree and the lane\<close>

datatype kind = KFile | KDir | KAbsent | KOther

datatype stat_answer = StatAbsent | StatFile "string option" | StatDir | StatOther | StatThrows string

record package =
  pkg_name :: "string option"
  pkg_fields :: "(string \<times> string) list"
  has_exports :: bool
  has_imports :: bool
  is_object :: bool
  pkg_text :: string

record tree =
  kind_sync :: "string \<Rightarrow> kind option"
  stat_sync :: "string \<Rightarrow> stat_answer"
  content_digest :: "string \<Rightarrow> string option"
  read_utf8 :: "string \<Rightarrow> string + string"
  real_path :: "(string \<Rightarrow> string option) option"

record lane =
  parse_json :: "string \<Rightarrow> package option option"
  exports_resolve :: "package \<Rightarrow> string \<Rightarrow> string list \<Rightarrow> string list option"
  imports_resolve :: "package \<Rightarrow> string \<Rightarrow> string list \<Rightarrow> string list option"
  condition_sets :: "string list list"
  condition_sets_for :: "string \<Rightarrow> string list list option"
  extensions :: "string list"
  main_fields :: "string list"
  global_roots :: "string list"
  workspace_members :: "string list"
  source_extensions :: "string list option"
  skip_throwing_cjs :: bool
  throw_not_exported :: bool

subsection \<open>What is kept\<close>

text \<open>
  What a process keeps; the stat window, where one stands, comes with the stubs this resolver
  learned in it.
\<close>

record process_kept =
  kept_manifests :: "(string \<times> package) list"
  kept_missing :: "string list"
  kept_real_paths :: "(string \<times> string) list"
  kept_stats :: "((string \<times> kind) list \<times> (string \<times> bool) list) option"
  kept_carried :: "(string \<times> string) option"
  kept_stubs :: "(string \<times> bool) list"

record memo =
  asked :: "(string \<times> kind) list"
  manifests :: "(string \<times> package option) list"
  digests :: "(string \<times> string) list"
  undigested :: "string list"
  kept :: "process_kept option"

type_synonym 'a probing = "(memo, 'a) state"

definition update_memo :: "(memo \<Rightarrow> memo) \<Rightarrow> unit probing" where
  "update_memo f = State (\<lambda>s. ((), f s))"

definition ask_memo :: "(memo \<Rightarrow> 'a) \<Rightarrow> 'a probing" where
  "ask_memo f = State (\<lambda>s. (f s, s))"

definition update_kept :: "(process_kept \<Rightarrow> process_kept) \<Rightarrow> unit probing" where
  "update_kept f = update_memo (\<lambda>s. s\<lparr>kept := map_option f (kept s)\<rparr>)"

subsection \<open>Paths\<close>

definition norm_path :: "string \<Rightarrow> string" where
  "norm_path p = ''/'' @ join_with ''/'' (resolve_parts [] (nonempty_parts p))"

definition join_path :: "string \<Rightarrow> string \<Rightarrow> string" where
  "join_path base relative = norm_path (if prefix ''/'' relative then relative else base @ ''/'' @ relative)"

definition upper_dir :: "string \<Rightarrow> string" where
  "upper_dir p = (let i = last_index_of slash p in if i \<le> 0 then ''/'' else take (nat i) p)"

definition beneath :: "string \<Rightarrow> string \<Rightarrow> string" where
  "beneath dir name = (if dir = ''/'' then [] else dir) @ ''/'' @ name"

definition has_suffix :: "string \<Rightarrow> string \<Rightarrow> bool" where
  "has_suffix p s \<longleftrightarrow> prefix (rev p) (rev s)"

definition package_name_of :: "string \<Rightarrow> string" where
  "package_name_of specifier =
     (case split_on slash specifier of
        p # q # rest \<Rightarrow> if prefix ''@'' p then p @ ''/'' @ q else p
      | p # rest \<Rightarrow> p
      | [] \<Rightarrow> [])"

subsection \<open>Probing the tree\<close>

definition missing_config_code :: "string \<Rightarrow> bool" where
  "missing_config_code code \<longleftrightarrow> code \<in> {''ENOENT'', ''ENOTDIR'', ''EISDIR''}"

text \<open>The tree's own answer, with the digest its stat carried and whether none was asked.\<close>

definition probe :: "tree \<Rightarrow> string \<Rightarrow> kind \<times> string option \<times> bool" where
  "probe t p =
     (case kind_sync t p of
        Some k \<Rightarrow> (k, None, k = KFile)
      | None \<Rightarrow>
          (case stat_sync t p of
             StatAbsent \<Rightarrow> (KAbsent, None, False)
           | StatFile d \<Rightarrow> (KFile, d, False)
           | StatDir \<Rightarrow> (KDir, None, False)
           | StatOther \<Rightarrow> (KOther, None, False)
           | StatThrows code \<Rightarrow> (if missing_config_code code then KAbsent else KOther, None, False)))"

definition hold_stat :: "string \<Rightarrow> kind \<Rightarrow> process_kept \<Rightarrow> process_kept" where
  "hold_stat p k ke =
     (if k = KFile \<or> k = KDir
      then ke\<lparr>kept_stats := map_option (map_prod (AList.update p k) id) (kept_stats ke)\<rparr> else ke)"

definition held_stat :: "string \<Rightarrow> memo \<Rightarrow> kind option" where
  "held_stat p s = Option.bind (kept s) (\<lambda>ke. Option.bind (kept_stats ke) (\<lambda>w. map_of (fst w) p))"

definition ask :: "tree \<Rightarrow> string \<Rightarrow> kind probing" where
  "ask t p = do {
     h \<leftarrow> ask_memo (held_stat p);
     (case h of
        Some k \<Rightarrow> State_Monad.return k
      | None \<Rightarrow> (case probe t p of (k, d, local) \<Rightarrow> do {
          update_memo (\<lambda>s. if local then s\<lparr>undigested := List.insert p (undigested s)\<rparr> else s);
          update_memo (\<lambda>s. case d of Some x \<Rightarrow> s\<lparr>digests := AList.update p x (digests s)\<rparr> | None \<Rightarrow> s);
          update_kept (hold_stat p k);
          State_Monad.return k }))
   }"

definition kind_of :: "tree \<Rightarrow> string \<Rightarrow> kind probing" where
  "kind_of t p = do {
     again \<leftarrow> ask_memo (\<lambda>s. map_of (asked s) p);
     (case again of
        Some k \<Rightarrow> State_Monad.return k
      | None \<Rightarrow> do {
          k \<leftarrow> ask t p;
          update_memo (\<lambda>s. s\<lparr>asked := AList.update p k (asked s)\<rparr>);
          State_Monad.return k })
   }"

definition is_file :: "tree \<Rightarrow> string \<Rightarrow> bool probing" where
  "is_file t p = do { k \<leftarrow> kind_of t p; State_Monad.return (k = KFile) }"

definition is_dir :: "tree \<Rightarrow> string \<Rightarrow> bool probing" where
  "is_dir t p = do { k \<leftarrow> kind_of t p; State_Monad.return (k = KDir) }"

definition digest_of :: "tree \<Rightarrow> string \<Rightarrow> string option probing" where
  "digest_of t p = do {
     carried \<leftarrow> ask_memo (\<lambda>s. map_of (digests s) p);
     wanted \<leftarrow> ask_memo (\<lambda>s. p \<in> set (undigested s));
     (if carried \<noteq> None \<or> \<not> wanted then State_Monad.return carried
      else do {
        update_memo (\<lambda>s. s\<lparr>undigested := removeAll p (undigested s)\<rparr>);
        update_memo (\<lambda>s. case content_digest t p of
            Some d \<Rightarrow> s\<lparr>digests := AList.update p d (digests s)\<rparr> | None \<Rightarrow> s);
        State_Monad.return (content_digest t p) })
   }"

text \<open>A \<open>.cjs\<close> entry whose whole content is a \<open>throw\<close>.\<close>

definition js_space :: "char \<Rightarrow> bool" where
  "js_space c \<longleftrightarrow> (of_char c :: nat) \<in> {9, 10, 11, 12, 13, 32, 160}"

definition throws :: "tree \<Rightarrow> string \<Rightarrow> bool" where
  "throws t p =
     (case read_utf8 t p of Inl e \<Rightarrow> False | Inr txt \<Rightarrow> prefix ''throw '' (dropWhile js_space txt))"

definition known_stub :: "string \<Rightarrow> string option \<Rightarrow> process_kept \<Rightarrow> bool option" where
  "known_stub p digest ke =
     (case Option.bind (kept_stats ke) (\<lambda>w. map_of (snd w) p) of
        Some b \<Rightarrow> Some b
      | None \<Rightarrow> Option.bind digest (map_of (kept_stubs ke)))"

definition learn_stub :: "string \<Rightarrow> string option \<Rightarrow> bool \<Rightarrow> process_kept \<Rightarrow> process_kept" where
  "learn_stub p digest b ke =
     (let ke = (case digest of Some d \<Rightarrow> ke\<lparr>kept_stubs := AList.update d b (kept_stubs ke)\<rparr> | None \<Rightarrow> ke)
      in ke\<lparr>kept_stats := map_option (map_prod id (AList.update p b)) (kept_stats ke)\<rparr>)"

definition throwing_stub :: "tree \<Rightarrow> string \<Rightarrow> bool probing" where
  "throwing_stub t p = do {
     digest \<leftarrow> digest_of t p;
     known \<leftarrow> ask_memo (\<lambda>s. Option.bind (kept s) (known_stub p digest));
     (case known of
        Some b \<Rightarrow> State_Monad.return b
      | None \<Rightarrow> do {
          update_kept (learn_stub p digest (throws t p));
          State_Monad.return (throws t p) })
   }"

subsection \<open>Manifests\<close>

text \<open>What a file's text gives: the package, where it is one, and whether the read proved absence.\<close>

definition parse_manifest :: "tree \<Rightarrow> lane \<Rightarrow> string \<Rightarrow> package option \<times> bool" where
  "parse_manifest t l p =
     (case read_utf8 t p of
        Inl code \<Rightarrow> (None, missing_config_code code)
      | Inr txt \<Rightarrow> (case parse_json l txt of None \<Rightarrow> (None, False) | Some doc \<Rightarrow> (doc, False)))"

definition keep_manifest :: "string \<Rightarrow> package option \<Rightarrow> process_kept \<Rightarrow> process_kept" where
  "keep_manifest p parsed ke =
     (case parsed of
        Some pkg \<Rightarrow> if is_object pkg then ke\<lparr>kept_manifests := AList.update p pkg (kept_manifests ke)\<rparr> else ke
      | None \<Rightarrow> ke)"

definition read_manifest :: "tree \<Rightarrow> lane \<Rightarrow> string \<Rightarrow> package option probing" where
  "read_manifest t l p = do {
     file \<leftarrow> is_file t p;
     k \<leftarrow> ask_memo (\<lambda>s. map_of (asked s) p);
     (let (parsed, missing) = (if file then parse_manifest t l p else (None, k = Some KDir \<or> k = Some KAbsent))
      in do {
        (if missing then update_kept (\<lambda>ke. ke\<lparr>kept_missing := List.insert p (kept_missing ke)\<rparr>)
         else State_Monad.return ());
        update_memo (\<lambda>s. s\<lparr>manifests := AList.update p parsed (manifests s)\<rparr>);
        update_kept (keep_manifest p parsed);
        State_Monad.return parsed })
   }"

definition manifest :: "tree \<Rightarrow> lane \<Rightarrow> string \<Rightarrow> package option probing" where
  "manifest t l dir =
     (let p = beneath dir ''package.json''
      in do {
        absent \<leftarrow> ask_memo (\<lambda>s. case kept s of Some ke \<Rightarrow> p \<in> set (kept_missing ke) | None \<Rightarrow> False);
        held \<leftarrow> ask_memo (\<lambda>s. Option.bind (kept s) (\<lambda>ke. map_of (kept_manifests ke) p));
        here \<leftarrow> ask_memo (\<lambda>s. map_of (manifests s) p);
        (if absent then State_Monad.return None
         else case held of
           Some pkg \<Rightarrow> State_Monad.return (Some pkg)
         | None \<Rightarrow> (case here of Some r \<Rightarrow> State_Monad.return r | None \<Rightarrow> read_manifest t l p))
      })"

subsection \<open>Answers\<close>

text \<open>\<open>null\<close>, a file, the refusal \<open>ERR_PACKAGE_PATH_NOT_EXPORTED\<close>, or imports without end.\<close>

datatype answer = Missing | Found string | Refused string string | Endless

definition or_else :: "answer probing \<Rightarrow> answer probing \<Rightarrow> answer probing" where
  "or_else m n = do { a \<leftarrow> m; (if a = Missing then n else State_Monad.return a) }"

fun first_of :: "('x \<Rightarrow> answer probing) \<Rightarrow> 'x list \<Rightarrow> answer probing" where
  "first_of f [] = State_Monad.return Missing"
| "first_of f (x # xs) = or_else (f x) (first_of f xs)"

definition candidate :: "tree \<Rightarrow> string \<Rightarrow> answer probing" where
  "candidate t p = do { file \<leftarrow> is_file t p; State_Monad.return (if file then Found p else Missing) }"

subsection \<open>Files and directories\<close>

definition typescript_sibling :: "string \<Rightarrow> string option" where
  "typescript_sibling ext =
     map_of [(''.js'', ''.ts''), (''.mjs'', ''.mts''), (''.cjs'', ''.cts''), (''.jsx'', ''.tsx'')] ext"

definition sibling_of :: "lane \<Rightarrow> string \<Rightarrow> string option" where
  "sibling_of l p =
     (let d = last_index_of (CHR ''.'') p
      in if last_index_of slash p < d
         then (case typescript_sibling (drop (nat d) p) of
                 Some ts \<Rightarrow> if ts \<in> set (extensions l) then Some (take (nat d) p @ ts) else None
               | None \<Rightarrow> None)
         else None)"

definition load_as_file :: "tree \<Rightarrow> lane \<Rightarrow> string \<Rightarrow> answer probing" where
  "load_as_file t l p =
     or_else (candidate t p)
       (or_else (first_of (\<lambda>e. candidate t (p @ e)) (extensions l))
          (case sibling_of l p of Some q \<Rightarrow> candidate t q | None \<Rightarrow> State_Monad.return Missing))"

definition load_index :: "tree \<Rightarrow> lane \<Rightarrow> string \<Rightarrow> answer probing" where
  "load_index t l p = first_of (\<lambda>e. candidate t (p @ ''/index'' @ e)) (extensions l)"

text \<open>\<open>/\.(?:m|c)?[jt]sx?$/\<close> removed.\<close>

definition script_suffixes :: "string list" where
  "script_suffixes =
     [''.js'', ''.ts'', ''.jsx'', ''.tsx'', ''.mjs'', ''.mts'', ''.mjsx'', ''.mtsx'', ''.cjs'', ''.cts'', ''.cjsx'', ''.ctsx'']"

definition script_stem :: "string \<Rightarrow> string" where
  "script_stem s =
     (let d = last_index_of (CHR ''.'') s
      in if 0 \<le> d \<and> drop (nat d) s \<in> set script_suffixes then take (nat d) s else s)"

definition drop_prefix :: "string \<Rightarrow> string \<Rightarrow> string" where
  "drop_prefix p s = (if prefix p s then drop (length p) s else s)"

definition source_stem :: "string \<Rightarrow> string" where
  "source_stem declared =
     (let parts = nonempty_parts (drop_prefix ''/'' (drop_prefix ''./'' declared))
      in script_stem (case parts of [] \<Rightarrow> ''index'' | [p] \<Rightarrow> p | p # rest \<Rightarrow> join_with ''/'' rest))"

definition trim_slashes :: "string \<Rightarrow> string" where
  "trim_slashes s = (let r = rev (dropWhile (\<lambda>c. c = slash) (rev s)) in if r = [] then ''/'' else r)"

definition source_candidates :: "lane \<Rightarrow> string list \<Rightarrow> string \<Rightarrow> string list" where
  "source_candidates l bases stem =
     [p. base \<leftarrow> bases, pre \<leftarrow> [base @ ''/src/'', base @ ''/''],
         ext \<leftarrow> (case source_extensions l of Some es \<Rightarrow> es | None \<Rightarrow> extensions l),
         p \<leftarrow> [pre @ stem @ ext, pre @ stem @ ''/index'' @ ext]]"

definition workspace_source :: "tree \<Rightarrow> lane \<Rightarrow> string \<Rightarrow> string \<Rightarrow> answer probing" where
  "workspace_source t l package_root declared =
     (let pkg_root = trim_slashes package_root;
          real = (case real_path t of Some f \<Rightarrow> (case f pkg_root of Some r \<Rightarrow> r | None \<Rightarrow> pkg_root) | None \<Rightarrow> pkg_root)
      in if pkg_root \<notin> set (workspace_members l) \<and> real \<notin> set (workspace_members l)
         then State_Monad.return Missing
         else first_of (candidate t)
           (source_candidates l (if real = pkg_root then [pkg_root] else [pkg_root, real]) (source_stem declared)))"

definition load_main :: "tree \<Rightarrow> lane \<Rightarrow> string \<Rightarrow> package \<Rightarrow> string \<Rightarrow> answer probing" where
  "load_main t l p pkg main_field =
     (case map_of (pkg_fields pkg) main_field of
        Some v \<Rightarrow>
          if v = [] then State_Monad.return Missing
          else or_else (load_as_file t l (join_path p v))
                 (or_else (load_index t l (join_path p v)) (workspace_source t l p v))
      | None \<Rightarrow> State_Monad.return Missing)"

definition load_as_directory :: "tree \<Rightarrow> lane \<Rightarrow> string \<Rightarrow> answer probing" where
  "load_as_directory t l p = do {
     dir \<leftarrow> is_dir t p;
     (if \<not> dir then State_Monad.return Missing
      else do {
        pkg \<leftarrow> manifest t l p;
        (case pkg of
           Some pkg \<Rightarrow> or_else (first_of (load_main t l p pkg) (main_fields l)) (load_index t l p)
         | None \<Rightarrow> load_index t l p) })
   }"

subsection \<open>Packages\<close>

definition export_target :: "tree \<Rightarrow> lane \<Rightarrow> string \<Rightarrow> string \<Rightarrow> answer probing" where
  "export_target t l pkg_root target = do {
     a \<leftarrow> or_else (load_as_file t l (join_path pkg_root target)) (workspace_source t l pkg_root target);
     (case a of
        Found p \<Rightarrow>
          if skip_throwing_cjs l \<and> has_suffix ''.cjs'' p
          then do { stub \<leftarrow> throwing_stub t p; State_Monad.return (if stub then Missing else a) }
          else State_Monad.return a
      | _ \<Rightarrow> State_Monad.return a)
   }"

fun export_sets :: "tree \<Rightarrow> lane \<Rightarrow> string \<Rightarrow> package \<Rightarrow> string \<Rightarrow> bool \<Rightarrow> bool \<Rightarrow> string list list \<Rightarrow> answer probing" where
  "export_sets t l pkg_root pkg subpath refuse named [] =
     State_Monad.return (if refuse \<and> \<not> named then Refused pkg_root subpath else Missing)"
| "export_sets t l pkg_root pkg subpath refuse named (c # cs) =
     (case exports_resolve l pkg subpath c of
        None \<Rightarrow> export_sets t l pkg_root pkg subpath refuse named cs
      | Some targets \<Rightarrow>
          or_else (first_of (export_target t l pkg_root) targets)
            (export_sets t l pkg_root pkg subpath refuse (named \<or> targets \<noteq> []) cs))"

definition load_package_exports :: "tree \<Rightarrow> lane \<Rightarrow> string \<Rightarrow> package \<Rightarrow> string \<Rightarrow> string \<Rightarrow> answer probing" where
  "load_package_exports t l pkg_root pkg specifier name =
     export_sets t l pkg_root pkg (if specifier = name then ''.'' else ''.'' @ drop (length name) specifier)
       (throw_not_exported l) False
       (case condition_sets_for l name of Some cs \<Rightarrow> cs | None \<Rightarrow> condition_sets l)"

definition load_from_node_modules :: "tree \<Rightarrow> lane \<Rightarrow> string \<Rightarrow> string \<Rightarrow> answer probing" where
  "load_from_node_modules t l node_modules specifier =
     (let name = package_name_of specifier; pkg_root = node_modules @ ''/'' @ name
      in do {
        rooted \<leftarrow> is_dir t pkg_root;
        (if \<not> rooted \<and> specifier \<noteq> name then State_Monad.return Missing
         else do {
           pkg \<leftarrow> (if rooted then manifest t l pkg_root else State_Monad.return None);
           (case pkg of
              Some pkg \<Rightarrow>
                if has_exports pkg then load_package_exports t l pkg_root pkg specifier name
                else or_else (load_as_file t l (node_modules @ ''/'' @ specifier))
                       (load_as_directory t l (node_modules @ ''/'' @ specifier))
            | None \<Rightarrow> or_else (load_as_file t l (node_modules @ ''/'' @ specifier))
                       (load_as_directory t l (node_modules @ ''/'' @ specifier))) })
      })"

subsection \<open>Walking up\<close>

definition height :: "string \<Rightarrow> nat" where
  "height dir = (if dir = ''/'' then 0 else Suc (length dir))"

lemma parent_lower: "dir \<noteq> ''/'' \<Longrightarrow> height (upper_dir dir) < height dir"
proof -
  assume "dir \<noteq> ''/''"
  moreover have "last_index_of slash dir < int (length dir)" by (rule last_index_of_less)
  ultimately show ?thesis by (auto simp: height_def upper_dir_def Let_def)
qed

text \<open>The nearest manifest above a directory, the walk ending at the root or a \<open>node_modules\<close>.\<close>

function nearest_manifest :: "tree \<Rightarrow> lane \<Rightarrow> string \<Rightarrow> (string \<times> package) option probing" where
  "nearest_manifest t l dir =
     (if dir = ''/'' \<or> has_suffix ''/node_modules'' dir then State_Monad.return None
      else do {
        pkg \<leftarrow> manifest t l dir;
        (case pkg of
           Some pkg \<Rightarrow> State_Monad.return (Some (dir, pkg))
         | None \<Rightarrow> nearest_manifest t l (upper_dir dir)) })"
  by pat_completeness auto
termination by (relation "measure (\<lambda>(t, l, dir). height dir)") (auto simp: parent_lower)

declare nearest_manifest.simps [simp del]

definition load_package_self :: "tree \<Rightarrow> lane \<Rightarrow> string \<Rightarrow> string \<Rightarrow> answer probing" where
  "load_package_self t l specifier from_dir =
     (let name = package_name_of specifier
      in do {
        near \<leftarrow> nearest_manifest t l from_dir;
        (case near of
           Some (dir, pkg) \<Rightarrow>
             if pkg_name pkg = Some name \<and> has_exports pkg then load_package_exports t l dir pkg specifier name
             else State_Monad.return Missing
         | None \<Rightarrow> State_Monad.return Missing) })"

function walk_up :: "tree \<Rightarrow> lane \<Rightarrow> string \<Rightarrow> string \<Rightarrow> answer probing" where
  "walk_up t l specifier dir =
     or_else
       (if has_suffix ''/node_modules'' dir then State_Monad.return Missing
        else do {
          there \<leftarrow> is_dir t (beneath dir ''node_modules'');
          (if there then load_from_node_modules t l (beneath dir ''node_modules'') specifier
           else State_Monad.return Missing) })
       (if dir = ''/'' then State_Monad.return Missing else walk_up t l specifier (upper_dir dir))"
  by pat_completeness auto
termination by (relation "measure (\<lambda>(t, l, specifier, dir). height dir)") (auto simp: parent_lower)

declare walk_up.simps [simp del]

definition search_globals :: "tree \<Rightarrow> lane \<Rightarrow> string \<Rightarrow> answer probing" where
  "search_globals t l specifier =
     first_of (\<lambda>pkg_root. do {
         there \<leftarrow> is_dir t pkg_root;
         (if there then load_from_node_modules t l pkg_root specifier else State_Monad.return Missing) })
       (global_roots l)"

definition relative_specifier :: "string \<Rightarrow> bool" where
  "relative_specifier s \<longleftrightarrow>
     prefix ''./'' s \<or> prefix ''../'' s \<or> prefix ''/'' s \<or> s = ''.'' \<or> s = ''..''"

text \<open>The targets of one condition set of an imports map, a bare one resolved from the package.\<close>

definition import_target :: "(string \<Rightarrow> string \<Rightarrow> answer probing) \<Rightarrow> tree \<Rightarrow> lane \<Rightarrow> string \<Rightarrow> string \<Rightarrow> answer probing" where
  "import_target again t l dir target =
     (if \<not> prefix ''.'' target \<and> \<not> prefix ''/'' target then again target dir
      else load_as_file t l (join_path dir target))"

definition load_package_imports ::
  "(string \<Rightarrow> string \<Rightarrow> answer probing) \<Rightarrow> tree \<Rightarrow> lane \<Rightarrow> string \<Rightarrow> string \<Rightarrow> answer probing" where
  "load_package_imports again t l specifier from_dir = do {
     near \<leftarrow> nearest_manifest t l from_dir;
     (case near of
        Some (dir, pkg) \<Rightarrow>
          if has_imports pkg
          then first_of (\<lambda>c. case imports_resolve l pkg specifier c of
                   None \<Rightarrow> State_Monad.return Missing
                 | Some targets \<Rightarrow> first_of (import_target again t l dir) targets)
                 (condition_sets l)
          else State_Monad.return Missing
      | None \<Rightarrow> State_Monad.return Missing)
   }"

fun resolve_cached :: "nat \<Rightarrow> tree \<Rightarrow> lane \<Rightarrow> string \<Rightarrow> string \<Rightarrow> answer probing" where
  "resolve_cached 0 t l specifier from_dir = State_Monad.return Endless"
| "resolve_cached (Suc fuel) t l specifier from_dir =
     (if prefix ''#'' specifier
      then load_package_imports (resolve_cached fuel t l) t l specifier from_dir
      else if relative_specifier specifier
      then or_else (load_as_file t l (join_path from_dir specifier)) (load_as_directory t l (join_path from_dir specifier))
      else or_else (load_package_self t l specifier from_dir)
             (or_else (walk_up t l specifier from_dir) (search_globals t l specifier)))"

subsection \<open>One resolution\<close>

definition carry :: "string option \<Rightarrow> string \<Rightarrow> unit probing" where
  "carry digest p =
     (case digest of Some d \<Rightarrow> update_kept (\<lambda>ke. ke\<lparr>kept_carried := Some (p, d)\<rparr>) | None \<Rightarrow> State_Monad.return ())"

definition real_answer :: "tree \<Rightarrow> string \<Rightarrow> answer probing" where
  "real_answer t p = do {
     digest \<leftarrow> digest_of t p;
     (case real_path t of
        None \<Rightarrow> do { carry digest p; State_Monad.return (Found p) }
      | Some f \<Rightarrow> do {
          held \<leftarrow> ask_memo (\<lambda>s. Option.bind (kept s) (\<lambda>ke. map_of (kept_real_paths ke) p));
          (case held of
             Some q \<Rightarrow> do { carry digest q; State_Monad.return (Found q) }
           | None \<Rightarrow>
               (case f p of
                  Some q \<Rightarrow> do {
                    update_kept (\<lambda>ke. ke\<lparr>kept_real_paths := AList.update p q (kept_real_paths ke)\<rparr>);
                    carry digest q; State_Monad.return (Found q) }
                | None \<Rightarrow> do { carry digest p; State_Monad.return (Found p) })) })
   }"

definition resolving :: "nat \<Rightarrow> tree \<Rightarrow> lane \<Rightarrow> string \<Rightarrow> string \<Rightarrow> answer probing" where
  "resolving fuel t l specifier from_dir = do {
     a \<leftarrow> resolve_cached fuel t l specifier from_dir;
     (case a of Found p \<Rightarrow> real_answer t p | _ \<Rightarrow> State_Monad.return a)
   }"

definition fresh_memo :: "process_kept option \<Rightarrow> memo" where
  "fresh_memo k =
     \<lparr>asked = [], manifests = [], digests = [], undigested = [],
      kept = map_option (\<lambda>ke. ke\<lparr>kept_carried := None\<rparr>) k\<rparr>"

definition resolve :: "nat \<Rightarrow> tree \<Rightarrow> lane \<Rightarrow> string \<Rightarrow> string \<Rightarrow> process_kept option \<Rightarrow> answer \<times> process_kept option" where
  "resolve fuel t l specifier from_dir k =
     map_prod id kept (run_state (resolving fuel t l specifier from_dir) (fresh_memo k))"

end
