(* ===== verification/NodeResolutionProps.thy ===== *)
theory NodeResolutionProps
  imports NodeResolution
begin

text \<open>
  What the resolver keeps changes none of its answers.  A computation \<open>settles\<close> on a value
  when every memory that fits the tree makes it answer that value and leaves a memory that
  fits; the rules below carry that through the resolver's functions from the two that read
  caches, in a locale whose assumptions are those two, interpreted on the memories that fit
  a tree.
\<close>

subsection \<open>Settling\<close>

definition settles :: "('s \<Rightarrow> bool) \<Rightarrow> ('a \<Rightarrow> bool) \<Rightarrow> ('s, 'a) state \<Rightarrow> bool" where
  "settles fits good m \<longleftrightarrow> (\<exists>v. good v \<and> (\<forall>s. fits s \<longrightarrow> fst (run_state m s) = v \<and> fits (snd (run_state m s))))"

named_theorems settling \<open>rules that a computation settles\<close>

lemma settles_bind:
  assumes "settles fits P m" "\<And>a. P a \<Longrightarrow> settles fits Q (f a)"
  shows "settles fits Q (State_Monad.bind m f)"
proof -
  obtain v where v: "P v" "\<And>s. fits s \<Longrightarrow> fst (run_state m s) = v \<and> fits (snd (run_state m s))"
    using assms(1) by (auto simp: settles_def)
  obtain w where w: "Q w" "\<And>s. fits s \<Longrightarrow> fst (run_state (f v) s) = w \<and> fits (snd (run_state (f v) s))"
    using assms(2) [OF v(1)] by (auto simp: settles_def)
  have "fst (run_state (State_Monad.bind m f) s) = w \<and> fits (snd (run_state (State_Monad.bind m f) s))" if "fits s" for s
    using v(2) [OF that] w(2) [of "snd (run_state m s)"] by (cases "run_state m s") simp
  then show ?thesis using w(1) by (auto simp: settles_def)
qed

lemma settles_return [settling]: "P a \<Longrightarrow> settles fits P (State_Monad.return a)"
  by (auto simp: settles_def)

lemma settles_weaken: "settles fits P m \<Longrightarrow> (\<And>a. P a \<Longrightarrow> Q a) \<Longrightarrow> settles fits Q m"
  by (auto simp: settles_def)

lemma settles_if [settling]:
  "(b \<Longrightarrow> settles fits P m) \<Longrightarrow> (\<not> b \<Longrightarrow> settles fits P n) \<Longrightarrow> settles fits P (if b then m else n)"
  by simp

lemma settles_option [settling]:
  "(x = None \<Longrightarrow> settles fits P m) \<Longrightarrow> (\<And>a. x = Some a \<Longrightarrow> settles fits P (f a)) \<Longrightarrow>
   settles fits P (case x of None \<Rightarrow> m | Some a \<Rightarrow> f a)"
  by (cases x) simp_all

lemma settles_or_else [settling]:
  "settles fits P m \<Longrightarrow> settles fits P n \<Longrightarrow> settles fits P (or_else m n)"
  unfolding or_else_def by (rule settles_bind [where P = P]) (auto intro: settles_return)

lemma settles_first_of:
  "P Missing \<Longrightarrow> (\<And>x. x \<in> set xs \<Longrightarrow> settles fits P (f x)) \<Longrightarrow> settles fits P (first_of f xs)"
  by (induction xs) (auto intro!: settles_return settles_or_else)

subsection \<open>The resolver over a memory it may trust\<close>

definition is_answer :: "tree \<Rightarrow> answer \<Rightarrow> bool" where
  "is_answer t a \<longleftrightarrow> (\<forall>p. a = Found p \<longrightarrow> fst (probe t p) = KFile)"

lemma is_answer_simps [simp]:
  "is_answer t Missing" "is_answer t Endless" "is_answer t (Refused r p)"
  "is_answer t (Found p) \<longleftrightarrow> fst (probe t p) = KFile"
  by (auto simp: is_answer_def)

locale trusted_memory =
  fixes fits :: "memo \<Rightarrow> bool" and t :: tree and l :: lane
  assumes kind_settles: "settles fits (\<lambda>k. k = fst (probe t p)) (kind_of t p)"
    and manifest_settles: "settles fits (\<lambda>_. True) (manifest t l dir)"
    and stub_settles: "settles fits (\<lambda>_. True) (throwing_stub t p)"
begin

lemma is_file_settles: "settles fits (\<lambda>b. b \<longleftrightarrow> fst (probe t p) = KFile) (is_file t p)"
  unfolding is_file_def by (rule settles_bind [OF kind_settles]) (auto intro: settles_return)

lemma is_dir_settles: "settles fits (\<lambda>b. True) (is_dir t p)"
  unfolding is_dir_def by (rule settles_bind [OF kind_settles]) (auto intro: settles_return)

lemma candidate_settles [settling]: "settles fits (is_answer t) (candidate t p)"
  unfolding candidate_def by (rule settles_bind [OF is_file_settles]) (auto intro: settles_return)

lemma missing_settles [settling]: "settles fits (is_answer t) (State_Monad.return Missing)"
  by (rule settles_return) simp

lemma first_settles [settling]:
  "(\<And>x. x \<in> set xs \<Longrightarrow> settles fits (is_answer t) (f x)) \<Longrightarrow> settles fits (is_answer t) (first_of f xs)"
  by (rule settles_first_of) simp_all

lemma load_as_file_settles [settling]: "settles fits (is_answer t) (load_as_file t l p)"
  unfolding load_as_file_def by (intro settling)

lemma load_index_settles [settling]: "settles fits (is_answer t) (load_index t l p)"
  unfolding load_index_def by (intro settling)

lemma workspace_source_settles [settling]: "settles fits (is_answer t) (workspace_source t l p d)"
  unfolding workspace_source_def Let_def by (intro settling)

lemma load_main_settles [settling]: "settles fits (is_answer t) (load_main t l p pkg d)"
  unfolding load_main_def by (intro settling)

lemma load_as_directory_settles [settling]: "settles fits (is_answer t) (load_as_directory t l p)"
  unfolding load_as_directory_def
  by (rule settles_bind [OF is_dir_settles], rule settles_if, rule missing_settles)
    (rule settles_bind [OF manifest_settles], intro settling)

lemma export_target_settles [settling]: "settles fits (is_answer t) (export_target t l r d)"
  unfolding export_target_def
proof (rule settles_bind [where P = "is_answer t"])
  show "settles fits (is_answer t) (or_else (load_as_file t l (join_path r d)) (workspace_source t l r d))"
    by (intro settling)
  show "settles fits (is_answer t)
      (case a of
         Found p \<Rightarrow> if skip_throwing_cjs l \<and> has_suffix ''.cjs'' p
           then throwing_stub t p \<bind> (\<lambda>stub. State_Monad.return (if stub then Missing else a)) else State_Monad.return a
       | _ \<Rightarrow> State_Monad.return a)" if "is_answer t a" for a
    using that
    by (cases a) (auto intro!: settles_return settles_if settles_bind [OF stub_settles])
qed

lemma export_sets_settles [settling]: "settles fits (is_answer t) (export_sets t l r pkg sub refuse named cs)"
  by (induction cs arbitrary: named) (auto intro!: settles_return settles_or_else first_settles export_target_settles split: option.splits)

lemma load_package_exports_settles [settling]: "settles fits (is_answer t) (load_package_exports t l r pkg spec name)"
  unfolding load_package_exports_def by (rule export_sets_settles)

lemma load_from_node_modules_settles [settling]: "settles fits (is_answer t) (load_from_node_modules t l nm spec)"
  unfolding load_from_node_modules_def Let_def
proof (rule settles_bind [OF is_dir_settles], rule settles_if, rule missing_settles, rule settles_bind [where P = "\<lambda>_. True"])
  fix a
  show "settles fits (\<lambda>_. True) (if a then manifest t l (nm @ ''/'' @ package_name_of spec) else State_Monad.return None)"
    by (auto intro: manifest_settles settles_return)
qed (intro settling)

lemma nearest_settles: "settles fits (\<lambda>_. True) (nearest_manifest t l dir)"
proof (induction "height dir" arbitrary: dir rule: less_induct)
  case less
  show ?case
  proof (cases "dir = ''/'' \<or> has_suffix ''/node_modules'' dir")
    case True
    then show ?thesis by (simp add: nearest_manifest.simps [of t l dir] settles_return)
  next
    case False
    then have "settles fits (\<lambda>_. True) (nearest_manifest t l (upper_dir dir))"
      using less parent_lower by blast
    then show ?thesis
      using False by (subst nearest_manifest.simps) (auto intro!: settles_bind [OF manifest_settles] settles_return settles_option)
  qed
qed

lemma walk_up_settles [settling]: "settles fits (is_answer t) (walk_up t l spec dir)"
proof (induction "height dir" arbitrary: dir rule: less_induct)
  case less
  have up: "settles fits (is_answer t) (if dir = ''/'' then State_Monad.return Missing else walk_up t l spec (upper_dir dir))"
    using less parent_lower missing_settles by (cases "dir = ''/''") auto
  show ?case
    by (subst walk_up.simps, rule settles_or_else [OF _ up], rule settles_if, rule missing_settles)
      (rule settles_bind [OF is_dir_settles], intro settling)
qed

lemma load_package_self_settles [settling]: "settles fits (is_answer t) (load_package_self t l spec dir)"
  unfolding load_package_self_def Let_def
  by (rule settles_bind [OF nearest_settles]) (auto split: option.splits intro!: settling)

lemma search_globals_settles [settling]: "settles fits (is_answer t) (search_globals t l spec)"
  unfolding search_globals_def
  by (rule first_settles, rule settles_bind [OF is_dir_settles]) (intro settling)

lemma load_package_imports_settles:
  assumes "\<And>spec dir. settles fits (is_answer t) (again spec dir)"
  shows "settles fits (is_answer t) (load_package_imports again t l spec dir)"
proof -
  have "settles fits (is_answer t) (import_target again t l d x)" for d x
    unfolding import_target_def by (auto intro!: settling assms)
  then show ?thesis
    unfolding load_package_imports_def
    by (intro settles_bind [OF nearest_settles]) (auto split: option.splits intro!: first_settles missing_settles)
qed

lemma resolve_cached_settles: "settles fits (is_answer t) (resolve_cached fuel t l spec dir)"
proof (induction fuel arbitrary: spec dir)
  case (Suc fuel)
  then show ?case by (auto intro!: settling load_package_imports_settles)
qed (simp add: settles_return)

end

subsection \<open>Memories that fit a tree\<close>

definition tree_manifest :: "tree \<Rightarrow> lane \<Rightarrow> string \<Rightarrow> package option" where
  "tree_manifest t l p = (if fst (probe t p) = KFile then fst (parse_manifest t l p) else None)"

text \<open>A digest the tree gives for a path, with its stat or asked of it.\<close>

definition has_digest :: "tree \<Rightarrow> string \<Rightarrow> string \<Rightarrow> bool" where
  "has_digest t p d \<longleftrightarrow> fst (snd (probe t p)) = Some d \<or> content_digest t p = Some d"

text \<open>What a content digest is: two paths of one digest hold the same bytes.\<close>

definition honest_digests :: "tree \<Rightarrow> bool" where
  "honest_digests t \<longleftrightarrow> (\<forall>p q d. has_digest t p d \<longrightarrow> has_digest t q d \<longrightarrow> read_utf8 t p = read_utf8 t q)"

definition window_fits :: "tree \<Rightarrow> (string \<times> kind) list \<times> (string \<times> bool) list \<Rightarrow> bool" where
  "window_fits t w \<longleftrightarrow>
     (\<forall>p k. map_of (fst w) p = Some k \<longrightarrow> k = fst (probe t p)) \<and> (\<forall>p b. map_of (snd w) p = Some b \<longrightarrow> b = throws t p)"

definition kept_fits :: "tree \<Rightarrow> lane \<Rightarrow> process_kept \<Rightarrow> bool" where
  "kept_fits t l ke \<longleftrightarrow>
     (\<forall>p pkg. map_of (kept_manifests ke) p = Some pkg \<longrightarrow> tree_manifest t l p = Some pkg) \<and>
     (\<forall>p. p \<in> set (kept_missing ke) \<longrightarrow> tree_manifest t l p = None) \<and>
     (\<forall>p q. map_of (kept_real_paths ke) p = Some q \<longrightarrow> (\<exists>f. real_path t = Some f \<and> f p = Some q)) \<and>
     (\<forall>w. kept_stats ke = Some w \<longrightarrow> window_fits t w) \<and>
     (\<forall>d b p. map_of (kept_stubs ke) d = Some b \<longrightarrow> has_digest t p d \<longrightarrow> b = throws t p)"

definition memo_fits :: "tree \<Rightarrow> lane \<Rightarrow> memo \<Rightarrow> bool" where
  "memo_fits t l s \<longleftrightarrow>
     (\<forall>p k. map_of (asked s) p = Some k \<longrightarrow> k = fst (probe t p)) \<and>
     (\<forall>p r. map_of (manifests s) p = Some r \<longrightarrow> r = tree_manifest t l p) \<and>
     (\<forall>p d. map_of (digests s) p = Some d \<longrightarrow> has_digest t p d) \<and>
     (\<forall>ke. kept s = Some ke \<longrightarrow> kept_fits t l ke)"

lemma run_memo [simp]: "run_state (update_memo f) s = ((), f s)" "run_state (ask_memo g) s = (g s, s)"
  "run_state (update_kept h) s = ((), s\<lparr>kept := map_option h (kept s)\<rparr>)"
  by (simp_all add: update_memo_def ask_memo_def update_kept_def)

lemma settlesI: "good v \<Longrightarrow> (\<And>s. fits s \<Longrightarrow> fst (run_state m s) = v \<and> fits (snd (run_state m s))) \<Longrightarrow> settles fits good m"
  by (auto simp: settles_def)

lemma hold_stat_fits: "kept_fits t l ke \<Longrightarrow> kept_fits t l (hold_stat p (fst (probe t p)) ke)"
  by (auto simp: hold_stat_def kept_fits_def window_fits_def split: if_splits)

lemma ask_fits:
  assumes "memo_fits t l s"
  shows "fst (run_state (ask t p) s) = fst (probe t p) \<and> memo_fits t l (snd (run_state (ask t p) s))"
proof (cases "held_stat p s")
  case (Some k)
  then obtain ke w where "kept s = Some ke" "kept_stats ke = Some w" "map_of (fst w) p = Some k"
    by (auto simp: held_stat_def bind_eq_Some_conv)
  then have "k = fst (probe t p)"
    using assms unfolding memo_fits_def kept_fits_def window_fits_def by blast
  then show ?thesis using Some assms by (simp add: ask_def)
next
  case None
  obtain k d local where p: "probe t p = (k, d, local)" by (cases "probe t p")
  have "d = Some x \<Longrightarrow> has_digest t p x" for x using p by (simp add: has_digest_def)
  then show ?thesis
    using None assms p hold_stat_fits [of t l _ p]
    by (auto simp: ask_def memo_fits_def split: option.splits)
qed

lemma kind_of_fits:
  assumes "memo_fits t l s"
  shows "fst (run_state (kind_of t p) s) = fst (probe t p) \<and> memo_fits t l (snd (run_state (kind_of t p) s))
    \<and> map_of (asked (snd (run_state (kind_of t p) s))) p = Some (fst (probe t p))"
proof (cases "map_of (asked s) p")
  case (Some k)
  then show ?thesis using assms by (auto simp: kind_of_def memo_fits_def)
next
  case None
  obtain s' where s': "run_state (ask t p) s = (fst (probe t p), s')" "memo_fits t l s'"
    using ask_fits [OF assms, of p] by (metis prod.collapse)
  then show ?thesis using None by (auto simp: kind_of_def memo_fits_def)
qed

lemma manifest_fits:
  assumes fits: "memo_fits t l s"
  shows "fst (run_state (manifest t l dir) s) = tree_manifest t l (beneath dir ''package.json'') \<and>
    memo_fits t l (snd (run_state (manifest t l dir) s))"
proof -
  let ?p = "beneath dir ''package.json''"
  let ?absent = "case kept s of Some ke \<Rightarrow> ?p \<in> set (kept_missing ke) | None \<Rightarrow> False"
  let ?held = "Option.bind (kept s) (\<lambda>ke. map_of (kept_manifests ke) ?p)"
  have run: "run_state (manifest t l dir) s =
      (if ?absent then (None, s)
       else case ?held of Some pkg \<Rightarrow> (Some pkg, s)
         | None \<Rightarrow> (case map_of (manifests s) ?p of Some r \<Rightarrow> (r, s) | None \<Rightarrow> run_state (read_manifest t l ?p) s))"
    by (simp add: manifest_def Let_def split: option.splits)
  have a: "?absent \<Longrightarrow> tree_manifest t l ?p = None"
    using fits by (auto simp: memo_fits_def kept_fits_def split: option.splits)
  have h: "?held = Some pkg \<Longrightarrow> tree_manifest t l ?p = Some pkg" for pkg
    using fits by (auto simp: memo_fits_def kept_fits_def bind_eq_Some_conv)
  have m: "map_of (manifests s) ?p = Some r \<Longrightarrow> r = tree_manifest t l ?p" for r
    using fits by (simp add: memo_fits_def)
  have read: "fst (run_state (read_manifest t l ?p) s) = tree_manifest t l ?p \<and> memo_fits t l (snd (run_state (read_manifest t l ?p) s))"
  proof -
    obtain s' where s': "run_state (kind_of t ?p) s = (fst (probe t ?p), s')" "memo_fits t l s'"
        "map_of (asked s') ?p = Some (fst (probe t ?p))"
      using kind_of_fits [OF fits, of ?p] by (metis prod.collapse)
    obtain parsed missing where pm: "(if fst (probe t ?p) = KFile then parse_manifest t l ?p
        else (None, fst (probe t ?p) = KDir \<or> fst (probe t ?p) = KAbsent)) = (parsed, missing)" by fastforce
    have parsed: "parsed = tree_manifest t l ?p" using pm by (auto simp: tree_manifest_def split: if_splits)
    have none: "missing \<Longrightarrow> tree_manifest t l ?p = None"
      using pm parsed by (auto simp: parse_manifest_def split: if_splits sum.splits option.splits)
    have run: "run_state (read_manifest t l ?p) s = (parsed,
        (let s1 = (if missing then s'\<lparr>kept := map_option (\<lambda>ke. ke\<lparr>kept_missing := List.insert ?p (kept_missing ke)\<rparr>) (kept s')\<rparr> else s');
             s2 = s1\<lparr>manifests := AList.update ?p parsed (manifests s1)\<rparr>
         in s2\<lparr>kept := map_option (keep_manifest ?p parsed) (kept s2)\<rparr>))"
      using pm s'(3) by (auto simp: read_manifest_def is_file_def s'(1) Let_def split: if_splits)
    have "memo_fits t l (snd (run_state (read_manifest t l ?p) s))"
      unfolding run using s'(2) none parsed
      by (auto simp: Let_def memo_fits_def kept_fits_def keep_manifest_def split: option.splits if_splits)
    then show ?thesis using run parsed by simp
  qed
  show ?thesis
    unfolding run using a h m read fits by (auto split: option.splits)
qed

lemma digest_of_fits:
  assumes "memo_fits t l s"
  shows "(\<forall>d. fst (run_state (digest_of t p) s) = Some d \<longrightarrow> has_digest t p d) \<and> memo_fits t l (snd (run_state (digest_of t p) s))"
  using assms by (auto simp: digest_of_def memo_fits_def has_digest_def split: option.splits)

lemma honest_throws:
  assumes "honest_digests t" "has_digest t p d" "has_digest t q d"
  shows "throws t p = throws t q"
proof -
  have "read_utf8 t p = read_utf8 t q" using assms unfolding honest_digests_def by blast
  then show ?thesis by (simp add: throws_def)
qed

lemma window_learns: "window_fits t w \<Longrightarrow> window_fits t (map_prod id (AList.update p (throws t p)) w)"
  by (cases w) (simp add: window_fits_def)

lemma throwing_stub_fits:
  assumes honest: "honest_digests t" and fits: "memo_fits t l s"
  shows "fst (run_state (throwing_stub t p) s) = throws t p \<and> memo_fits t l (snd (run_state (throwing_stub t p) s))"
proof -
  obtain d s' where d: "run_state (digest_of t p) s = (d, s')" by fastforce
  then have f: "memo_fits t l s'" and dp: "\<And>x. d = Some x \<Longrightarrow> has_digest t p x"
    using digest_of_fits [OF fits, of p] by auto
  have same: "throws t q = throws t p" if "d = Some x" "has_digest t q x" for q x
    using honest_throws [OF honest that(2)] dp [OF that(1)] .
  show ?thesis
  proof (cases "Option.bind (kept s') (known_stub p d)")
    case (Some b)
    then obtain ke where ke: "kept s' = Some ke" "known_stub p d ke = Some b" by (auto simp: bind_eq_Some_conv)
    have k: "kept_fits t l ke" using f ke(1) by (simp add: memo_fits_def)
    have "b = throws t p"
    proof (cases "Option.bind (kept_stats ke) (\<lambda>w. map_of (snd w) p)")
      case None
      then obtain x where "d = Some x" "map_of (kept_stubs ke) x = Some b"
        using ke(2) by (auto simp: known_stub_def bind_eq_Some_conv)
      then show ?thesis using k dp unfolding kept_fits_def by blast
    next
      case (Some c)
      then obtain w where w: "kept_stats ke = Some w" "map_of (snd w) p = Some c" "c = b"
        using ke(2) by (auto simp: known_stub_def bind_eq_Some_conv)
      then have "window_fits t w" using k unfolding kept_fits_def by blast
      then show ?thesis using w(2,3) unfolding window_fits_def by blast
    qed
    then show ?thesis using Some f by (simp add: throwing_stub_def d)
  next
    case None
    have "kept_fits t l (learn_stub p d (throws t p) ke)" if "kept_fits t l ke" for ke
      using that same window_learns by (cases d) (auto simp: learn_stub_def kept_fits_def split: if_splits)
    then have "memo_fits t l (s'\<lparr>kept := map_option (learn_stub p d (throws t p)) (kept s')\<rparr>)"
      using f by (auto simp: memo_fits_def)
    then show ?thesis using None by (simp add: throwing_stub_def d)
  qed
qed

interpretation fitting: trusted_memory "\<lambda>s. honest_digests t \<and> memo_fits t l s" t l for t l
proof unfold_locales
  show "settles (\<lambda>s. honest_digests t \<and> memo_fits t l s) (\<lambda>k. k = fst (probe t p)) (kind_of t p)" for p
    using kind_of_fits by (intro settlesI [of _ "fst (probe t p)"]) auto
  show "settles (\<lambda>s. honest_digests t \<and> memo_fits t l s) (\<lambda>_. True) (manifest t l dir)" for dir
    using manifest_fits by (intro settlesI [of _ "tree_manifest t l (beneath dir ''package.json'')"]) auto
  show "settles (\<lambda>s. honest_digests t \<and> memo_fits t l s) (\<lambda>_. True) (throwing_stub t p)" for p
    using throwing_stub_fits by (intro settlesI [of _ "throws t p"]) auto
qed

subsection \<open>The properties\<close>

definition answers_file :: "tree \<Rightarrow> answer \<Rightarrow> bool" where
  "answers_file t a \<longleftrightarrow>
     (\<forall>p. a = Found p \<longrightarrow>
        (\<exists>q. fst (probe t q) = KFile \<and> (p = q \<or> (\<exists>f. real_path t = Some f \<and> f q = Some p))))"

lemma carry_run: "\<exists>g. run_state (carry d p) s = ((), s\<lparr>kept := map_option g (kept s)\<rparr>) \<and> (\<forall>ke. kept_fits t l ke \<longrightarrow> kept_fits t l (g ke))"
proof (cases d)
  case None
  then show ?thesis by (intro exI [of _ id]) (simp add: carry_def option.map_id)
next
  case (Some x)
  then show ?thesis
    by (intro exI [of _ "\<lambda>ke. ke\<lparr>kept_carried := Some (p, x)\<rparr>"]) (auto simp: carry_def kept_fits_def)
qed

lemma carry_fits: "memo_fits t l s \<Longrightarrow> memo_fits t l (snd (run_state (carry d p) s))"
  using carry_run [of d p s t l] by (auto simp: memo_fits_def)

lemma real_answer_fits:
  assumes "memo_fits t l s"
  shows "fst (run_state (real_answer t p) s) =
      Found (case real_path t of None \<Rightarrow> p | Some f \<Rightarrow> (case f p of Some q \<Rightarrow> q | None \<Rightarrow> p)) \<and>
    memo_fits t l (snd (run_state (real_answer t p) s))"
proof -
  obtain d s' where d: "run_state (digest_of t p) s = (d, s')" by fastforce
  then have f: "memo_fits t l s'" using digest_of_fits [OF assms, of p] by simp
  have c: "memo_fits t l (snd (run_state (carry d q) u))" if "memo_fits t l u" for q u
    using carry_fits [OF that] .
  let ?held = "Option.bind (kept s') (\<lambda>ke. map_of (kept_real_paths ke) p)"
  show ?thesis
  proof (cases "real_path t")
    case None
    then show ?thesis using c [OF f, of p] by (simp add: real_answer_def d case_prod_beta)
  next
    case (Some r)
    have held: "?held = Some q \<Longrightarrow> r p = Some q" for q
      using f Some by (fastforce simp: memo_fits_def kept_fits_def bind_eq_Some_conv)
    have keep: "memo_fits t l (s'\<lparr>kept := map_option (\<lambda>ke. ke\<lparr>kept_real_paths := AList.update p q (kept_real_paths ke)\<rparr>) (kept s')\<rparr>)"
      if "r p = Some q" for q
      using f Some that by (auto simp: memo_fits_def kept_fits_def split: if_splits)
    show ?thesis
      using c [OF f] c [OF keep] held Some
      by (auto simp: real_answer_def d case_prod_beta split: option.splits)
  qed
qed

lemma resolving_settles:
  "settles (\<lambda>s. honest_digests t \<and> memo_fits t l s) (answers_file t) (resolving fuel t l spec dir)"
  unfolding resolving_def
proof (rule settles_bind [OF fitting.resolve_cached_settles])
  fix a
  assume a: "is_answer t a"
  show "settles (\<lambda>s. honest_digests t \<and> memo_fits t l s) (answers_file t)
      (case a of Found p \<Rightarrow> real_answer t p | _ \<Rightarrow> State_Monad.return a)"
  proof (cases a)
    case (Found p)
    let ?v = "Found (case real_path t of None \<Rightarrow> p | Some f \<Rightarrow> (case f p of Some q \<Rightarrow> q | None \<Rightarrow> p))"
    have "answers_file t ?v" using a Found by (auto simp: answers_file_def split: option.splits)
    then show ?thesis using Found real_answer_fits by (auto intro!: settlesI [of _ ?v])
  qed (simp_all add: settles_return answers_file_def)
qed

definition process_fits :: "tree \<Rightarrow> lane \<Rightarrow> process_kept option \<Rightarrow> bool" where
  "process_fits t l k \<longleftrightarrow> (case k of Some ke \<Rightarrow> kept_fits t l ke | None \<Rightarrow> True)"

lemma fresh_fits: "process_fits t l k \<Longrightarrow> memo_fits t l (fresh_memo k)"
  by (auto simp: memo_fits_def fresh_memo_def process_fits_def kept_fits_def split: option.splits)

lemma resolve_settles:
  assumes "honest_digests t"
  obtains v where "answers_file t v"
    "\<And>k. process_fits t l k \<Longrightarrow> fst (resolve fuel t l spec dir k) = v \<and> process_fits t l (snd (resolve fuel t l spec dir k))"
proof -
  obtain v where v: "answers_file t v" "\<And>s. honest_digests t \<and> memo_fits t l s \<Longrightarrow>
      fst (run_state (resolving fuel t l spec dir) s) = v \<and> memo_fits t l (snd (run_state (resolving fuel t l spec dir) s))"
    using resolving_settles [of t l fuel spec dir] unfolding settles_def by blast
  show thesis
  proof (rule that [OF v(1)])
    fix k
    assume "process_fits t l k"
    then have r: "fst (run_state (resolving fuel t l spec dir) (fresh_memo k)) = v"
        "memo_fits t l (snd (run_state (resolving fuel t l spec dir) (fresh_memo k)))"
      using v(2) [of "fresh_memo k"] assms fresh_fits by blast+
    then have "process_fits t l (kept (snd (run_state (resolving fuel t l spec dir) (fresh_memo k))))"
      by (auto simp: process_fits_def memo_fits_def split: option.splits)
    with r(1) show "fst (resolve fuel t l spec dir k) = v \<and> process_fits t l (snd (resolve fuel t l spec dir k))"
      by (simp add: resolve_def map_prod_def case_prod_beta)
  qed
qed

text \<open>C36: What a process keeps between its resolutions changes none of its answers: while the tree
  stands, a resolution over anything kept that fits the tree answers what a caller that keeps
  nothing is answered, and leaves what is kept fitting.\<close>

theorem kept_changes_nothing:
  assumes "honest_digests t" "process_fits t l k"
  shows "fst (resolve fuel t l spec dir k) = fst (resolve fuel t l spec dir None) \<and>
    process_fits t l (snd (resolve fuel t l spec dir k))"
proof -
  obtain v where v: "\<And>k. process_fits t l k \<Longrightarrow>
      fst (resolve fuel t l spec dir k) = v \<and> process_fits t l (snd (resolve fuel t l spec dir k))"
    using resolve_settles [OF assms(1)] by metis
  have "process_fits t l None" by (simp add: process_fits_def)
  with v assms(2) show ?thesis by metis
qed

text \<open>C37: Whatever form the specifier has, an answer is a file of the tree, or the real path of one.\<close>

theorem answer_is_file:
  assumes "honest_digests t" "process_fits t l k" "fst (resolve fuel t l spec dir k) = Found p"
  shows "\<exists>q. fst (probe t q) = KFile \<and> (p = q \<or> (\<exists>f. real_path t = Some f \<and> f q = Some p))"
proof -
  obtain v where "answers_file t v" "fst (resolve fuel t l spec dir k) = v"
    using resolve_settles [OF assms(1)] assms(2) by metis
  then show ?thesis using assms(3) by (simp add: answers_file_def)
qed

subsection \<open>On concrete trees\<close>

definition plain_lane :: lane where
  "plain_lane =
     \<lparr>parse_json = (\<lambda>_. None), exports_resolve = (\<lambda>_ _ _. None), imports_resolve = (\<lambda>_ _ _. None),
      condition_sets = [], condition_sets_for = (\<lambda>_. None), extensions = [''.js''], main_fields = [''main''],
      global_roots = [], workspace_members = [], source_extensions = None,
      skip_throwing_cjs = False, throw_not_exported = True\<rparr>"

definition one_file :: "string \<Rightarrow> tree" where
  "one_file path =
     \<lparr>kind_sync = (\<lambda>p. Some (if p = path then KFile else KAbsent)), stat_sync = (\<lambda>_. StatAbsent),
      content_digest = (\<lambda>_. None), read_utf8 = (\<lambda>_. Inr []), real_path = None\<rparr>"

definition nothing_kept :: process_kept where
  "nothing_kept =
     \<lparr>kept_manifests = [], kept_missing = [], kept_real_paths = [], kept_stats = Some ([], []), kept_carried = None,
      kept_stubs = []\<rparr>"

lemma one_file_honest: "honest_digests (one_file p)"
  by (simp add: honest_digests_def has_digest_def one_file_def probe_def)

lemma nothing_fits: "process_fits t l (Some nothing_kept)"
  by (simp add: process_fits_def kept_fits_def nothing_kept_def window_fits_def)

lemma beside: "fst (resolve 1 (one_file ''/app/a.js'') plain_lane ''./a'' ''/app'' None) = Found ''/app/a.js''"
  by code_simp

theorem kept_changes_nothing_witness:
  "fst (resolve 1 (one_file ''/app/a.js'') plain_lane ''./a'' ''/app'' (Some nothing_kept)) = Found ''/app/a.js''"
  using kept_changes_nothing [OF one_file_honest nothing_fits, of 1 "''/app/a.js''" plain_lane "''./a''" "''/app''"] beside by simp

theorem answer_is_file_witness:
  "\<exists>q. fst (probe (one_file ''/app/a.js'') q) = KFile \<and>
     (''/app/a.js'' = q \<or> (\<exists>f. real_path (one_file ''/app/a.js'') = Some f \<and> f q = Some ''/app/a.js''))"
proof (rule answer_is_file [OF one_file_honest _ beside])
  show "process_fits (one_file ''/app/a.js'') plain_lane None" by (simp add: process_fits_def)
qed

text \<open>An imports map that names itself is followed without end, whatever the stack holds.\<close>

definition self_import :: package where
  "self_import =
     \<lparr>pkg_name = None, pkg_fields = [], has_exports = False, has_imports = True, is_object = True, pkg_text = []\<rparr>"

definition importing_lane :: lane where
  "importing_lane = plain_lane\<lparr>parse_json := (\<lambda>_. Some (Some self_import)),
     imports_resolve := (\<lambda>_ name _. Some [name]), condition_sets := [[''node'']]\<rparr>"

lemma importing:
  "has_imports self_import" "imports_resolve importing_lane pkg name c = Some [name]"
  "condition_sets importing_lane = [[''node'']]"
  by (simp_all add: self_import_def importing_lane_def)

lemma import_itself_endless: "fst (resolve fuel (one_file ''/p/package.json'') importing_lane ''#a'' ''/p'' None) = Endless"
proof -
  let ?t = "one_file ''/p/package.json''"
  have "tree_manifest ?t importing_lane (beneath ''/p'' ''package.json'') = Some self_import"
    by (simp add: tree_manifest_def beneath_def probe_def one_file_def parse_manifest_def importing_lane_def)
  then have near: "fst (run_state (nearest_manifest ?t importing_lane ''/p'') s) = Some (''/p'', self_import) \<and>
      memo_fits ?t importing_lane (snd (run_state (nearest_manifest ?t importing_lane ''/p'') s))"
    if "memo_fits ?t importing_lane s" for s
    using manifest_fits [OF that, of "''/p''"]
    by (subst (1 2) nearest_manifest.simps) (auto simp: has_suffix_def case_prod_beta)
  have "fst (run_state (resolve_cached n ?t importing_lane ''#a'' ''/p'') s) = Endless"
    if "memo_fits ?t importing_lane s" for n s
    using that
  proof (induction n arbitrary: s)
    case (Suc n)
    obtain s' where "run_state (nearest_manifest ?t importing_lane ''/p'') s = (Some (''/p'', self_import), s')"
        and fits: "memo_fits ?t importing_lane s'"
      using near [OF Suc.prems] by (metis prod.collapse)
    moreover obtain r where "run_state (resolve_cached n ?t importing_lane ''#a'' ''/p'') s' = (Endless, r)"
      using Suc.IH [OF fits] by (metis prod.collapse)
    ultimately show ?case
      by (simp add: load_package_imports_def import_target_def or_else_def case_prod_beta importing)
  qed simp
  then have "fst (run_state (resolve_cached fuel ?t importing_lane ''#a'' ''/p'') (fresh_memo None)) = Endless"
    using fresh_fits [of ?t importing_lane None] by (simp add: process_fits_def)
  then show ?thesis
    by (simp add: resolve_def resolving_def case_prod_beta map_prod_def)
qed

end
