(* ===== verification/NodePath.thy ===== *)
theory NodePath
  imports Paths
begin

text \<open>
  \<open>src/src/node-lib/path.js\<close>, the POSIX flavour as far as the engine's own code calls it:
  \<open>normalizeString\<close>, \<open>normalize\<close>, \<open>isAbsolute\<close>, \<open>join\<close>, \<open>resolve\<close> and \<open>dirname\<close>.
  \<open>normalizeString\<close> is one pass over the characters with the result so far, the length of
  its last segment, the place of the last separator and the run of dots; the arguments are
  strings, which \<open>validateString\<close> lets through, and \<open>cwd\<close> is an argument of \<open>resolve\<close>.
\<close>

record scan =
  res :: string
  seg_len :: int
  last_sep :: int
  dots :: int

definition ends_dotdot :: "scan \<Rightarrow> bool" where
  "ends_dotdot st \<longleftrightarrow>
     2 \<le> length (res st) \<and> seg_len st = 2 \<and>
     res st ! (length (res st) - 1) = CHR ''.'' \<and> res st ! (length (res st) - 2) = CHR ''.''"

definition pop_segment :: "scan \<Rightarrow> scan" where
  "pop_segment st =
     (let k = int (length (res st)) - seg_len st - 1
      in if k = -1 then st\<lparr>res := [], seg_len := 0\<rparr>
         else (let r = take (nat k) (res st)
               in st\<lparr>res := r, seg_len := int (length r) - 1 - last_index_of slash r\<rparr>))"

text \<open>A separator at \<open>i\<close>: what is done with the segment before it.\<close>

definition close_segment :: "bool \<Rightarrow> string \<Rightarrow> int \<Rightarrow> scan \<Rightarrow> scan" where
  "close_segment allow path i st =
     (let seg = take (nat (i - last_sep st - 1)) (drop (nat (last_sep st + 1)) path);
          st' = (if last_sep st = i - 1 \<or> dots st = 1 then st
                 else if dots st = 2 then
                   (if \<not> ends_dotdot st \<and> 2 < length (res st) then pop_segment st
                    else if \<not> ends_dotdot st \<and> res st \<noteq> [] then st\<lparr>res := [], seg_len := 0\<rparr>
                    else if allow then st\<lparr>res := (if res st \<noteq> [] then res st @ ''/..'' else ''..''), seg_len := 2\<rparr>
                    else st)
                 else st\<lparr>res := (if res st \<noteq> [] then res st @ ''/'' @ seg else seg), seg_len := i - last_sep st - 1\<rparr>)
      in st'\<lparr>last_sep := i, dots := 0\<rparr>)"

definition step_char :: "bool \<Rightarrow> string \<Rightarrow> int \<Rightarrow> char \<Rightarrow> scan \<Rightarrow> scan" where
  "step_char allow path i c st =
     (if c = slash then close_segment allow path i st
      else if c = CHR ''.'' \<and> dots st \<noteq> -1 then st\<lparr>dots := dots st + 1\<rparr>
      else st\<lparr>dots := -1\<rparr>)"

fun scan_chars :: "bool \<Rightarrow> string \<Rightarrow> int \<Rightarrow> string \<Rightarrow> scan \<Rightarrow> scan" where
  "scan_chars allow path i [] st = st"
| "scan_chars allow path i (c # cs) st = scan_chars allow path (i + 1) cs (step_char allow path i c st)"

definition start_scan :: scan where
  "start_scan = \<lparr>res = [], seg_len = 0, last_sep = -1, dots = 0\<rparr>"

text \<open>After the last character a separator is supposed, where it is not one.\<close>

definition normalize_string :: "string \<Rightarrow> bool \<Rightarrow> string" where
  "normalize_string path allow =
     (let st = scan_chars allow path 0 path start_scan
      in if path \<noteq> [] \<and> last path = slash then res st
         else res (close_segment allow path (int (length path)) st))"

definition is_absolute :: "string \<Rightarrow> bool" where
  "is_absolute path \<longleftrightarrow> path \<noteq> [] \<and> hd path = slash"

definition posix_normalize :: "string \<Rightarrow> string" where
  "posix_normalize path =
     (if path = [] then ''.''
      else let absolute = (hd path = slash); trailing = (last path = slash); p = normalize_string path (\<not> absolute)
           in if p = [] then (if absolute then ''/'' else if trailing then ''./'' else ''.'')
              else (if absolute then ''/'' else []) @ p @ (if trailing then ''/'' else []))"

definition posix_join :: "string list \<Rightarrow> string" where
  "posix_join args =
     (let ps = filter (\<lambda>a. a \<noteq> []) args in if ps = [] then ''.'' else posix_normalize (join_with ''/'' ps))"

text \<open>The arguments from the last on, until one is absolute.\<close>

fun resolve_from :: "string list \<Rightarrow> string \<Rightarrow> bool \<Rightarrow> string \<times> bool" where
  "resolve_from [] acc absolute = (acc, absolute)"
| "resolve_from (p # ps) acc absolute =
     (if absolute then (acc, absolute)
      else if p = [] then resolve_from ps acc absolute
      else resolve_from ps (p @ ''/'' @ acc) (hd p = slash))"

definition posix_resolve :: "string \<Rightarrow> string list \<Rightarrow> string" where
  "posix_resolve cwd args =
     (if (args = [] \<or> args = [[]] \<or> args = [''.'']) \<and> is_absolute cwd then cwd
      else let (p, absolute) = resolve_from (rev args) [] False;
               (p, absolute) = (if absolute then (p, absolute) else (cwd @ ''/'' @ p, is_absolute cwd));
               p = normalize_string p (\<not> absolute)
           in if absolute then ''/'' @ p else if p \<noteq> [] then p else ''.'')"

text \<open>The place \<open>dirname\<close> cuts at: the last separator before a character that is not one.\<close>

fun dirname_end :: "string \<Rightarrow> nat \<Rightarrow> bool \<Rightarrow> int" where
  "dirname_end path 0 matched = -1"
| "dirname_end path (Suc i) matched =
     (if path ! Suc i = slash
      then (if \<not> matched then int (Suc i) else dirname_end path i matched)
      else dirname_end path i False)"

definition posix_dirname :: "string \<Rightarrow> string" where
  "posix_dirname path =
     (if path = [] then ''.''
      else let rooted = (hd path = slash); stop = dirname_end path (length path - 1) True
           in if stop = -1 then (if rooted then ''/'' else ''.'')
              else if rooted \<and> stop = 1 then ''//''
              else take (nat stop) path)"

subsection \<open>A segment at a time\<close>

fun dots_after :: "int \<Rightarrow> string \<Rightarrow> int" where
  "dots_after d [] = d"
| "dots_after d (c # cs) = dots_after (if c = CHR ''.'' \<and> d \<noteq> -1 then d + 1 else -1) cs"

lemma dots_after_gone: "dots_after (-1) p = -1"
  by (induction p) simp_all

lemma dots_after_eq: "0 \<le> d \<Longrightarrow> dots_after d p = (if set p \<subseteq> {CHR ''.''} then d + int (length p) else -1)"
  by (induction p arbitrary: d) (auto simp: dots_after_gone)

lemma dots_after_two: "dots_after 0 p = 2 \<longleftrightarrow> p = ''..''" and dots_after_one: "dots_after 0 p = 1 \<longleftrightarrow> p = ''.''"
proof -
  have "set p \<subseteq> {CHR ''.''} \<Longrightarrow> p = replicate (length p) (CHR ''.'')"
    by (induction p) auto
  moreover have "length p = 2 \<Longrightarrow> replicate (length p) (CHR ''.'') = ''..''" "length p = 1 \<Longrightarrow> replicate (length p) (CHR ''.'') = ''.''"
    by (simp_all add: numeral_2_eq_2)
  ultimately show "dots_after 0 p = 2 \<longleftrightarrow> p = ''..''" "dots_after 0 p = 1 \<longleftrightarrow> p = ''.''"
    by (auto simp: dots_after_eq split: if_splits)
qed

lemma scan_append: "scan_chars allow path i (p @ q) st = scan_chars allow path (i + int (length p)) q (scan_chars allow path i p st)"
  by (induction p arbitrary: i st) (simp_all add: algebra_simps)

lemma scan_segment: "slash \<notin> set p \<Longrightarrow> scan_chars allow path i p st = st\<lparr>dots := dots_after (dots st) p\<rparr>"
  by (induction p arbitrary: i st) (auto simp: step_char_def dots_after_gone)

definition at_segments :: "string list \<Rightarrow> int \<Rightarrow> scan" where
  "at_segments segs i =
     \<lparr>res = join_with ''/'' segs, seg_len = (if segs = [] then 0 else int (length (last segs))), last_sep = i, dots = 0\<rparr>"

lemma join_snoc: "join_with ''/'' (segs @ [s]) = (if segs = [] then s else join_with ''/'' segs @ ''/'' @ s)"
  using join_with_snoc [of segs "''/''" s] by simp

lemma join_empty: "\<forall>s \<in> set segs. s \<noteq> [] \<Longrightarrow> join_with ''/'' segs = [] \<longleftrightarrow> segs = []"
  by (cases segs rule: rev_cases) (auto simp: join_snoc)

lemma last_slash_join:
  assumes "\<forall>s \<in> set segs. slash \<notin> set s" "segs \<noteq> []"
  shows "int (length (join_with ''/'' segs)) - 1 - last_index_of slash (join_with ''/'' segs) = int (length (last segs))"
proof (cases segs rule: rev_cases)
  case (snoc bs s)
  then have s: "slash \<notin> set s" using assms(1) by simp
  show ?thesis
  proof (cases "bs = []")
    case True
    then show ?thesis using snoc s by (simp add: last_index_of_none)
  next
    case False
    then have "join_with ''/'' segs = join_with ''/'' bs @ slash # s" using snoc by (simp add: join_snoc)
    then show ?thesis using last_index_of_append [OF s, of "join_with ''/'' bs"] snoc by simp
  qed
qed (use assms(2) in simp)

lemma not_dotdot:
  assumes "\<forall>s \<in> set segs. clean_name s"
  shows "\<not> ends_dotdot (at_segments segs i)"
proof
  assume e: "ends_dotdot (at_segments segs i)"
  show False
  proof (cases segs rule: rev_cases)
    case Nil
    then show False using e by (simp add: ends_dotdot_def at_segments_def)
  next
    case (snoc bs s)
    then obtain a b where s: "s = [a, b]"
      using e by (auto simp: ends_dotdot_def at_segments_def numeral_2_eq_2 length_Suc_conv)
    let ?r = "join_with ''/'' segs"
    have r: "?r = (if bs = [] then [] else join_with ''/'' bs @ ''/'') @ [a, b]" using snoc s by (simp add: join_snoc)
    have "(q @ [a, b]) ! (length (q @ [a, b]) - 1) = b" "(q @ [a, b]) ! (length (q @ [a, b]) - 2) = a" for q
      by (simp_all add: nth_append)
    then have "?r ! (length ?r - 1) = b" "?r ! (length ?r - 2) = a" unfolding r by blast+
    then have "s = ''..''" using e s by (simp add: ends_dotdot_def at_segments_def)
    then show False using assms snoc by (simp add: clean_name_def)
  qed
qed

lemma pop_at:
  assumes clean: "\<forall>s \<in> set segs. clean_name s" and ne: "segs \<noteq> []"
  shows "pop_segment (at_segments segs i) = at_segments (butlast segs) i"
proof -
  obtain bs s where snoc: "segs = bs @ [s]" using ne by (metis append_butlast_last_id)
  show ?thesis
  proof (cases "bs = []")
    case True
    then show ?thesis using snoc by (simp add: pop_segment_def at_segments_def)
  next
    case False
    have j: "join_with ''/'' segs = join_with ''/'' bs @ slash # s" using snoc False by (simp add: join_snoc)
    have "join_with ''/'' bs \<noteq> []" using clean snoc False join_empty [of bs] by (auto simp: clean_name_def)
    moreover have "int (length (join_with ''/'' bs)) - 1 - last_index_of slash (join_with ''/'' bs) = int (length (last bs))"
      using clean snoc False by (intro last_slash_join) (auto simp: clean_name_def)
    ultimately show ?thesis
      using snoc False j by (simp add: pop_segment_def at_segments_def)
  qed
qed

lemma short_one:
  assumes clean: "\<forall>s \<in> set segs. clean_name s" and short: "length (join_with ''/'' segs) \<le> 2"
  shows "butlast segs = []"
proof (cases segs rule: rev_cases)
  case (snoc bs s)
  show ?thesis
  proof (cases "bs = []")
    case False
    have "join_with ''/'' bs \<noteq> []" using clean snoc False join_empty [of bs] by (auto simp: clean_name_def)
    moreover have "s \<noteq> []" using clean snoc by (simp add: clean_name_def)
    ultimately have "2 < length (join_with ''/'' segs)"
      using snoc False by (cases "join_with ''/'' bs"; cases s) (auto simp: join_snoc)
    then show ?thesis using short by simp
  qed (use snoc in simp)
qed simp

lemma close_at:
  assumes clean: "\<forall>s \<in> set segs. clean_name s" and p: "slash \<notin> set p"
    and i: "i = ls + 1 + int (length p)" and seg: "take (length p) (drop (nat (ls + 1)) path) = p"
  shows "close_segment False path i ((at_segments segs ls)\<lparr>dots := dots_after 0 p\<rparr>) =
    at_segments (resolve_parts segs (filter (\<lambda>q. q \<noteq> []) [p])) i"
proof -
  let ?st = "(at_segments segs ls)\<lparr>dots := dots_after 0 p\<rparr>"
  have fields: "last_sep ?st = ls" "dots ?st = dots_after 0 p" "res ?st = join_with ''/'' segs"
    by (simp_all add: at_segments_def)
  consider "p = []" | "p = ''.''" | "p = ''..''" | "p \<noteq> []" "p \<noteq> ''.''" "p \<noteq> ''..''" by blast
  then show ?thesis
  proof cases
    case 1
    then show ?thesis using i by (simp add: close_segment_def at_segments_def Let_def)
  next
    case 2
    then show ?thesis using i by (simp add: close_segment_def at_segments_def Let_def)
  next
    case 3
    have nd: "\<not> ends_dotdot ?st" using not_dotdot [OF clean, of ls] by (simp add: ends_dotdot_def)
    have d: "dots ?st = 2" "last_sep ?st \<noteq> i - 1" using 3 i by (simp_all add: at_segments_def)
    show ?thesis
    proof (cases "segs = []")
      case True
      then show ?thesis using 3 i nd by (simp add: close_segment_def at_segments_def Let_def)
    next
      case False
      then have ne: "join_with ''/'' segs \<noteq> []" using clean join_empty [of segs] by (auto simp: clean_name_def)
      have pop: "pop_segment ?st = (at_segments (butlast segs) ls)\<lparr>dots := 2\<rparr>"
        using pop_at [OF clean False, of ls] 3 by (simp add: pop_segment_def at_segments_def Let_def split: if_splits)
      have "2 < length (res ?st) \<or> butlast segs = []" using short_one [OF clean] fields(3) by force
      then show ?thesis
        using 3 i nd d pop ne by (auto simp: close_segment_def Let_def) (auto simp: at_segments_def)
    qed
  next
    case 4
    have "dots_after 0 p \<noteq> 1" "dots_after 0 p \<noteq> 2" using 4 dots_after_one dots_after_two by auto
    moreover have "join_with ''/'' segs \<noteq> [] \<longleftrightarrow> segs \<noteq> []" using clean join_empty [of segs] by (auto simp: clean_name_def)
    moreover have "nat (i - ls - 1) = length p" "ls \<noteq> i - 1" using i 4 by simp_all
    ultimately show ?thesis
      using 4 seg i by (simp add: close_segment_def at_segments_def Let_def join_snoc)
  qed
qed

lemma resolve_parts_append: "resolve_parts segs (ps @ qs) = resolve_parts (resolve_parts segs ps) qs"
  by (induction ps arbitrary: segs) simp_all

lemma resolve_one_clean: "\<forall>s \<in> set segs. clean_name s \<Longrightarrow> slash \<notin> set p \<Longrightarrow> \<forall>s \<in> set (resolve_parts segs (filter (\<lambda>q. q \<noteq> []) [p])). clean_name s"
  by (auto simp: clean_name_def dest: in_set_butlastD)

text \<open>The scan over the segments a string splits into: all but the last are closed.\<close>

lemma scan_split:
  assumes "path = pre @ rest" "\<forall>s \<in> set segs. clean_name s"
  shows "scan_chars False path (int (length pre)) rest (at_segments segs (int (length pre) - 1)) =
    (at_segments (resolve_parts segs (filter (\<lambda>q. q \<noteq> []) (butlast (split_on slash rest))))
       (int (length path) - int (length (last (split_on slash rest))) - 1))
    \<lparr>dots := dots_after 0 (last (split_on slash rest))\<rparr> \<and>
    (\<forall>s \<in> set (resolve_parts segs (filter (\<lambda>q. q \<noteq> []) (butlast (split_on slash rest)))). clean_name s)"
  using assms
proof (induction "length rest" arbitrary: pre rest segs rule: less_induct)
  case less
  show ?case
  proof (cases "slash \<in> set rest")
    case False
    then show ?thesis
      using less.prems by (simp add: split_on_no_sep scan_segment at_segments_def)
  next
    case True
    then obtain p q where r: "rest = p @ slash # q" "slash \<notin> set p" using split_list_first by metis
    let ?segs = "resolve_parts segs (filter (\<lambda>q. q \<noteq> []) [p])"
    let ?i = "int (length pre) + int (length p)"
    have path: "path = pre @ p @ slash # q" using less.prems(1) r(1) by simp
    have close: "close_segment False path ?i ((at_segments segs (int (length pre) - 1))\<lparr>dots := dots_after 0 p\<rparr>) = at_segments ?segs ?i"
      using less.prems(2) r(2) by (intro close_at) (simp_all add: path)
    have "scan_chars False path (int (length pre)) rest (at_segments segs (int (length pre) - 1)) =
        scan_chars False path (?i + 1) q (at_segments ?segs ?i)"
      using close r by (simp add: scan_append scan_segment step_char_def at_segments_def [of segs])
    also have "\<dots> = scan_chars False path (int (length (pre @ p @ ''/''))) q (at_segments ?segs (int (length (pre @ p @ ''/'')) - 1))"
      by (simp add: algebra_simps)
    finally have step: "scan_chars False path (int (length pre)) rest (at_segments segs (int (length pre) - 1)) = \<dots>" .
    have clean: "\<forall>s \<in> set ?segs. clean_name s" using resolve_one_clean [OF less.prems(2) r(2)] .
    have split: "split_on slash rest = p # split_on slash q" using r by (simp add: split_on_append_sep)
    have "length q < length rest" using r(1) by simp
    from less.hyps [OF this _ clean, of "pre @ p @ ''/''"] show ?thesis
      unfolding step split using path
      by (simp add: resolve_parts_append [symmetric])
  qed
qed

lemma last_split: "last (split_on c s) = [] \<longleftrightarrow> s = [] \<or> last s = c"
proof (induction s)
  case (Cons x s)
  show ?case
  proof (cases "x = c")
    case True
    then show ?thesis using Cons by simp
  next
    case False
    have "split_on c s = [[]] \<Longrightarrow> s = []" using join_split [of c s] by simp
    then show ?thesis using Cons False by (cases "split_on c s") auto
  qed
qed simp

lemma normalize_string_resolves:
  "normalize_string path False = join_with ''/'' (resolve_parts [] (nonempty_parts path))"
proof -
  let ?parts = "split_on slash path"
  let ?segs = "resolve_parts [] (filter (\<lambda>q. q \<noteq> []) (butlast ?parts))"
  let ?ls = "int (length path) - int (length (last ?parts)) - 1"
  have start: "start_scan = at_segments [] (-1)" by (simp add: start_scan_def at_segments_def)
  have s: "scan_chars False path 0 path start_scan = (at_segments ?segs ?ls)\<lparr>dots := dots_after 0 (last ?parts)\<rparr>"
    and clean: "\<forall>s \<in> set ?segs. clean_name s"
    using scan_split [of path "[]" path "[]"] by (simp_all add: start)
  have all: "resolve_parts [] (nonempty_parts path) = resolve_parts ?segs (filter (\<lambda>q. q \<noteq> []) [last ?parts])"
  proof -
    have "?parts = butlast ?parts @ [last ?parts]" by simp
    then have "nonempty_parts path = filter (\<lambda>q. q \<noteq> []) (butlast ?parts) @ filter (\<lambda>q. q \<noteq> []) [last ?parts]"
      unfolding nonempty_parts_def by (metis filter_append)
    then show ?thesis by (simp only: resolve_parts_append)
  qed
  show ?thesis
  proof (cases "path \<noteq> [] \<and> last path = slash")
    case True
    then have "last ?parts = []" by (simp add: last_split)
    then show ?thesis using True s all by (simp add: normalize_string_def at_segments_def)
  next
    case False
    have p: "slash \<notin> set (last ?parts)" using in_split_on_no_sep [OF last_in_set, of slash path] by simp
    obtain front where front: "path = front @ last ?parts"
      using join_split [of slash path] join_with_snoc [of "butlast ?parts" "''/''" "last ?parts"]
      by (metis append_butlast_last_id append_Nil append.assoc join_with.simps(2) split_on_not_Nil)
    have close: "close_segment False path (int (length path)) ((at_segments ?segs ?ls)\<lparr>dots := dots_after 0 (last ?parts)\<rparr>) =
        at_segments (resolve_parts ?segs (filter (\<lambda>q. q \<noteq> []) [last ?parts])) (int (length path))"
    proof (rule close_at [OF clean p])
      have "length path = length front + length (last ?parts)" using front by (metis length_append)
      then have "nat (?ls + 1) = length front" by simp
      then show "take (length (last ?parts)) (drop (nat (?ls + 1)) path) = last ?parts"
        using arg_cong [OF front, of "drop (length front)"] by simp
    qed simp
    have "normalize_string path False = res (at_segments (resolve_parts ?segs (filter (\<lambda>q. q \<noteq> []) [last ?parts])) (int (length path)))"
      unfolding normalize_string_def s Let_def close using False by (simp only: if_False)
    then show ?thesis unfolding all by (simp add: at_segments_def)
  qed
qed

text \<open>C38: The one pass over an absolute path's characters that Node's \<open>normalize\<close> makes is the
  resolution of its segments, with a trailing separator kept: what the file system's own
  \<open>normalizePath\<close> answers, but for that separator.\<close>

theorem normalize_is_resolution:
  "posix_normalize (slash # p) =
     normalize_path (slash # p) @
     (if last (slash # p) = slash \<and> normalize_path (slash # p) \<noteq> ''/'' then ''/'' else [])"
proof -
  let ?n = "normalize_string (slash # p) False"
  have n: "normalize_path (slash # p) = slash # ?n"
    by (simp add: normalize_path_def normalize_string_resolves)
  show ?thesis unfolding n by (auto simp: posix_normalize_def Let_def)
qed

end
