(* ===== verification/Tarball.thy ===== *)
theory Tarball
  imports VfsOps NodePath Strings
begin

unbundle bit_operations_syntax

text \<open>
  \<open>src/src/npm/tarball.ts\<close>: reading a tar archive (\<open>parseTar\<close>, \<open>parseString\<close>,
  \<open>parseOctal\<close>) and writing a package's entries into the virtual file system
  (\<open>extractTarball\<close>), and the pool that works over a list of packages.  The generator's
  entries are the list it yields.  \<open>TextDecoder\<close> is the argument \<open>decode\<close>, \<open>pako.inflate\<close>
  the argument \<open>inflate\<close> (\<open>None\<close> where it throws); the progress messages and the download
  are left out.
\<close>

datatype entry_type = FileEntry | DirectoryEntry | SymlinkEntry | UnknownEntry

record tar_entry =
  entry_name :: string
  entry_type :: entry_type
  entry_size :: int
  entry_mode :: int
  entry_content :: "bytes option"
  link_target :: "string option"

subsection \<open>Header fields\<close>

text \<open>\<open>slice(start, end)\<close> of an array of \<open>n\<close> elements: a negative end counts from the array's end.\<close>

definition slice_from :: "bytes \<Rightarrow> nat \<Rightarrow> int \<Rightarrow> bytes" where
  "slice_from data start stop =
     (let stop = (if stop < 0 then nat (int (length data) + stop) else nat stop)
      in take (stop - start) (drop start data))"

definition parse_string :: "(bytes \<Rightarrow> string) \<Rightarrow> bytes \<Rightarrow> nat \<Rightarrow> nat \<Rightarrow> string" where
  "parse_string decode data pos len = decode (takeWhile (\<lambda>b. b \<noteq> 0) (take len (drop pos data)))"

definition octal_digit :: "char \<Rightarrow> bool" where
  "octal_digit c \<longleftrightarrow> c \<in> set ''01234567''"

definition octal_value :: "string \<Rightarrow> nat" where
  "octal_value s = foldl (\<lambda>n c. 8 * n + digit_value c) 0 s"

text \<open>\<open>parseInt(str, 8) || 0\<close> of a trimmed string.\<close>

definition parse_octal :: "(bytes \<Rightarrow> string) \<Rightarrow> bytes \<Rightarrow> nat \<Rightarrow> nat \<Rightarrow> int" where
  "parse_octal decode data pos len =
     (let s = trim (parse_string decode data pos len);
          neg = (s \<noteq> [] \<and> hd s = CHR ''-'');
          s = (if s \<noteq> [] \<and> (hd s = CHR ''-'' \<or> hd s = CHR ''+'') then tl s else s);
          n = int (octal_value (takeWhile octal_digit s))
      in if neg then - n else n)"

definition type_of_flag :: "byte \<Rightarrow> entry_type" where
  "type_of_flag b =
     (if b = 48 \<or> b = 0 then FileEntry else if b = 53 then DirectoryEntry
      else if b = 49 \<or> b = 50 then SymlinkEntry else UnknownEntry)"

definition payload_length :: "int \<Rightarrow> nat" where
  "payload_length sz = (if 0 < sz then nat ((sz + 511) div 512) * 512 else 0)"

subsection \<open>Names an extended header gives\<close>

definition strip_zeros :: "string \<Rightarrow> string" where
  "strip_zeros s = rev (dropWhile (\<lambda>c. c = CHR 0x00) (rev s))"

text \<open>\<open>/^\d+ path=(.*)$/\<close> of one line.\<close>

definition pax_path :: "string \<Rightarrow> string option" where
  "pax_path line =
     (let r = dropWhile is_digit line; v = drop 6 r
      in if line \<noteq> [] \<and> is_digit (hd line) \<and> prefix '' path='' r \<and> CHR 0x0D \<notin> set v then Some v else None)"

fun last_some :: "'a option \<Rightarrow> 'a option list \<Rightarrow> 'a option" where
  "last_some a [] = a"
| "last_some a (x # xs) = last_some (case x of Some y \<Rightarrow> Some y | None \<Rightarrow> a) xs"

definition given_name :: "byte \<Rightarrow> string \<Rightarrow> string option" where
  "given_name flag txt =
     (if flag = 76 then Some (strip_zeros txt)
      else last_some None (map pax_path (split_on (CHR 0x0A) txt)))"

subsection \<open>The archive\<close>

definition entry_of :: "(bytes \<Rightarrow> string) \<Rightarrow> bytes \<Rightarrow> nat \<Rightarrow> bytes \<Rightarrow> string \<Rightarrow> tar_entry" where
  "entry_of decode data pos header name =
     (let sz = parse_octal decode header 124 12; ty = type_of_flag (header ! 156)
      in \<lparr>entry_name = name, entry_type = ty, entry_size = sz, entry_mode = parse_octal decode header 100 8,
          entry_content =
            (if ty = FileEntry
             then Some (if 0 < sz then slice_from data pos (int pos + sz) else []) else None),
          link_target = (if ty = SymlinkEntry then Some (parse_string decode header 157 100) else None)\<rparr>)"

definition full_name :: "(bytes \<Rightarrow> string) \<Rightarrow> bytes \<Rightarrow> string option \<Rightarrow> string" where
  "full_name decode header next_name =
     (let name = parse_string decode header 0 100; pre = parse_string decode header 345 155
      in case next_name of Some n \<Rightarrow> n | None \<Rightarrow> if pre \<noteq> [] then pre @ ''/'' @ name else name)"

function parse_from :: "(bytes \<Rightarrow> string) \<Rightarrow> bytes \<Rightarrow> nat \<Rightarrow> string option \<Rightarrow> tar_entry list" where
  "parse_from decode data pos next_name =
     (if length data \<le> pos + 512 then []
      else let header = take 512 (drop pos data); pos' = pos + 512;
               sz = parse_octal decode header 124 12; flag = header ! 156
           in if list_all (\<lambda>b. b = 0) header then []
              else if parse_string decode header 0 100 = [] then parse_from decode data pos' next_name
              else if flag = 120 \<or> flag = 76
              then parse_from decode data (pos' + payload_length sz)
                     (given_name flag (decode (slice_from data pos' (int pos' + sz))))
              else entry_of decode data pos' header (full_name decode header next_name) #
                   parse_from decode data (pos' + payload_length sz) None)"
  by pat_completeness auto
termination by (relation "measure (\<lambda>(decode, data, pos, next_name). length data - pos)") auto

declare parse_from.simps [simp del]

definition parse_tar :: "(bytes \<Rightarrow> string) \<Rightarrow> bytes \<Rightarrow> tar_entry list" where
  "parse_tar decode data = parse_from decode data 0 None"

subsection \<open>Extraction\<close>

record extract_options =
  strip_components :: nat
  name_filter :: "(string \<Rightarrow> bool) option"

definition default_options :: extract_options where
  "default_options = \<lparr>strip_components = 1, name_filter = None\<rparr>"

text \<open>An entry's path under the destination, \<open>None\<close> for one that is passed over.\<close>

definition entry_path :: "extract_options \<Rightarrow> tar_entry \<Rightarrow> string option" where
  "entry_path opts e =
     (if entry_type e \<noteq> FileEntry \<and> entry_type e \<noteq> DirectoryEntry then None
      else let parts = nonempty_parts (entry_name e); n = strip_components opts
           in if 0 < n \<and> length parts \<le> n then None
              else let p = (if 0 < n then join_with ''/'' (drop n parts) else entry_name e)
                   in case name_filter opts of Some f \<Rightarrow> if f p then Some p else None | None \<Rightarrow> Some p)"

text \<open>The archive's bits, at least readable or traversable, under a umask of 022; \<open>chmodSync\<close> keeps twelve.\<close>

definition masked_mode :: "int \<Rightarrow> int \<Rightarrow> nat" where
  "masked_mode m least = nat (((m OR least) AND NOT 18) AND 4095)"

definition write_entry :: "string \<Rightarrow> string \<Rightarrow> bytes \<Rightarrow> int \<Rightarrow> fs \<Rightarrow> unit outcome" where
  "write_entry dest p bs m fs =
     (let full = posix_join [dest, p]
      in and_then (mkdir_sync (posix_dirname full) True fs) (\<lambda>_ fs.
         let (v, st) = new_u8 bs (arrays fs)
         in and_then (write_file_sync full (Array v) (fs\<lparr>arrays := st\<rparr>)) (\<lambda>_ fs.
            chmod_sync full (masked_mode m 438) fs)))"

definition make_directory :: "string \<Rightarrow> string \<Rightarrow> int \<Rightarrow> fs \<Rightarrow> unit outcome" where
  "make_directory dest p m fs =
     (let full = posix_join [dest, p]
      in and_then (mkdir_sync full True fs) (\<lambda>_ fs. chmod_sync full (masked_mode m 511) fs))"

fun extract_entries :: "string \<Rightarrow> extract_options \<Rightarrow> tar_entry list \<Rightarrow> string list \<Rightarrow> fs \<Rightarrow> string list outcome" where
  "extract_entries dest opts [] done_files fs = (Inr done_files, fs)"
| "extract_entries dest opts (e # es) done_files fs =
     (case entry_path opts e of
        None \<Rightarrow> extract_entries dest opts es done_files fs
      | Some p \<Rightarrow>
          (case (entry_type e, entry_content e) of
             (DirectoryEntry, _) \<Rightarrow>
               and_then (make_directory dest p (entry_mode e) fs) (\<lambda>_ fs. extract_entries dest opts es done_files fs)
           | (FileEntry, Some bs) \<Rightarrow>
               and_then (write_entry dest p bs (entry_mode e) fs) (\<lambda>_ fs.
                 extract_entries dest opts es (done_files @ [posix_join [dest, p]]) fs)
           | _ \<Rightarrow> extract_entries dest opts es done_files fs))"

definition decompress :: "(bytes \<Rightarrow> bytes option) \<Rightarrow> bytes \<Rightarrow> bytes option" where
  "decompress inflate data = inflate data"

definition extract_tarball ::
  "(bytes \<Rightarrow> string) \<Rightarrow> (bytes \<Rightarrow> bytes option) \<Rightarrow> bytes \<Rightarrow> string \<Rightarrow> extract_options \<Rightarrow> fs \<Rightarrow> string list outcome" where
  "extract_tarball decode inflate data dest opts fs =
     (case decompress inflate data of
        None \<Rightarrow> (Inl (PlainErr ''inflate''), fs)
      | Some tar \<Rightarrow> extract_entries dest opts (parse_tar decode tar) [] fs)"

subsection \<open>The pool\<close>

text \<open>
  The lanes of \<open>__browserRuntimeInstallPool\<close>: each takes the next index in one step and works
  on it until that work settles; the items taken, in order.  \<open>works\<close> says whose work is
  fulfilled; a lane whose work is rejected ends with the rejection, and the others go on.
\<close>

datatype lane_state = Idle | Working nat | Ended | Failed

record pool =
  next_item :: nat
  lanes :: "lane_state list"
  taken_items :: "nat list"

definition start_pool :: "nat \<Rightarrow> nat \<Rightarrow> pool" where
  "start_pool items lanes_wanted = \<lparr>next_item = 0, lanes = replicate (min lanes_wanted items) Idle, taken_items = []\<rparr>"

text \<open>An idle lane takes the next item, or ends past the last; a busy one's work settles.\<close>

definition lane_step :: "(nat \<Rightarrow> bool) \<Rightarrow> nat \<Rightarrow> nat \<Rightarrow> pool \<Rightarrow> pool" where
  "lane_step works items k p =
     (if length (lanes p) \<le> k then p
      else case lanes p ! k of
        Ended \<Rightarrow> p
      | Failed \<Rightarrow> p
      | Working i \<Rightarrow> p\<lparr>lanes := (lanes p)[k := (if works i then Idle else Failed)]\<rparr>
      | Idle \<Rightarrow>
          (if items \<le> next_item p then p\<lparr>next_item := next_item p + 1, lanes := (lanes p)[k := Ended]\<rparr>
           else p\<lparr>next_item := next_item p + 1, lanes := (lanes p)[k := Working (next_item p)],
                  taken_items := taken_items p @ [next_item p]\<rparr>))"

end
