(* ===== verification/TarballProps.thy ===== *)
theory TarballProps
  imports Tarball
begin

text \<open>
  What the reader makes of an archive.  The archives are written here as POSIX and GNU
  describe the format: ustar headers with every field and the checksum, names split into
  prefix and name, pax extended headers and GNU long names before a member, members of any
  kind.  They are read back as their members.  And what the extraction does not check: a
  member's path may climb out of the destination.
\<close>

subsection \<open>Fields\<close>

fun oct_str :: "nat \<Rightarrow> string" where
  "oct_str n = (if n < 8 then [''01234567'' ! n] else oct_str (n div 8) @ [''01234567'' ! (n mod 8)])"

declare oct_str.simps [simp del]

definition ascii_bytes :: "string \<Rightarrow> bytes" where
  "ascii_bytes s = map (\<lambda>c. of_nat (of_char c)) s"

text \<open>A name: its bytes, NUL after them where there is room.  A number: octal digits from the left, then NUL.\<close>

definition text_field :: "nat \<Rightarrow> string \<Rightarrow> bytes" where
  "text_field w s = ascii_bytes s @ replicate (w - length s) 0"

definition octal_digits :: "nat \<Rightarrow> nat \<Rightarrow> string" where
  "octal_digits w n = replicate (w - length (oct_str n)) (CHR ''0'') @ oct_str n"

definition octal_field :: "nat \<Rightarrow> nat \<Rightarrow> bytes" where
  "octal_field w n = ascii_bytes (octal_digits (w - 1) n) @ [0]"

subsection \<open>Headers\<close>

record ustar =
  u_name :: string
  u_prefix :: string
  u_mode :: nat
  u_uid :: nat
  u_gid :: nat
  u_size :: nat
  u_mtime :: nat
  u_flag :: byte
  u_link :: string
  u_uname :: string
  u_gname :: string

definition before_sum :: "ustar \<Rightarrow> bytes" where
  "before_sum u =
     text_field 100 (u_name u) @ octal_field 8 (u_mode u) @ octal_field 8 (u_uid u) @ octal_field 8 (u_gid u) @
     octal_field 12 (u_size u) @ octal_field 12 (u_mtime u)"

text \<open>Magic and version, owner's names, no device numbers, the prefix.\<close>

definition after_sum :: "ustar \<Rightarrow> bytes" where
  "after_sum u =
     [u_flag u] @ text_field 100 (u_link u) @ ascii_bytes ''ustar'' @ [0] @ ascii_bytes ''00'' @
     text_field 32 (u_uname u) @ text_field 32 (u_gname u) @ octal_field 8 0 @ octal_field 8 0 @
     text_field 155 (u_prefix u) @ replicate 12 0"

text \<open>The checksum: the sum of the header's bytes, its own field counted as eight spaces.\<close>

definition checksum :: "ustar \<Rightarrow> nat" where
  "checksum u = sum_list (map unat (before_sum u @ replicate 8 32 @ after_sum u))"

definition ustar_header :: "ustar \<Rightarrow> bytes" where
  "ustar_header u = before_sum u @ ascii_bytes (octal_digits 6 (checksum u)) @ [0, 32] @ after_sum u"

text \<open>What the fields can hold.\<close>

definition plain_ascii :: "string \<Rightarrow> bool" where
  "plain_ascii s \<longleftrightarrow> list_all (\<lambda>c. 0 < (of_char c :: nat) \<and> (of_char c :: nat) < 128) s"

definition text_fits :: "nat \<Rightarrow> string \<Rightarrow> bool" where
  "text_fits w s \<longleftrightarrow> plain_ascii s \<and> length s \<le> w"

definition fits :: "ustar \<Rightarrow> bool" where
  "fits u \<longleftrightarrow>
     u_name u \<noteq> [] \<and> text_fits 100 (u_name u) \<and> text_fits 155 (u_prefix u) \<and> text_fits 100 (u_link u) \<and>
     text_fits 31 (u_uname u) \<and> text_fits 31 (u_gname u) \<and>
     u_mode u < 8 ^ 7 \<and> u_uid u < 8 ^ 7 \<and> u_gid u < 8 ^ 7 \<and> u_size u < 8 ^ 11 \<and> u_mtime u < 8 ^ 11"

subsection \<open>Members\<close>

datatype member_kind = Regular | OldRegular | HardLink | SymbolicLink | DirectoryMember | OtherKind byte

fun kind_flag :: "member_kind \<Rightarrow> byte" where
  "kind_flag Regular = 48"
| "kind_flag OldRegular = 0"
| "kind_flag HardLink = 49"
| "kind_flag SymbolicLink = 50"
| "kind_flag DirectoryMember = 53"
| "kind_flag (OtherKind b) = b"

fun kind_ok :: "member_kind \<Rightarrow> bool" where
  "kind_ok (OtherKind b) = (b \<notin> {48, 0, 49, 50, 53, 76, 120})"
| "kind_ok k = True"

text \<open>What may stand before a member: a pax extended header (its records), or a GNU long name.\<close>

datatype extension = NoExtension | Pax string "(string \<times> string) list" | LongName string

record member =
  extended :: extension
  kind_of :: member_kind
  header_of :: ustar
  payload_of :: bytes

text \<open>A pax record is its own length in decimal, a space, the keyword, an equals sign, the value, a newline.\<close>

definition pax_record :: "string \<times> string \<Rightarrow> string" where
  "pax_record kv =
     (let body = '' '' @ fst kv @ ''='' @ snd kv @ [CHR 0x0A]; n = length body; d = length (nat_str n)
      in nat_str (if length (nat_str (n + d)) = d then n + d else n + d + 1) @ body)"

definition pax_bytes :: "(string \<times> string) list \<Rightarrow> bytes" where
  "pax_bytes kvs = ascii_bytes (concat (map pax_record kvs))"

definition extension_header :: "byte \<Rightarrow> string \<Rightarrow> bytes \<Rightarrow> ustar" where
  "extension_header flag name bs =
     \<lparr>u_name = name, u_prefix = [], u_mode = 420, u_uid = 0, u_gid = 0, u_size = length bs, u_mtime = 0,
      u_flag = flag, u_link = [], u_uname = [], u_gname = []\<rparr>"

text \<open>A header, its payload, zeros up to a whole number of blocks.\<close>

definition tar_block :: "ustar \<Rightarrow> bytes \<Rightarrow> bytes" where
  "tar_block u bs = ustar_header u @ bs @ replicate ((512 - length bs mod 512) mod 512) 0"

definition long_bytes :: "string \<Rightarrow> bytes" where
  "long_bytes n = ascii_bytes n @ [0]"

fun extension_block :: "extension \<Rightarrow> bytes" where
  "extension_block NoExtension = []"
| "extension_block (Pax name kvs) = tar_block (extension_header 120 name (pax_bytes kvs)) (pax_bytes kvs)"
| "extension_block (LongName n) = tar_block (extension_header 76 ''././@LongLink'' (long_bytes n)) (long_bytes n)"

definition member_blocks :: "member \<Rightarrow> bytes" where
  "member_blocks m = extension_block (extended m) @ tar_block (header_of m) (payload_of m)"

text \<open>The archive ends in two blocks of zeros at least; writers round its length up with more.\<close>

definition tar_archive :: "member list \<Rightarrow> nat \<Rightarrow> bytes" where
  "tar_archive ms extra = concat (map member_blocks ms) @ replicate (1024 + extra) 0"

definition pax_ok :: "string \<times> string \<Rightarrow> bool" where
  "pax_ok kv \<longleftrightarrow>
     plain_ascii (fst kv) \<and> plain_ascii (snd kv) \<and> CHR ''='' \<notin> set (fst kv) \<and>
     CHR 0x0A \<notin> set (fst kv) \<and> CHR 0x0A \<notin> set (snd kv) \<and> CHR 0x0D \<notin> set (snd kv)"

fun extension_ok :: "extension \<Rightarrow> bool" where
  "extension_ok NoExtension = True"
| "extension_ok (Pax name kvs) = (fits (extension_header 120 name (pax_bytes kvs)) \<and> list_all pax_ok kvs)"
| "extension_ok (LongName n) = (plain_ascii n \<and> length n < 8 ^ 10)"

definition storable :: "member \<Rightarrow> bool" where
  "storable m \<longleftrightarrow>
     extension_ok (extended m) \<and> kind_ok (kind_of m) \<and> fits (header_of m) \<and>
     u_flag (header_of m) = kind_flag (kind_of m) \<and> u_size (header_of m) = length (payload_of m)"

subsection \<open>What a member is read as\<close>

text \<open>The last \<open>path\<close> of a pax header, or the long name, or what the header's own fields say.\<close>

fun extension_name :: "extension \<Rightarrow> string option" where
  "extension_name NoExtension = None"
| "extension_name (Pax name kvs) = map_of (rev kvs) ''path''"
| "extension_name (LongName n) = Some n"

definition member_name :: "member \<Rightarrow> string" where
  "member_name m =
     (case extension_name (extended m) of
        Some n \<Rightarrow> n
      | None \<Rightarrow> (if u_prefix (header_of m) = [] then [] else u_prefix (header_of m) @ ''/'') @ u_name (header_of m))"

fun kind_type :: "member_kind \<Rightarrow> entry_type" where
  "kind_type Regular = FileEntry"
| "kind_type OldRegular = FileEntry"
| "kind_type HardLink = SymlinkEntry"
| "kind_type SymbolicLink = SymlinkEntry"
| "kind_type DirectoryMember = DirectoryEntry"
| "kind_type (OtherKind b) = UnknownEntry"

definition entry_of_member :: "member \<Rightarrow> tar_entry" where
  "entry_of_member m =
     \<lparr>entry_name = member_name m, entry_type = kind_type (kind_of m), entry_size = int (length (payload_of m)),
      entry_mode = int (u_mode (header_of m)),
      entry_content = (if kind_type (kind_of m) = FileEntry then Some (payload_of m) else None),
      link_target = (if kind_type (kind_of m) = SymlinkEntry then Some (u_link (header_of m)) else None)\<rparr>"

text \<open>What the decoder is asked: that it reads ASCII.\<close>

definition decodes_ascii :: "(bytes \<Rightarrow> string) \<Rightarrow> bool" where
  "decodes_ascii decode \<longleftrightarrow>
     (\<forall>s. list_all (\<lambda>c. (of_char c :: nat) < 128) s \<longrightarrow> decode (ascii_bytes s) = s)"

subsection \<open>Octal fields\<close>

lemma oct_one: "n < 8 \<Longrightarrow> oct_str n = [''01234567'' ! n]"
  by (subst oct_str.simps) simp

lemma oct_snoc: "\<not> n < 8 \<Longrightarrow> oct_str n = oct_str (n div 8) @ [''01234567'' ! (n mod 8)]"
  by (subst oct_str.simps) simp

lemma octal_nth: "k < 8 \<Longrightarrow> octal_digit (''01234567'' ! k) \<and> digit_value (''01234567'' ! k) = k"
  by (auto simp: octal_digit_def digit_value_def less_Suc_eq numeral_eq_Suc)

lemma oct_str_read: "list_all octal_digit (oct_str n) \<and> oct_str n \<noteq> [] \<and> octal_value (oct_str n) = n"
proof (induction n rule: oct_str.induct)
  case (1 n)
  show ?case
  proof (cases "n < 8")
    case True
    then show ?thesis using octal_nth [OF True] by (simp only: oct_one octal_value_def) simp
  next
    case False
    have "n mod 8 < 8" by simp
    then show ?thesis
      unfolding oct_snoc [OF False] using 1 [OF False] octal_nth [of "n mod 8"] by (simp add: octal_value_def)
  qed
qed

lemma length_oct: "n < 8 ^ Suc k \<Longrightarrow> length (oct_str n) \<le> Suc k"
proof (induction k arbitrary: n)
  case (Suc k)
  show ?case
  proof (cases "n < 8")
    case False
    have "n div 8 < 8 ^ Suc k" using Suc.prems by (simp add: less_mult_imp_div_less)
    then show ?thesis using Suc.IH [of "n div 8"] False by (simp add: oct_snoc)
  qed (simp add: oct_one)
qed (simp add: oct_one)

lemma octal_ascii: "octal_digit c \<Longrightarrow> 0 < (of_char c :: nat) \<and> (of_char c :: nat) < 128 \<and> \<not> is_space c \<and> c \<noteq> CHR ''-'' \<and> c \<noteq> CHR ''+''"
  by (auto simp: octal_digit_def is_space_def)

lemma oct_plain: "plain_ascii (oct_str n)"
  using oct_str_read [of n] octal_ascii by (auto simp: plain_ascii_def list_all_iff)

lemma of_char_byte_zero: "0 < (of_char c :: nat) \<Longrightarrow> (of_nat (of_char c) :: byte) \<noteq> 0"
proof
  assume pos: "0 < (of_char c :: nat)" and zero: "(of_nat (of_char c) :: byte) = 0"
  have "unat (of_nat (of_char c) :: byte) = (of_char c :: nat) mod 256"
    using unat_of_nat [of "of_char c :: nat", where 'a = 8] by simp
  moreover have "(of_char c :: nat) < 256" using nat_of_char_less_256 [of c] by simp
  ultimately show False using pos zero by simp
qed


lemma length_ascii [simp]: "length (ascii_bytes s) = length s"
  by (simp add: ascii_bytes_def)

lemma ascii_append: "ascii_bytes (s @ t) = ascii_bytes s @ ascii_bytes t"
  by (simp add: ascii_bytes_def)

lemma plain_append [simp]: "plain_ascii (s @ t) \<longleftrightarrow> plain_ascii s \<and> plain_ascii t"
  by (simp add: plain_ascii_def)

lemma plain_Cons: "plain_ascii (c # s) \<longleftrightarrow> 0 < (of_char c :: nat) \<and> (of_char c :: nat) < 128 \<and> plain_ascii s"
  by (simp add: plain_ascii_def)

lemma plain_Nil [simp]: "plain_ascii []"
  by (simp add: plain_ascii_def)

lemma decode_plain: "decodes_ascii decode \<Longrightarrow> plain_ascii s \<Longrightarrow> decode (ascii_bytes s) = s"
  by (simp add: decodes_ascii_def plain_ascii_def list_all_iff)

lemma octal_digits_plain: "plain_ascii (octal_digits w n)"
  using oct_plain [of n] by (auto simp: octal_digits_def plain_ascii_def list_all_iff)

lemma length_octal_digits: "n < 8 ^ w \<Longrightarrow> 0 < w \<Longrightarrow> length (octal_digits w n) = w"
  using length_oct [of n "w - 1"] by (simp add: octal_digits_def)

lemma zeros_value: "octal_value (replicate k (CHR ''0'') @ s) = octal_value s"
proof -
  have "digit_value (CHR ''0'') = 0" by (simp add: digit_value_def)
  then show ?thesis by (induction k) (simp_all add: octal_value_def)
qed

text \<open>A field that is text up to a NUL or to its end reads as the text.\<close>

lemma parse_string_text:
  assumes d: "decodes_ascii decode" and s: "plain_ascii s" and f: "take w (drop k header) = ascii_bytes s @ replicate j 0"
  shows "parse_string decode header k w = s"
proof -
  have "\<forall>b \<in> set (ascii_bytes s). b \<noteq> 0"
    using s of_char_byte_zero by (auto simp: ascii_bytes_def plain_ascii_def list_all_iff)
  then have "takeWhile (\<lambda>b. b \<noteq> 0) (ascii_bytes s @ replicate j 0) = ascii_bytes s"
    by (simp add: takeWhile_append2 takeWhile_replicate)
  then show ?thesis using decode_plain [OF d s] f by (simp add: parse_string_def)
qed

lemma dropWhile_same: "s \<noteq> [] \<Longrightarrow> \<not> P (hd s) \<Longrightarrow> dropWhile P s = s"
  by (cases s) simp_all

lemma trim_same: "s \<noteq> [] \<Longrightarrow> \<not> is_space (hd s) \<Longrightarrow> \<not> is_space (last s) \<Longrightarrow> trim s = s"
  by (simp add: trim_def dropWhile_same hd_rev)

lemma parse_octal_field:
  assumes d: "decodes_ascii decode" and f: "take w (drop p header) = octal_field w n"
  shows "parse_octal decode header p w = int n"
proof -
  let ?s = "octal_digits (w - 1) n"
  have s: "parse_string decode header p w = ?s"
    using f by (intro parse_string_text [OF d octal_digits_plain, where j = 1]) (simp add: octal_field_def)
  have o: "list_all octal_digit (oct_str n)" "oct_str n \<noteq> []" "octal_value (oct_str n) = n" using oct_str_read by blast+
  have z: "octal_digit (CHR ''0'')" by (simp add: octal_digit_def)
  have all: "list_all octal_digit ?s" "?s \<noteq> []"
    using o(1,2) z by (auto simp: octal_digits_def list_all_iff)
  then have h: "octal_digit (hd ?s)" "octal_digit (last ?s)" by (simp_all add: list_all_iff)
  have "takeWhile octal_digit ?s = ?s" using all(1) by (simp add: list_all_iff takeWhile_eq_all_conv)
  then have "octal_value (takeWhile octal_digit ?s) = n" by (simp only: octal_digits_def zeros_value o(3))
  moreover have "trim ?s = ?s" using octal_ascii [OF h(1)] octal_ascii [OF h(2)] all(2) by (simp add: trim_same)
  ultimately show ?thesis using s all octal_ascii [OF h(1)] by (simp add: parse_octal_def Let_def)
qed

subsection \<open>The fields of a header\<close>

lemma length_text_field: "length s \<le> w \<Longrightarrow> length (text_field w s) = w"
  by (simp add: text_field_def)

lemma length_octal_field: "n < 8 ^ (w - 1) \<Longrightarrow> 1 < w \<Longrightarrow> length (octal_field w n) = w"
  by (simp add: octal_field_def length_octal_digits)

lemma length_before:
  assumes "fits u"
  shows "length (before_sum u) = 148"
  using assms by (simp add: before_sum_def fits_def text_fits_def length_text_field length_octal_field)

lemma length_after:
  assumes "fits u"
  shows "length (after_sum u) = 356"
  using assms by (simp add: after_sum_def fits_def text_fits_def length_text_field length_octal_field)

lemma checksum_bound: "fits u \<Longrightarrow> checksum u < 8 ^ 6"
proof -
  assume u: "fits u"
  have "sum_list (map unat bs) \<le> 255 * length bs" for bs :: bytes
  proof (induction bs)
    case (Cons b bs)
    have "unat b < 2 ^ LENGTH(8)" by (rule unsigned_less)
    then have "unat b \<le> 255" by simp
    with Cons show ?case by simp
  qed simp
  from this [of "before_sum u @ replicate 8 32 @ after_sum u"] show ?thesis
    using length_before [OF u] length_after [OF u] by (simp add: checksum_def)
qed

lemma length_header: "fits u \<Longrightarrow> length (ustar_header u) = 512"
  using length_octal_digits [OF checksum_bound] by (simp add: ustar_header_def length_before length_after)

lemma take_here: "length a = k \<Longrightarrow> length f = w \<Longrightarrow> take w (drop k (a @ f @ b)) = f"
  by simp

text \<open>The fields the reader looks at, each where it looks.\<close>

lemma header_fields:
  assumes u: "fits u"
  shows "take 100 (drop 0 (ustar_header u)) = text_field 100 (u_name u)"
    and "take 8 (drop 100 (ustar_header u)) = octal_field 8 (u_mode u)"
    and "take 12 (drop 124 (ustar_header u)) = octal_field 12 (u_size u)"
    and "ustar_header u ! 156 = u_flag u"
    and "take 100 (drop 157 (ustar_header u)) = text_field 100 (u_link u)"
    and "take 155 (drop 345 (ustar_header u)) = text_field 155 (u_prefix u)"
proof -
  let ?c = "ascii_bytes (octal_digits 6 (checksum u)) @ [0, 32]"
  have c: "length ?c = 8" using length_octal_digits [OF checksum_bound [OF u]] by simp
  have h: "ustar_header u = before_sum u @ ?c @ after_sum u" by (simp add: ustar_header_def)
  note lens = length_text_field length_octal_field
  have b: "text_fits 100 (u_name u)" "text_fits 155 (u_prefix u)" "text_fits 100 (u_link u)" "text_fits 31 (u_uname u)"
    "text_fits 31 (u_gname u)" "u_mode u < 8 ^ 7" "u_uid u < 8 ^ 7" "u_gid u < 8 ^ 7" "u_size u < 8 ^ 11"
    using u by (simp_all add: fits_def)
  have in_before: "take w (drop k (ustar_header u)) = take w (drop k (before_sum u))" if "k + w \<le> 148" for k w
    using that length_before [OF u] by (simp add: h)
  have in_after: "drop (156 + k) (ustar_header u) = drop k (after_sum u)" for k
    using length_before [OF u] c by (simp add: h)
  show "take 100 (drop 0 (ustar_header u)) = text_field 100 (u_name u)"
    using b by (subst in_before) (simp_all add: before_sum_def text_fits_def lens)
  show "take 8 (drop 100 (ustar_header u)) = octal_field 8 (u_mode u)"
    using b by (subst in_before) (simp_all add: before_sum_def text_fits_def lens)
  show "take 12 (drop 124 (ustar_header u)) = octal_field 12 (u_size u)"
    using b by (subst in_before) (simp_all add: before_sum_def text_fits_def lens)
  have "ustar_header u ! 156 = hd (drop 156 (ustar_header u))"
    using length_header [OF u] by (simp add: hd_drop_conv_nth)
  then show "ustar_header u ! 156 = u_flag u" using in_after [of 0] by (simp add: after_sum_def)
  show "take 100 (drop 157 (ustar_header u)) = text_field 100 (u_link u)"
    using b in_after [of 1] by (simp add: after_sum_def text_fits_def lens)
  show "take 155 (drop 345 (ustar_header u)) = text_field 155 (u_prefix u)"
    using b in_after [of 189] by (simp add: after_sum_def text_fits_def lens)
qed

lemma header_texts:
  assumes d: "decodes_ascii decode" and u: "fits u"
  shows "parse_string decode (ustar_header u) 0 100 = u_name u" "parse_string decode (ustar_header u) 157 100 = u_link u"
    "parse_string decode (ustar_header u) 345 155 = u_prefix u"
    "parse_octal decode (ustar_header u) 100 8 = int (u_mode u)" "parse_octal decode (ustar_header u) 124 12 = int (u_size u)"
  using u header_fields [OF u] parse_string_text [OF d] parse_octal_field [OF d]
  by (simp_all add: fits_def text_fits_def text_field_def)

lemma header_not_zero:
  assumes u: "fits u"
  shows "\<not> list_all (\<lambda>b. b = 0) (ustar_header u)"
proof -
  obtain c s where n: "u_name u = c # s" and c: "0 < (of_char c :: nat)"
    using u by (cases "u_name u") (auto simp: fits_def text_fits_def plain_ascii_def)
  have "of_nat (of_char c) \<in> set (ustar_header u)"
    by (simp add: ustar_header_def before_sum_def text_field_def ascii_bytes_def n)
  then show ?thesis using of_char_byte_zero [OF c] by (auto simp: list_all_iff)
qed

subsection \<open>Blocks\<close>

lemma payload_rounds: "payload_length (int n) = n + (512 - n mod 512) mod 512"
proof -
  have "(int n + 511) div 512 = int ((n + 511) div 512)" by (simp add: zdiv_int)
  then have "payload_length (int n) = (n + 511) div 512 * 512" by (simp add: payload_length_def)
  moreover have "(n + 511) div 512 * 512 = n + (512 - n mod 512) mod 512"
  proof (cases "n mod 512 = 0")
    case True
    then obtain k where "n = 512 * k" by auto
    then show ?thesis by simp
  next
    case False
    define q r where "q = n div 512" and "r = n mod 512"
    have n: "n = 512 * q + r" "0 < r" "r < 512" using False by (simp_all add: q_def r_def)
    have "(n + 511) div 512 = q + 1" using n by (simp add: div_nat_eqI)
    then show ?thesis using n by simp
  qed
  ultimately show ?thesis by simp
qed

lemma length_block: "fits u \<Longrightarrow> length (tar_block u bs) = 512 + payload_length (int (length bs))"
  by (simp add: tar_block_def length_header payload_rounds)

lemma slice_plain: "slice_from data p (int p + int n) = take n (drop p data)"
proof -
  have "nat (int p + int n) = p + n" by simp
  then show ?thesis by (simp add: slice_from_def)
qed

lemma block_read:
  assumes u: "fits u" and at: "drop pos data = tar_block u bs @ rest"
  shows "take 512 (drop pos data) = ustar_header u"
    and "slice_from data (pos + 512) (int (pos + 512) + int (length bs)) = bs"
    and "drop (pos + length (tar_block u bs)) data = rest"
proof -
  show "take 512 (drop pos data) = ustar_header u" using length_header [OF u] by (simp add: at tar_block_def)
  have "drop (pos + 512) data = drop 512 (drop pos data)" by (simp add: add.commute)
  then show "slice_from data (pos + 512) (int (pos + 512) + int (length bs)) = bs"
    using length_header [OF u] unfolding slice_plain at by (simp add: tar_block_def)
  have "drop (pos + length (tar_block u bs)) data = drop (length (tar_block u bs)) (drop pos data)"
    by (simp add: add.commute)
  then show "drop (pos + length (tar_block u bs)) data = rest" by (simp add: at)
qed

text \<open>An extension's block is passed over for the name it gives.\<close>

lemma parse_extension:
  assumes d: "decodes_ascii decode" and u: "fits u" "u_size u = length bs" and at: "drop pos data = tar_block u bs @ rest"
    and flag: "u_flag u = 120 \<or> u_flag u = 76" and more: "pos + 512 < length data"
  shows "parse_from decode data pos nn =
    parse_from decode data (pos + length (tar_block u bs)) (given_name (u_flag u) (decode bs))"
proof -
  note b = block_read [OF u(1) at]
  have "u_name u \<noteq> []" using u(1) by (simp add: fits_def)
  then show ?thesis
    using more header_not_zero [OF u(1)] header_texts [OF d u(1)] header_fields(4) [OF u(1)] flag b(2)
    by (subst parse_from.simps) (simp add: b(1) u(2) Let_def length_block [OF u(1)] add.assoc)
qed

text \<open>A member's own block is read as the member.\<close>

lemma parse_own:
  assumes d: "decodes_ascii decode" and m: "storable m" and at: "drop pos data = tar_block (header_of m) (payload_of m) @ rest"
    and more: "pos + 512 < length data"
  shows "parse_from decode data pos (extension_name (extended m)) =
    entry_of_member m # parse_from decode data (pos + length (tar_block (header_of m) (payload_of m))) None"
proof -
  let ?u = "header_of m" and ?h = "ustar_header (header_of m)"
  have u: "fits ?u" "u_size ?u = length (payload_of m)" "u_flag ?u = kind_flag (kind_of m)" "kind_ok (kind_of m)"
    using m by (simp_all add: storable_def)
  note b = block_read [OF u(1) at]
  note t = header_texts [OF d u(1)] header_fields(4) [OF u(1)]
  have name: "u_name ?u \<noteq> []" using u(1) by (simp add: fits_def)
  have full: "full_name decode ?h (extension_name (extended m)) = member_name m"
    using t(1,3) by (simp add: full_name_def member_name_def Let_def split: option.split)
  have flag: "u_flag ?u \<noteq> 120 \<and> u_flag ?u \<noteq> 76" using u(3,4) by (cases "kind_of m") auto
  have type: "type_of_flag (u_flag ?u) = kind_type (kind_of m)"
    using u(3,4) by (cases "kind_of m") (auto simp: type_of_flag_def)
  have entry: "entry_of decode data (pos + 512) ?h (member_name m) = entry_of_member m"
    using b(2) t u(2) type by (simp add: entry_of_def entry_of_member_def Let_def)
  show ?thesis
    using more header_not_zero [OF u(1)] t name flag full entry
    by (subst parse_from.simps) (simp add: b(1) u(2) Let_def length_block [OF u(1)] add.assoc)
qed

subsection \<open>Names in extensions\<close>

lemma strip_zeros_after: "plain_ascii s \<Longrightarrow> strip_zeros (s @ [CHR 0x00]) = s"
  by (cases s rule: rev_cases) (auto simp: strip_zeros_def plain_ascii_def list_all_iff)

lemma long_decoded: "decodes_ascii decode \<Longrightarrow> plain_ascii n \<Longrightarrow> decode (long_bytes n) = n @ [CHR 0x00]"
proof -
  assume d: "decodes_ascii decode" and n: "plain_ascii n"
  have "long_bytes n = ascii_bytes (n @ [CHR 0x00])" by (simp add: long_bytes_def ascii_bytes_def)
  then show ?thesis using d n by (simp add: decodes_ascii_def plain_ascii_def list_all_iff)
qed

text \<open>The number a pax record begins with is the record's own length.\<close>

lemma length_nat_str_le: "length (nat_str n) \<le> Suc k \<longleftrightarrow> n < 10 ^ Suc k"
proof (induction k arbitrary: n)
  case 0
  have "nat_str (n div 10) \<noteq> []" using nat_str_digits by simp
  then show ?case by (subst nat_str.simps) simp
next
  case (Suc k)
  have "n div 10 < 10 ^ Suc k \<longleftrightarrow> n < 10 ^ Suc (Suc k)" by (simp add: div_less_iff_less_mult mult.commute)
  moreover have "n < 10 \<Longrightarrow> n < 10 ^ Suc (Suc k)" by (simp add: less_le_trans)
  ultimately show ?case using Suc.IH [of "n div 10"] by (subst nat_str.simps) auto
qed

lemma pax_record_length:
  "pax_record kv = nat_str (length (pax_record kv)) @ '' '' @ fst kv @ ''='' @ snd kv @ [CHR 0x0A]"
proof -
  let ?body = "'' '' @ fst kv @ ''='' @ snd kv @ [CHR 0x0A]"
  define n d where "n = length ?body" and "d = length (nat_str n)"
  obtain k where k: "d = Suc k" using nat_str_digits [of n] by (cases d) (auto simp: d_def)
  have n: "n < 10 ^ d" using length_nat_str_le [of n k] k by (simp add: d_def)
  have grow: "d + 1 \<le> 9 * 10 ^ d" for d :: nat by (induction d) simp_all
  have "n + d + 1 < 10 ^ Suc d" using n grow [of d] by simp
  then have le: "length (nat_str (n + d + 1)) \<le> Suc d" using length_nat_str_le by blast
  have "length (nat_str (n + d + 1)) = Suc d" if "length (nat_str (n + d)) \<noteq> d"
  proof -
    have "d \<le> length (nat_str (n + d))"
    proof (cases k)
      case 0
      have "nat_str (n + d) \<noteq> []" using nat_str_digits by simp
      then show ?thesis using 0 k by (cases "nat_str (n + d)") simp_all
    next
      case (Suc j)
      have "\<not> n < 10 ^ Suc j" using length_nat_str_le [of n j] k Suc by (simp add: d_def)
      then have "\<not> n + d < 10 ^ Suc j" by simp
      then show ?thesis using length_nat_str_le [of "n + d" j] k Suc by simp
    qed
    then have "\<not> length (nat_str (n + d)) \<le> Suc k" using that k by simp
    then have "\<not> n + d + 1 < 10 ^ Suc k" unfolding length_nat_str_le by simp
    then show ?thesis using le k unfolding length_nat_str_le [symmetric] by simp
  qed
  then have "length (nat_str T) + n = T" if "T = (if length (nat_str (n + d)) = d then n + d else n + d + 1)" for T
    using that by simp
  moreover define T where "T = (if length (nat_str (n + d)) = d then n + d else n + d + 1)"
  ultimately have "length (nat_str T) + n = T" by blast
  moreover have r: "pax_record kv = nat_str T @ ?body" by (simp only: pax_record_def Let_def T_def n_def d_def)
  ultimately have "length (pax_record kv) = T" by (simp only: r length_append n_def)
  then show ?thesis using r by (simp only:)
qed

text \<open>One pax record is one line, and the line gives its value when the keyword is \<open>path\<close>.\<close>

definition pax_line :: "string \<times> string \<Rightarrow> string" where
  "pax_line kv = butlast (pax_record kv)"

lemma pax_record_parts: "\<exists>n. pax_record kv = nat_str n @ '' '' @ fst kv @ ''='' @ snd kv @ [CHR 0x0A]"
  unfolding pax_record_def Let_def append_assoc by blast

lemma pax_line_parts: "\<exists>n. pax_record kv = pax_line kv @ [CHR 0x0A] \<and> pax_line kv = nat_str n @ '' '' @ fst kv @ ''='' @ snd kv"
  using pax_record_parts [of kv] by (auto simp: pax_line_def butlast_append)

lemma digit_ascii: "is_digit c \<Longrightarrow> c \<noteq> CHR 0x0A \<and> 0 < (of_char c :: nat) \<and> (of_char c :: nat) < 128"
  by (auto simp: is_digit_def)

lemma nat_str_plain: "CHR 0x0A \<notin> set (nat_str n)" "plain_ascii (nat_str n)"
  using nat_str_digits [of n] digit_ascii by (auto simp: list_all_iff plain_ascii_def)

lemma pax_path_line:
  assumes "pax_ok kv"
  shows "pax_path (pax_line kv) = (if fst kv = ''path'' then Some (snd kv) else None)"
proof -
  obtain n where n: "pax_line kv = nat_str n @ '' '' @ fst kv @ ''='' @ snd kv" using pax_line_parts by blast
  have d: "\<forall>c \<in> set (nat_str n). is_digit c" "nat_str n \<noteq> []" using nat_str_digits [of n] by (simp_all add: list_all_iff)
  have r: "dropWhile is_digit (pax_line kv) = '' '' @ fst kv @ ''='' @ snd kv"
    unfolding n using d(1) by (simp add: dropWhile_append2 is_digit_def)
  have h: "pax_line kv \<noteq> []" "is_digit (hd (pax_line kv))" using n d by auto
  have key: "prefix ''path='' (fst kv @ ''='' @ snd kv) \<longleftrightarrow> fst kv = ''path''"
  proof
    assume "prefix ''path='' (fst kv @ ''='' @ snd kv)"
    then obtain z where z: "fst kv @ ''='' @ snd kv = ''path='' @ z" by (auto simp: prefix_def)
    have "takeWhile (\<lambda>c. c \<noteq> CHR ''='') (fst kv @ ''='' @ snd kv) = fst kv"
      using assms by (subst takeWhile_append2) (auto simp: pax_ok_def)
    then show "fst kv = ''path''" unfolding z by simp
  qed simp
  show ?thesis
    using assms h key by (simp add: pax_path_def r Let_def pax_ok_def)
qed

lemma pax_lines:
  assumes "list_all pax_ok kvs"
  shows "split_on (CHR 0x0A) (concat (map pax_record kvs)) = map pax_line kvs @ [[]]"
  using assms
proof (induction kvs)
  case (Cons kv kvs)
  obtain n where n: "pax_record kv = pax_line kv @ [CHR 0x0A]" "pax_line kv = nat_str n @ '' '' @ fst kv @ ''='' @ snd kv"
    using pax_line_parts by blast
  have "CHR 0x0A \<notin> set (pax_line kv)" using Cons.prems nat_str_plain(1) [of n] by (auto simp: n(2) pax_ok_def)
  then have "split_on (CHR 0x0A) (pax_line kv @ CHR 0x0A # concat (map pax_record kvs)) = pax_line kv # map pax_line kvs @ [[]]"
    using Cons by (simp add: split_on_append_sep)
  then show ?case by (simp add: n(1))
qed simp

lemma last_some_snoc: "last_some a (xs @ [x]) = (case x of Some y \<Rightarrow> Some y | None \<Rightarrow> last_some a xs)"
  by (induction xs arbitrary: a) (auto split: option.split)

lemma last_path:
  "list_all pax_ok kvs \<Longrightarrow> last_some None (map pax_path (map pax_line kvs)) = map_of (rev kvs) ''path''"
proof (induction kvs rule: rev_induct)
  case (snoc kv kvs)
  then show ?case by (cases kv) (simp add: last_some_snoc pax_path_line)
qed simp

lemma pax_plain: "list_all pax_ok kvs \<Longrightarrow> plain_ascii (concat (map pax_record kvs))"
proof (induction kvs)
  case (Cons kv kvs)
  obtain n where n: "pax_record kv = nat_str n @ '' '' @ fst kv @ ''='' @ snd kv @ [CHR 0x0A]"
    using pax_record_parts by blast
  show ?case using Cons nat_str_plain(2) by (simp add: n pax_ok_def plain_Cons)
qed simp

lemma given_pax:
  assumes d: "decodes_ascii decode" and kvs: "list_all pax_ok kvs"
  shows "given_name 120 (decode (pax_bytes kvs)) = map_of (rev kvs) ''path''"
proof -
  have "decode (pax_bytes kvs) = concat (map pax_record kvs)"
    unfolding pax_bytes_def by (rule decode_plain [OF d pax_plain [OF kvs]])
  moreover have "pax_path [] = None" by (simp add: pax_path_def)
  ultimately show ?thesis
    using last_path [OF kvs] by (simp add: given_name_def pax_lines [OF kvs] last_some_snoc)
qed

subsection \<open>The archive\<close>

lemma long_header_fits: "plain_ascii n \<Longrightarrow> length n < 8 ^ 10 \<Longrightarrow> fits (extension_header 76 ''././@LongLink'' (long_bytes n))"
  by (simp add: fits_def text_fits_def extension_header_def long_bytes_def plain_ascii_def)

lemma parse_member:
  assumes d: "decodes_ascii decode" and m: "storable m" and at: "drop pos data = member_blocks m @ rest"
    and more: "512 < length rest"
  shows "parse_from decode data pos None =
    entry_of_member m # parse_from decode data (pos + length (member_blocks m)) None"
proof -
  let ?own = "tar_block (header_of m) (payload_of m)" and ?e = "extension_block (extended m)"
  have at': "drop pos data = ?e @ ?own @ rest" using at by (simp add: member_blocks_def)
  have "drop (pos + length ?e) data = drop (length ?e) (drop pos data)" by (simp add: add.commute)
  then have own: "drop (pos + length ?e) data = ?own @ rest" by (simp add: at')
  have len: "pos + 512 < length data" using arg_cong [OF at', of length] more by simp
  have "length (?own @ rest) > 512" using more by simp
  then have "512 < length (drop (pos + length ?e) data)" by (simp only: own)
  then have len': "pos + length ?e + 512 < length data" by simp
  have "parse_from decode data pos None = parse_from decode data (pos + length ?e) (extension_name (extended m))"
  proof (cases "extended m")
    case (Pax name kvs)
    let ?u = "extension_header 120 name (pax_bytes kvs)"
    have k: "fits ?u" "list_all pax_ok kvs" using m Pax by (simp_all add: storable_def)
    have "parse_from decode data pos None =
        parse_from decode data (pos + length (tar_block ?u (pax_bytes kvs))) (given_name (u_flag ?u) (decode (pax_bytes kvs)))"
      by (rule parse_extension [OF d k(1) _ _ _ len, where rest = "?own @ rest"])
        (use at' Pax in \<open>simp_all add: extension_header_def\<close>)
    then show ?thesis using Pax given_pax [OF d k(2)] by (simp add: extension_header_def)
  next
    case (LongName n)
    let ?u = "extension_header 76 ''././@LongLink'' (long_bytes n)"
    have k: "fits ?u" "plain_ascii n" using m LongName long_header_fits by (simp_all add: storable_def)
    have "parse_from decode data pos None =
        parse_from decode data (pos + length (tar_block ?u (long_bytes n))) (given_name (u_flag ?u) (decode (long_bytes n)))"
      by (rule parse_extension [OF d k(1) _ _ _ len, where rest = "?own @ rest"])
        (use at' LongName in \<open>simp_all add: extension_header_def\<close>)
    moreover have "given_name 76 (decode (long_bytes n)) = Some n"
      using long_decoded [OF d k(2)] strip_zeros_after [OF k(2)] by (simp add: given_name_def)
    ultimately show ?thesis using LongName by (simp add: extension_header_def)
  qed simp
  also have "\<dots> = entry_of_member m # parse_from decode data (pos + length ?e + length ?own) None"
    by (rule parse_own [OF d m own len'])
  finally show ?thesis by (simp add: member_blocks_def add.assoc)
qed

lemma parse_members:
  assumes d: "decodes_ascii decode"
  shows "list_all storable ms \<Longrightarrow> drop pos data = concat (map member_blocks ms) @ replicate (1024 + extra) 0 \<Longrightarrow>
    parse_from decode data pos None = map entry_of_member ms"
proof (induction ms arbitrary: pos)
  case Nil
  then have "length (drop pos data) = 1024 + extra" by (simp only: list.map concat.simps append_Nil length_replicate)
  then have l: "length data = pos + (1024 + extra)" by simp
  have "list_all (\<lambda>b. b = 0) (take 512 (drop pos data))" using Nil(2) by (simp add: list_all_iff)
  then show ?case using l by (subst parse_from.simps) (simp add: Let_def)
next
  case (Cons m ms)
  let ?rest = "concat (map member_blocks ms) @ replicate (1024 + extra) 0"
  have m: "storable m" "list_all storable ms" using Cons.prems(1) by simp_all
  have at: "drop pos data = member_blocks m @ ?rest" using Cons.prems(2) by simp
  have "drop (pos + length (member_blocks m)) data = drop (length (member_blocks m)) (drop pos data)"
    by (simp add: add.commute)
  then have "drop (pos + length (member_blocks m)) data = ?rest" by (simp add: at)
  then show ?case using Cons.IH [OF m(2)] parse_member [OF d m(1) at] by simp
qed

text \<open>C39: An archive of ustar headers, with their checksums, prefixes, owners, times and links, with pax
  extended headers and GNU long names before members and members of any kind, each with its payload, is
  read back as its members in their order: the name (the last \<open>path\<close> of a pax header, the long name, or
  prefix and name), the kind, the mode, the length, a file's contents, a link's target.  Names and pax
  values are ASCII, for a decoder that reads ASCII.\<close>

theorem tar_roundtrip:
  assumes "decodes_ascii decode" "list_all storable ms"
  shows "parse_tar decode (tar_archive ms extra) = map entry_of_member ms"
  using parse_members [OF assms, of 0] by (simp add: parse_tar_def tar_archive_def)

definition decode_latin :: "bytes \<Rightarrow> string" where
  "decode_latin bs = map (\<lambda>b. char_of (unat b)) bs"

lemma latin_decodes: "decodes_ascii decode_latin"
proof -
  have "char_of (unat (of_nat (of_char c) :: byte)) = c" for c
  proof -
    have "unat (of_nat (of_char c) :: byte) = (of_char c :: nat) mod 256"
      using unat_of_nat [of "of_char c :: nat", where 'a = 8] by simp
    then have "unat (of_nat (of_char c) :: byte) = (of_char c :: nat)" using nat_of_char_less_256 [of c] by simp
    then show ?thesis by simp
  qed
  then show ?thesis by (simp add: decodes_ascii_def decode_latin_def ascii_bytes_def o_def)
qed

definition sample_header :: "string \<Rightarrow> string \<Rightarrow> byte \<Rightarrow> nat \<Rightarrow> string \<Rightarrow> ustar" where
  "sample_header pre name flag n linked =
     \<lparr>u_name = name, u_prefix = pre, u_mode = 420, u_uid = 501, u_gid = 20, u_size = n, u_mtime = 60,
      u_flag = flag, u_link = linked, u_uname = ''me'', u_gname = ''staff''\<rparr>"

definition sample_members :: "member list" where
  "sample_members =
     [\<lparr>extended = NoExtension, kind_of = DirectoryMember, header_of = sample_header [] ''package/bin/'' 53 0 [], payload_of = []\<rparr>,
      \<lparr>extended = Pax ''PaxHeader/a'' [(''mtime'', ''1.5''), (''path'', ''package/a.js'')], kind_of = Regular,
       header_of = sample_header [] ''package/x'' 48 3 [], payload_of = [1, 2, 3]\<rparr>,
      \<lparr>extended = LongName ''package/long'', kind_of = OldRegular, header_of = sample_header [] ''p'' 0 1 [], payload_of = [9]\<rparr>,
      \<lparr>extended = NoExtension, kind_of = SymbolicLink, header_of = sample_header ''package/deep'' ''l'' 50 0 ''../a.js'',
       payload_of = []\<rparr>]"

theorem tar_roundtrip_witness:
  "map entry_name (parse_tar decode_latin (tar_archive sample_members 0)) =
     [''package/bin/'', ''package/a.js'', ''package/long'', ''package/deep/l'']"
proof -
  have "list_all storable sample_members"
    by (simp add: sample_members_def storable_def fits_def text_fits_def plain_ascii_def sample_header_def
        extension_header_def pax_bytes_def pax_record_def pax_ok_def Let_def nat_str.simps)
  then have "parse_tar decode_latin (tar_archive sample_members 0) = map entry_of_member sample_members"
    by (rule tar_roundtrip [OF latin_decodes])
  moreover have "map (entry_name \<circ> entry_of_member) sample_members =
      [''package/bin/'', ''package/a.js'', ''package/long'', ''package/deep/l'']" by code_simp
  ultimately show ?thesis by simp
qed

subsection \<open>A path out of the destination\<close>

text \<open>Nothing keeps a member's path inside the destination: its dots are resolved after the join.\<close>

lemma entry_escapes:
  "entry_path default_options (entry_of_member
     \<lparr>extended = NoExtension, kind_of = Regular, header_of = sample_header [] ''package/../../../etc/x'' 48 1 [],
      payload_of = [1]\<rparr>) = Some ''../../../etc/x''"
  "posix_join [''/p/node_modules/m'', ''../../../etc/x''] = ''/etc/x''"
  by code_simp+

subsection \<open>The pool hands out every item once\<close>

definition pool_ok :: "nat \<Rightarrow> nat \<Rightarrow> pool \<Rightarrow> bool" where
  "pool_ok items wanted p \<longleftrightarrow>
     taken_items p = [0..<min (next_item p) items] \<and> length (lanes p) = min wanted items \<and>
     (Ended \<in> set (lanes p) \<longrightarrow> items \<le> next_item p)"

lemma start_pool_ok: "pool_ok items wanted (start_pool items wanted)"
  by (simp add: pool_ok_def start_pool_def)

lemma lane_step_ok: "pool_ok items wanted p \<Longrightarrow> pool_ok items wanted (lane_step works items k p)"
  by (auto simp: pool_ok_def lane_step_def min_def upt_Suc_append split: lane_state.split dest: set_update_subset_insert [THEN subsetD])
    (metis le_antisym not_less_eq_eq)?

lemma run_lanes_ok: "pool_ok items wanted p \<Longrightarrow> pool_ok items wanted (fold (lane_step works items) ks p)"
  by (induction ks arbitrary: p) (simp_all add: lane_step_ok)

text \<open>C40: However the lanes of the install pool interleave, once every lane has ended, none by a
  rejection, the work has been given every item exactly once, in the order of the list.\<close>

theorem pool_hands_out_all:
  assumes "0 < wanted" "p = fold (lane_step works items) ks (start_pool items wanted)" "set (lanes p) \<subseteq> {Ended}"
  shows "taken_items p = [0..<items]"
proof -
  have "pool_ok items wanted p" unfolding assms(2) by (rule run_lanes_ok [OF start_pool_ok])
  then show ?thesis
    using assms(1,3) by (cases "lanes p") (auto simp: pool_ok_def min_def split: if_splits)
qed

theorem pool_hands_out_all_witness:
  "taken_items (fold (lane_step (\<lambda>i. True) 3) [0, 1, 1, 1, 0, 1, 0, 1, 0] (start_pool 3 2)) = [0..<3]"
  by (rule pool_hands_out_all [of 2, OF _ refl]) code_simp+

end
