(* ===== verification/Registry.thy ===== *)
theory Registry
  imports Paths Strings
begin

text \<open>
  \<open>src/src/npm/registry.ts\<close>: class \<open>Registry\<close>, the client that answers a package's
  manifest.  A JSON object is the list of its own members in their order, an absent one
  the empty list; a manifest has the shape its interface declares.  What the network
  answers a URL with is part of \<open>env\<close>: one reply a URL, the same whenever it is asked for
  during an install.  \<open>cache\<close> is the client's \<open>Map\<close>.  Of a call that awaits the network
  the model has what it answers and the cache it leaves.
\<close>

subsection \<open>Documents\<close>

text \<open>\<open>dist\<close> is absent, or has a \<open>tarball\<close> or none.\<close>

record version_doc =
  dependencies :: "(string \<times> string) list"
  peer_dependencies :: "(string \<times> string) list"
  peer_optional :: "(string \<times> bool) list"
  optional_dependencies :: "(string \<times> string) list"
  dist :: "string option option"

record package_manifest =
  dist_tags :: "(string \<times> string) list"
  versions :: "(string \<times> version_doc) list"

text \<open>What a lockfile recorded of a version, in either of its two hands: \<open>LockfileVersionDoc\<close>, \<open>LockfileRecord\<close>.\<close>

record lock_doc =
  lock_version :: string
  lock_resolved :: "string option"
  lock_dependencies :: "(string \<times> string) list"
  lock_peers :: "(string \<times> string) list"
  lock_peer_optional :: "(string \<times> bool) list"
  lock_optional :: "(string \<times> string) list"

text \<open>A reply's status and its JSON, where the body is some; or the request fails.\<close>

datatype 'a reply = Unreachable | Reply nat "'a option"

record env =
  registry_url :: string
  own_scopes :: "(string \<times> string) list option"
  global_scopes :: "(string \<times> string) list option"
  lockfile_manifests :: "(string \<times> lock_doc) list option"
  lockfile_pins :: "(string \<times> string) list option"
  lockfile_records :: "(string \<times> (string \<times> lock_doc) list) list option"
  fetch_version :: "string \<Rightarrow> version_doc reply"
  fetch_manifest :: "string \<Rightarrow> package_manifest reply"
  collation_of :: "string \<Rightarrow> string \<Rightarrow> int"

datatype failure = PlainFailure string | TypeFailure | NetworkFailure | JsonFailure | StackFailure

type_synonym manifest_cache = "(string \<times> package_manifest) list"

subsection \<open>Where a package is asked for\<close>

definition registry_for :: "env \<Rightarrow> string \<Rightarrow> string" where
  "registry_for env name =
     (let scopes = (case own_scopes env of Some s \<Rightarrow> Some s | None \<Rightarrow> global_scopes env)
      in case scopes of
           None \<Rightarrow> registry_url env
         | Some ss \<Rightarrow>
             (let scope = (if prefix ''@'' name \<and> slash \<in> set name then takeWhile (\<lambda>c. c \<noteq> slash) name else name)
              in case (case map_of ss scope of Some u \<Rightarrow> Some u | None \<Rightarrow> map_of ss name) of
                   None \<Rightarrow> registry_url env
                 | Some url \<Rightarrow>
                     if url = [] then registry_url env else if last url = slash then butlast url else url))"

definition encode_package_name :: "string \<Rightarrow> string" where
  "encode_package_name name =
     takeWhile (\<lambda>c. c \<noteq> slash) name @
     (case dropWhile (\<lambda>c. c \<noteq> slash) name of [] \<Rightarrow> [] | _ # r \<Rightarrow> ''%2f'' @ r)"

definition bare_name :: "string \<Rightarrow> string" where
  "bare_name name = drop (nat (last_index_of slash name + 1)) name"

definition package_url :: "env \<Rightarrow> string \<Rightarrow> string" where
  "package_url env name = registry_for env name @ ''/'' @ encode_package_name name"

definition tarball_place :: "env \<Rightarrow> string \<Rightarrow> string \<Rightarrow> string" where
  "tarball_place env name version =
     package_url env name @ ''/-/'' @ bare_name name @ ''-'' @ version @ ''.tgz''"

subsection \<open>Manifests\<close>

definition locked_manifest :: "env \<Rightarrow> string \<Rightarrow> lock_doc \<Rightarrow> package_manifest" where
  "locked_manifest env name doc =
     \<lparr>dist_tags = [(''latest'', lock_version doc)],
      versions =
        [(lock_version doc,
          \<lparr>dependencies = lock_dependencies doc, peer_dependencies = lock_peers doc,
           peer_optional = (if lock_peers doc = [] then [] else lock_peer_optional doc),
           optional_dependencies = lock_optional doc,
           dist = Some (Some (tarball_place env name (lock_version doc)))\<rparr>)]\<rparr>"

definition reply_ok :: "nat \<Rightarrow> bool" where
  "reply_ok status \<longleftrightarrow> 200 \<le> status \<and> status \<le> 299"

text \<open>The pinned version alone; \<open>Inr None\<close> where its reply will not do and the packument is asked for.\<close>

definition pinned_manifest :: "env \<Rightarrow> string \<Rightarrow> string \<Rightarrow> failure + package_manifest option" where
  "pinned_manifest env name pin =
     (case fetch_version env (package_url env name @ ''/'' @ pin) of
        Unreachable \<Rightarrow> Inl NetworkFailure
      | Reply status body \<Rightarrow>
          if reply_ok status
          then (case body of
                  None \<Rightarrow> Inl JsonFailure
                | Some d \<Rightarrow>
                    (case dist d of
                       Some (Some t) \<Rightarrow>
                         Inr (if t \<noteq> [] then Some \<lparr>dist_tags = [(''latest'', pin)], versions = [(pin, d)]\<rparr> else None)
                     | _ \<Rightarrow> Inr None))
          else Inr None)"

definition packument :: "env \<Rightarrow> string \<Rightarrow> failure + package_manifest" where
  "packument env name =
     (case fetch_manifest env (package_url env name) of
        Unreachable \<Rightarrow> Inl NetworkFailure
      | Reply status body \<Rightarrow>
          if reply_ok status
          then (case body of None \<Rightarrow> Inl JsonFailure | Some m \<Rightarrow> Inr m)
          else if status = 404 then Inl (PlainFailure (''Package not found: '' @ name))
          else Inl (PlainFailure (''Failed to fetch package '' @ name @ '': '' @ nat_str status)))"

definition get_package_manifest :: "env \<Rightarrow> string \<Rightarrow> manifest_cache \<Rightarrow> (failure + package_manifest) \<times> manifest_cache" where
  "get_package_manifest env name cache =
     (case map_of cache name of
        Some m \<Rightarrow> (Inr m, cache)
      | None \<Rightarrow>
          (case Option.bind (lockfile_manifests env) (\<lambda>ds. map_of ds name) of
             Some doc \<Rightarrow> (let m = locked_manifest env name doc in (Inr m, AList.update name m cache))
           | None \<Rightarrow>
               (case (case Option.bind (lockfile_pins env) (\<lambda>ps. map_of ps name) of
                        Some pin \<Rightarrow> pinned_manifest env name pin
                      | None \<Rightarrow> Inr None) of
                  Inl e \<Rightarrow> (Inl e, cache)
                | Inr (Some m) \<Rightarrow> (Inr m, AList.update name m cache)
                | Inr None \<Rightarrow>
                    (case packument env name of
                       Inl e \<Rightarrow> (Inl e, cache)
                     | Inr m \<Rightarrow> (Inr m, AList.update name m cache)))))"

text \<open>A tag that names a version, where the tag is not empty.\<close>

definition tagged :: "package_manifest \<Rightarrow> string \<Rightarrow> string option" where
  "tagged m tag = (case map_of (dist_tags m) tag of Some v \<Rightarrow> if v = [] then None else Some v | None \<Rightarrow> None)"

definition get_package_version ::
  "env \<Rightarrow> string \<Rightarrow> string \<Rightarrow> manifest_cache \<Rightarrow> (failure + version_doc) \<times> manifest_cache" where
  "get_package_version env name version cache =
     (case get_package_manifest env name cache of
        (Inl e, cache) \<Rightarrow> (Inl e, cache)
      | (Inr m, cache) \<Rightarrow>
          (let version = (case tagged m version of Some v \<Rightarrow> v | None \<Rightarrow> version)
           in case map_of (versions m) version of
                Some d \<Rightarrow> (Inr d, cache)
              | None \<Rightarrow> (Inl (PlainFailure (''Version '' @ version @ '' not found for package '' @ name)), cache)))"

definition get_latest_version :: "env \<Rightarrow> string \<Rightarrow> manifest_cache \<Rightarrow> (failure + string option) \<times> manifest_cache" where
  "get_latest_version env name cache =
     map_prod (map_sum id (\<lambda>m. map_of (dist_tags m) ''latest'')) id (get_package_manifest env name cache)"

definition get_versions :: "env \<Rightarrow> string \<Rightarrow> manifest_cache \<Rightarrow> (failure + string list) \<times> manifest_cache" where
  "get_versions env name cache =
     map_prod (map_sum id (\<lambda>m. map fst (versions m))) id (get_package_manifest env name cache)"

subsection \<open>What the cache changes\<close>

text \<open>The manifest of a name, asked for with nothing kept.\<close>

definition manifest_of :: "env \<Rightarrow> string \<Rightarrow> failure + package_manifest" where
  "manifest_of env name = fst (get_package_manifest env name [])"

definition cache_fits :: "env \<Rightarrow> manifest_cache \<Rightarrow> bool" where
  "cache_fits env cache \<longleftrightarrow> (\<forall>n m. map_of cache n = Some m \<longrightarrow> manifest_of env n = Inr m)"

lemma cached_manifest:
  assumes "cache_fits env cache"
  shows "fst (get_package_manifest env name cache) = manifest_of env name"
    and "cache_fits env (snd (get_package_manifest env name cache))"
proof -
  show ans: "fst (get_package_manifest env name cache) = manifest_of env name"
  proof (cases "map_of cache name")
    case None
    then show ?thesis by (auto simp: manifest_of_def get_package_manifest_def Let_def split: option.splits sum.splits)
  next
    case (Some m)
    then show ?thesis using assms by (simp add: cache_fits_def get_package_manifest_def)
  qed
  have "snd (get_package_manifest env name cache) = cache \<or>
      (\<exists>m. fst (get_package_manifest env name cache) = Inr m \<and> snd (get_package_manifest env name cache) = AList.update name m cache)"
    by (auto simp: get_package_manifest_def Let_def split: option.splits sum.splits)
  then show "cache_fits env (snd (get_package_manifest env name cache))"
    using assms ans by (auto simp: cache_fits_def update_conv' split: if_splits)
qed

fun ask_all :: "env \<Rightarrow> string list \<Rightarrow> manifest_cache \<Rightarrow> manifest_cache" where
  "ask_all env [] cache = cache"
| "ask_all env (n # ns) cache = ask_all env ns (snd (get_package_manifest env n cache))"

lemma ask_all_fits: "cache_fits env cache \<Longrightarrow> cache_fits env (ask_all env ns cache)"
  by (induction ns arbitrary: cache) (simp_all add: cached_manifest)

text \<open>Whatever was asked for before, a client answers a name's manifest as one that keeps
  nothing would.\<close>

theorem cache_changes_nothing:
  "fst (get_package_manifest env name (ask_all env asked [])) = manifest_of env name"
  by (rule cached_manifest(1) [OF ask_all_fits]) (simp add: cache_fits_def)

end
