(* ===== verification/Dependencies.thy ===== *)
theory Dependencies
  imports Registry Semver
begin

text \<open>
  \<open>src/src/npm/resolver.ts\<close>, the walk that resolves a tree: \<open>resolvePackage\<close>,
  \<open>descendInto\<close>, \<open>__browserRuntimeNest\<close>, \<open>resolveDependencies\<close> and
  \<open>resolveFromPackageJson\<close>.  The walk is many calls at once, so a call in progress is a
  \<open>task\<close>: what it awaits and, in its frames, the code that goes on after the await.  The
  code between two awaits runs as one step; which of the awaits is over next is any, and is
  chosen by a path into the task.  \<open>enter\<close> is the code of a call up to its first await, with
  the calls it makes on the way; it is a partial function, \<open>None\<close> where those calls would
  not end, and a step that needs it then fails with \<open>StackFailure\<close>.  Once a call of a
  \<open>Promise.all\<close> is rejected the others are dropped: nobody reads what they still do, since
  the rejection is passed on to the caller of the whole walk.  What
  \<open>resolveFromPackageJson\<close> fetches ahead for the lockfile's pins only fills the client's cache,
  which changes no answer, and is left out.
\<close>

subsection \<open>What is resolved\<close>

record resolved_package =
  pkg_name :: string
  pkg_version :: string
  pkg_tarball :: "string option"
  pkg_dependencies :: "(string \<times> string) list"

record resolve_options =
  include_dev :: bool
  include_optional :: bool

record resolve_context =
  resolved_tree :: "(string \<times> resolved_package) list"
  resolving_keys :: "string list"
  nested_tree :: "(string \<times> resolved_package) list option"
  root_deps :: "(string \<times> (string \<times> string) list) list option"

definition fresh_context :: resolve_context where
  "fresh_context = \<lparr>resolved_tree = [], resolving_keys = [], nested_tree = None, root_deps = None\<rparr>"

record package_request =
  req_name :: string
  req_range :: string
  req_registry :: string
  req_parent :: "string option"
  req_choose :: bool

subsection \<open>Objects of ranges\<close>

text \<open>The members of an object: its array indices by their number, then the others as they came.\<close>

definition index_name :: "string \<Rightarrow> bool" where
  "index_name s \<longleftrightarrow> s \<noteq> [] \<and> list_all is_digit s \<and> (s = ''0'' \<or> hd s \<noteq> CHR ''0'') \<and> decimal s < 4294967295"

definition own_entries :: "(string \<times> string) list \<Rightarrow> (string \<times> string) list" where
  "own_entries xs =
     sort_key (\<lambda>(n, _). decimal n) (filter (\<lambda>(n, _). index_name n) xs) @ filter (\<lambda>(n, _). \<not> index_name n) xs"

definition assign :: "(string \<times> string) list \<Rightarrow> (string \<times> string) list \<Rightarrow> (string \<times> string) list" where
  "assign xs ys = fold (\<lambda>(n, r). AList.update n r) ys xs"

text \<open>Peers that are not optional, over them the dependencies, over both the optional ones where wanted.\<close>

definition wanted_deps ::
  "bool \<Rightarrow> (string \<times> string) list \<Rightarrow> (string \<times> bool) list \<Rightarrow> (string \<times> string) list \<Rightarrow> (string \<times> string) list \<Rightarrow>
   (string \<times> string) list" where
  "wanted_deps with_optional peers optional_peers deps optional_deps =
     (let ds = assign (filter (\<lambda>(n, _). map_of optional_peers n \<noteq> Some True) peers) deps
      in own_entries (if with_optional then assign ds optional_deps else ds))"

definition version_deps :: "resolve_options \<Rightarrow> version_doc \<Rightarrow> (string \<times> string) list" where
  "version_deps opts d =
     wanted_deps (include_optional opts) (peer_dependencies d) (peer_optional d) (dependencies d) (optional_dependencies d)"

definition lock_deps :: "resolve_options \<Rightarrow> lock_doc \<Rightarrow> (string \<times> string) list" where
  "lock_deps opts d =
     wanted_deps (include_optional opts) (lock_peers d) (lock_peer_optional d) (lock_dependencies d) (lock_optional d)"

subsection \<open>Requests\<close>

definition split_alias :: "string \<Rightarrow> string \<Rightarrow> string \<times> string" where
  "split_alias name rng =
     (if prefix ''npm:'' rng
      then (let spec = drop 4 rng; at_sign = last_index_of (CHR ''@'') spec
            in if 0 < at_sign then (take (nat at_sign) spec, drop (nat at_sign + 1) spec) else (spec, ''latest''))
      else (name, rng))"

definition request_of :: "string \<Rightarrow> string \<Rightarrow> string option \<Rightarrow> bool \<Rightarrow> package_request" where
  "request_of name rng parent first =
     (let (reg, rng) = split_alias name rng
      in \<lparr>req_name = name, req_range = rng, req_registry = reg, req_parent = parent, req_choose = first\<rparr>)"

definition req_key :: "package_request \<Rightarrow> string" where
  "req_key r = req_name r @ ''@'' @ req_range r"

definition hold_key :: "string \<Rightarrow> resolve_context \<Rightarrow> resolve_context" where
  "hold_key k c = c\<lparr>resolving_keys := List.insert k (resolving_keys c)\<rparr>"

definition leave_key :: "string \<Rightarrow> resolve_context \<Rightarrow> resolve_context" where
  "leave_key k c = c\<lparr>resolving_keys := removeAll k (resolving_keys c)\<rparr>"

subsection \<open>A version of its own for a dependent\<close>

fun filter_opt :: "('a \<Rightarrow> bool option) \<Rightarrow> 'a list \<Rightarrow> 'a list option" where
  "filter_opt f [] = Some []"
| "filter_opt f (x # xs) = Option.bind (f x) (\<lambda>b. map_option (\<lambda>ys. if b then x # ys else ys) (filter_opt f xs))"

text \<open>The greatest recorded version the range allows; \<open>Some None\<close> where there is none.\<close>

definition recorded_choice :: "env \<Rightarrow> string \<Rightarrow> string \<Rightarrow> (string \<times> lock_doc) option option" where
  "recorded_choice env name rng =
     (case Option.bind (lockfile_records env) (\<lambda>rs. map_of rs name) of
        None \<Rightarrow> Some None
      | Some vs \<Rightarrow>
          map_option (\<lambda>cands.
            case sort_versions (collation_of env) cands of
              [] \<Rightarrow> None
            | v # _ \<Rightarrow> if v = [] then None else map_option (Pair v) (map_of vs v))
            (filter_opt (\<lambda>v. satisfies (collation_of env) v rng) (map fst vs)))"

definition nested_place :: "string option \<Rightarrow> string \<Rightarrow> string" where
  "nested_place parent name = (case parent of Some p \<Rightarrow> if p = [] then name else p @ ''/node_modules/'' @ name | None \<Rightarrow> name)"

definition nested_package :: "env \<Rightarrow> string \<Rightarrow> string \<Rightarrow> string \<Rightarrow> lock_doc \<Rightarrow> resolved_package" where
  "nested_package env name registry_name version doc =
     \<lparr>pkg_name = name, pkg_version = version,
      pkg_tarball = Some (case lock_resolved doc of
         Some u \<Rightarrow> if u \<noteq> [] then u else tarball_place env registry_name version
       | None \<Rightarrow> tarball_place env registry_name version),
      pkg_dependencies = lock_dependencies doc\<rparr>"

subsection \<open>Calls and tasks\<close>

datatype call =
    Package string string "string option" bool
  | Nested string string "string option" string

datatype frame =
    NextBatch string "(string \<times> string) list"
  | NextDep string "(string \<times> string) list"
  | ThenNest package_request string
  | Leave string
  | NextChoose "(string \<times> string) list" "(string \<times> string) list"
  | NextDescend "(string \<times> string) list"

datatype task =
    Settled
  | Thrown failure
  | Fetching package_request
  | Joined "task list"
  | Awaiting task frame

text \<open>
  \<open>resolvePackage\<close> (without the second phase) and \<open>__browserRuntimeNest\<close>, up to the first
  await that waits: a name the tree has is nested where its version will not do; a nested
  version asks for its first dependency at once.
\<close>

partial_function (option) enter ::
  "env \<Rightarrow> resolve_options \<Rightarrow> call \<Rightarrow> resolve_context \<Rightarrow> (task \<times> resolve_context) option" where
  "enter env opts what c =
     (case what of
        Package name rng parent first \<Rightarrow>
          (let r = request_of name rng parent first
           in if req_key r \<in> set (resolving_keys c) then Some (Settled, c)
              else case map_of (resolved_tree c) name of
                     Some existing \<Rightarrow>
                       Option.bind (satisfies (collation_of env) (pkg_version existing) (req_range r)) (\<lambda>b.
                         if b then Some (Settled, c)
                         else enter env opts (Nested name (req_range r) parent (req_registry r)) c)
                   | None \<Rightarrow> Some (Fetching r, hold_key (req_key r) c))
      | Nested name rng parent reg \<Rightarrow>
          Option.bind (recorded_choice env name rng) (\<lambda>choice.
            case choice of
              None \<Rightarrow> Some (Settled, c)
            | Some (v, doc) \<Rightarrow>
                (let place = nested_place parent name;
                     tree = (case nested_tree c of Some t \<Rightarrow> t | None \<Rightarrow> []);
                     c = c\<lparr>nested_tree := Some tree\<rparr>
                 in if map_of tree place \<noteq> None \<or> place \<in> set (resolving_keys c) then Some (Settled, c)
                    else let c = (hold_key place c)\<lparr>nested_tree := Some (AList.update place (nested_package env name reg v doc) tree)\<rparr>
                         in case lock_deps opts doc of
                              [] \<Rightarrow> Some (Settled, leave_key place c)
                            | (d, dr) # ds \<Rightarrow>
                                Option.bind (enter env opts (Package d dr (Some place) False) c) (\<lambda>(t, c).
                                  Some (Awaiting (Awaiting t (NextDep place ds)) (Leave place), c)))))"

subsection \<open>Descending\<close>

fun enter_all ::
  "env \<Rightarrow> resolve_options \<Rightarrow> string \<Rightarrow> (string \<times> string) list \<Rightarrow> resolve_context \<Rightarrow> (task list \<times> resolve_context) option" where
  "enter_all env opts parent [] c = Some ([], c)"
| "enter_all env opts parent ((d, dr) # ds) c =
     Option.bind (enter env opts (Package d dr (Some parent) False) c) (\<lambda>(t, c).
       map_option (\<lambda>(ts, c). (t # ts, c)) (enter_all env opts parent ds c))"

text \<open>\<open>descendInto\<close>: eight at a time.\<close>

definition descend_into ::
  "env \<Rightarrow> resolve_options \<Rightarrow> string \<Rightarrow> (string \<times> string) list \<Rightarrow> resolve_context \<Rightarrow> (task \<times> resolve_context) option" where
  "descend_into env opts parent ds c =
     (if ds = [] then Some (Settled, c)
      else map_option (\<lambda>(ts, c). (Awaiting (Joined ts) (NextBatch parent (drop 8 ds)), c))
             (enter_all env opts parent (take 8 ds) c))"

text \<open>The second pass over one root dependency, and over those that are left.\<close>

definition descend_root ::
  "env \<Rightarrow> resolve_options \<Rightarrow> string \<Rightarrow> resolve_context \<Rightarrow> (task \<times> resolve_context) option" where
  "descend_root env opts name c =
     (case Option.bind (root_deps c) (\<lambda>ds. map_of ds name) of
        None \<Rightarrow> Some (Settled, c)
      | Some deps \<Rightarrow> descend_into env opts name deps (c\<lparr>root_deps := map_option (AList.delete name) (root_deps c)\<rparr>))"

fun descend_roots ::
  "env \<Rightarrow> resolve_options \<Rightarrow> (string \<times> string) list \<Rightarrow> resolve_context \<Rightarrow> (task \<times> resolve_context) option" where
  "descend_roots env opts [] c = Some (Settled, c)"
| "descend_roots env opts ((n, _) # ds) c =
     map_option (\<lambda>(t, c). (Awaiting t (NextDescend ds), c)) (descend_root env opts n c)"

fun choose_roots ::
  "env \<Rightarrow> resolve_options \<Rightarrow> (string \<times> string) list \<Rightarrow> (string \<times> string) list \<Rightarrow> resolve_context \<Rightarrow>
   (task \<times> resolve_context) option" where
  "choose_roots env opts [] every c = descend_roots env opts every c"
| "choose_roots env opts ((n, r) # ds) every c =
     map_option (\<lambda>(t, c). (Awaiting t (NextChoose ds every), c)) (enter env opts (Package n r None True) c)"

subsection \<open>A manifest arrives\<close>

definition target_version :: "env \<Rightarrow> package_request \<Rightarrow> package_manifest \<Rightarrow> (failure + string) option" where
  "target_version env r m =
     (if req_range r = ''latest'' \<or> req_range r = ''*''
      then Some (case map_of (dist_tags m) ''latest'' of Some v \<Rightarrow> Inr v | None \<Rightarrow> Inl TypeFailure)
      else case tagged m (req_range r) of
             Some v \<Rightarrow> Some (Inr v)
           | None \<Rightarrow>
               map_option (\<lambda>best. case best of
                   Some v \<Rightarrow> Inr v
                 | None \<Rightarrow> Inl (PlainFailure (''No matching version found for '' @ req_name r @ ''@'' @ req_range r)))
                 (find_best_version (collation_of env) (map fst (versions m)) (req_range r)))"

definition record_package :: "package_request \<Rightarrow> string \<Rightarrow> version_doc \<Rightarrow> string option \<Rightarrow> resolve_context \<Rightarrow> resolve_context" where
  "record_package r v d tarball c =
     c\<lparr>resolved_tree := AList.update (req_name r)
         \<lparr>pkg_name = req_name r, pkg_version = v, pkg_tarball = tarball, pkg_dependencies = dependencies d\<rparr>
         (resolved_tree c)\<rparr>"

definition choose_root :: "package_request \<Rightarrow> (string \<times> string) list \<Rightarrow> resolve_context \<Rightarrow> resolve_context" where
  "choose_root r deps c = c\<lparr>root_deps := map_option (AList.update (req_name r) deps) (root_deps c)\<rparr>"

text \<open>The version the lockfile pins, where the manifest has it.\<close>

definition pinned_version :: "env \<Rightarrow> package_request \<Rightarrow> package_manifest \<Rightarrow> (string \<times> version_doc) option" where
  "pinned_version env r m =
     Option.bind (Option.bind (lockfile_pins env) (\<lambda>ps. map_of ps (req_registry r))) (\<lambda>pin.
       map_option (Pair pin) (map_of (versions m) pin))"

definition nest_unless ::
  "env \<Rightarrow> resolve_options \<Rightarrow> package_request \<Rightarrow> string \<Rightarrow> resolve_context \<Rightarrow> (task \<times> resolve_context) option" where
  "nest_unless env opts r pin c =
     Option.bind (satisfies (collation_of env) pin (req_range r)) (\<lambda>b.
       if b then Some (Settled, c)
       else enter env opts (Nested (req_name r) (req_range r) (req_parent r) (req_registry r)) c)"

definition arrive_pinned ::
  "env \<Rightarrow> resolve_options \<Rightarrow> package_request \<Rightarrow> string \<Rightarrow> version_doc \<Rightarrow> resolve_context \<Rightarrow> (task \<times> resolve_context) option" where
  "arrive_pinned env opts r pin d c =
     (case dist d of
        None \<Rightarrow> Some (Thrown TypeFailure, leave_key (req_key r) c)
      | Some tarball \<Rightarrow>
          (let c = record_package r pin d tarball c; deps = version_deps opts d
           in if req_choose r
              then map_option (\<lambda>(t, c). (Awaiting t (Leave (req_key r)), c)) (nest_unless env opts r pin (choose_root r deps c))
              else map_option (\<lambda>(t, c). (Awaiting (Awaiting t (ThenNest r pin)) (Leave (req_key r)), c))
                     (descend_into env opts (req_name r) deps c)))"

definition arrive_chosen ::
  "env \<Rightarrow> resolve_options \<Rightarrow> package_request \<Rightarrow> package_manifest \<Rightarrow> string \<Rightarrow> resolve_context \<Rightarrow> (task \<times> resolve_context) option" where
  "arrive_chosen env opts r m v c =
     (case Option.bind (map_of (versions m) v) (\<lambda>d. map_option (Pair d) (dist d)) of
        None \<Rightarrow> Some (Thrown TypeFailure, leave_key (req_key r) c)
      | Some (d, tarball) \<Rightarrow>
          (let c = record_package r v d tarball c; deps = version_deps opts d
           in if req_choose r then Some (Settled, leave_key (req_key r) (choose_root r deps c))
              else map_option (\<lambda>(t, c). (Awaiting t (Leave (req_key r)), c)) (descend_into env opts (req_name r) deps c)))"

definition arrive ::
  "env \<Rightarrow> resolve_options \<Rightarrow> package_request \<Rightarrow> resolve_context \<Rightarrow> (task \<times> resolve_context) option" where
  "arrive env opts r c =
     (case manifest_of env (req_registry r) of
        Inl e \<Rightarrow> Some (Thrown e, leave_key (req_key r) c)
      | Inr m \<Rightarrow>
          (case pinned_version env r m of
             Some (pin, d) \<Rightarrow> arrive_pinned env opts r pin d c
           | None \<Rightarrow>
               Option.bind (target_version env r m) (\<lambda>target.
                 case target of
                   Inl e \<Rightarrow> Some (Thrown e, leave_key (req_key r) c)
                 | Inr v \<Rightarrow> arrive_chosen env opts r m v c)))"

subsection \<open>Steps\<close>

definition resume ::
  "env \<Rightarrow> resolve_options \<Rightarrow> frame \<Rightarrow> resolve_context \<Rightarrow> (task \<times> resolve_context) option" where
  "resume env opts f c =
     (case f of
        NextBatch parent ds \<Rightarrow> descend_into env opts parent ds c
      | NextDep place [] \<Rightarrow> Some (Settled, c)
      | NextDep place ((d, dr) # ds) \<Rightarrow>
          map_option (\<lambda>(t, c). (Awaiting t (NextDep place ds), c)) (enter env opts (Package d dr (Some place) False) c)
      | ThenNest r pin \<Rightarrow> nest_unless env opts r pin c
      | Leave k \<Rightarrow> Some (Settled, leave_key k c)
      | NextChoose ds every \<Rightarrow> choose_roots env opts ds every c
      | NextDescend ds \<Rightarrow> descend_roots env opts ds c)"

definition overflowing :: "resolve_context \<Rightarrow> (task \<times> resolve_context) option \<Rightarrow> task \<times> resolve_context" where
  "overflowing c x = (case x of Some tc \<Rightarrow> tc | None \<Rightarrow> (Thrown StackFailure, c))"

text \<open>A rejection passes a frame; of the frames only \<open>finally\<close> has anything to do.\<close>

definition pass_frame :: "frame \<Rightarrow> resolve_context \<Rightarrow> resolve_context" where
  "pass_frame f c = (case f of Leave k \<Rightarrow> leave_key k c | _ \<Rightarrow> c)"

definition first_thrown :: "task list \<Rightarrow> failure option" where
  "first_thrown ts = (case filter (\<lambda>t. case t of Thrown e \<Rightarrow> True | _ \<Rightarrow> False) ts of Thrown e # _ \<Rightarrow> Some e | _ \<Rightarrow> None)"

definition join_tasks :: "task list \<Rightarrow> task" where
  "join_tasks ts =
     (case first_thrown ts of
        Some e \<Rightarrow> Thrown e
      | None \<Rightarrow> if list_all (\<lambda>t. t = Settled) ts then Settled else Joined ts)"

text \<open>One step where the path leads: its numbers choose among the calls of each \<open>Promise.all\<close>.\<close>

fun step_at ::
  "env \<Rightarrow> resolve_options \<Rightarrow> nat list \<Rightarrow> task \<Rightarrow> resolve_context \<Rightarrow> task \<times> resolve_context" where
  "step_at env opts (i # p) (Joined ts) c =
     (if i < length ts then (let (t, c) = step_at env opts p (ts ! i) c in (Joined (ts[i := t]), c)) else (Joined ts, c))"
| "step_at env opts [] (Joined ts) c = (join_tasks ts, c)"
| "step_at env opts p (Awaiting Settled f) c = overflowing c (resume env opts f c)"
| "step_at env opts p (Awaiting (Thrown e) f) c = (Thrown e, pass_frame f c)"
| "step_at env opts p (Awaiting t f) c = (let (t, c) = step_at env opts p t c in (Awaiting t f, c))"
| "step_at env opts p (Fetching r) c = overflowing c (arrive env opts r c)"
| "step_at env opts p t c = (t, c)"

fun run_walk ::
  "env \<Rightarrow> resolve_options \<Rightarrow> nat list list \<Rightarrow> task \<times> resolve_context \<Rightarrow> task \<times> resolve_context" where
  "run_walk env opts [] tc = tc"
| "run_walk env opts (p # ps) tc = run_walk env opts ps (step_at env opts p (fst tc) (snd tc))"

subsection \<open>The two ways in\<close>

definition resolve_dependencies :: "env \<Rightarrow> resolve_options \<Rightarrow> string \<Rightarrow> string \<Rightarrow> task \<times> resolve_context" where
  "resolve_dependencies env opts name rng =
     overflowing fresh_context (enter env opts (Package name rng None False) fresh_context)"

definition resolve_from_package_json ::
  "env \<Rightarrow> resolve_options \<Rightarrow> (string \<times> string) list \<Rightarrow> (string \<times> string) list \<Rightarrow> task \<times> resolve_context" where
  "resolve_from_package_json env opts deps dev_deps =
     (let ds = own_entries (if include_dev opts then assign deps dev_deps else deps);
          c = fresh_context\<lparr>root_deps := Some []\<rparr>
      in overflowing c (choose_roots env opts ds ds c))"

end
