(* ===== verification/DependenciesSteps.thy ===== *)
theory DependenciesSteps
  imports Dependencies
begin

text \<open>
  What one step of the resolver's walk does to the names it is going to resolve.  A call that
  finds its key in \<open>resolving\<close> returns at once and leaves the name to the call that holds the
  key; there always is one, if the keys of different names are different, and so if names are
  as npm has them.
\<close>

subsection \<open>Names and keys\<close>

definition plain_name :: "string \<Rightarrow> bool" where
  "plain_name n \<longleftrightarrow> n \<noteq> [] \<and> CHR ''@'' \<notin> set (tl n) \<and> length (filter (\<lambda>c. c = slash) n) \<le> 1"

definition is_place :: "string \<Rightarrow> bool" where
  "is_place p \<longleftrightarrow> (\<exists>n. plain_name n \<and> (p = n \<or> (\<exists>q. p = n @ ''/node_modules/'' @ q)))"

lemma take_to: "c \<notin> set xs \<Longrightarrow> takeWhile (\<lambda>x. x \<noteq> c) (xs @ ys) = xs @ takeWhile (\<lambda>x. x \<noteq> c) ys"
  by (induction xs) auto

lemma key_name: "plain_name n \<Longrightarrow> takeWhile (\<lambda>c. c \<noteq> CHR ''@'') (tl (n @ CHR ''@'' # r)) = tl n"
  by (cases n) (simp_all add: plain_name_def take_to)

lemma key_inj:
  assumes "req_key r = req_key s" "plain_name (req_name r)" "plain_name (req_name s)"
  shows "req_name r = req_name s"
proof -
  have "tl (req_name r) = tl (req_name s)"
    using key_name [OF assms(2), of "req_range r"] key_name [OF assms(3), of "req_range s"] assms(1)
    by (simp add: req_key_def)
  moreover have "hd (req_name r) = hd (req_name s)"
    using arg_cong [OF assms(1), of hd] assms(2,3) by (simp add: req_key_def plain_name_def hd_append)
  ultimately show ?thesis using assms(2,3) by (simp add: plain_name_def list.expand)
qed

lemma place_not_key:
  assumes "is_place p" "plain_name (req_name r)"
  shows "req_key r \<noteq> p"
proof
  assume k: "req_key r = p"
  let ?f = "\<lambda>s. takeWhile (\<lambda>c. c \<noteq> CHR ''@'') (tl s)"
  have f: "?f p = tl (req_name r)" using key_name [OF assms(2), of "req_range r"] k by (simp add: req_key_def)
  have at_sign: "CHR ''@'' \<in> set (tl p)"
    using k assms(2) by (cases "req_name r") (auto simp: req_key_def plain_name_def)
  obtain n where n: "plain_name n" "p = n \<or> (\<exists>q. p = n @ ''/node_modules/'' @ q)" using assms(1) by (auto simp: is_place_def)
  from n(2) show False
  proof
    assume "p = n"
    then show False using at_sign n(1) by (simp add: plain_name_def)
  next
    assume "\<exists>q. p = n @ ''/node_modules/'' @ q"
    then obtain q where q: "p = n @ ''/node_modules/'' @ q" by blast
    then have "tl p = (tl n @ ''/node_modules/'') @ q" using n(1) by (cases n) (simp_all add: plain_name_def)
    moreover have "CHR ''@'' \<notin> set (tl n @ ''/node_modules/'')" using n(1) by (simp add: plain_name_def)
    ultimately have "?f p = (tl n @ ''/node_modules/'') @ takeWhile (\<lambda>c. c \<noteq> CHR ''@'') q"
      by (simp only: take_to not_False_eq_True)
    then have "tl (req_name r) = tl n @ ''/node_modules/'' @ takeWhile (\<lambda>c. c \<noteq> CHR ''@'') q" using f by simp
    then have "2 \<le> length (filter (\<lambda>c. c = slash) (tl (req_name r)))" by simp
    then show False using assms(2) by (cases "req_name r") (simp_all add: plain_name_def split: if_splits)
  qed
qed

lemma below_is_place: "is_place p \<Longrightarrow> is_place (p @ ''/node_modules/'' @ q)"
  unfolding is_place_def by (metis append.assoc)

lemma plain_is_place: "plain_name n \<Longrightarrow> is_place n"
  by (auto simp: is_place_def)

lemma nested_is_place: "plain_name n \<Longrightarrow> (\<forall>p. parent = Some p \<longrightarrow> is_place p) \<Longrightarrow> is_place (nested_place parent n)"
  unfolding nested_place_def by (cases parent) (simp_all only: option.case if_split option.inject below_is_place plain_is_place, blast+)

definition plain_deps :: "(string \<times> string) list \<Rightarrow> bool" where
  "plain_deps ds \<longleftrightarrow> (\<forall>n \<in> fst ` set ds. plain_name n)"

lemma plain_deps_simps [simp]:
  "plain_deps []" "plain_deps ((n, r) # ds) \<longleftrightarrow> plain_name n \<and> plain_deps ds"
  by (auto simp: plain_deps_def)

lemma plain_deps_part: "plain_deps ds \<Longrightarrow> plain_deps (take k ds)" "plain_deps ds \<Longrightarrow> plain_deps (drop k ds)"
  by (auto simp: plain_deps_def dest: in_set_takeD in_set_dropD)

text \<open>Every name a document of the registry or of the lockfile depends on.\<close>

definition plain_world :: "env \<Rightarrow> bool" where
  "plain_world env \<longleftrightarrow>
     (\<forall>reg m v d. manifest_of env reg = Inr m \<longrightarrow> (v, d) \<in> set (versions m) \<longrightarrow>
        plain_deps (dependencies d) \<and> plain_deps (peer_dependencies d) \<and> plain_deps (optional_dependencies d)) \<and>
     (\<forall>rs name vs v d. lockfile_records env = Some rs \<longrightarrow> map_of rs name = Some vs \<longrightarrow> (v, d) \<in> set vs \<longrightarrow>
        plain_deps (lock_dependencies d) \<and> plain_deps (lock_peers d) \<and> plain_deps (lock_optional d))"

lemma names_assign: "fst ` set (assign xs ys) = fst ` set xs \<union> fst ` set ys"
proof (induction ys arbitrary: xs)
  case (Cons y ys)
  have "assign xs (y # ys) = assign (AList.update (fst y) (snd y) xs) ys" by (simp add: assign_def case_prod_unfold)
  then show ?case using Cons by (simp add: dom_update)
qed (simp add: assign_def)

lemma names_own: "fst ` set (own_entries xs) = fst ` set xs"
  by (auto simp: own_entries_def)

lemma names_wanted:
  "fst ` set ds \<subseteq> fst ` set (wanted_deps b ps os ds xs)"
  "fst ` set (wanted_deps b ps os ds xs) \<subseteq> fst ` set ps \<union> fst ` set ds \<union> fst ` set xs"
  unfolding wanted_deps_def Let_def names_own by (auto simp: names_assign)

lemma plain_wanted: "plain_deps ps \<Longrightarrow> plain_deps ds \<Longrightarrow> plain_deps xs \<Longrightarrow> plain_deps (wanted_deps b ps os ds xs)"
proof -
  assume p: "plain_deps ps" "plain_deps ds" "plain_deps xs"
  show "plain_deps (wanted_deps b ps os ds xs)"
    unfolding plain_deps_def
  proof
    fix n assume "n \<in> fst ` set (wanted_deps b ps os ds xs)"
    then have "n \<in> fst ` set ps \<union> fst ` set ds \<union> fst ` set xs" by (rule subsetD [OF names_wanted(2)])
    then consider "n \<in> fst ` set ps" | "n \<in> fst ` set ds" | "n \<in> fst ` set xs" by (elim UnE)
    then show "plain_name n" using p [unfolded plain_deps_def] by cases (erule (1) bspec)+
  qed
qed

lemma plain_version_deps:
  assumes "plain_world env" "manifest_of env reg = Inr m" "map_of (versions m) v = Some d"
  shows "plain_deps (version_deps opts d)"
proof -
  have "(v, d) \<in> set (versions m)" using assms(3) by (rule map_of_SomeD)
  note p = conjunct1 [OF assms(1) [unfolded plain_world_def], THEN spec, THEN spec, THEN spec, THEN spec, THEN mp, OF assms(2), THEN mp, OF this]
  show ?thesis unfolding version_deps_def
    by (rule plain_wanted [OF conjunct1 [OF conjunct2 [OF p]] conjunct1 [OF p] conjunct2 [OF conjunct2 [OF p]]])
qed

lemma recorded_doc:
  assumes "recorded_choice env name rng = Some (Some (v, doc))"
  shows "\<exists>rs vs. lockfile_records env = Some rs \<and> map_of rs name = Some vs \<and> (v, doc) \<in> set vs"
proof -
  let ?cases = "\<lambda>vs cands. case sort_versions (collation_of env) cands of
    [] \<Rightarrow> None | w # _ \<Rightarrow> if w = [] then None else map_option (Pair w) (map_of vs w)"
  obtain rs vs cands where rs: "lockfile_records env = Some rs" "map_of rs name = Some vs" "?cases vs cands = Some (v, doc)"
  proof -
    obtain rs vs where "lockfile_records env = Some rs" "map_of rs name = Some vs"
      using assms by (cases "lockfile_records env"; simp add: recorded_choice_def split: option.splits)
    moreover from this obtain cands where "?cases vs cands = Some (v, doc)"
      using assms by (simp add: recorded_choice_def) blast
    ultimately show thesis by (rule that)
  qed
  have "map_of vs v = Some doc"
    using rs(3) by (cases "sort_versions (collation_of env) cands") (simp_all split: if_splits)
  then have "(v, doc) \<in> set vs" by (rule map_of_SomeD)
  then show ?thesis using rs(1,2) by (intro exI conjI)
qed

lemma plain_lock_deps:
  assumes "plain_world env" "recorded_choice env name rng = Some (Some (v, doc))"
  shows "plain_deps (lock_deps opts doc)"
proof -
  obtain rs vs where r: "lockfile_records env = Some rs" "map_of rs name = Some vs" "(v, doc) \<in> set vs"
    using recorded_doc [OF assms(2)] by blast
  then have "plain_deps (lock_dependencies doc)" "plain_deps (lock_peers doc)" "plain_deps (lock_optional doc)"
    using conjunct2 [OF assms(1) [unfolded plain_world_def], rule_format, OF r] by simp_all
  then show ?thesis unfolding lock_deps_def by (intro plain_wanted)
qed

subsection \<open>What a task is still going to resolve\<close>

fun fetched :: "task \<Rightarrow> string set" where
  "fetched Settled = {}"
| "fetched (Thrown e) = {}"
| "fetched (Fetching r) = {req_name r}"
| "fetched (Joined ts) = \<Union> (set (map fetched ts))"
| "fetched (Awaiting t f) = fetched t"

fun frame_names :: "frame \<Rightarrow> string set" where
  "frame_names (NextBatch p ds) = fst ` set ds"
| "frame_names (NextDep p ds) = fst ` set ds"
| "frame_names (NextChoose ds every) = fst ` set ds"
| "frame_names f = {}"

fun pending_names :: "task \<Rightarrow> string set" where
  "pending_names (Fetching r) = {req_name r}"
| "pending_names (Joined ts) = \<Union> (set (map pending_names ts))"
| "pending_names (Awaiting t f) = pending_names t \<union> frame_names f"
| "pending_names t = {}"

fun failing :: "task \<Rightarrow> bool" where
  "failing (Thrown e) = True"
| "failing (Joined ts) = list_ex failing ts"
| "failing (Awaiting t f) = failing t"
| "failing t = False"

text \<open>A task within the walk: not a choice of the root's, and its names and places are such.\<close>

fun quiet_frame :: "frame \<Rightarrow> bool" where
  "quiet_frame (NextBatch p ds) \<longleftrightarrow> is_place p \<and> plain_deps ds"
| "quiet_frame (NextDep p ds) \<longleftrightarrow> is_place p \<and> plain_deps ds"
| "quiet_frame (ThenNest r pin) \<longleftrightarrow> plain_name (req_name r) \<and> (\<forall>p. req_parent r = Some p \<longrightarrow> is_place p)"
| "quiet_frame (Leave k) \<longleftrightarrow> True"
| "quiet_frame f \<longleftrightarrow> False"

definition plain_request :: "package_request \<Rightarrow> bool" where
  "plain_request r \<longleftrightarrow> plain_name (req_name r) \<and> (\<forall>p. req_parent r = Some p \<longrightarrow> is_place p)"

fun quiet :: "task \<Rightarrow> bool" where
  "quiet (Fetching r) \<longleftrightarrow> plain_request r \<and> \<not> req_choose r"
| "quiet (Joined ts) \<longleftrightarrow> list_all quiet ts"
| "quiet (Awaiting t f) \<longleftrightarrow> quiet t \<and> quiet_frame f"
| "quiet t \<longleftrightarrow> True"

lemma fetched_pending: "fetched t \<subseteq> pending_names t"
  by (induction t) auto

definition tree_names :: "resolve_context \<Rightarrow> string set" where
  "tree_names c = fst ` set (resolved_tree c)"

definition packages :: "resolve_context \<Rightarrow> resolved_package set" where
  "packages c = snd ` set (resolved_tree c) \<union> (case nested_tree c of Some t \<Rightarrow> snd ` set t | None \<Rightarrow> {})"

definition held_names :: "resolve_context \<Rightarrow> string set" where
  "held_names c = {n. plain_name n \<and> (\<exists>rng. n @ ''@'' @ rng \<in> set (resolving_keys c))}"

abbreviation package_names :: "resolved_package \<Rightarrow> string set" where
  "package_names p \<equiv> fst ` set (pkg_dependencies p)"

text \<open>
  From \<open>c\<close> to \<open>c'\<close>, with \<open>N\<close> pending after it and \<open>G\<close> in flight: of the names \<open>F\<close> in flight
  and \<open>D\<close> pending before it none is lost, nor a dependency of a new package, but to those who
  held their keys before.
\<close>

definition moves :: "string set \<Rightarrow> string set \<Rightarrow> resolve_context \<Rightarrow> string set \<Rightarrow> string set \<Rightarrow> resolve_context \<Rightarrow> bool" where
  "moves D F c N G c' \<longleftrightarrow>
     tree_names c \<subseteq> tree_names c' \<and> F \<subseteq> tree_names c' \<union> G \<and> D \<subseteq> tree_names c' \<union> N \<union> held_names c \<and>
     held_names c' \<subseteq> held_names c \<union> tree_names c' \<union> G \<and>
     (\<forall>p \<in> packages c' - packages c. package_names p \<subseteq> tree_names c' \<union> N \<union> held_names c) \<and>
     root_deps c' = root_deps c"

lemma moves_refl: "moves {} {} c {} {} c"
  by (simp add: moves_def)

lemma movesI:
  "tree_names c \<subseteq> tree_names c' \<Longrightarrow> F \<subseteq> tree_names c' \<union> G \<Longrightarrow> D \<subseteq> tree_names c' \<union> N \<union> held_names c \<Longrightarrow>
   held_names c' \<subseteq> held_names c \<union> tree_names c' \<union> G \<Longrightarrow>
   (\<And>p. p \<in> packages c' \<Longrightarrow> p \<in> packages c \<or> package_names p \<subseteq> tree_names c' \<union> N \<union> held_names c) \<Longrightarrow>
   root_deps c' = root_deps c \<Longrightarrow> moves D F c N G c'"
  by (simp add: moves_def) blast

lemma movesD:
  assumes "moves D F c N G c'"
  shows "tree_names c \<subseteq> tree_names c'" "F \<subseteq> tree_names c' \<union> G" "D \<subseteq> tree_names c' \<union> N \<union> held_names c"
    and "held_names c' \<subseteq> held_names c \<union> tree_names c' \<union> G" "root_deps c' = root_deps c"
    and "p \<in> packages c' \<Longrightarrow> p \<in> packages c \<or> package_names p \<subseteq> tree_names c' \<union> N \<union> held_names c"
  using assms by (simp_all add: moves_def) blast

lemma moves_trans:
  assumes m: "moves D F c N G c1" and m': "moves D' F' c1 N' G' c2" and "G \<subseteq> N"
  shows "moves (D \<union> D') (F \<union> F') c (N \<union> N') (G \<union> G') c2"
proof (rule movesI)
  note a = movesD [OF m] and b = movesD [OF m']
  show "tree_names c \<subseteq> tree_names c2" using a(1) b(1) by blast
  show "F \<union> F' \<subseteq> tree_names c2 \<union> (G \<union> G')" using a(2) b(1,2) by blast
  show "D \<union> D' \<subseteq> tree_names c2 \<union> (N \<union> N') \<union> held_names c" using a(3,4) b(1,3) \<open>G \<subseteq> N\<close> by blast
  show "held_names c2 \<subseteq> held_names c \<union> tree_names c2 \<union> (G \<union> G')" using a(4) b(1,4) by blast
  show "root_deps c2 = root_deps c" using a(5) b(5) by simp
  show "p \<in> packages c \<or> package_names p \<subseteq> tree_names c2 \<union> (N \<union> N') \<union> held_names c" if "p \<in> packages c2" for p
    using a(6) [of p] b(6) [OF that] a(4) b(1) \<open>G \<subseteq> N\<close> by blast
qed

lemma moves_more:
  assumes "moves D F c N G c'"
  shows "moves (D \<union> X) (F \<union> Y) c (N \<union> X) (G \<union> Y) c'"
  using movesD(1-5) [OF assms] by (intro movesI) (blast dest: movesD(6) [OF assms])+

lemma moves_weaken:
  assumes "moves D F c N G c'" "D' \<subseteq> D" "F' \<subseteq> F" "N \<subseteq> N'" "G \<subseteq> G'"
  shows "moves D' F' c N' G' c'"
  using movesD(1-5) [OF assms(1)] assms(2-5) by (intro movesI) (blast dest: movesD(6) [OF assms(1)])+

subsection \<open>The context's operations\<close>

lemma update_subset: "set (AList.update k v xs) \<subseteq> insert (k, v) (set xs)"
  by (induction xs) auto

lemma context_simps [simp]:
  "tree_names (hold_key k c) = tree_names c" "packages (hold_key k c) = packages c"
  "root_deps (hold_key k c) = root_deps c" "nested_tree (hold_key k c) = nested_tree c"
  "tree_names (leave_key k c) = tree_names c" "packages (leave_key k c) = packages c"
  "root_deps (leave_key k c) = root_deps c" "nested_tree (leave_key k c) = nested_tree c"
  "tree_names (c\<lparr>nested_tree := t\<rparr>) = tree_names c" "held_names (c\<lparr>nested_tree := t\<rparr>) = held_names c"
  "tree_names (c\<lparr>root_deps := d\<rparr>) = tree_names c" "held_names (c\<lparr>root_deps := d\<rparr>) = held_names c"
  "packages (c\<lparr>root_deps := d\<rparr>) = packages c"
  by (simp_all add: tree_names_def packages_def hold_key_def leave_key_def held_names_def)

lemma held_leave: "held_names (leave_key k c) \<subseteq> held_names c"
  by (auto simp: held_names_def leave_key_def)

lemma held_place: "is_place k \<Longrightarrow> held_names (hold_key k c) = held_names c"
proof -
  assume "is_place k"
  then have "n @ ''@'' @ rng \<noteq> k" if "plain_name n" for n rng
    using place_not_key [of k "\<lparr>req_name = n, req_range = rng, req_registry = [], req_parent = None, req_choose = False\<rparr>"] that
    by (simp add: req_key_def)
  then show ?thesis by (auto simp: held_names_def hold_key_def)
qed

lemma held_key: "plain_name (req_name r) \<Longrightarrow> held_names (hold_key (req_key r) c) = insert (req_name r) (held_names c)"
proof -
  assume r: "plain_name (req_name r)"
  have "n = req_name r" if "n @ ''@'' @ rng = req_key r" "plain_name n" for n rng
    using key_inj [of "\<lparr>req_name = n, req_range = rng, req_registry = [], req_parent = None, req_choose = False\<rparr>" r] that r
    by (simp add: req_key_def)
  then have "held_names (hold_key (req_key r) c) \<subseteq> insert (req_name r) (held_names c)"
    by (auto simp: held_names_def hold_key_def)
  moreover have "insert (req_name r) (held_names c) \<subseteq> held_names (hold_key (req_key r) c)"
    using r by (auto simp: held_names_def hold_key_def req_key_def)
  ultimately show ?thesis by blast
qed

lemma held_by_key: "plain_name (req_name r) \<Longrightarrow> req_key r \<in> set (resolving_keys c) \<Longrightarrow> req_name r \<in> held_names c"
  by (auto simp: held_names_def req_key_def)

lemma moves_leave: "moves D F c N G c' \<Longrightarrow> moves D F c N G (leave_key k c')"
  using held_leave [of k c'] unfolding moves_def by simp (meson order_trans)

lemma in_tree: "map_of (resolved_tree c) n \<noteq> None \<longleftrightarrow> n \<in> tree_names c"
  by (simp add: tree_names_def map_of_eq_None_iff)

lemma request_fields [simp]:
  "req_name (request_of n rng p b) = n" "req_parent (request_of n rng p b) = p" "req_choose (request_of n rng p b) = b"
  by (simp_all add: request_of_def split_beta)

subsection \<open>A call\<close>

fun call_names :: "call \<Rightarrow> string set" where
  "call_names (Package n rng p b) = {n}"
| "call_names (Nested n rng p reg) = {}"

fun plain_call :: "call \<Rightarrow> bool" where
  "plain_call (Package n rng p b) \<longleftrightarrow> plain_name n \<and> (\<forall>q. p = Some q \<longrightarrow> is_place q)"
| "plain_call (Nested n rng p reg) \<longleftrightarrow> plain_name n \<and> (\<forall>q. p = Some q \<longrightarrow> is_place q)"

definition choice_of :: "call \<Rightarrow> task \<Rightarrow> resolve_context \<Rightarrow> bool" where
  "choice_of what t c \<longleftrightarrow>
     (\<exists>n rng p r. what = Package n rng p True \<and> t = Fetching r \<and> plain_request r \<and> req_choose r \<and>
        req_name r = n \<and> n \<notin> tree_names c)"

definition entered :: "call \<Rightarrow> resolve_context \<Rightarrow> task \<Rightarrow> resolve_context \<Rightarrow> bool" where
  "entered what c t c' \<longleftrightarrow>
     moves (call_names what) {} c (pending_names t) (fetched t) c' \<and> \<not> failing t \<and> (quiet t \<or> choice_of what t c')"

lemma enteredI: "moves (call_names what) {} c (pending_names t) (fetched t) c' \<Longrightarrow> \<not> failing t \<Longrightarrow> quiet t \<Longrightarrow> entered what c t c'"
  by (simp add: entered_def)

text \<open>The context with a nested version placed in it.\<close>

definition placed :: "string \<Rightarrow> resolved_package \<Rightarrow> resolve_context \<Rightarrow> resolve_context" where
  "placed place p c =
     (let tree = (case nested_tree c of Some t \<Rightarrow> t | None \<Rightarrow> [])
      in (hold_key place (c\<lparr>nested_tree := Some tree\<rparr>))\<lparr>nested_tree := Some (AList.update place p tree)\<rparr>)"

lemma placed_simps:
  "tree_names (placed k p c) = tree_names c" "root_deps (placed k p c) = root_deps c"
  "is_place k \<Longrightarrow> held_names (placed k p c) = held_names c"
  by (simp_all add: placed_def Let_def held_place)

lemma placed_packages:
  assumes "q \<in> packages (placed k p c)"
  shows "q \<in> packages c \<or> q = p"
proof -
  let ?tree = "case nested_tree c of Some t \<Rightarrow> t | None \<Rightarrow> []"
  have "packages (placed k p c) = snd ` set (resolved_tree c) \<union> snd ` set (AList.update k p ?tree)"
    by (simp add: placed_def Let_def packages_def hold_key_def)
  moreover have "snd ` set (AList.update k p ?tree) \<subseteq> insert p (snd ` set ?tree)"
    using image_mono [OF update_subset, of snd k p ?tree] by simp
  ultimately show ?thesis using assms by (cases "nested_tree c") (auto simp: packages_def)
qed

lemma nested_done:
  assumes "is_place k" "package_names p = {}"
  shows "moves {} {} c {} {} (leave_key k (placed k p c))"
proof (rule moves_leave, rule movesI)
  show "q \<in> packages c \<or> package_names q \<subseteq> tree_names (placed k p c) \<union> {} \<union> held_names c"
    if "q \<in> packages (placed k p c)" for q
    using placed_packages [OF that] assms(2) by (elim disjE) simp_all
qed (simp_all add: placed_simps assms(1))

lemma nested_goes_on:
  assumes k: "is_place k" and names: "package_names p \<subseteq> insert d ds"
    and m: "moves {d} {} (placed k p c) N G c'"
  shows "moves {} {} c (N \<union> ds) G c'"
proof (rule movesI)
  have new: "package_names p \<subseteq> tree_names c' \<union> (N \<union> ds) \<union> held_names c"
  proof -
    have "d \<in> tree_names c' \<union> N \<union> held_names c" using movesD(3) [OF m] placed_simps(3) [OF k] by simp
    then show ?thesis using names by blast
  qed
  show "r \<in> packages c \<or> package_names r \<subseteq> tree_names c' \<union> (N \<union> ds) \<union> held_names c" if r: "r \<in> packages c'" for r
  proof -
    consider "r \<in> packages c" | "r = p" | "package_names r \<subseteq> tree_names c' \<union> N \<union> held_names c"
      using movesD(6) [OF m r] placed_packages [of r k p c] placed_simps(3) [OF k] by auto
    then show ?thesis
    proof cases
      case 3
      then show ?thesis by (intro disjI2) (erule order_trans, blast)
    qed (use new in simp_all)
  qed
qed (use movesD(1,2,4,5) [OF m] placed_simps k in simp_all)

lemma nested_entered:
  assumes world: "plain_world env" and call: "plain_call (Nested name rng parent reg)"
    and choice: "recorded_choice env name rng = Some (Some (v, doc))" and place: "place = nested_place parent name"
    and c1: "c1 = placed place (nested_package env name reg v doc) c"
    and rest: "lock_deps opts doc = [] \<and> t = Settled \<and> c' = leave_key place c1 \<or>
      (\<exists>d dr ds t1. lock_deps opts doc = (d, dr) # ds \<and> entered (Package d dr (Some place) False) c1 t1 c' \<and>
         t = Awaiting (Awaiting t1 (NextDep place ds)) (Leave place))"
  shows "entered (Nested name rng parent reg) c t c'"
proof -
  have p: "is_place place" using call unfolding place by (intro nested_is_place) simp_all
  have names: "package_names (nested_package env name reg v doc) \<subseteq> fst ` set (lock_deps opts doc)"
    using names_wanted(1) by (simp add: nested_package_def lock_deps_def)
  from rest show ?thesis
  proof (elim disjE exE conjE)
    assume l: "lock_deps opts doc = []" "t = Settled" "c' = leave_key place c1"
    then show ?thesis using names nested_done [OF p, of "nested_package env name reg v doc" c] by (intro enteredI) (simp_all add: c1)
  next
    fix d dr ds t1
    assume l: "lock_deps opts doc = (d, dr) # ds" and e: "entered (Package d dr (Some place) False) c1 t1 c'"
      and t: "t = Awaiting (Awaiting t1 (NextDep place ds)) (Leave place)"
    have plain: "plain_deps ((d, dr) # ds)" using plain_lock_deps [OF world choice, of opts] l by simp
    have q: "quiet t1" "\<not> failing t1" and m: "moves {d} {} c1 (pending_names t1) (fetched t1) c'"
      using e by (auto simp: entered_def choice_of_def)
    have "moves {} {} c (pending_names t1 \<union> fst ` set ds) (fetched t1) c'"
      using names l by (intro nested_goes_on [OF p _ m [unfolded c1]]) simp
    then show ?thesis using q plain p by (intro enteredI) (simp_all add: t)
  qed
qed

lemma moves_held: "n \<in> held_names c \<Longrightarrow> moves {n} {} c {} {} c"
  by (rule movesI) auto

lemma moves_known: "n \<in> tree_names c \<Longrightarrow> moves {} {} c N G c' \<Longrightarrow> moves {n} {} c N G c'"
  unfolding moves_def by simp blast

lemma moves_fetch:
  assumes "plain_name (req_name r)"
  shows "moves {req_name r} {} c {req_name r} {req_name r} (hold_key (req_key r) c)"
  by (rule movesI) (auto simp: held_key [OF assms])

lemma moves_nested_tree: "moves {} {} c {} {} (c\<lparr>nested_tree := Some (case nested_tree c of Some t \<Rightarrow> t | None \<Rightarrow> [])\<rparr>)"
  by (rule movesI) (auto simp: packages_def split: option.splits)

lemma package_step:
  assumes p: "plain_call (Package name rng parent first)"
    and nest: "\<And>rng reg. f (Nested name rng parent reg) c = Some (t, c') \<Longrightarrow> entered (Nested name rng parent reg) c t c'"
    and body: "(let r = request_of name rng parent first
       in if req_key r \<in> set (resolving_keys c) then Some (Settled, c)
          else case map_of (resolved_tree c) name of
                 Some existing \<Rightarrow>
                   Option.bind (satisfies (collation_of env) (pkg_version existing) (req_range r)) (\<lambda>b.
                     if b then Some (Settled, c) else f (Nested name (req_range r) parent (req_registry r)) c)
               | None \<Rightarrow> Some (Fetching r, hold_key (req_key r) c)) = Some (t, c')"
  shows "entered (Package name rng parent first) c t c'"
proof -
  let ?r = "request_of name rng parent first"
  have n: "plain_name name" using p by simp
  consider (held) "req_key ?r \<in> set (resolving_keys c)" "t = Settled" "c' = c"
    | (fetch) "name \<notin> tree_names c" "t = Fetching ?r" "c' = hold_key (req_key ?r) c"
    | (known) "name \<in> tree_names c" "t = Settled \<and> c' = c \<or> (\<exists>rng reg. f (Nested name rng parent reg) c = Some (t, c'))"
  proof (cases "req_key ?r \<in> set (resolving_keys c)")
    case True
    then show thesis using held body by (simp add: Let_def)
  next
    case free: False
    show thesis
    proof (cases "map_of (resolved_tree c) name")
      case None
      then show thesis using fetch free body in_tree [of c name] by (simp add: Let_def)
    next
      case (Some e)
      then have "name \<in> tree_names c" using in_tree [of c name] by simp
      moreover obtain b where "(if b then Some (Settled, c) else f (Nested name (req_range ?r) parent (req_registry ?r)) c) = Some (t, c')"
        using body free Some by (auto simp: Let_def bind_eq_Some_conv)
      ultimately show thesis using known by (cases b) auto
    qed
  qed
  then show ?thesis
  proof cases
    case held
    then have "name \<in> held_names c" using held_by_key [of ?r c] n by simp
    then show ?thesis using held by (auto intro!: enteredI moves_held)
  next
    case fetch
    then show ?thesis
      using p n moves_fetch [of ?r c] by (cases first) (auto simp: entered_def choice_of_def plain_request_def)
  next
    case known
    from known(2) show ?thesis
    proof (elim disjE conjE exE)
      assume "t = Settled" "c' = c"
      then show ?thesis using moves_known [OF known(1) moves_refl] by (intro enteredI) simp_all
    next
      fix rng reg assume "f (Nested name rng parent reg) c = Some (t, c')"
      then show ?thesis using nest moves_known [OF known(1)] by (fastforce simp: entered_def choice_of_def)
    qed
  qed
qed

lemma nested_step:
  assumes w: "plain_world env" and p: "plain_call (Nested name rng parent reg)"
    and pack: "\<And>d dr c t c'. plain_name d \<Longrightarrow> f (Package d dr (Some (nested_place parent name)) False) c = Some (t, c') \<Longrightarrow>
      entered (Package d dr (Some (nested_place parent name)) False) c t c'"
    and body: "Option.bind (recorded_choice env name rng) (\<lambda>choice.
        case choice of
          None \<Rightarrow> Some (Settled, c)
        | Some (v, doc) \<Rightarrow>
            (let place = nested_place parent name;
                 tree = (case nested_tree c of Some t \<Rightarrow> t | None \<Rightarrow> []);
                 c = c\<lparr>nested_tree := Some tree\<rparr>
             in if map_of tree place \<noteq> None \<or> place \<in> set (resolving_keys c) then Some (Settled, c)
                else let c = (hold_key place c)\<lparr>nested_tree := Some (AList.update place (nested_package env name reg v doc) tree)\<rparr>
                     in case lock_deps opts doc of
                          [] \<Rightarrow> Some (Settled, leave_key place c)
                        | (d, dr) # ds \<Rightarrow>
                            Option.bind (f (Package d dr (Some place) False) c) (\<lambda>(t, c).
                              Some (Awaiting (Awaiting t (NextDep place ds)) (Leave place), c)))) = Some (t, c')"
  shows "entered (Nested name rng parent reg) c t c'"
proof -
  obtain choice where choice: "recorded_choice env name rng = Some choice" using body by (auto simp: bind_eq_Some_conv)
  show ?thesis
  proof (cases choice)
    case None
    then show ?thesis using body choice by (auto intro!: enteredI simp: moves_refl)
  next
    case (Some vd)
    obtain v doc where vd: "vd = (v, doc)" by fastforce
    let ?place = "nested_place parent name" and ?tree = "case nested_tree c of Some t \<Rightarrow> t | None \<Rightarrow> []"
    let ?c1 = "placed ?place (nested_package env name reg v doc) c"
    show ?thesis
    proof (cases "map_of ?tree ?place \<noteq> None \<or> ?place \<in> set (resolving_keys c)")
      case True
      then show ?thesis using body choice Some vd moves_nested_tree [of c] by (auto simp: Let_def intro!: enteredI)
    next
      case False
      have step: "(case lock_deps opts doc of
            [] \<Rightarrow> Some (Settled, leave_key ?place ?c1)
          | (d, dr) # ds \<Rightarrow>
              Option.bind (f (Package d dr (Some ?place) False) ?c1) (\<lambda>(t, c).
                Some (Awaiting (Awaiting t (NextDep ?place ds)) (Leave ?place), c))) = Some (t, c')"
        using body False unfolding choice Some vd placed_def Let_def by simp
      have names: "plain_deps (lock_deps opts doc)" using plain_lock_deps [OF w, of name rng v doc opts] choice Some vd by simp
      show ?thesis
      proof (rule nested_entered [OF w p _ refl refl])
        show "lock_deps opts doc = [] \<and> t = Settled \<and> c' = leave_key ?place ?c1 \<or>
          (\<exists>d dr ds t1. lock_deps opts doc = (d, dr) # ds \<and> entered (Package d dr (Some ?place) False) ?c1 t1 c' \<and>
             t = Awaiting (Awaiting t1 (NextDep ?place ds)) (Leave ?place))"
          using step names pack by (cases "lock_deps opts doc") (auto simp: bind_eq_Some_conv)
      qed (simp add: choice Some vd)
    qed
  qed
qed

lemma enter_entered:
  assumes "plain_world env" "enter env opts what c = Some (t, c')" "plain_call what"
  shows "entered what c t c'"
proof -
  have "plain_world env \<longrightarrow> plain_call what \<longrightarrow> entered what c (fst (t, c')) (snd (t, c'))"
  proof (rule enter.raw_induct [where P = "\<lambda>env opts what c r. plain_world env \<longrightarrow> plain_call what \<longrightarrow> entered what c (fst r) (snd r)",
        OF _ assms(2)], intro impI, goal_cases)
    case (1 f env opts what c r)
    obtain t c' where r: "r = (t, c')" by fastforce
    have IH: "entered what c t c'" if "f env opts what c = Some (t, c')" "plain_call what" for what c t c'
      using 1(1) [OF that(1)] 1(3) that(2) by simp
    show ?case
    proof (cases what)
      case (Package name rng parent first)
      then show ?thesis
        using package_step [of name rng parent first "f env opts" c t c' env] IH 1(2,4) r by simp
    next
      case (Nested name rng parent reg)
      have "is_place (nested_place parent name)" using 1(4) Nested by (intro nested_is_place) simp_all
      then show ?thesis
        using nested_step [OF 1(3), of name rng parent reg "f env opts" c opts t c'] IH 1(2,4) r Nested by simp
    qed
  qed
  then show ?thesis using assms(1,3) by simp
qed

subsection \<open>A step\<close>

lemma quiet_enter:
  assumes "plain_world env" "enter env opts what c = Some (t, c')" "plain_call what"
    and "\<And>n rng p. what \<noteq> Package n rng p True"
  shows "quiet t" "\<not> failing t" "moves (call_names what) {} c (pending_names t) (fetched t) c'"
  using enter_entered [OF assms(1-3)] assms(4) by (auto simp: entered_def choice_of_def)

lemma enter_all_moves:
  assumes "plain_world env" "is_place parent"
  shows "enter_all env opts parent ds c = Some (ts, c') \<Longrightarrow> plain_deps ds \<Longrightarrow>
    quiet (Joined ts) \<and> \<not> failing (Joined ts) \<and> moves (fst ` set ds) {} c (pending_names (Joined ts)) (fetched (Joined ts)) c'"
proof (induction ds arbitrary: c ts)
  case Nil
  then show ?case by (simp add: moves_refl)
next
  case (Cons x ds)
  obtain d dr where x: "x = (d, dr)" by fastforce
  obtain t c1 ts1 where e: "enter env opts (Package d dr (Some parent) False) c = Some (t, c1)"
      "enter_all env opts parent ds c1 = Some (ts1, c')" "ts = t # ts1"
    using Cons.prems(1) x by (auto simp: bind_eq_Some_conv)
  note q = quiet_enter [OF assms(1) e(1)]
  have "quiet t" "\<not> failing t" and m: "moves {d} {} c (pending_names t) (fetched t) c1"
    using q Cons.prems(2) x assms(2) by simp_all
  then show ?case
    using Cons.IH [OF e(2)] Cons.prems(2) x e(3) moves_trans [OF m _ fetched_pending] by fastforce
qed

lemma descend_moves:
  assumes "plain_world env" "is_place parent" "descend_into env opts parent ds c = Some (t, c')" "plain_deps ds"
  shows "quiet t" "\<not> failing t" "moves (fst ` set ds) {} c (pending_names t) (fetched t) c'"
proof -
  have "quiet t \<and> \<not> failing t \<and> moves (fst ` set ds) {} c (pending_names t) (fetched t) c'"
  proof (cases "ds = []")
    case True
    then show ?thesis using assms(3) by (simp add: descend_into_def moves_refl)
  next
    case False
    then obtain ts where e: "enter_all env opts parent (take 8 ds) c = Some (ts, c')"
        "t = Awaiting (Joined ts) (NextBatch parent (drop 8 ds))"
      using assms(3) by (auto simp: descend_into_def)
    note a = enter_all_moves [OF assms(1,2) e(1) plain_deps_part(1) [OF assms(4)]]
    have "fst ` set ds = fst ` set (take 8 ds) \<union> fst ` set (drop 8 ds)"
      by (metis append_take_drop_id image_Un set_append)
    then show ?thesis
      using a moves_more [of "fst ` set (take 8 ds)" "{}" c _ _ c' "fst ` set (drop 8 ds)" "{}"] e(2) assms(2,4)
      by (simp add: plain_deps_part del: set_take_subset)
  qed
  then show "quiet t" "\<not> failing t" "moves (fst ` set ds) {} c (pending_names t) (fetched t) c'" by simp_all
qed

lemma nest_moves:
  assumes "plain_world env" "plain_request r" "nest_unless env opts r pin c = Some (t, c')"
  shows "quiet t" "\<not> failing t" "moves {} {} c (pending_names t) (fetched t) c'"
proof -
  obtain b where b: "(if b then Some (Settled, c) else enter env opts (Nested (req_name r) (req_range r) (req_parent r) (req_registry r)) c) = Some (t, c')"
    using assms(3) by (auto simp: nest_unless_def bind_eq_Some_conv)
  have "quiet t \<and> \<not> failing t \<and> moves {} {} c (pending_names t) (fetched t) c'"
  proof (cases b)
    case True
    then show ?thesis using b by (simp add: moves_refl)
  next
    case False
    then have e: "enter env opts (Nested (req_name r) (req_range r) (req_parent r) (req_registry r)) c = Some (t, c')" using b by simp
    show ?thesis using quiet_enter [OF assms(1) e] assms(2) by (simp add: plain_request_def)
  qed
  then show "quiet t" "\<not> failing t" "moves {} {} c (pending_names t) (fetched t) c'" by simp_all
qed

lemma resume_moves:
  assumes w: "plain_world env" and f: "quiet_frame f" and "resume env opts f c = Some (t, c')"
  shows "quiet t \<and> \<not> failing t \<and> moves (frame_names f) {} c (pending_names t) (fetched t) c'"
proof (cases f)
  case (NextBatch p ds)
  then show ?thesis using descend_moves [OF w _ _, of p opts ds c t c'] assms by (simp add: resume_def)
next
  case (NextDep p ds)
  show ?thesis
  proof (cases ds)
    case Nil
    then show ?thesis using NextDep assms(3) by (simp add: resume_def moves_refl)
  next
    case (Cons x rest)
    obtain d dr where x: "x = (d, dr)" by fastforce
    obtain t1 where e: "enter env opts (Package d dr (Some p) False) c = Some (t1, c')" "t = Awaiting t1 (NextDep p rest)"
      using NextDep Cons x assms(3) by (auto simp: resume_def)
    have q: "quiet t1" "\<not> failing t1" and m: "moves {d} {} c (pending_names t1) (fetched t1) c'"
      using quiet_enter [OF w e(1)] f NextDep Cons x by simp_all
    then show ?thesis
      using moves_more [OF m, of "fst ` set rest" "{}"] e(2) f NextDep Cons x by simp
  qed
next
  case (ThenNest r pin)
  then show ?thesis using nest_moves [OF w, of r opts pin c t c'] assms by (simp add: resume_def plain_request_def)
next
  case (Leave k)
  then show ?thesis using assms(3) moves_leave [OF moves_refl] by (auto simp: resume_def)
qed (use f in simp_all)

text \<open>A manifest's package goes into the tree, and its dependencies are pending.\<close>

lemma record_simps:
  "tree_names (record_package r v d tb c) = insert (req_name r) (tree_names c)"
  "held_names (record_package r v d tb c) = held_names c" "root_deps (record_package r v d tb c) = root_deps c"
  by (simp_all add: record_package_def tree_names_def held_names_def dom_update)

lemma record_packages:
  "q \<in> packages (record_package r v d tb c) \<Longrightarrow> q \<in> packages c \<or> pkg_dependencies q = dependencies d"
  using update_subset by (fastforce simp: packages_def record_package_def)

lemma arrive_cases:
  assumes "arrive env opts r c = Some (t, c')" "\<not> failing t"
  shows "\<exists>m v d tb. manifest_of env (req_registry r) = Inr m \<and> map_of (versions m) v = Some d \<and>
    (arrive_pinned env opts r v d c = Some (t, c') \<or> arrive_chosen env opts r m v c = Some (t, c')) \<and> dist d = Some tb"
proof -
  obtain m where m: "manifest_of env (req_registry r) = Inr m" using assms by (auto simp: arrive_def split: sum.splits)
  show ?thesis
  proof (cases "pinned_version env r m")
    case None
    obtain target where target: "(case target of Inl e \<Rightarrow> Some (Thrown e, leave_key (req_key r) c)
        | Inr v \<Rightarrow> arrive_chosen env opts r m v c) = Some (t, c')"
      using assms(1) m None by (auto simp: arrive_def bind_eq_Some_conv)
    then obtain v where v: "arrive_chosen env opts r m v c = Some (t, c')" using assms(2) by (cases target) auto
    then obtain d tb where "map_of (versions m) v = Some d" "dist d = Some tb"
      using assms(2) by (auto simp: arrive_chosen_def bind_eq_Some_conv split: option.splits)
    then show ?thesis using m v by blast
  next
    case (Some pd)
    then obtain pin d where pd: "pd = (pin, d)" "map_of (versions m) pin = Some d" by (auto simp: pinned_version_def bind_eq_Some_conv)
    then have a: "arrive_pinned env opts r pin d c = Some (t, c')" using assms(1) m Some by (simp add: arrive_def)
    then obtain tb where "dist d = Some tb" using assms(2) by (auto simp: arrive_pinned_def split: option.splits)
    then show ?thesis using m pd(2) a by blast
  qed
qed

lemma recorded_moves:
  assumes "package_names \<lparr>pkg_name = n, pkg_version = v, pkg_tarball = tb, pkg_dependencies = dependencies d\<rparr> \<subseteq> D"
    and m: "moves D {} (record_package r v d tb c) N G c'"
  shows "moves {req_name r} {req_name r} c N G c'"
proof (rule movesI)
  have sub: "fst ` set (dependencies d) \<subseteq> D" using assms(1) by simp
  note s = record_simps [of r v d tb c] and mm = movesD [OF m]
  show "q \<in> packages c \<or> package_names q \<subseteq> tree_names c' \<union> N \<union> held_names c" if q: "q \<in> packages c'" for q
  proof -
    have new: "fst ` set (dependencies d) \<subseteq> tree_names c' \<union> N \<union> held_names c" using order_trans [OF sub mm(3)] s(2) by simp
    consider "q \<in> packages c" | "pkg_dependencies q = dependencies d" | "package_names q \<subseteq> tree_names c' \<union> N \<union> held_names c"
      using mm(6) [OF q] record_packages [of q r v d tb c] s(2) by auto
    then show ?thesis by cases (use new in simp_all)
  qed
qed (use movesD(1-5) [OF m] record_simps [of r v d tb c] in auto)

lemma deps_wanted: "fst ` set (dependencies d) \<subseteq> fst ` set (version_deps opts d)"
  using names_wanted(1) by (simp add: version_deps_def)

lemma arrive_moves:
  assumes w: "plain_world env" and r: "plain_request r" "\<not> req_choose r"
    and a: "arrive env opts r c = Some (t, c')" and nf: "\<not> failing t"
  shows "quiet t \<and> moves {req_name r} {req_name r} c (pending_names t) (fetched t) c'"
proof -
  obtain m v d tb where m: "manifest_of env (req_registry r) = Inr m" "map_of (versions m) v = Some d" "dist d = Some tb"
    and how: "arrive_pinned env opts r v d c = Some (t, c') \<or> arrive_chosen env opts r m v c = Some (t, c')"
    using arrive_cases [OF a nf] by blast
  let ?c1 = "record_package r v d tb c"
  have plain: "plain_deps (version_deps opts d)" using plain_version_deps [OF w m(1,2)] .
  have place: "is_place (req_name r)" using r(1) by (simp add: plain_request_def plain_is_place)
  obtain t1 where d: "descend_into env opts (req_name r) (version_deps opts d) ?c1 = Some (t1, c')"
    and t: "t = Awaiting (Awaiting t1 (ThenNest r v)) (Leave (req_key r)) \<or> t = Awaiting t1 (Leave (req_key r))"
    using how r(2) m(2,3) by (auto simp: arrive_pinned_def arrive_chosen_def)
  note q = descend_moves [OF w place d plain]
  have "moves {req_name r} {req_name r} c (pending_names t1) (fetched t1) c'"
    by (rule recorded_moves [OF _ q(3)]) (simp add: deps_wanted)
  then show ?thesis using t q r(1) by (auto simp: plain_request_def)
qed

definition step_ok :: "task \<Rightarrow> resolve_context \<Rightarrow> task \<times> resolve_context \<Rightarrow> bool" where
  "step_ok t c tc \<longleftrightarrow>
     failing (fst tc) \<or> quiet (fst tc) \<and> moves (pending_names t) (fetched t) c (pending_names (fst tc)) (fetched (fst tc)) (snd tc)"

lemma moves_self: "moves D F c D F c"
  by (rule movesI) auto

lemma union_update:
  assumes "i < length ts"
  shows "\<Union> (f ` set (ts[i := t])) = f t \<union> \<Union> (f ` set (take i ts @ drop (Suc i) ts))"
    and "\<Union> (f ` set ts) = f (ts ! i) \<union> \<Union> (f ` set (take i ts @ drop (Suc i) ts))"
proof -
  show "\<Union> (f ` set (ts[i := t])) = f t \<union> \<Union> (f ` set (take i ts @ drop (Suc i) ts))"
    unfolding upd_conv_take_nth_drop [OF assms] by auto
  show "\<Union> (f ` set ts) = f (ts ! i) \<union> \<Union> (f ` set (take i ts @ drop (Suc i) ts))"
    by (subst id_take_nth_drop [OF assms]) auto
qed

lemma joined_step:
  assumes i: "i < length ts" and s: "step_ok (ts ! i) c tc" and q: "quiet (Joined ts)"
  shows "step_ok (Joined ts) c (Joined (ts[i := fst tc]), snd tc)"
proof (cases "failing (fst tc)")
  case True
  then have "list_ex failing (ts[i := fst tc])" using i by (auto simp: list_ex_iff set_update_memI)
  then show ?thesis by (simp add: step_ok_def)
next
  case False
  then have m: "quiet (fst tc)" "moves (pending_names (ts ! i)) (fetched (ts ! i)) c (pending_names (fst tc)) (fetched (fst tc)) (snd tc)"
    using s by (simp_all add: step_ok_def)
  have "quiet (Joined (ts[i := fst tc]))"
    using m(1) q by (auto simp: list_all_iff dest!: set_update_subset_insert [THEN subsetD])
  then show ?thesis
    using moves_more [OF m(2)] by (simp add: step_ok_def union_update [OF i])
qed

lemma join_step: "quiet (Joined ts) \<Longrightarrow> step_ok (Joined ts) c (join_tasks ts, c)"
proof -
  assume q: "quiet (Joined ts)"
  have settled: "pending_names (Joined ts) = {}" "fetched (Joined ts) = {}" if "list_all (\<lambda>t. t = Settled) ts"
    using that by (auto simp: list_all_iff)
  show ?thesis
    using q settled by (simp add: step_ok_def join_tasks_def moves_self moves_refl split: option.splits)
qed

lemma awaiting_step: "step_ok t c tc \<Longrightarrow> quiet_frame f \<Longrightarrow> step_ok (Awaiting t f) c (Awaiting (fst tc) f, snd tc)"
  using moves_more [of "pending_names t" "fetched t" c _ _ _ "frame_names f" "{}"] by (auto simp: step_ok_def)

lemma resumed_step: "plain_world env \<Longrightarrow> quiet_frame f \<Longrightarrow> step_ok (Awaiting Settled f) c (overflowing c (resume env opts f c))"
proof (cases "resume env opts f c")
  case (Some tc)
  assume w: "plain_world env" and f: "quiet_frame f"
  obtain t c' where tc: "tc = (t, c')" by fastforce
  show ?thesis using resume_moves [OF w f Some [unfolded tc]] Some tc by (simp add: step_ok_def overflowing_def)
qed (simp add: step_ok_def overflowing_def)

lemma arrived_step: "plain_world env \<Longrightarrow> quiet (Fetching r) \<Longrightarrow> step_ok (Fetching r) c (overflowing c (arrive env opts r c))"
proof (cases "arrive env opts r c")
  case (Some tc)
  assume w: "plain_world env" and q: "quiet (Fetching r)"
  obtain t c' where tc: "tc = (t, c')" by fastforce
  show ?thesis
    using arrive_moves [OF w _ _ Some [unfolded tc]] q Some tc by (cases "failing t") (simp_all add: step_ok_def overflowing_def)
qed (simp add: step_ok_def overflowing_def)

lemma step_moves:
  "plain_world env \<Longrightarrow> quiet t \<Longrightarrow> \<not> failing t \<Longrightarrow> step_ok t c (step_at env opts p t c)"
proof (induction env opts p t c rule: step_at.induct)
  case (1 env opts i p ts c)
  show ?case
  proof (cases "i < length ts")
    case True
    then have "step_ok (ts ! i) c (step_at env opts p (ts ! i) c)"
      using 1 by (auto simp: list_all_length list_ex_length)
    then show ?thesis using joined_step [OF True] 1(3) True by (simp add: split_beta)
  qed (use 1(3) in \<open>simp add: step_ok_def moves_self\<close>)
qed (simp_all add: join_step resumed_step arrived_step awaiting_step split_beta step_ok_def [of Settled] moves_refl del: quiet.simps(2))

lemma failing_stays: "failing t \<Longrightarrow> failing (fst (step_at env opts p t c))"
proof (induction env opts p t c rule: step_at.induct)
  case (1 env opts i p ts c)
  then obtain j where j: "j < length ts" "failing (ts ! j)" by (auto simp: list_ex_length)
  have "failing (ts[i := fst (step_at env opts p (ts ! i) c)] ! j)" if "i < length ts"
    using j 1(1) [OF that] by (cases "i = j") simp_all
  then show ?case using j by (auto simp: split_beta list_ex_length)
next
  case (2 env opts ts c)
  then obtain x where x: "x \<in> set ts" "failing x" by (auto simp: list_ex_iff)
  have "x \<noteq> Settled" using x(2) by (cases x) simp_all
  then have "\<not> list_all (\<lambda>t. t = Settled) ts" using x(1) by (auto simp: list_all_iff)
  then show ?case using 2 by (simp add: join_tasks_def split: option.splits)
qed (auto simp: split_beta)

end
