(* ===== verification/DependenciesProps.thy ===== *)
theory DependenciesProps
  imports DependenciesSteps
begin

text \<open>
  What a finished walk has: every dependency of every package of the tree, and of those
  nested in it, is in the tree, however the calls interleaved.  And what it has not: the
  version of a name depends on which manifest arrives last, and a cycle of recorded
  versions is nested without end.
\<close>

subsection \<open>The whole walk\<close>

definition roots :: "resolve_context \<Rightarrow> string set" where
  "roots c = (case root_deps c of None \<Rightarrow> {} | Some ds \<Rightarrow> fst ` set ds)"

definition owed :: "resolve_context \<Rightarrow> string set" where
  "owed c = (case root_deps c of None \<Rightarrow> {} | Some ds \<Rightarrow> (\<Union>(n, deps) \<in> set ds. fst ` set deps))"

definition plain_roots :: "resolve_context \<Rightarrow> bool" where
  "plain_roots c \<longleftrightarrow>
     roots c \<subseteq> tree_names c \<and>
     (\<forall>ds. root_deps c = Some ds \<longrightarrow> distinct (map fst ds) \<and> (\<forall>(n, deps) \<in> set ds. plain_deps deps))"

text \<open>
  Wanted names are in the tree or pending, a held key's name is in the tree or in flight, and a
  package's dependencies are in the tree, pending, or kept for the second pass.
\<close>

definition covered :: "string set \<Rightarrow> string set \<Rightarrow> string set \<Rightarrow> string set \<Rightarrow> resolve_context \<Rightarrow> bool" where
  "covered R P G O' c \<longleftrightarrow>
     R \<subseteq> tree_names c \<union> P \<and> held_names c \<subseteq> tree_names c \<union> G \<and>
     (\<forall>p \<in> packages c. package_names p \<subseteq> tree_names c \<union> P \<union> O')"

lemma coveredI:
  "R \<subseteq> tree_names c \<union> P \<Longrightarrow> held_names c \<subseteq> tree_names c \<union> G \<Longrightarrow>
   (\<And>p. p \<in> packages c \<Longrightarrow> package_names p \<subseteq> tree_names c \<union> P \<union> O') \<Longrightarrow> covered R P G O' c"
  by (simp add: covered_def)

lemma coveredD:
  assumes "covered R P G O' c"
  shows "R \<subseteq> tree_names c \<union> P" "held_names c \<subseteq> tree_names c \<union> G"
    and "p \<in> packages c \<Longrightarrow> package_names p \<subseteq> tree_names c \<union> P \<union> O'"
  using assms by (simp_all add: covered_def)

lemma moves_covered:
  assumes m: "moves P G c P' G' c'" and cov: "covered R P G O' c" and sub: "G' \<subseteq> P'"
  shows "covered R P' G' O' c'"
proof (rule coveredI)
  note mm = movesD [OF m] and cc = coveredD [OF cov]
  have held: "held_names c \<subseteq> tree_names c' \<union> G'" using cc(2) mm(1,2) by blast
  then have P: "P \<subseteq> tree_names c' \<union> P'" using mm(3) sub by blast
  show "R \<subseteq> tree_names c' \<union> P'" using cc(1) mm(1) P by blast
  show "held_names c' \<subseteq> tree_names c' \<union> G'" using mm(4) held by blast
  show "package_names p \<subseteq> tree_names c' \<union> P' \<union> O'" if p: "p \<in> packages c'" for p
  proof -
    consider "package_names p \<subseteq> tree_names c \<union> P \<union> O'" | "package_names p \<subseteq> tree_names c' \<union> P' \<union> held_names c"
      using mm(6) [OF p] cc(3) [of p] by blast
    then show ?thesis
    proof cases
      case 1
      also have "tree_names c \<union> P \<union> O' \<subseteq> tree_names c' \<union> P' \<union> O'" using mm(1) P by blast
      finally show ?thesis .
    next
      case 2
      also have "tree_names c' \<union> P' \<union> held_names c \<subseteq> tree_names c' \<union> P' \<union> O'" using held sub by blast
      finally show ?thesis .
    qed
  qed
qed

definition choosing :: "task \<Rightarrow> resolve_context \<Rightarrow> string set \<Rightarrow> bool" where
  "choosing t c N \<longleftrightarrow> (\<exists>r. t = Fetching r \<and> plain_request r \<and> req_choose r \<and> req_name r \<notin> tree_names c \<and> req_name r \<in> N)"

definition top_task :: "task \<Rightarrow> resolve_context \<Rightarrow> bool" where
  "top_task T c \<longleftrightarrow>
     quiet T \<and> roots c = {} \<or>
     (\<exists>t ds every. T = Awaiting t (NextChoose ds every) \<and> plain_deps ds \<and> plain_deps every \<and> root_deps c \<noteq> None \<and>
        fst ` set ds \<subseteq> fst ` set every \<and> roots c \<subseteq> fst ` set every \<and> (quiet t \<or> choosing t c (fst ` set every))) \<or>
     (\<exists>t ds. T = Awaiting t (NextDescend ds) \<and> quiet t \<and> plain_deps ds \<and> roots c \<subseteq> fst ` set ds)"

definition walk_inv :: "string set \<Rightarrow> task \<times> resolve_context \<Rightarrow> bool" where
  "walk_inv R tc \<longleftrightarrow>
     failing (fst tc) \<or>
     top_task (fst tc) (snd tc) \<and> plain_roots (snd tc) \<and>
     covered R (pending_names (fst tc)) (fetched (fst tc)) (owed (snd tc)) (snd tc)"

lemma roots_same: "root_deps c' = root_deps c \<Longrightarrow> roots c' = roots c \<and> owed c' = owed c"
  by (simp add: roots_def owed_def)

lemma plain_roots_moves: "moves D F c N G c' \<Longrightarrow> plain_roots c \<Longrightarrow> plain_roots c'"
  using roots_same [of c' c] unfolding moves_def plain_roots_def by (metis subset_trans)

text \<open>One of the root's dependencies descended, its entry taken out.\<close>

lemma descend_root_covered:
  assumes w: "plain_world env" and n: "plain_name n" and pr: "plain_roots c" and cov: "covered R {} {} (owed c) c"
    and e: "descend_root env opts n c = Some (t, c')"
  shows "quiet t \<and> \<not> failing t \<and> plain_roots c' \<and> roots c' = roots c - {n} \<and>
    covered R (pending_names t) (fetched t) (owed c') c'"
proof (cases "Option.bind (root_deps c) (\<lambda>ds. map_of ds n)")
  case None
  then have "n \<notin> roots c" by (cases "root_deps c") (simp_all add: roots_def map_of_eq_None_iff)
  then show ?thesis using e None pr cov by (simp add: descend_root_def)
next
  case (Some deps)
  then obtain ds where ds: "root_deps c = Some ds" "map_of ds n = Some deps" by (auto simp: bind_eq_Some_conv)
  let ?c1 = "c\<lparr>root_deps := Some (AList.delete n ds)\<rparr>"
  have dist: "distinct (map fst ds)" and plain: "\<forall>(n, deps) \<in> set ds. plain_deps deps"
    using pr ds(1) by (simp_all add: plain_roots_def)
  have del: "set (AList.delete n ds) = {x \<in> set ds. fst x \<noteq> n}" by (auto simp: AList.delete_eq)
  have r1: "roots ?c1 = roots c - {n}" by (auto simp: roots_def ds(1) del)
  have pr1: "plain_roots ?c1"
    using pr plain dist by (auto simp: plain_roots_def r1 del distinct_delete)
  have "(n, deps) \<in> set ds" using ds(2) by (rule map_of_SomeD)
  then have "plain_deps deps" using plain by auto
  have d: "descend_into env opts n deps ?c1 = Some (t, c')" using e ds by (simp add: descend_root_def)
  note q = descend_moves [OF w plain_is_place [OF n] d \<open>plain_deps deps\<close>]
  have "owed c \<subseteq> fst ` set deps \<union> owed ?c1"
  proof -
    have "(m, x) \<in> set ds \<Longrightarrow> m = n \<Longrightarrow> x = deps" for m x using dist ds(2) by (simp add: map_of_eq_Some_iff)
    then show ?thesis by (fastforce simp: owed_def ds(1) del)
  qed
  then have "covered R (fst ` set deps) {} (owed ?c1) ?c1"
    using coveredD [OF cov] by (intro coveredI) (simp_all, blast+)
  then have "covered R (pending_names t) (fetched t) (owed ?c1) c'"
    by (rule moves_covered [OF q(3) _ fetched_pending])
  then show ?thesis
    using q roots_same [OF movesD(5) [OF q(3)]] r1 plain_roots_moves [OF q(3) pr1] by simp
qed

lemma descend_roots_inv:
  assumes w: "plain_world env" and ds: "plain_deps ds" and pr: "plain_roots c" and cov: "covered R {} {} (owed c) c"
    and r: "roots c \<subseteq> fst ` set ds" and e: "descend_roots env opts ds c = Some tc"
  shows "walk_inv R tc"
proof (cases ds)
  case Nil
  then show ?thesis using e pr cov r by (auto simp: walk_inv_def top_task_def)
next
  case (Cons x rest)
  obtain n rng where x: "x = (n, rng)" by fastforce
  obtain t c' where d: "descend_root env opts n c = Some (t, c')" and tc: "tc = (Awaiting t (NextDescend rest), c')"
    using e Cons x by auto
  have "plain_name n" using ds Cons x by simp
  from descend_root_covered [OF w this pr cov d] show ?thesis
    using ds r Cons x by (auto simp: tc walk_inv_def top_task_def)
qed

text \<open>A chosen root's manifest: its package is in the tree, its dependencies kept.\<close>

lemma fresh_update: "n \<notin> fst ` set xs \<Longrightarrow> set (AList.update n v xs) = insert (n, v) (set xs)"
  by (induction xs) auto

lemma arrive_chosen_root:
  assumes w: "plain_world env" and r: "plain_request r" "req_choose r"
    and a: "arrive env opts r c = Some (t, c')" and nf: "\<not> failing t"
  shows "\<exists>v d tb. plain_deps (version_deps opts d) \<and> quiet t \<and>
    moves {} {} (choose_root r (version_deps opts d) (record_package r v d tb c)) (pending_names t) (fetched t) c'"
proof -
  obtain m v d tb where m: "manifest_of env (req_registry r) = Inr m" "map_of (versions m) v = Some d" "dist d = Some tb"
    and how: "arrive_pinned env opts r v d c = Some (t, c') \<or> arrive_chosen env opts r m v c = Some (t, c')"
    using arrive_cases [OF a nf] by blast
  let ?c1 = "choose_root r (version_deps opts d) (record_package r v d tb c)"
  have "quiet t \<and> moves {} {} ?c1 (pending_names t) (fetched t) c'"
    using how
  proof
    assume "arrive_pinned env opts r v d c = Some (t, c')"
    then obtain t1 where n: "nest_unless env opts r v ?c1 = Some (t1, c')" and t: "t = Awaiting t1 (Leave (req_key r))"
      using m(3) r(2) by (auto simp: arrive_pinned_def)
    show ?thesis using nest_moves [OF w r(1) n] by (simp add: t)
  next
    assume "arrive_chosen env opts r m v c = Some (t, c')"
    then have "t = Settled" "c' = leave_key (req_key r) ?c1" using m(2,3) r(2) by (simp_all add: arrive_chosen_def)
    then show ?thesis using moves_leave [OF moves_refl] by simp
  qed
  then show ?thesis using plain_version_deps [OF w m(1,2), of opts] by blast
qed

lemma chosen_covered:
  assumes cov: "covered R (insert (req_name r) X) {req_name r} (owed c) c" and pr: "plain_roots c"
    and fresh: "req_name r \<notin> tree_names c" and ds: "root_deps c \<noteq> None" and plain: "plain_deps (version_deps opts d)"
  shows "covered R X {} (owed (choose_root r (version_deps opts d) (record_package r v d tb c)))
      (choose_root r (version_deps opts d) (record_package r v d tb c))"
    and "plain_roots (choose_root r (version_deps opts d) (record_package r v d tb c))"
    and "roots (choose_root r (version_deps opts d) (record_package r v d tb c)) = insert (req_name r) (roots c)"
proof -
  let ?c1 = "record_package r v d tb c" and ?ds = "version_deps opts d"
  obtain xs where xs: "root_deps c = Some xs" using ds by blast
  have new: "req_name r \<notin> fst ` set xs" using pr fresh by (auto simp: plain_roots_def roots_def xs)
  have up: "root_deps (choose_root r ?ds ?c1) = Some (AList.update (req_name r) ?ds xs)"
    by (simp add: choose_root_def record_simps xs)
  have simps: "tree_names (choose_root r ?ds ?c1) = insert (req_name r) (tree_names c)"
      "held_names (choose_root r ?ds ?c1) = held_names c" "packages (choose_root r ?ds ?c1) = packages ?c1"
    by (simp_all add: choose_root_def record_simps)
  have owed: "owed (choose_root r ?ds ?c1) = fst ` set ?ds \<union> owed c"
    unfolding owed_def up xs option.case fresh_update [OF new] UN_insert prod.case ..
  show roots: "roots (choose_root r ?ds ?c1) = insert (req_name r) (roots c)"
    by (simp add: roots_def up xs dom_update)
  show "plain_roots (choose_root r ?ds ?c1)"
  proof -
    have p: "roots c \<subseteq> tree_names c" "distinct (map fst xs)" "\<forall>(n, deps) \<in> set xs. plain_deps deps"
      using pr xs by (simp_all add: plain_roots_def)
    have "distinct (map fst (AList.update (req_name r) ?ds xs))" using p(2) by (rule distinct_update)
    moreover have "\<forall>(n, deps) \<in> set (AList.update (req_name r) ?ds xs). plain_deps deps"
      unfolding fresh_update [OF new] using p(3) plain by simp
    ultimately show ?thesis
      unfolding plain_roots_def roots simps up using insert_mono [OF p(1)] by simp
  qed
  show "covered R X {} (owed (choose_root r ?ds ?c1)) (choose_root r ?ds ?c1)"
  proof (rule coveredI, unfold simps owed)
    note cc = coveredD [OF cov]
    show "R \<subseteq> insert (req_name r) (tree_names c) \<union> X" using cc(1) by blast
    show "held_names c \<subseteq> insert (req_name r) (tree_names c) \<union> {}" using cc(2) by blast
    show "package_names p \<subseteq> insert (req_name r) (tree_names c) \<union> X \<union> (fst ` set ?ds \<union> owed c)" if "p \<in> packages ?c1" for p
      using record_packages [OF that]
    proof
      assume "p \<in> packages c"
      from cc(3) [OF this] show ?thesis by blast
    next
      assume "pkg_dependencies p = dependencies d"
      then have "package_names p \<subseteq> fst ` set ?ds" using deps_wanted by simp
      then show ?thesis by (intro le_supI2 le_supI1)
    qed
  qed
qed

lemma choose_roots_inv:
  assumes w: "plain_world env" and ds: "plain_deps ds" "plain_deps every" "fst ` set ds \<subseteq> fst ` set every"
    and pr: "plain_roots c" and cov: "covered R (fst ` set ds) {} (owed c) c"
    and r: "roots c \<subseteq> fst ` set every" "root_deps c \<noteq> None" and e: "choose_roots env opts ds every c = Some tc"
  shows "walk_inv R tc"
proof (cases ds)
  case Nil
  then show ?thesis using descend_roots_inv [OF w ds(2) pr _ r(1)] cov e by simp
next
  case (Cons x rest)
  obtain n rng where x: "x = (n, rng)" by fastforce
  obtain t c' where en: "enter env opts (Package n rng None True) c = Some (t, c')" and tc: "tc = (Awaiting t (NextChoose rest every), c')"
    using e Cons x by auto
  have en': "entered (Package n rng None True) c t c'" using enter_entered [OF w en] ds(1) Cons x by simp
  then have m: "moves {n} {} c (pending_names t) (fetched t) c'" by (simp add: entered_def)
  have "moves (fst ` set ds) {} c (pending_names t \<union> fst ` set rest) (fetched t) c'"
    using moves_more [OF m, of "fst ` set rest" "{}"] Cons x by simp
  then have "covered R (pending_names t \<union> fst ` set rest) (fetched t) (owed c) c'"
    using cov by (rule moves_covered) (use fetched_pending [of t] in blast)
  moreover have "quiet t \<or> choosing t c' (fst ` set every)"
    using en' ds(3) Cons x by (auto simp: entered_def choice_of_def choosing_def)
  moreover have "root_deps c' = root_deps c" by (rule movesD(5) [OF m])
  ultimately show ?thesis
    using roots_same [of c' c] plain_roots_moves [OF m pr] ds r Cons x
    by (auto simp: tc walk_inv_def top_task_def)
qed

subsection \<open>Every step keeps the invariant\<close>

text \<open>Inside a top frame that changes neither what is wanted nor what is owed.\<close>

lemma framed_inv:
  assumes "step_ok t c tc" and cov: "covered R (pending_names t \<union> X) (fetched t) (owed c) c" and pr: "plain_roots c"
  shows "failing (fst tc) \<or> quiet (fst tc) \<and> plain_roots (snd tc) \<and> root_deps (snd tc) = root_deps c \<and>
    covered R (pending_names (fst tc) \<union> X) (fetched (fst tc)) (owed (snd tc)) (snd tc)"
proof (cases "failing (fst tc)")
  case False
  then have q: "quiet (fst tc)" and m: "moves (pending_names t) (fetched t) c (pending_names (fst tc)) (fetched (fst tc)) (snd tc)"
    using assms(1) by (simp_all add: step_ok_def)
  have "moves (pending_names t \<union> X) (fetched t) c (pending_names (fst tc) \<union> X) (fetched (fst tc)) (snd tc)"
    using moves_more [OF m, of X "{}"] by simp
  then have "covered R (pending_names (fst tc) \<union> X) (fetched (fst tc)) (owed c) (snd tc)"
    using cov by (rule moves_covered) (use fetched_pending [of "fst tc"] in blast)
  then show ?thesis
    using q plain_roots_moves [OF m pr] movesD(5) [OF m] roots_same [OF movesD(5) [OF m]] by simp
qed simp

lemma quiet_top:
  assumes w: "plain_world env" and q: "quiet T" "roots c = {}" and i: "walk_inv R (T, c)"
  shows "walk_inv R (step_at env opts p T c)"
proof (cases "failing T")
  case False
  then have "plain_roots c" "covered R (pending_names T \<union> {}) (fetched T) (owed c) c" using i by (simp_all add: walk_inv_def)
  from framed_inv [OF step_moves [OF w q(1) False] this(2,1)] show ?thesis
    using q(2) roots_same [of "snd (step_at env opts p T c)" c] by (auto simp: walk_inv_def top_task_def)
qed (simp add: walk_inv_def failing_stays)

lemma step_inner:
  "t \<noteq> Settled \<Longrightarrow> \<not> failing t \<Longrightarrow>
    step_at env opts p (Awaiting t f) c = (Awaiting (fst (step_at env opts p t c)) f, snd (step_at env opts p t c))"
  by (cases t) (simp_all add: split_beta)

lemma choosing_step:
  assumes w: "plain_world env" and ch: "choosing t c N" and ds: "root_deps c \<noteq> None" and pr: "plain_roots c" and r: "roots c \<subseteq> N"
    and cov: "covered R (pending_names t \<union> X) (fetched t) (owed c) c"
    and tc: "tc = step_at env opts p t c"
  shows "failing (fst tc) \<or> quiet (fst tc) \<and> plain_roots (snd tc) \<and> root_deps (snd tc) \<noteq> None \<and> roots (snd tc) \<subseteq> N \<and>
    covered R (pending_names (fst tc) \<union> X) (fetched (fst tc)) (owed (snd tc)) (snd tc)"
proof -
  obtain q where q: "t = Fetching q" "plain_request q" "req_choose q" "req_name q \<notin> tree_names c" "req_name q \<in> N"
    using ch by (auto simp: choosing_def)
  show ?thesis
  proof (cases "arrive env opts q c")
    case (Some r1)
    obtain t1 c' where r1: "r1 = (t1, c')" by fastforce
    have tc1: "tc = (t1, c')" using tc q(1) Some r1 by (simp add: overflowing_def)
    show ?thesis
    proof (cases "failing t1")
      case False
      have "arrive env opts q c = Some (t1, c')" using Some r1 by simp
      from arrive_chosen_root [OF w q(2,3) this False] obtain v d tb where d: "plain_deps (version_deps opts d)" "quiet t1"
          and m: "moves {} {} (choose_root q (version_deps opts d) (record_package q v d tb c)) (pending_names t1) (fetched t1) c'"
        by (elim exE conjE)
      let ?c1 = "choose_root q (version_deps opts d) (record_package q v d tb c)"
      have "covered R (insert (req_name q) X) {req_name q} (owed c) c" using cov q(1) by simp
      note cc = chosen_covered [OF this pr q(4) ds d(1), of v tb]
      have mm: "moves X {} ?c1 (pending_names t1 \<union> X) (fetched t1) c'"
        using moves_more [OF m, of X "{}"] by (simp only: Un_empty_left Un_empty_right)
      have "covered R (pending_names t1 \<union> X) (fetched t1) (owed ?c1) c'"
        by (rule moves_covered [OF mm cc(1)]) (rule le_supI1 [OF fetched_pending])
      moreover have "root_deps ?c1 \<noteq> None" using cc(3) by (cases "root_deps ?c1") (simp_all add: roots_def)
      moreover have "roots c' = insert (req_name q) (roots c)" "owed c' = owed ?c1" "root_deps c' = root_deps ?c1"
        using roots_same [OF movesD(5) [OF m]] movesD(5) [OF m] cc(3) by simp_all
      moreover have "plain_roots c'" by (rule plain_roots_moves [OF m cc(2)])
      ultimately show ?thesis using d(2) q(5) r unfolding tc1 fst_conv snd_conv by (intro disjI2 conjI) simp_all
    qed (simp add: tc1)
  qed (simp add: tc q(1) overflowing_def)
qed

lemma choose_frame_inv:
  assumes w: "plain_world env" and T: "T = Awaiting t (NextChoose ds every)"
    and ds: "plain_deps ds" "plain_deps every" "fst ` set ds \<subseteq> fst ` set every"
    and r: "root_deps c \<noteq> None" "roots c \<subseteq> fst ` set every"
    and t: "quiet t \<or> choosing t c (fst ` set every)" "\<not> failing t"
    and pr: "plain_roots c" and cov: "covered R (pending_names T) (fetched T) (owed c) c"
  shows "walk_inv R (step_at env opts p T c)"
proof (cases "t = Settled")
  case True
  then have s: "step_at env opts p T c = overflowing c (choose_roots env opts ds every c)" by (simp add: T resume_def)
  show ?thesis
  proof (cases "choose_roots env opts ds every c")
    case (Some tc)
    then show ?thesis
      unfolding s using choose_roots_inv [OF w ds pr _ r(2,1) Some] cov by (simp add: overflowing_def T True)
  qed (simp add: s overflowing_def walk_inv_def)
next
  case False
  let ?tc = "step_at env opts p t c"
  have s: "step_at env opts p T c = (Awaiting (fst ?tc) (NextChoose ds every), snd ?tc)"
    unfolding T by (rule step_inner [OF False t(2)])
  have cov': "covered R (pending_names t \<union> fst ` set ds) (fetched t) (owed c) c" using cov by (simp add: T)
  have "failing (fst ?tc) \<or> quiet (fst ?tc) \<and> plain_roots (snd ?tc) \<and> root_deps (snd ?tc) \<noteq> None \<and>
      roots (snd ?tc) \<subseteq> fst ` set every \<and> covered R (pending_names (fst ?tc) \<union> fst ` set ds) (fetched (fst ?tc)) (owed (snd ?tc)) (snd ?tc)"
    using t(1)
  proof
    assume "quiet t"
    from framed_inv [OF step_moves [where opts = opts and p = p and c = c, OF w this t(2)] cov' pr] show ?thesis
      using r roots_same [of "snd ?tc" c] by auto
  next
    assume "choosing t c (fst ` set every)"
    from choosing_step [OF w this r(1) pr r(2) cov' refl] show ?thesis by blast
  qed
  then show ?thesis using ds by (auto simp: s walk_inv_def top_task_def)
qed

lemma descend_frame_inv:
  assumes w: "plain_world env" and T: "T = Awaiting t (NextDescend ds)" and ds: "plain_deps ds" "roots c \<subseteq> fst ` set ds"
    and t: "quiet t" "\<not> failing t" and pr: "plain_roots c" and cov: "covered R (pending_names T) (fetched T) (owed c) c"
  shows "walk_inv R (step_at env opts p T c)"
proof (cases "t = Settled")
  case True
  then have s: "step_at env opts p T c = overflowing c (descend_roots env opts ds c)" by (simp add: T resume_def)
  show ?thesis
  proof (cases "descend_roots env opts ds c")
    case (Some tc)
    then show ?thesis
      unfolding s using descend_roots_inv [OF w ds(1) pr _ ds(2) Some] cov by (simp add: overflowing_def T True)
  qed (simp add: s overflowing_def walk_inv_def)
next
  case False
  let ?tc = "step_at env opts p t c"
  have s: "step_at env opts p T c = (Awaiting (fst ?tc) (NextDescend ds), snd ?tc)"
    unfolding T by (rule step_inner [OF False t(2)])
  have "covered R (pending_names t \<union> {}) (fetched t) (owed c) c" using cov by (simp add: T)
  from framed_inv [OF step_moves [where opts = opts and p = p and c = c, OF w t] this pr] show ?thesis
    using ds roots_same [of "snd ?tc" c] by (auto simp: s walk_inv_def top_task_def)
qed

lemma step_inv:
  assumes w: "plain_world env" and i: "walk_inv R (T, c)"
  shows "walk_inv R (step_at env opts p T c)"
proof (cases "failing T")
  case True
  then show ?thesis by (simp add: walk_inv_def failing_stays)
next
  case False
  then have pr: "plain_roots c" and cov: "covered R (pending_names T) (fetched T) (owed c) c" and top: "top_task T c"
    using i by (simp_all add: walk_inv_def)
  from top consider (quiet) "quiet T" "roots c = {}"
    | (choose) t ds every where "T = Awaiting t (NextChoose ds every)" "plain_deps ds" "plain_deps every" "root_deps c \<noteq> None"
        "fst ` set ds \<subseteq> fst ` set every" "roots c \<subseteq> fst ` set every" "quiet t \<or> choosing t c (fst ` set every)"
    | (descend) t ds where "T = Awaiting t (NextDescend ds)" "quiet t" "plain_deps ds" "roots c \<subseteq> fst ` set ds"
    unfolding top_task_def by blast
  then show ?thesis
  proof cases
    case quiet
    then show ?thesis by (rule quiet_top [OF w _ _ i])
  next
    case choose
    then show ?thesis using False by (intro choose_frame_inv [OF w choose(1-3,5,4,6,7) _ pr cov]) simp
  next
    case descend
    then show ?thesis using False by (intro descend_frame_inv [OF w descend(1,3,4,2) _ pr cov]) simp
  qed
qed

lemma run_inv: "plain_world env \<Longrightarrow> walk_inv R tc \<Longrightarrow> walk_inv R (run_walk env opts ps tc)"
proof (induction ps arbitrary: tc)
  case (Cons p ps)
  then show ?case using step_inv [of env R "fst tc" "snd tc"] by simp
qed simp

lemma walk_start:
  assumes w: "plain_world env" and deps: "plain_deps deps" "plain_deps dev_deps"
  shows "walk_inv (fst ` set deps) (resolve_from_package_json env opts deps dev_deps)"
proof -
  let ?ds = "own_entries (if include_dev opts then assign deps dev_deps else deps)" and ?c = "fresh_context\<lparr>root_deps := Some []\<rparr>"
  have names: "fst ` set ?ds = fst ` set deps \<union> (if include_dev opts then fst ` set dev_deps else {})"
    by (simp add: names_own names_assign)
  then have "plain_deps ?ds" using deps unfolding plain_deps_def by auto
  moreover have "plain_roots ?c" by (simp add: plain_roots_def roots_def)
  moreover have "covered (fst ` set deps) (fst ` set ?ds) {} (owed ?c) ?c"
    using names by (intro coveredI) (auto simp: fresh_context_def held_names_def packages_def)
  moreover have "roots ?c = {}" "root_deps ?c \<noteq> None" by (simp_all add: roots_def)
  ultimately show ?thesis
    using choose_roots_inv [OF w, of ?ds ?ds ?c]
    by (cases "choose_roots env opts ?ds ?ds ?c") (simp_all add: resolve_from_package_json_def Let_def overflowing_def walk_inv_def [of _ "(Thrown _, _)"])
qed

lemma settled_closed:
  assumes "walk_inv R (Settled, c)"
  shows "R \<subseteq> tree_names c" "p \<in> packages c \<Longrightarrow> package_names p \<subseteq> tree_names c"
proof -
  have "roots c = {}" and cov: "covered R {} {} (owed c) c" using assms by (simp_all add: walk_inv_def top_task_def)
  then have "owed c = {}" by (auto simp: roots_def owed_def split: option.splits)
  then show "R \<subseteq> tree_names c" "p \<in> packages c \<Longrightarrow> package_names p \<subseteq> tree_names c"
    using coveredD(1) [OF cov] coveredD(3) [OF cov, of p] by simp_all
qed

text \<open>C29: However the calls of an install's walk interleave, a walk that is fulfilled leaves a
  closed tree: what the root depends on, and what any package of the tree or nested in it
  depends on, is a package of the tree.\<close>

theorem finished_tree_closed:
  assumes "plain_world env" "plain_deps deps" "plain_deps dev_deps"
    and "run_walk env opts schedule (resolve_from_package_json env opts deps dev_deps) = (Settled, c)"
  shows "fst ` set deps \<union> (\<Union>p \<in> packages c. package_names p) \<subseteq> tree_names c"
proof -
  have "walk_inv (fst ` set deps) (Settled, c)" using run_inv [OF assms(1) walk_start [OF assms(1-3)]] assms(4) by metis
  note closed = settled_closed [OF this]
  show ?thesis using closed(1) closed(2) by blast
qed

subsection \<open>An install\<close>

definition doc_of :: "(string \<times> string) list \<Rightarrow> version_doc" where
  "doc_of deps = \<lparr>dependencies = deps, peer_dependencies = [], peer_optional = [], optional_dependencies = [], dist = Some None\<rparr>"

definition small_env :: "(string \<times> package_manifest) list \<Rightarrow> env" where
  "small_env ms =
     \<lparr>registry_url = ''r'', own_scopes = None, global_scopes = None, lockfile_manifests = None, lockfile_pins = None,
      lockfile_records = None, fetch_version = (\<lambda>u. Reply 404 None),
      fetch_manifest = (\<lambda>u. case map_of ms u of Some m \<Rightarrow> Reply 200 (Some m) | None \<Rightarrow> Reply 404 None),
      collation_of = (\<lambda>x y. 0)\<rparr>"

definition both_opts :: resolve_options where
  "both_opts = \<lparr>include_dev = False, include_optional = False\<rparr>"

lemma small_world:
  assumes "\<forall>(u, m) \<in> set ms. \<forall>(v, d) \<in> set (versions m).
      plain_deps (dependencies d) \<and> plain_deps (peer_dependencies d) \<and> plain_deps (optional_dependencies d)"
  shows "plain_world (small_env ms)"
proof -
  have "(package_url (small_env ms) reg, m) \<in> set ms" if "manifest_of (small_env ms) reg = Inr m" for reg m
    using that
    by (auto simp: manifest_of_def get_package_manifest_def packument_def small_env_def reply_ok_def
        split: option.splits if_splits sum.splits dest: map_of_SomeD)
  then show ?thesis using assms by (fastforce simp: plain_world_def small_env_def)
qed

definition demo_env :: env where
  "demo_env = small_env
     [(''r/a'', \<lparr>dist_tags = [(''latest'', ''1.0.0'')], versions = [(''1.0.0'', doc_of [(''b'', ''^1.0.0'')])]\<rparr>),
      (''r/b'', \<lparr>dist_tags = [(''latest'', ''1.2.0'')], versions = [(''1.2.0'', doc_of [(''a'', ''*'')])]\<rparr>)]"

declare satisfies.simps [code] enter.simps [code]

definition demo_run :: "task \<times> resolve_context" where
  "demo_run = run_walk demo_env both_opts [[], [], [0], [0], [0], [0], [], [], []]
     (resolve_from_package_json demo_env both_opts [(''a'', ''*'')] [])"

lemma demo_settles: "fst demo_run = Settled"
  by code_simp

lemma demo_world: "plain_world demo_env"
  unfolding demo_env_def by (rule small_world) (simp add: doc_of_def plain_name_def)

theorem finished_tree_closed_witness:
  "fst ` set [(''a'', ''*'')] \<union> (\<Union>p \<in> packages (snd demo_run). package_names p) \<subseteq> tree_names (snd demo_run)"
proof (rule finished_tree_closed [OF demo_world])
  show "run_walk demo_env both_opts [[], [], [0], [0], [0], [0], [], [], []]
      (resolve_from_package_json demo_env both_opts [(''a'', ''*'')] []) = (Settled, snd demo_run)"
    using demo_settles unfolding demo_run_def [symmetric] by (simp add: prod_eq_iff)
qed (simp_all add: plain_name_def)

subsection \<open>The version depends on which reply is last\<close>

text \<open>
  Two dependents, walked side by side, ask for \<open>x\<close> at ranges that exclude each other.  Both
  find the name free and fetch its manifest, and the second reply replaces what the first
  recorded; the dependent that was first gets the other's version, nested nowhere.
\<close>

definition race_env :: env where
  "race_env = small_env
     [(''r/p'', \<lparr>dist_tags = [(''latest'', ''1.0.0'')], versions = [(''1.0.0'', doc_of [(''b'', ''*''), (''c'', ''*'')])]\<rparr>),
      (''r/b'', \<lparr>dist_tags = [(''latest'', ''1.0.0'')], versions = [(''1.0.0'', doc_of [(''x'', ''^1.0.0'')])]\<rparr>),
      (''r/c'', \<lparr>dist_tags = [(''latest'', ''1.0.0'')], versions = [(''1.0.0'', doc_of [(''x'', ''^2.0.0'')])]\<rparr>),
      (''r/x'', \<lparr>dist_tags = [(''latest'', ''2.0.0'')], versions = [(''1.0.0'', doc_of []), (''2.0.0'', doc_of [])]\<rparr>)]"

definition race_run :: "nat list list \<Rightarrow> task \<times> string option \<times> bool" where
  "race_run last_two =
     (let (t, c) = run_walk race_env both_opts
            ([[], [0], [1]] @ last_two @ [[0, 0], [0], [0], [0], [1, 0], [1], [1], [1], [], [], []])
            (resolve_dependencies race_env both_opts ''p'' ''latest'')
      in (t, map_option pkg_version (map_of (resolved_tree c) ''x''), nested_tree c = None))"

lemma last_reply_wins:
  "race_run [[0, 0], [1, 0]] = (Settled, Some ''2.0.0'', True)"
  "race_run [[1, 0], [0, 0]] = (Settled, Some ''1.0.0'', True)"
  by code_simp+

subsection \<open>Recorded versions that depend on each other\<close>

text \<open>
  A lockfile may record, beside the versions at the top, older ones of \<open>a\<close> and \<open>b\<close> that depend
  on each other.  Nested, each is placed below the other, at a place that is always new:
  nothing looks at the places above, and the calls do not end.
\<close>

definition old_doc :: "string \<Rightarrow> lock_doc" where
  "old_doc n =
     \<lparr>lock_version = ''1.0.0'', lock_resolved = Some ''u'', lock_dependencies = [(n, ''1.0.0'')], lock_peers = [],
      lock_peer_optional = [], lock_optional = []\<rparr>"

definition cycle_env :: env where
  "cycle_env =
     (small_env [])\<lparr>lockfile_records :=
        Some [(''a'', [(''1.0.0'', old_doc ''b'')]), (''b'', [(''1.0.0'', old_doc ''a'')])]\<rparr>"

definition other_name :: "string \<Rightarrow> string" where
  "other_name n = (if n = ''a'' then ''b'' else ''a'')"

definition top_two :: "resolve_context \<Rightarrow> bool" where
  "top_two c \<longleftrightarrow> (\<forall>n \<in> {''a'', ''b''}. \<exists>p. map_of (resolved_tree c) n = Some p \<and> pkg_version p = ''2.0.0'')"

text \<open>What is held or placed is no longer than the place of the dependent, and no request's key.\<close>

definition kept_below :: "string \<Rightarrow> resolve_context \<Rightarrow> bool" where
  "kept_below q c \<longleftrightarrow>
     (\<forall>k \<in> set (resolving_keys c). length k \<le> length q \<and> last k \<noteq> CHR ''0'') \<and>
     (\<forall>t. nested_tree c = Some t \<longrightarrow> (\<forall>k \<in> fst ` set t. length k \<le> length q))"

fun cycling :: "call \<Rightarrow> resolve_context \<Rightarrow> bool" where
  "cycling (Package n rng p b) c \<longleftrightarrow>
     n \<in> {''a'', ''b''} \<and> rng = ''1.0.0'' \<and> \<not> b \<and> top_two c \<and> (\<exists>q. p = Some q \<and> q \<noteq> [] \<and> kept_below q c)"
| "cycling (Nested n rng p reg) c \<longleftrightarrow>
     n \<in> {''a'', ''b''} \<and> rng = ''1.0.0'' \<and> top_two c \<and> (\<exists>q. p = Some q \<and> q \<noteq> [] \<and> kept_below q c)"

lemma cycle_facts:
  "satisfies (collation_of cycle_env) ''2.0.0'' ''1.0.0'' = Some False"
  "n \<in> {''a'', ''b''} \<Longrightarrow> recorded_choice cycle_env n ''1.0.0'' = Some (Some (''1.0.0'', old_doc (other_name n)))"
  "lock_deps opts (old_doc m) = [(m, ''1.0.0'')]"
proof -
  show "satisfies (collation_of cycle_env) ''2.0.0'' ''1.0.0'' = Some False" by code_simp
  have "recorded_choice cycle_env ''a'' ''1.0.0'' = Some (Some (''1.0.0'', old_doc (other_name ''a'')))"
      "recorded_choice cycle_env ''b'' ''1.0.0'' = Some (Some (''1.0.0'', old_doc (other_name ''b'')))"
    by code_simp+
  then show "recorded_choice cycle_env n ''1.0.0'' = Some (Some (''1.0.0'', old_doc (other_name n)))" if "n \<in> {''a'', ''b''}"
    using that by blast
  show "lock_deps opts (old_doc m) = [(m, ''1.0.0'')]"
    by (cases "index_name m") (simp_all add: lock_deps_def wanted_deps_def old_doc_def assign_def own_entries_def Let_def)
qed

lemma request_one: "req_range (request_of n ''1.0.0'' p b) = ''1.0.0'' \<and> req_key (request_of n ''1.0.0'' p b) = n @ ''@1.0.0''"
  by (simp add: request_of_def split_alias_def req_key_def)

lemma cycle_never_returns:
  assumes "enter cycle_env opts what c = Some r"
  shows "\<not> cycling what c"
proof -
  have "cycle_env = cycle_env \<longrightarrow> \<not> cycling what c"
  proof (rule enter.raw_induct [where P = "\<lambda>env opts what c r. env = cycle_env \<longrightarrow> \<not> cycling what c", OF _ assms], intro impI notI, goal_cases)
    case (1 f env opts what c r)
    have IH: "\<not> cycling w c" if "f cycle_env opts w c = Some r" for w c r using 1(1) [OF that] by simp
    note body = 1(2) [unfolded 1(3)]
    show False
    proof (cases what)
      case (Package n rng p b)
      then obtain q where q: "n \<in> {''a'', ''b''}" "rng = ''1.0.0''" "top_two c" "p = Some q" "q \<noteq> []" "kept_below q c"
        using 1(4) by auto
      then obtain e where e: "map_of (resolved_tree c) n = Some e" "pkg_version e = ''2.0.0''" by (auto simp: top_two_def)
      have "last (n @ ''@1.0.0'') = CHR ''0''" by simp
      then have "n @ ''@1.0.0'' \<notin> set (resolving_keys c)" using q(6) unfolding kept_below_def by metis
      then have "f cycle_env opts (Nested n ''1.0.0'' p (req_registry (request_of n ''1.0.0'' p b))) c = Some r"
        using body Package e q(2) by (simp add: Let_def request_one cycle_facts(1))
      then show False using IH q by (metis cycling.simps(2))
    next
      case (Nested n rng p reg)
      then obtain q where q: "n \<in> {''a'', ''b''}" "rng = ''1.0.0''" "top_two c" "p = Some q" "q \<noteq> []" "kept_below q c"
        using 1(4) by auto
      define place where "place = nested_place p n"
      let ?tree = "case nested_tree c of Some t \<Rightarrow> t | None \<Rightarrow> []"
      let ?new = "nested_package cycle_env n reg ''1.0.0'' (old_doc (other_name n))"
      let ?c1 = "placed place ?new c"
      have "length q < length place" "last place = last n" using q by (auto simp: place_def nested_place_def)
      then have longer: "length q < length place" and "last place \<noteq> CHR ''0''" using q(1) by auto
      have "place \<notin> set (resolving_keys c)" using q(6) longer by (auto simp: kept_below_def)
      moreover have "map_of ?tree place = None"
      proof -
        have "\<forall>k \<in> fst ` set ?tree. length k \<le> length q" using q(6) by (cases "nested_tree c") (simp_all add: kept_below_def)
        then show ?thesis unfolding map_of_eq_None_iff using longer by (metis not_le)
      qed
      ultimately have "Option.bind (f cycle_env opts (Package (other_name n) ''1.0.0'' (Some place) False) ?c1)
          (\<lambda>(t, c). Some (Awaiting (Awaiting t (NextDep place [])) (Leave place), c)) = Some r"
        using body unfolding Nested q(2) placed_def Let_def
        by (simp add: cycle_facts(2) [OF q(1)] cycle_facts(3) place_def [symmetric])
      then obtain tc where go: "f cycle_env opts (Package (other_name n) ''1.0.0'' (Some place) False) ?c1 = Some tc"
        by (auto simp: bind_eq_Some_conv)
      have "kept_below place ?c1"
        using q(6) longer \<open>last place \<noteq> CHR ''0''\<close> update_subset [of place ?new ?tree]
        by (fastforce simp: kept_below_def placed_def Let_def hold_key_def split: option.splits)
      moreover have "top_two ?c1" using q(3) by (simp add: top_two_def placed_def Let_def hold_key_def)
      moreover have "other_name n \<in> {''a'', ''b''}" by (simp add: other_name_def)
      ultimately have "cycling (Package (other_name n) ''1.0.0'' (Some place) False) ?c1" using longer by auto
      then show False using IH [OF go] by simp
    qed
  qed
  then show ?thesis by simp
qed

lemma cycle_overflows:
  assumes "top_two c" "resolving_keys c = []" "nested_tree c = None"
  shows "overflowing c (resume cycle_env opts (NextDep ''p'' [(''a'', ''1.0.0'')]) c) = (Thrown StackFailure, c)"
proof -
  have "cycling (Package ''a'' ''1.0.0'' (Some ''p'') False) c" using assms by (simp add: kept_below_def)
  then have "enter cycle_env opts (Package ''a'' ''1.0.0'' (Some ''p'') False) c = None"
    using cycle_never_returns [of opts "Package ''a'' ''1.0.0'' (Some ''p'') False" c]
    by (cases "enter cycle_env opts (Package ''a'' ''1.0.0'' (Some ''p'') False) c") (auto simp del: cycling.simps)
  then show ?thesis by (simp add: resume_def overflowing_def)
qed

end
