(* ===== verification/NativeQueue.thy ===== *)
theory NativeQueue
  imports Prelude
begin

unbundle bit_operations_syntax

text \<open>
  \<open>src/native-queue.ts\<close>: the queue through which the threads of a native addon call its
  process's main thread, in words of shared memory.  Any number of threads send, under a
  lock that is one of the words; the main thread alone receives.  Each atomic access, each
  word of a slot, each wait and each notify is one step of the thread that makes it.
\<close>

subsection \<open>The shared words\<close>

abbreviation at_head :: nat where "at_head \<equiv> 0"
abbreviation at_tail :: nat where "at_tail \<equiv> 1"
abbreviation at_lock :: nat where "at_lock \<equiv> 2"
abbreviation at_stop :: nat where "at_stop \<equiv> 3"
abbreviation slots :: nat where "slots \<equiv> 1024"

definition slot_of :: "32 word \<Rightarrow> nat" where
  "slot_of counter = 4 + unat (counter AND 1023) * 2"

type_synonym msg = "32 word \<times> 32 word"

text \<open>
  Where a sending thread is: between sends, in one (its message and what it has loaded),
  or asleep in \<open>Atomics.wait\<close> on the lock's word or on the read counter's.
\<close>

datatype sender =
    SIdle
  | SLock msg
  | SWaitLock msg
  | SLockAsleep msg
  | SHead msg
  | STail msg "32 word"
  | SFullStop msg "32 word" "32 word"
  | SWaitHead msg "32 word" "32 word"
  | SHeadAsleep msg "32 word"
  | SReload msg "32 word"
  | SStop msg "32 word"
  | SCallback msg "32 word"
  | SData msg "32 word"
  | SPublish msg "32 word"
  | SNotify
  | SUnlock
  | SNotifyLock

text \<open>
  Where the receiver is: not started, in \<open>drain\<close>, in the callback of a message, asleep in
  \<open>Atomics.waitAsync\<close> on the write counter, or returned for good.
\<close>

datatype receiver =
    ROff
  | RDrain
  | RHead
  | RTail "32 word"
  | RStop "32 word"
  | RCallback "32 word"
  | RData "32 word" "32 word"
  | RAdvance "32 word" msg
  | RNotify msg
  | RReceive msg
  | RInside
  | RFinally
  | RWaitValue
  | RWait "32 word"
  | RAsleep
  | RDone

datatype stopper = TIdle | TTail | THead | TDone

text \<open>
  The state: the words; who sleeps on the lock, the first to be woken first; where each
  thread is; and what was sent, taken out and handed over.
\<close>

record nqueue =
  words :: "nat \<Rightarrow> 32 word"
  lock_waiters :: "nat list"
  senders :: "nat \<Rightarrow> sender"
  receiver :: receiver
  stopper :: stopper
  sent :: "msg list"
  taken_out :: "msg list"
  received :: "msg list"

definition create_native_queue :: nqueue where
  "create_native_queue =
     \<lparr>words = (\<lambda>_. 0), lock_waiters = [], senders = (\<lambda>_. SIdle), receiver = ROff, stopper = TIdle,
      sent = [], taken_out = [], received = []\<rparr>"

definition store_word :: "nat \<Rightarrow> 32 word \<Rightarrow> nqueue \<Rightarrow> nqueue" where
  "store_word k v s = s\<lparr>words := (words s)(k := v)\<rparr>"

definition go :: "nat \<Rightarrow> sender \<Rightarrow> nqueue \<Rightarrow> nqueue" where
  "go i pc s = s\<lparr>senders := (senders s)(i := pc)\<rparr>"

text \<open>\<open>Atomics.notify\<close> on the read counter, the write counter and, for one waiter, the lock.\<close>

fun wake_head :: "sender \<Rightarrow> sender" where
  "wake_head (SHeadAsleep m t) = SReload m t"
| "wake_head pc = pc"

definition notify_head :: "nqueue \<Rightarrow> nqueue" where
  "notify_head s = s\<lparr>senders := wake_head \<circ> senders s\<rparr>"

definition notify_tail :: "nqueue \<Rightarrow> nqueue" where
  "notify_tail s = (if receiver s = RAsleep then s\<lparr>receiver := RDrain\<rparr> else s)"

fun wake_lock :: "sender \<Rightarrow> sender" where
  "wake_lock (SLockAsleep m) = SLock m"
| "wake_lock pc = pc"

definition notify_lock :: "nqueue \<Rightarrow> nqueue" where
  "notify_lock s =
     (case lock_waiters s of
        [] \<Rightarrow> s
      | j # js \<Rightarrow> s\<lparr>lock_waiters := js, senders := (senders s)(j := wake_lock (senders s j))\<rparr>)"

subsection \<open>A send\<close>

text \<open>The condition of the inner loop: the fill as a signed difference of the counters.\<close>

definition room_check :: "msg \<Rightarrow> 32 word \<Rightarrow> 32 word \<Rightarrow> sender" where
  "room_check m head tail = (if int slots \<le> sint (tail - head) then SFullStop m head tail else SStop m tail)"

text \<open>One step of thread \<open>i\<close>; None where it is idle or asleep.\<close>

definition sender_step :: "nat \<Rightarrow> nqueue \<Rightarrow> nqueue option" where
  "sender_step i s =
     (case senders s i of
        SIdle \<Rightarrow> None
      | SLock m \<Rightarrow>
          Some (if words s at_lock = 0 then go i (SHead m) (store_word at_lock 1 s) else go i (SWaitLock m) s)
      | SWaitLock m \<Rightarrow>
          Some (if words s at_lock = 1
            then go i (SLockAsleep m) (s\<lparr>lock_waiters := lock_waiters s @ [i]\<rparr>) else go i (SLock m) s)
      | SLockAsleep m \<Rightarrow> None
      | SHead m \<Rightarrow> Some (go i (STail m (words s at_head)) s)
      | STail m head \<Rightarrow> Some (go i (room_check m head (words s at_tail)) s)
      | SFullStop m head tail \<Rightarrow>
          Some (go i (if words s at_stop \<noteq> 0 then SUnlock else SWaitHead m head tail) s)
      | SWaitHead m head tail \<Rightarrow>
          Some (go i (if words s at_head = head then SHeadAsleep m tail else SReload m tail) s)
      | SHeadAsleep m tail \<Rightarrow> None
      | SReload m tail \<Rightarrow> Some (go i (room_check m (words s at_head) tail) s)
      | SStop m tail \<Rightarrow> Some (go i (if words s at_stop \<noteq> 0 then SUnlock else SCallback m tail) s)
      | SCallback m tail \<Rightarrow> Some (go i (SData m tail) (store_word (slot_of tail) (fst m) s))
      | SData m tail \<Rightarrow> Some (go i (SPublish m tail) (store_word (slot_of tail + 1) (snd m) s))
      | SPublish m tail \<Rightarrow>
          Some (go i SNotify ((store_word at_tail (tail + 1) s)\<lparr>sent := sent s @ [m]\<rparr>))
      | SNotify \<Rightarrow> Some (go i SUnlock (notify_tail s))
      | SUnlock \<Rightarrow> Some (go i SNotifyLock (store_word at_lock 0 s))
      | SNotifyLock \<Rightarrow> Some (notify_lock (go i SIdle s)))"

subsection \<open>The receiver and the end\<close>

definition to :: "receiver \<Rightarrow> nqueue \<Rightarrow> nqueue" where
  "to pc s = s\<lparr>receiver := pc\<rparr>"

text \<open>One step of the receiver; \<open>throws\<close> is whether the callback it is in throws.\<close>

definition receiver_step :: "bool \<Rightarrow> nqueue \<Rightarrow> nqueue option" where
  "receiver_step throws s =
     (case receiver s of
        ROff \<Rightarrow> None
      | RDrain \<Rightarrow> Some (to (if words s at_stop \<noteq> 0 then RDone else RHead) s)
      | RHead \<Rightarrow> Some (to (RTail (words s at_head)) s)
      | RTail head \<Rightarrow> Some (to (if head \<noteq> words s at_tail then RStop head else RFinally) s)
      | RStop head \<Rightarrow> Some (to (if words s at_stop = 0 then RCallback head else RFinally) s)
      | RCallback head \<Rightarrow> Some (to (RData head (words s (slot_of head))) s)
      | RData head callback \<Rightarrow> Some (to (RAdvance head (callback, words s (slot_of head + 1))) s)
      | RAdvance head m \<Rightarrow>
          Some (to (RNotify m) ((store_word at_head (head + 1) s)\<lparr>taken_out := taken_out s @ [m]\<rparr>))
      | RNotify m \<Rightarrow> Some (to (RReceive m) (notify_head s))
      | RReceive m \<Rightarrow> Some (to RInside (s\<lparr>received := received s @ [m]\<rparr>))
      | RInside \<Rightarrow> Some (to (if throws then RFinally else RHead) s)
      | RFinally \<Rightarrow> Some (to (if words s at_stop = 0 then RWaitValue else RDone) s)
      | RWaitValue \<Rightarrow> Some (to (RWait (words s at_head)) s)
      | RWait v \<Rightarrow> Some (to (if words s at_tail = v then RAsleep else RDrain) s)
      | RAsleep \<Rightarrow> None
      | RDone \<Rightarrow> None)"

text \<open>
  \<open>stopNative\<close> is called on the receiver's own thread: between its turns, or by the code
  in a callback, and the receiver does nothing while it runs.
\<close>

definition stop_step :: "nqueue \<Rightarrow> nqueue option" where
  "stop_step s =
     (case stopper s of
        TIdle \<Rightarrow>
          if receiver s \<in> {ROff, RDrain, RInside, RAsleep, RDone}
          then Some ((store_word at_stop 1 s)\<lparr>stopper := TTail\<rparr>) else None
      | TTail \<Rightarrow> Some ((notify_tail s)\<lparr>stopper := THead\<rparr>)
      | THead \<Rightarrow> Some ((notify_head s)\<lparr>stopper := TDone\<rparr>)
      | TDone \<Rightarrow> None)"

definition main_busy :: "nqueue \<Rightarrow> bool" where
  "main_busy s \<longleftrightarrow> stopper s = TTail \<or> stopper s = THead"

inductive queue_step :: "nqueue \<Rightarrow> nqueue \<Rightarrow> bool" where
  start_send: "senders s i = SIdle \<Longrightarrow> queue_step s (go i (SLock m) s)"
| send_step: "sender_step i s = Some s' \<Longrightarrow> queue_step s s'"
| start_receive: "receiver s = ROff \<Longrightarrow> \<not> main_busy s \<Longrightarrow> queue_step s (to RDrain s)"
| receive_step: "receiver_step throws s = Some s' \<Longrightarrow> \<not> main_busy s \<Longrightarrow> queue_step s s'"
| stopping: "stop_step s = Some s' \<Longrightarrow> queue_step s s'"

inductive queue_reachable :: "nqueue \<Rightarrow> bool" where
  queue_new: "queue_reachable create_native_queue"
| queue_next: "queue_reachable s \<Longrightarrow> queue_step s s' \<Longrightarrow> queue_reachable s'"

subsection \<open>Slots and counters\<close>

text \<open>The messages in the queue, as a reader of the words finds them.\<close>

definition queued :: "nqueue \<Rightarrow> msg list" where
  "queued s =
     map (\<lambda>i. let slot = slot_of (words s at_head + of_nat i) in (words s slot, words s (slot + 1)))
       [0..<unat (words s at_tail - words s at_head)]"

lemma slot_of_nat: "slot_of (of_nat k) = 4 + (k mod slots) * 2"
proof -
  have "(of_nat k :: 32 word) AND 1023 = take_bit 10 (of_nat k)"
    by (simp add: take_bit_eq_mask mask_eq_exp_minus_1)
  also have "unat (take_bit 10 (of_nat k :: 32 word)) = take_bit 10 (unat (of_nat k :: 32 word))"
    by (simp add: unsigned_take_bit_eq)
  also have "\<dots> = k mod slots"
    by (simp add: unat_of_nat take_bit_eq_mod mod_mod_cancel)
  finally show ?thesis by (simp add: slot_of_def)
qed

lemma slot_apart:
  assumes "slot_of (of_nat j) = slot_of (of_nat k)" and "j \<le> k" "k < j + slots"
  shows "j = k"
proof -
  have "j mod slots = k mod slots" using assms(1) by (simp add: slot_of_nat)
  then have "slots dvd k - j" using assms(2) by (metis mod_eq_dvd_iff_nat)
  then show ?thesis using assms(2,3) by (auto dest: dvd_imp_le)
qed

lemma slot_not_header [simp]:
  "slot_of c \<noteq> 0" "slot_of c \<noteq> Suc 0" "slot_of c \<noteq> 2" "slot_of c \<noteq> 3"
  "Suc (slot_of c) \<noteq> 2" "Suc (slot_of c) \<noteq> 3" "Suc (slot_of c) \<noteq> Suc 0"
  "0 \<noteq> slot_of c" "Suc 0 \<noteq> slot_of c" "2 \<noteq> slot_of c" "3 \<noteq> slot_of c" "2 \<noteq> Suc (slot_of c)" "3 \<noteq> Suc (slot_of c)"
  by (simp_all add: slot_of_def)

lemma slot_words_apart [simp]: "slot_of c \<noteq> Suc (slot_of d)" "Suc (slot_of d) \<noteq> slot_of c"
  by (simp_all add: slot_of_def) presburger+

lemma counter_difference:
  assumes "a \<le> b" "b \<le> a + slots"
  shows "unat (of_nat b - of_nat a :: 32 word) = b - a" "sint (of_nat b - of_nat a :: 32 word) = int (b - a)"
    "(of_nat b :: 32 word) = of_nat a \<longleftrightarrow> b = a"
proof -
  have d: "of_nat b - of_nat a = (of_nat (b - a) :: 32 word)" using assms(1) by (simp add: of_nat_diff)
  show u: "unat (of_nat b - of_nat a :: 32 word) = b - a"
    unfolding d using assms by (simp add: unat_of_nat del: of_nat_diff)
  show "sint (of_nat b - of_nat a :: 32 word) = int (b - a)"
    unfolding d using assms by (simp add: signed_of_nat signed_take_bit_int_eq_self del: of_nat_diff)
  show "(of_nat b :: 32 word) = of_nat a \<longleftrightarrow> b = a"
    using u by (metis assms(1) diff_is_0_eq diff_self le_antisym unat_0)
qed

subsection \<open>The invariant\<close>

text \<open>Who is between taking the lock and giving it back.\<close>

fun holds_lock :: "sender \<Rightarrow> bool" where
  "holds_lock SIdle = False"
| "holds_lock (SLock m) = False"
| "holds_lock (SWaitLock m) = False"
| "holds_lock (SLockAsleep m) = False"
| "holds_lock SNotifyLock = False"
| "holds_lock pc = True"

definition lock_inv :: "nqueue \<Rightarrow> bool" where
  "lock_inv s \<longleftrightarrow>
     (\<forall>i j. holds_lock (senders s i) \<longrightarrow> holds_lock (senders s j) \<longrightarrow> i = j) \<and>
     words s at_lock = (if \<exists>i. holds_lock (senders s i) then 1 else 0)"

text \<open>The words, from what was sent and taken out: the slots between hold what is queued.\<close>

definition slot_holds :: "nqueue \<Rightarrow> 32 word \<Rightarrow> msg \<Rightarrow> bool" where
  "slot_holds s c m \<longleftrightarrow> words s (slot_of c) = fst m \<and> words s (Suc (slot_of c)) = snd m"

definition words_inv :: "nqueue \<Rightarrow> bool" where
  "words_inv s \<longleftrightarrow>
     words s at_head = of_nat (length (taken_out s)) \<and> words s at_tail = of_nat (length (sent s)) \<and>
     length (taken_out s) \<le> length (sent s) \<and> length (sent s) \<le> length (taken_out s) + slots \<and>
     taken_out s = take (length (taken_out s)) (sent s) \<and>
     (\<forall>k. length (taken_out s) \<le> k \<longrightarrow> k < length (sent s) \<longrightarrow> slot_holds s (of_nat k) (sent s ! k))"

text \<open>A read counter that was loaded is an old one, with the fill then in bounds.\<close>

definition loaded :: "nqueue \<Rightarrow> nat \<Rightarrow> bool" where
  "loaded s a \<longleftrightarrow> a \<le> length (taken_out s) \<and> length (sent s) \<le> a + slots"

definition has_room :: "nqueue \<Rightarrow> 32 word \<Rightarrow> bool" where
  "has_room s tail \<longleftrightarrow> tail = words s at_tail \<and> length (sent s) < length (taken_out s) + slots"

definition was_full :: "nqueue \<Rightarrow> 32 word \<Rightarrow> bool" where
  "was_full s head \<longleftrightarrow> (\<exists>a. head = of_nat a \<and> a \<le> length (taken_out s) \<and> length (sent s) = a + slots)"

fun sender_ok :: "nqueue \<Rightarrow> sender \<Rightarrow> bool" where
  "sender_ok s (STail m head) = (\<exists>a. head = of_nat a \<and> loaded s a)"
| "sender_ok s (SFullStop m head tail) = (tail = words s at_tail \<and> was_full s head)"
| "sender_ok s (SWaitHead m head tail) = (tail = words s at_tail \<and> was_full s head)"
| "sender_ok s (SHeadAsleep m tail) = (tail = words s at_tail)"
| "sender_ok s (SReload m tail) = (tail = words s at_tail)"
| "sender_ok s (SStop m tail) = has_room s tail"
| "sender_ok s (SCallback m tail) = has_room s tail"
| "sender_ok s (SData m tail) = (has_room s tail \<and> words s (slot_of tail) = fst m)"
| "sender_ok s (SPublish m tail) = (has_room s tail \<and> slot_holds s tail m)"
| "sender_ok s pc = True"

definition next_message :: "nqueue \<Rightarrow> msg" where
  "next_message s = sent s ! length (taken_out s)"

fun receiver_ok :: "nqueue \<Rightarrow> receiver \<Rightarrow> bool" where
  "receiver_ok s (RTail head) = (head = words s at_head \<and> taken_out s = received s)"
| "receiver_ok s (RStop head) =
     (head = words s at_head \<and> taken_out s = received s \<and> length (taken_out s) < length (sent s))"
| "receiver_ok s (RCallback head) =
     (head = words s at_head \<and> taken_out s = received s \<and> length (taken_out s) < length (sent s))"
| "receiver_ok s (RData head cb) =
     (head = words s at_head \<and> taken_out s = received s \<and> length (taken_out s) < length (sent s) \<and>
      cb = fst (next_message s))"
| "receiver_ok s (RAdvance head m) =
     (head = words s at_head \<and> taken_out s = received s \<and> length (taken_out s) < length (sent s) \<and>
      m = next_message s)"
| "receiver_ok s (RNotify m) = (taken_out s = received s @ [m])"
| "receiver_ok s (RReceive m) = (taken_out s = received s @ [m])"
| "receiver_ok s (RWait v) = (v = words s at_head \<and> taken_out s = received s)"
| "receiver_ok s pc = (taken_out s = received s)"

definition queue_inv :: "nqueue \<Rightarrow> bool" where
  "queue_inv s \<longleftrightarrow> lock_inv s \<and> words_inv s \<and> (\<forall>i. sender_ok s (senders s i)) \<and> receiver_ok s (receiver s)"

lemma queue_inv_new: "queue_inv create_native_queue"
  by (simp add: queue_inv_def lock_inv_def words_inv_def create_native_queue_def)

text \<open>A step of one thread inside the lock, and what it leaves alone.\<close>

lemma go_fields [simp]:
  "words (go i pc s) = words s" "lock_waiters (go i pc s) = lock_waiters s" "receiver (go i pc s) = receiver s"
  "stopper (go i pc s) = stopper s" "sent (go i pc s) = sent s" "taken_out (go i pc s) = taken_out s"
  "received (go i pc s) = received s" "senders (go i pc s) = (senders s)(i := pc)"
  by (simp_all add: go_def)

lemma store_fields [simp]:
  "words (store_word k v s) = (words s)(k := v)" "lock_waiters (store_word k v s) = lock_waiters s"
  "receiver (store_word k v s) = receiver s" "stopper (store_word k v s) = stopper s"
  "sent (store_word k v s) = sent s" "taken_out (store_word k v s) = taken_out s"
  "received (store_word k v s) = received s" "senders (store_word k v s) = senders s"
  by (simp_all add: store_word_def)

lemma to_fields [simp]:
  "words (to pc s) = words s" "lock_waiters (to pc s) = lock_waiters s" "receiver (to pc s) = pc"
  "stopper (to pc s) = stopper s" "sent (to pc s) = sent s" "taken_out (to pc s) = taken_out s"
  "received (to pc s) = received s" "senders (to pc s) = senders s"
  by (simp_all add: to_def)

lemma sender_ok_cong:
  assumes "words t = words s" and "sent t = sent s" and "taken_out t = taken_out s"
  shows "sender_ok t pc = sender_ok s pc"
  using assms by (cases pc) (simp_all add: loaded_def was_full_def has_room_def slot_holds_def)

lemma receiver_ok_cong:
  assumes "words t = words s" and "sent t = sent s" and "taken_out t = taken_out s" and "received t = received s"
  shows "receiver_ok t pc = receiver_ok s pc"
  using assms by (cases pc) (simp_all add: next_message_def)

lemma words_inv_cong:
  assumes "words t = words s" and "sent t = sent s" and "taken_out t = taken_out s"
  shows "words_inv t = words_inv s"
  using assms by (simp add: words_inv_def slot_holds_def)

text \<open>A step that changes where one sender is and no word.\<close>

lemma queue_inv_go:
  assumes inv: "queue_inv s" and "holds_lock pc = holds_lock (senders s i)" and ok: "sender_ok s pc"
  shows "queue_inv (go i pc s)"
proof -
  have "holds_lock (senders (go i pc s) j) = holds_lock (senders s j)" for j using assms(2) by simp
  then have "lock_inv (go i pc s) = lock_inv s" by (simp add: lock_inv_def del: go_fields(8))
  moreover have "sender_ok (go i pc s) (senders (go i pc s) j)" for j
    using inv ok sender_ok_cong [of "go i pc s" s] by (simp add: queue_inv_def)
  ultimately show ?thesis
    using inv words_inv_cong [of "go i pc s" s] receiver_ok_cong [of "go i pc s" s] by (simp add: queue_inv_def)
qed

lemma queue_invD:
  assumes "queue_inv s"
  shows "lock_inv s" "words_inv s" "sender_ok s (senders s i)" "receiver_ok s (receiver s)"
  using assms by (simp_all add: queue_inv_def)

lemma words_invD:
  assumes "words_inv s"
  shows "words s at_head = of_nat (length (taken_out s))" "words s at_tail = of_nat (length (sent s))"
    "length (taken_out s) \<le> length (sent s)" "length (sent s) \<le> length (taken_out s) + slots"
    "taken_out s = take (length (taken_out s)) (sent s)"
    "length (taken_out s) \<le> k \<Longrightarrow> k < length (sent s) \<Longrightarrow> slot_holds s (of_nat k) (sent s ! k)"
  using assms unfolding words_inv_def by blast+

lemma not_holder_ok: "\<not> holds_lock pc \<Longrightarrow> sender_ok s pc"
  by (cases pc) simp_all

lemma only_holder: "lock_inv s \<Longrightarrow> holds_lock (senders s i) \<Longrightarrow> j \<noteq> i \<Longrightarrow> \<not> holds_lock (senders s j)"
  unfolding lock_inv_def by blast

text \<open>A step of the thread that has the lock: of the senders, only itself has to be looked at.\<close>

lemma queue_inv_holder:
  assumes inv: "queue_inv s" and i: "holds_lock (senders s i)" and pc: "holds_lock pc"
    and t: "senders t = (senders s)(i := pc)" "words t at_lock = words s at_lock"
    and ok: "words_inv t" "sender_ok t pc" "receiver_ok t (receiver t)"
  shows "queue_inv t"
proof -
  have h: "holds_lock (senders t j) = holds_lock (senders s j)" for j using i pc t(1) by simp
  then have "lock_inv t" using queue_invD(1) [OF inv] t(2) by (simp add: lock_inv_def)
  moreover have "sender_ok t (senders t j)" for j
  proof (cases "j = i")
    case False
    then show ?thesis using only_holder [OF queue_invD(1) [OF inv] i] h by (intro not_holder_ok) simp
  qed (use t(1) ok(2) in simp)
  ultimately show ?thesis using ok by (simp add: queue_inv_def)
qed

lemma room_check_holds [simp]: "holds_lock (room_check m head tail)"
  by (simp add: room_check_def)

lemma room_check_ok:
  assumes w: "words_inv s" and a: "loaded s a"
  shows "sender_ok s (room_check m (of_nat a) (words s at_tail))"
proof -
  have b: "a \<le> length (sent s)" "length (sent s) \<le> a + slots"
    using a words_invD(3) [OF w] by (simp_all add: loaded_def)
  have "sint (words s at_tail - of_nat a) = int (length (sent s) - a)"
    unfolding words_invD(2) [OF w] using counter_difference(2) [OF b] .
  then show ?thesis
    using a b by (auto simp: room_check_def loaded_def was_full_def has_room_def)
qed

lemma now_loaded: "words_inv s \<Longrightarrow> loaded s (length (taken_out s))"
  using words_invD(4) [of s] by (simp add: loaded_def)

text \<open>Writing the free slot at the write counter changes no message that is queued.\<close>

lemma store_slot_inv:
  assumes inv: "queue_inv s" and i: "holds_lock (senders s i)" and pc: "holds_lock pc"
    and room: "has_room s tail" and k: "k = slot_of tail \<or> k = Suc (slot_of tail)"
    and ok: "sender_ok (store_word k v s) pc"
  shows "queue_inv (go i pc (store_word k v s))"
proof (rule queue_inv_holder [OF inv i pc])
  let ?t = "go i pc (store_word k v s)"
  note w = words_invD [OF queue_invD(2) [OF inv]]
  have tail: "tail = of_nat (length (sent s))" and fill: "length (sent s) < length (taken_out s) + slots"
    using room w(2) by (simp_all add: has_room_def)
  have header: "words ?t at_head = words s at_head" "words ?t at_tail = words s at_tail" "words ?t at_lock = words s at_lock"
    using k by auto
  then show "words ?t at_lock = words s at_lock" by simp
  have "slot_holds ?t (of_nat j) m = slot_holds s (of_nat j) m"
    if "length (taken_out s) \<le> j" "j < length (sent s)" for j m
  proof -
    have "slot_of (of_nat j) \<noteq> slot_of tail"
      using slot_apart [of j "length (sent s)"] that fill tail by auto
    then show ?thesis using k by (auto simp: slot_holds_def)
  qed
  with w header show "words_inv ?t" unfolding words_inv_def by simp
  show "sender_ok ?t pc" using ok sender_ok_cong [of ?t "store_word k v s"] by simp
  have "receiver_ok ?t pc' = receiver_ok s pc'" for pc'
    using header(1) by (cases pc') (simp_all add: next_message_def)
  then show "receiver_ok ?t (receiver ?t)" using queue_invD(4) [OF inv] by simp
qed simp_all

lemma publish_inv:
  assumes inv: "queue_inv s" and i: "senders s i = SPublish m tail"
  shows "queue_inv (go i SNotify ((store_word at_tail (tail + 1) s)\<lparr>sent := sent s @ [m]\<rparr>))"
proof (rule queue_inv_holder [OF inv])
  let ?t = "go i SNotify ((store_word at_tail (tail + 1) s)\<lparr>sent := sent s @ [m]\<rparr>)"
  note w = words_invD [OF queue_invD(2) [OF inv]]
  have ok: "has_room s tail" "slot_holds s tail m" using queue_invD(3) [OF inv, of i] i by simp_all
  then have tail: "tail = of_nat (length (sent s))" and fill: "length (sent s) < length (taken_out s) + slots"
    using w(2) by (simp_all add: has_room_def)
  have same: "slot_holds ?t c x = slot_holds s c x" for c x by (simp add: slot_holds_def)
  have "slot_holds ?t (of_nat k) (sent ?t ! k)" if "length (taken_out s) \<le> k" "k < length (sent ?t)" for k
  proof (cases "k < length (sent s)")
    case True
    then show ?thesis using w(6) [OF that(1)] unfolding same by (simp add: nth_append)
  next
    case False
    with that have "k = length (sent s)" by simp
    then show ?thesis using ok(2) tail unfolding same by (simp add: nth_append)
  qed
  moreover have "taken_out ?t = take (length (taken_out ?t)) (sent ?t)" using w(3,5) by simp
  moreover have "words ?t at_tail = of_nat (length (sent ?t))" using tail by simp
  ultimately show "words_inv ?t" using w fill unfolding words_inv_def by simp
  have "receiver_ok s pc \<Longrightarrow> receiver_ok ?t pc" for pc
    by (cases pc) (auto simp: next_message_def nth_append)
  then show "receiver_ok ?t (receiver ?t)" using queue_invD(4) [OF inv] by simp
  show "holds_lock (senders s i)" using i by simp
  show "holds_lock SNotify" "sender_ok ?t SNotify" by (simp_all only: holds_lock.simps sender_ok.simps)
qed simp_all

lemma queue_inv_waiters [simp]: "queue_inv (s\<lparr>lock_waiters := ws\<rparr>) = queue_inv s"
proof -
  have "sender_ok (s\<lparr>lock_waiters := ws\<rparr>) pc = sender_ok s pc" for pc by (rule sender_ok_cong) simp_all
  moreover have "receiver_ok (s\<lparr>lock_waiters := ws\<rparr>) pc = receiver_ok s pc" for pc by (rule receiver_ok_cong) simp_all
  moreover have "words_inv (s\<lparr>lock_waiters := ws\<rparr>) = words_inv s" by (rule words_inv_cong) simp_all
  ultimately show ?thesis by (simp add: queue_inv_def lock_inv_def)
qed

lemma queue_inv_receiver:
  assumes "queue_inv s" and "receiver_ok s pc"
  shows "queue_inv (s\<lparr>receiver := pc\<rparr>)"
proof -
  have "sender_ok (s\<lparr>receiver := pc\<rparr>) pc' = sender_ok s pc'" for pc' by (rule sender_ok_cong) simp_all
  moreover have "receiver_ok (s\<lparr>receiver := pc\<rparr>) pc' = receiver_ok s pc'" for pc' by (rule receiver_ok_cong) simp_all
  moreover have "words_inv (s\<lparr>receiver := pc\<rparr>) = words_inv s" by (rule words_inv_cong) simp_all
  ultimately show ?thesis using assms by (simp add: queue_inv_def lock_inv_def)
qed

lemma queue_inv_stopper [simp]: "queue_inv (s\<lparr>stopper := x\<rparr>) = queue_inv s"
proof -
  have "sender_ok (s\<lparr>stopper := x\<rparr>) pc = sender_ok s pc" for pc by (rule sender_ok_cong) simp_all
  moreover have "receiver_ok (s\<lparr>stopper := x\<rparr>) pc = receiver_ok s pc" for pc by (rule receiver_ok_cong) simp_all
  moreover have "words_inv (s\<lparr>stopper := x\<rparr>) = words_inv s" by (rule words_inv_cong) simp_all
  ultimately show ?thesis by (simp add: queue_inv_def lock_inv_def)
qed

lemma notify_tail_inv: "queue_inv s \<Longrightarrow> queue_inv (notify_tail s)"
  using queue_invD(4) [of s] by (auto simp: notify_tail_def intro!: queue_inv_receiver)

text \<open>Sleepers woken hold what they held, and are owed nothing more than when they slept.\<close>

lemma queue_inv_woken:
  assumes inv: "queue_inv s" and f: "\<And>pc. holds_lock (f pc) = holds_lock pc" "\<And>pc. sender_ok s pc \<Longrightarrow> sender_ok s (f pc)"
    and t: "senders t = (\<lambda>j. if j \<in> js then f (senders s j) else senders s j)"
      "words t = words s" "sent t = sent s" "taken_out t = taken_out s" "received t = received s" "receiver t = receiver s"
  shows "queue_inv t"
proof -
  have "holds_lock (senders t j) = holds_lock (senders s j)" for j by (simp add: t(1) f(1))
  then have "lock_inv t = lock_inv s" by (simp add: lock_inv_def t(2))
  moreover have "sender_ok t (senders t j)" for j
    using queue_invD(3) [OF inv, of j] f(2) sender_ok_cong [OF t(2-4)] by (simp add: t(1))
  ultimately show ?thesis
    using inv words_inv_cong [OF t(2-4)] receiver_ok_cong [OF t(2-5)] t(6) by (simp add: queue_inv_def)
qed

lemma notify_head_inv: "queue_inv s \<Longrightarrow> queue_inv (notify_head s)"
proof (rule queue_inv_woken [where f = wake_head and js = UNIV])
  show "holds_lock (wake_head pc) = holds_lock pc" "sender_ok s pc \<Longrightarrow> sender_ok s (wake_head pc)" for pc
    by (cases pc; simp)+
qed (simp_all add: notify_head_def fun_eq_iff)

lemma notify_lock_inv: "queue_inv s \<Longrightarrow> queue_inv (notify_lock s)"
proof (cases "lock_waiters s")
  case (Cons j js)
  assume "queue_inv s"
  then show ?thesis
  proof (rule queue_inv_woken [where f = wake_lock and js = "{j}"])
    show "holds_lock (wake_lock pc) = holds_lock pc" "sender_ok s pc \<Longrightarrow> sender_ok s (wake_lock pc)" for pc
      by (cases pc; simp)+
  qed (simp_all add: notify_lock_def Cons fun_eq_iff)
qed (simp add: notify_lock_def)

lemma notify_fields [simp]:
  "words (notify_tail s) = words s" "words (notify_head s) = words s" "words (notify_lock s) = words s"
  "senders (notify_tail s) = senders s" "sent (notify_tail s) = sent s" "taken_out (notify_tail s) = taken_out s"
  "receiver (notify_head s) = receiver s" "receiver (notify_lock s) = receiver s"
  by (auto simp: notify_tail_def notify_head_def notify_lock_def split: list.split)

lemma take_lock_inv:
  assumes inv: "queue_inv s" and i: "senders s i = SLock m" and free: "words s at_lock = 0"
  shows "queue_inv (go i (SHead m) (store_word at_lock 1 s))"
proof -
  let ?t = "go i (SHead m) (store_word at_lock 1 s)"
  have none: "\<not> holds_lock (senders s j)" for j
    using queue_invD(1) [OF inv] free unfolding lock_inv_def by (auto split: if_splits)
  then have "lock_inv ?t" by (auto simp: lock_inv_def)
  moreover have "sender_ok ?t (senders ?t j)" for j
    using none [of j] by (cases "j = i") (simp_all add: not_holder_ok)
  moreover have "words_inv ?t" using queue_invD(2) [OF inv] by (simp add: words_inv_def slot_holds_def)
  moreover have "receiver_ok ?t pc = receiver_ok s pc" for pc by (cases pc) (simp_all add: next_message_def)
  ultimately show ?thesis using queue_invD(4) [OF inv] by (simp add: queue_inv_def)
qed

lemma give_lock_inv:
  assumes inv: "queue_inv s" and i: "senders s i = SUnlock"
  shows "queue_inv (go i SNotifyLock (store_word at_lock 0 s))"
proof -
  let ?t = "go i SNotifyLock (store_word at_lock 0 s)"
  have "holds_lock (senders s i)" using i by simp
  then have none: "\<not> holds_lock (senders ?t j)" for j
    using only_holder [OF queue_invD(1) [OF inv], of i j] by simp
  then have "lock_inv ?t" by (simp add: lock_inv_def)
  moreover have "sender_ok ?t (senders ?t j)" for j using none [of j] by (rule not_holder_ok)
  moreover have "words_inv ?t" using queue_invD(2) [OF inv] by (simp add: words_inv_def slot_holds_def)
  moreover have "receiver_ok ?t pc = receiver_ok s pc" for pc by (cases pc) (simp_all add: next_message_def)
  ultimately show ?thesis using queue_invD(4) [OF inv] by (simp add: queue_inv_def)
qed

lemma sender_step_inv:
  assumes inv: "queue_inv s" and step: "sender_step i s = Some t"
  shows "queue_inv t"
proof (cases "senders s i")
  case (SLock m)
  with step inv show ?thesis
    by (auto simp: sender_step_def intro: take_lock_inv queue_inv_go split: if_splits)
next
  case (SWaitLock m)
  with step inv show ?thesis
    by (auto simp: sender_step_def intro!: queue_inv_go split: if_splits)
next
  case (SHead m)
  have "sender_ok s (STail m (words s at_head))"
    using now_loaded [OF queue_invD(2) [OF inv]] words_invD(1) [OF queue_invD(2) [OF inv]] by auto
  with SHead step inv show ?thesis by (auto simp: sender_step_def intro!: queue_inv_go)
next
  case (STail m head)
  then obtain a where "head = of_nat a" "loaded s a" using queue_invD(3) [OF inv, of i] by auto
  then have "sender_ok s (room_check m head (words s at_tail))"
    using room_check_ok [OF queue_invD(2) [OF inv]] by simp
  with STail step inv show ?thesis by (auto simp: sender_step_def intro!: queue_inv_go)
next
  case (SFullStop m head tail)
  with step inv queue_invD(3) [OF inv, of i] show ?thesis by (auto simp: sender_step_def intro!: queue_inv_go)
next
  case (SWaitHead m head tail)
  with step inv queue_invD(3) [OF inv, of i] show ?thesis by (auto simp: sender_step_def intro!: queue_inv_go)
next
  case (SReload m tail)
  note w = queue_invD(2) [OF inv]
  have "tail = words s at_tail" using queue_invD(3) [OF inv, of i] SReload by simp
  then have "sender_ok s (room_check m (words s at_head) tail)"
    using room_check_ok [OF w now_loaded [OF w], of m] words_invD(1) [OF w] by simp
  with SReload step inv show ?thesis by (auto simp: sender_step_def intro!: queue_inv_go)
next
  case (SStop m tail)
  with step inv queue_invD(3) [OF inv, of i] show ?thesis by (auto simp: sender_step_def intro!: queue_inv_go)
next
  case (SCallback m tail)
  then have room: "has_room s tail" using queue_invD(3) [OF inv, of i] by simp
  have "queue_inv (go i (SData m tail) (store_word (slot_of tail) (fst m) s))"
    by (rule store_slot_inv [OF inv _ _ room]) (use SCallback room in \<open>simp_all add: has_room_def\<close>)
  with SCallback step show ?thesis by (simp add: sender_step_def)
next
  case (SData m tail)
  then have room: "has_room s tail" "words s (slot_of tail) = fst m" using queue_invD(3) [OF inv, of i] by simp_all
  have "queue_inv (go i (SPublish m tail) (store_word (Suc (slot_of tail)) (snd m) s))"
    by (rule store_slot_inv [OF inv _ _ room(1)]) (use SData room in \<open>simp_all add: has_room_def slot_holds_def\<close>)
  with SData step show ?thesis by (simp add: sender_step_def)
next
  case (SPublish m tail)
  with publish_inv [OF inv SPublish] step show ?thesis by (simp add: sender_step_def)
next
  case SNotify
  have "queue_inv (go i SUnlock (notify_tail s))"
    using notify_tail_inv [OF inv] by (rule queue_inv_go) (simp_all add: SNotify)
  with SNotify step show ?thesis by (simp add: sender_step_def)
next
  case SUnlock
  with give_lock_inv [OF inv SUnlock] step show ?thesis by (simp add: sender_step_def)
next
  case SNotifyLock
  have "queue_inv (go i SIdle s)" using inv by (rule queue_inv_go) (simp_all add: SNotifyLock)
  with SNotifyLock step notify_lock_inv show ?thesis by (auto simp: sender_step_def)
qed (use step in \<open>simp_all add: sender_step_def\<close>)

text \<open>The receiver takes the message at the read counter out.\<close>

lemma advance_inv:
  assumes inv: "queue_inv s" and r: "receiver s = RAdvance head m"
  shows "queue_inv (to (RNotify m) ((store_word at_head (head + 1) s)\<lparr>taken_out := taken_out s @ [m]\<rparr>))"
proof -
  let ?t = "to (RNotify m) ((store_word at_head (head + 1) s)\<lparr>taken_out := taken_out s @ [m]\<rparr>)"
  note w = words_invD [OF queue_invD(2) [OF inv]]
  have ok: "head = words s at_head" "taken_out s = received s" "length (taken_out s) < length (sent s)" "m = next_message s"
    using queue_invD(4) [OF inv] unfolding r receiver_ok.simps by blast+
  have same: "slot_holds ?t c x = slot_holds s c x" for c x by (simp add: slot_holds_def)
  have "taken_out s @ [m] = take (Suc (length (taken_out s))) (sent s)"
    using w(5) ok(3,4) by (simp add: take_Suc_conv_app_nth next_message_def)
  then have "words_inv ?t"
    using w(2-4,6) ok(1,3) w(1) unfolding words_inv_def same by simp
  moreover have "sender_ok s pc \<Longrightarrow> sender_ok ?t pc" for pc
  proof (cases pc)
    case (STail m' h)
    assume "sender_ok s pc"
    with STail obtain a where "h = of_nat a" "loaded s a" by auto
    then show ?thesis using STail by (auto simp: loaded_def intro!: exI [of _ a])
  next
    case (SFullStop m' h t)
    assume "sender_ok s pc"
    with SFullStop show ?thesis by (auto simp: was_full_def intro: le_SucI)
  next
    case (SWaitHead m' h t)
    assume "sender_ok s pc"
    with SWaitHead show ?thesis by (auto simp: was_full_def intro: le_SucI)
  qed (simp_all add: has_room_def slot_holds_def)
  ultimately show ?thesis
    using inv ok(2) by (simp add: queue_inv_def lock_inv_def)
qed

lemma queue_inv_to: "queue_inv s \<Longrightarrow> receiver_ok s pc \<Longrightarrow> queue_inv (to pc s)"
  by (simp add: to_def queue_inv_receiver)

lemma queue_inv_hand_over:
  assumes inv: "queue_inv s" and r: "receiver s = RReceive m"
  shows "queue_inv (to RInside (s\<lparr>received := received s @ [m]\<rparr>))"
proof -
  let ?t = "to RInside (s\<lparr>received := received s @ [m]\<rparr>)"
  have "sender_ok ?t pc = sender_ok s pc" for pc by (rule sender_ok_cong) simp_all
  moreover have "words_inv ?t = words_inv s" by (rule words_inv_cong) simp_all
  moreover have "taken_out s = received s @ [m]" using queue_invD(4) [OF inv] r by simp
  ultimately show ?thesis using inv by (simp add: queue_inv_def lock_inv_def)
qed

lemma receiver_step_inv:
  assumes inv: "queue_inv s" and step: "receiver_step throws s = Some t"
  shows "queue_inv t"
proof -
  note ok = queue_invD(4) [OF inv]
  note w = words_invD [OF queue_invD(2) [OF inv]]
  show ?thesis
  proof (cases "receiver s")
    case (RTail head)
    have "length (taken_out s) < length (sent s)" if "words s at_head \<noteq> words s at_tail"
      using that w(1-3) by (cases "length (taken_out s) = length (sent s)") simp_all
    with RTail ok step inv show ?thesis
      by (auto simp: receiver_step_def intro!: queue_inv_to split: if_splits)
  next
    case (RCallback head)
    have "head = words s at_head" "length (taken_out s) < length (sent s)"
      using ok unfolding RCallback receiver_ok.simps by blast+
    then have "slot_holds s head (next_message s)"
      using w(6) [of "length (taken_out s)"] w(1) by (simp add: next_message_def)
    with RCallback ok step inv show ?thesis
      by (auto simp: receiver_step_def slot_holds_def intro!: queue_inv_to)
  next
    case (RData head cb)
    have "head = words s at_head" "length (taken_out s) < length (sent s)"
      using ok unfolding RData receiver_ok.simps by blast+
    then have "slot_holds s head (next_message s)"
      using w(6) [of "length (taken_out s)"] w(1) by (simp add: next_message_def)
    with RData ok step inv show ?thesis
      by (auto simp: receiver_step_def slot_holds_def intro!: queue_inv_to)
  next
    case (RAdvance head m)
    with step advance_inv [OF inv] show ?thesis by (simp add: receiver_step_def)
  next
    case (RNotify m)
    have "receiver_ok (notify_head s) (RReceive m)" using ok RNotify by (simp add: notify_head_def)
    with RNotify step notify_head_inv [OF inv] show ?thesis
      by (auto simp: receiver_step_def intro!: queue_inv_to)
  next
    case (RReceive m)
    with step queue_inv_hand_over [OF inv] show ?thesis by (simp add: receiver_step_def)
  qed (use ok step inv in \<open>auto simp: receiver_step_def intro!: queue_inv_to split: if_splits\<close>)
qed

lemma stop_step_inv:
  assumes inv: "queue_inv s" and step: "stop_step s = Some t"
  shows "queue_inv t"
proof (cases "stopper s")
  case TIdle
  have "queue_inv (store_word at_stop 1 s)"
  proof -
    let ?t = "store_word at_stop 1 s"
    have "sender_ok ?t pc = sender_ok s pc" for pc
      by (cases pc) (simp_all add: loaded_def was_full_def has_room_def slot_holds_def)
    moreover have "receiver_ok ?t pc = receiver_ok s pc" for pc by (cases pc) (simp_all add: next_message_def)
    moreover have "words_inv ?t = words_inv s" by (simp add: words_inv_def slot_holds_def)
    ultimately show ?thesis using inv by (simp add: queue_inv_def lock_inv_def)
  qed
  with TIdle step show ?thesis by (auto simp: stop_step_def split: if_splits)
qed (use inv step notify_tail_inv notify_head_inv in \<open>auto simp: stop_step_def\<close>)

lemma queue_step_inv: "queue_step s t \<Longrightarrow> queue_inv s \<Longrightarrow> queue_inv t"
proof (induction rule: queue_step.induct)
  case (start_send s i m)
  then show ?case by (intro queue_inv_go) simp_all
next
  case (start_receive s)
  then have "taken_out s = received s" using queue_invD(4) [of s] by simp
  then show ?case using start_receive by (intro queue_inv_to) simp_all
qed (auto intro: sender_step_inv receiver_step_inv stop_step_inv)

lemma queue_reachable_inv: "queue_reachable s \<Longrightarrow> queue_inv s"
  by (induction rule: queue_reachable.induct) (auto intro: queue_inv_new queue_step_inv)

end
