(* ===== verification/NativeQueueProps.thy ===== *)
theory NativeQueueProps
  imports NativeQueue
begin

text \<open>
  What the queue of \<open>src/native-queue.ts\<close> promises: messages arrive whole, once and in the
  order they were sent; senders exclude each other; nobody sleeps while there is
  something to do; and where \<open>stopNative\<close> breaks the last of these.
\<close>

subsection \<open>Sleepers are woken\<close>

text \<open>Threads that will take the lock, have it, or have yet to wake a waiter.\<close>

fun contends :: "sender \<Rightarrow> bool" where
  "contends SIdle = False"
| "contends (SLockAsleep m) = False"
| "contends pc = True"

fun lock_asleep :: "sender \<Rightarrow> bool" where
  "lock_asleep (SLockAsleep m) = True"
| "lock_asleep pc = False"

fun head_asleep :: "sender \<Rightarrow> bool" where
  "head_asleep (SHeadAsleep m t) = True"
| "head_asleep pc = False"

definition lock_wakes :: "nqueue \<Rightarrow> bool" where
  "lock_wakes s \<longleftrightarrow>
     distinct (lock_waiters s) \<and> (\<forall>i. i \<in> set (lock_waiters s) \<longleftrightarrow> lock_asleep (senders s i)) \<and>
     (lock_waiters s \<noteq> [] \<longrightarrow> (\<exists>j. contends (senders s j)))"

definition head_wakes :: "nqueue \<Rightarrow> bool" where
  "head_wakes s \<longleftrightarrow>
     (\<forall>i. head_asleep (senders s i) \<longrightarrow>
        length (sent s) = length (taken_out s) + slots \<or> (\<exists>m. receiver s = RNotify m))"

definition tail_wakes :: "nqueue \<Rightarrow> bool" where
  "tail_wakes s \<longleftrightarrow>
     (receiver s = RAsleep \<longrightarrow> length (taken_out s) = length (sent s) \<or> (\<exists>i. senders s i = SNotify))"

definition stop_flag :: "nqueue \<Rightarrow> bool" where
  "stop_flag s \<longleftrightarrow> (words s at_stop = 0 \<longleftrightarrow> stopper s = TIdle) \<and> (receiver s = RDone \<longrightarrow> words s at_stop \<noteq> 0)"

lemma contends_holds: "holds_lock pc \<Longrightarrow> contends pc"
  by (cases pc) simp_all

lemma room_check_kinds [simp]:
  "contends (room_check m h t)" "\<not> lock_asleep (room_check m h t)" "\<not> head_asleep (room_check m h t)"
  "room_check m h t \<noteq> SNotify"
  by (simp_all add: room_check_def)

lemma wake_kinds [simp]:
  "contends (wake_head pc) = contends pc" "lock_asleep (wake_head pc) = lock_asleep pc" "\<not> head_asleep (wake_head pc)"
  "wake_head pc = SNotify \<longleftrightarrow> pc = SNotify"
  "lock_asleep pc \<Longrightarrow> contends (wake_lock pc)" "\<not> lock_asleep (wake_lock pc)" "head_asleep (wake_lock pc) = head_asleep pc"
  "wake_lock pc = SNotify \<longleftrightarrow> pc = SNotify"
  by (cases pc; simp)+

lemma lock_wakes_go:
  assumes "lock_wakes s" and "lock_asleep pc = lock_asleep (senders s i)" and "contends (senders s i) \<Longrightarrow> contends pc"
  shows "lock_wakes (go i pc s)"
proof -
  have "contends (senders s j) \<Longrightarrow> \<exists>k. contends (senders (go i pc s) k)" for j
    using assms(3) by (cases "j = i") auto
  moreover have "k \<in> set (lock_waiters s) \<longleftrightarrow> lock_asleep (senders (go i pc s) k)" for k
    using assms(1,2) by (simp add: lock_wakes_def)
  ultimately show ?thesis using assms(1) unfolding lock_wakes_def go_fields(2) by blast
qed

lemma lock_wakes_cong:
  assumes "senders t = senders s" and "lock_waiters t = lock_waiters s"
  shows "lock_wakes t = lock_wakes s"
  using assms by (simp add: lock_wakes_def)

lemma lock_sleep_wakes:
  assumes inv: "queue_inv s" and w: "lock_wakes s" and i: "senders s i = SWaitLock m" and held: "words s at_lock = 1"
  shows "lock_wakes (go i (SLockAsleep m) (s\<lparr>lock_waiters := lock_waiters s @ [i]\<rparr>))"
proof -
  obtain j where j: "holds_lock (senders s j)"
    using queue_invD(1) [OF inv] held by (auto simp: lock_inv_def split: if_splits)
  with i have "j \<noteq> i" by auto
  moreover have "i \<notin> set (lock_waiters s)" using w i by (simp add: lock_wakes_def)
  ultimately show ?thesis using w contends_holds [OF j] by (auto simp: lock_wakes_def)
qed

lemma notify_lock_wakes:
  assumes w: "lock_wakes s" and i: "senders s i = SNotifyLock"
  shows "lock_wakes (notify_lock (go i SIdle s))"
proof (cases "lock_waiters s")
  case Nil
  with w i show ?thesis by (auto simp: lock_wakes_def notify_lock_def)
next
  case (Cons j js)
  have asleep: "lock_asleep (senders s k) \<longleftrightarrow> k \<in> set (j # js)" for k using w Cons by (simp add: lock_wakes_def)
  have "j \<noteq> i" using asleep [of j] i by auto
  moreover have "i \<notin> set js" using asleep [of i] i by simp
  moreover have "distinct (j # js)" using w Cons by (simp add: lock_wakes_def)
  ultimately show ?thesis using asleep Cons by (auto simp: lock_wakes_def notify_lock_def)
qed

lemma tail_wakesI:
  assumes "tail_wakes s" and "receiver t = RAsleep \<Longrightarrow> receiver s = RAsleep"
    and "taken_out t = taken_out s" "sent t = sent s"
    and "\<And>j. senders s j = SNotify \<Longrightarrow> senders t j = SNotify"
  shows "tail_wakes t"
  using assms unfolding tail_wakes_def by metis

lemma head_wakesI:
  assumes "head_wakes s" and "\<And>j. head_asleep (senders t j) \<Longrightarrow> head_asleep (senders s j)"
    and "taken_out t = taken_out s" "sent t = sent s"
    and "\<And>m. receiver s = RNotify m \<Longrightarrow> receiver t = RNotify m"
  shows "head_wakes t"
  using assms unfolding head_wakes_def by metis

definition wakes :: "nqueue \<Rightarrow> bool" where
  "wakes s \<longleftrightarrow> lock_wakes s \<and> head_wakes s \<and> tail_wakes s \<and> stop_flag s"

lemma lock_wakes_step:
  assumes inv: "queue_inv s" and w: "lock_wakes s" and step: "sender_step i s = Some t"
  shows "lock_wakes t"
proof (cases "senders s i")
  case (SLock m)
  have "lock_wakes (go i pc (store_word k v s))" if "contends pc" "\<not> lock_asleep pc" for pc k v
    using lock_wakes_go [of "store_word k v s" pc i] lock_wakes_cong [of "store_word k v s" s] w that SLock by simp
  then show ?thesis using SLock step lock_wakes_go [OF w, of _ i]
    by (auto simp: sender_step_def split: if_splits)
next
  case (SWaitLock m)
  then show ?thesis using step lock_sleep_wakes [OF inv w SWaitLock] lock_wakes_go [OF w, of _ i]
    by (auto simp: sender_step_def split: if_splits)
next
  case (SCallback m tail)
  have "lock_wakes (store_word k v s)" for k v using lock_wakes_cong [of "store_word k v s" s] w by simp
  then show ?thesis using SCallback step by (auto simp: sender_step_def intro!: lock_wakes_go)
next
  case (SData m tail)
  have "lock_wakes (store_word k v s)" for k v using lock_wakes_cong [of "store_word k v s" s] w by simp
  then show ?thesis using SData step by (auto simp: sender_step_def intro!: lock_wakes_go)
next
  case (SPublish m tail)
  have "lock_wakes ((store_word k v s)\<lparr>sent := p\<rparr>)" for k v p
    using lock_wakes_cong [of "(store_word k v s)\<lparr>sent := p\<rparr>" s] w by simp
  then show ?thesis using SPublish step by (auto simp: sender_step_def intro!: lock_wakes_go)
next
  case SNotify
  have "lock_wakes (notify_tail s)" using w by (simp add: notify_tail_def lock_wakes_def)
  then show ?thesis using SNotify step by (auto simp: sender_step_def intro!: lock_wakes_go)
next
  case SUnlock
  have "lock_wakes (store_word k v s)" for k v using lock_wakes_cong [of "store_word k v s" s] w by simp
  then show ?thesis using SUnlock step by (auto simp: sender_step_def intro!: lock_wakes_go)
next
  case SNotifyLock
  then show ?thesis using step notify_lock_wakes [OF w SNotifyLock] by (auto simp: sender_step_def)
qed (use step lock_wakes_go [OF w, of _ i] in \<open>auto simp: sender_step_def\<close>)

text \<open>A thread that goes to sleep on the read counter finds the queue full.\<close>

lemma full_when_waiting:
  assumes w: "words_inv s" and full: "was_full s head" and head: "words s at_head = head"
  shows "length (sent s) = length (taken_out s) + slots"
proof -
  obtain a where a: "head = of_nat a" "a \<le> length (taken_out s)" "length (sent s) = a + slots"
    using full by (auto simp: was_full_def)
  have "length (taken_out s) \<le> a + slots" using words_invD(3) [OF w] a(3) by simp
  then have "length (taken_out s) = a"
    using counter_difference(3) [OF a(2)] words_invD(1) [OF w] head a(1) by simp
  with a(3) show ?thesis by simp
qed

lemma head_wakes_step:
  assumes inv: "queue_inv s" and w: "head_wakes s" and step: "sender_step i s = Some t"
  shows "head_wakes t"
proof (cases "senders s i")
  case (SWaitHead m head tail)
  have "was_full s head" using queue_invD(3) [OF inv, of i] SWaitHead by simp
  then have "words s at_head = head \<Longrightarrow> length (sent s) = length (taken_out s) + slots"
    using full_when_waiting [OF queue_invD(2) [OF inv]] by blast
  then show ?thesis using SWaitHead step w by (auto simp: sender_step_def head_wakes_def split: if_splits)
next
  case (SPublish m tail)
  then have "holds_lock (senders s i)" by simp
  then have "\<not> holds_lock (senders s j)" if "j \<noteq> i" for j
    using only_holder [OF queue_invD(1) [OF inv] _ that] by blast
  then have "\<not> head_asleep (senders s j)" if "j \<noteq> i" for j
    using that by (cases "senders s j") fastforce+
  then show ?thesis using SPublish step by (auto simp: sender_step_def head_wakes_def split: if_splits)
next
  case SNotify
  then have "t = go i SUnlock (notify_tail s)" using step by (simp add: sender_step_def)
  then show ?thesis using w by (elim head_wakesI) (auto simp: notify_tail_def split: if_splits)
next
  case SNotifyLock
  then have "t = notify_lock (go i SIdle s)" using step by (simp add: sender_step_def)
  then show ?thesis
    using w by (elim head_wakesI) (auto simp: notify_lock_def split: list.splits if_splits)
qed (use step w in \<open>auto simp: sender_step_def head_wakes_def split: if_splits\<close>)

lemma tail_wakes_step:
  assumes w: "tail_wakes s" and step: "sender_step i s = Some t"
  shows "tail_wakes t"
proof -
  have keep: "tail_wakes (go i pc u)"
    if "receiver u = receiver s" "taken_out u = taken_out s" "sent u = sent s" "senders u = senders s" "senders s i \<noteq> SNotify"
    for pc u
    using w by (rule tail_wakesI) (use that in auto)
  show ?thesis
  proof (cases "senders s i")
    case (SPublish m tail)
    then show ?thesis using step by (auto simp: sender_step_def tail_wakes_def intro!: exI [of _ i])
  next
    case SNotify
    then show ?thesis using step by (auto simp: sender_step_def tail_wakes_def notify_tail_def split: if_splits)
  next
    case SNotifyLock
    then have t: "t = notify_lock (go i SIdle s)" using step by (simp add: sender_step_def)
    have "tail_wakes (go i SIdle s)" using SNotifyLock by (intro keep) simp_all
    then show ?thesis
      unfolding t by (rule tail_wakesI) (auto simp: notify_lock_def split: list.splits)
  qed (use step in \<open>auto simp: sender_step_def intro!: keep split: if_splits\<close>)
qed

lemma stop_flag_step: "stop_flag s \<Longrightarrow> sender_step i s = Some t \<Longrightarrow> stop_flag t"
  by (auto simp: sender_step_def stop_flag_def notify_tail_def notify_lock_def split: sender.splits if_splits list.splits)

text \<open>The receiver's steps: only its notify of the read counter moves a sender.\<close>

lemma wakes_main:
  assumes "wakes s" and t: "senders t = senders s" "lock_waiters t = lock_waiters s" "taken_out t = taken_out s" "sent t = sent s"
    and r: "\<And>m. receiver s = RNotify m \<Longrightarrow> receiver t = RNotify m"
      "receiver t = RAsleep \<Longrightarrow> receiver s = RAsleep \<or> length (taken_out s) = length (sent s)"
    and f: "stop_flag t"
  shows "wakes t"
proof -
  have "lock_wakes t" using assms(1) lock_wakes_cong [OF t(1,2)] by (simp add: wakes_def)
  moreover have "head_wakes t" using assms(1) t r(1) by (auto simp: wakes_def intro: head_wakesI)
  moreover have "tail_wakes t"
    using assms(1) t r(2) unfolding wakes_def tail_wakes_def by metis
  ultimately show ?thesis using f by (simp add: wakes_def)
qed

lemma receiver_wakes:
  assumes inv: "queue_inv s" and w: "wakes s" and step: "receiver_step throws s = Some t"
  shows "wakes t"
proof -
  note wi = words_invD [OF queue_invD(2) [OF inv]]
  have parts: "lock_wakes s" "head_wakes s" "tail_wakes s" "stop_flag s" using w by (simp_all add: wakes_def)
  have move: "wakes (to pc s)" if "\<And>m. receiver s \<noteq> RNotify m" "pc \<noteq> RAsleep" "pc \<noteq> RDone" for pc
    using w by (rule wakes_main) (use that parts(4) in \<open>auto simp: stop_flag_def\<close>)
  have finish: "wakes (to RDone s)" if "\<And>m. receiver s \<noteq> RNotify m" "words s at_stop \<noteq> 0"
    using w by (rule wakes_main) (use that parts(4) in \<open>auto simp: stop_flag_def\<close>)
  show ?thesis
  proof (cases "receiver s")
    case RDrain
    with step move finish show ?thesis by (auto simp: receiver_step_def split: if_splits)
  next
    case (RAdvance head m)
    then have t: "t = to (RNotify m) ((store_word at_head (head + 1) s)\<lparr>taken_out := taken_out s @ [m]\<rparr>)"
      using step by (simp add: receiver_step_def)
    have "lock_wakes t" using parts(1) lock_wakes_cong [of t s] t by simp
    moreover have "head_wakes t" "tail_wakes t" by (simp_all add: t head_wakes_def tail_wakes_def)
    moreover have "stop_flag t" using parts(4) by (simp add: t stop_flag_def)
    ultimately show ?thesis by (simp add: wakes_def)
  next
    case (RNotify m)
    then have t: "t = to (RReceive m) (notify_head s)" using step by (simp add: receiver_step_def)
    have "lock_wakes t" using parts(1) by (simp add: t lock_wakes_def notify_head_def)
    moreover have "head_wakes t" "tail_wakes t" by (simp_all add: t head_wakes_def tail_wakes_def notify_head_def)
    moreover have "stop_flag t" using parts(4) by (simp add: t stop_flag_def notify_head_def)
    ultimately show ?thesis by (simp add: wakes_def)
  next
    case (RReceive m)
    then have t: "t = to RInside (s\<lparr>received := received s @ [m]\<rparr>)" using step by (simp add: receiver_step_def)
    show ?thesis
      unfolding t using w by (rule wakes_main) (use RReceive parts(4) in \<open>auto simp: stop_flag_def\<close>)
  next
    case RFinally
    with step move finish show ?thesis by (auto simp: receiver_step_def split: if_splits)
  next
    case (RWait v)
    have "v = words s at_head" using queue_invD(4) [OF inv] unfolding RWait receiver_ok.simps by blast
    then have "(of_nat (length (sent s)) :: 32 word) = of_nat (length (taken_out s))" if "words s at_tail = v"
      unfolding wi(1,2) [symmetric] using that by (simp only:)
    then have same: "length (taken_out s) = length (sent s)" if "words s at_tail = v"
      using that counter_difference(3) [OF wi(3,4)] by metis
    have "wakes (to RAsleep s)" if "words s at_tail = v"
      using w by (rule wakes_main) (use RWait parts(4) same [OF that] in \<open>auto simp: stop_flag_def\<close>)
    moreover have "wakes (to RDrain s)" using RWait by (intro move) simp_all
    ultimately show ?thesis using RWait step by (cases "words s at_tail = v") (simp_all add: receiver_step_def)
  next
    case RHead
    then have "t = to (RTail (words s at_head)) s" using step by (simp add: receiver_step_def)
    with RHead show ?thesis by (simp add: move)
  next
    case (RTail head)
    then have "t = to (if head \<noteq> words s at_tail then RStop head else RFinally) s" using step by (simp add: receiver_step_def)
    with RTail show ?thesis by (simp add: move)
  next
    case (RStop head)
    then have "t = to (if words s at_stop = 0 then RCallback head else RFinally) s" using step by (simp add: receiver_step_def)
    with RStop show ?thesis by (simp add: move)
  next
    case (RCallback head)
    then have "t = to (RData head (words s (slot_of head))) s" using step by (simp add: receiver_step_def)
    with RCallback show ?thesis by (simp add: move)
  next
    case (RData head cb)
    then have "t = to (RAdvance head (cb, words s (slot_of head + 1))) s" using step by (simp add: receiver_step_def)
    with RData show ?thesis by (simp add: move)
  next
    case RInside
    then have "t = to (if throws then RFinally else RHead) s" using step by (simp add: receiver_step_def)
    with RInside show ?thesis by (simp add: move)
  next
    case RWaitValue
    then have "t = to (RWait (words s at_head)) s" using step by (simp add: receiver_step_def)
    with RWaitValue show ?thesis by (simp add: move)
  qed (use step in \<open>simp_all add: receiver_step_def\<close>)
qed

lemma stop_wakes:
  assumes w: "wakes s" and step: "stop_step s = Some t"
  shows "wakes t"
proof -
  have parts: "lock_wakes s" "head_wakes s" "tail_wakes s" "stop_flag s" using w by (simp_all add: wakes_def)
  show ?thesis
  proof (cases "stopper s")
    case TIdle
    then have t: "t = (store_word at_stop 1 s)\<lparr>stopper := TTail\<rparr>" using step by (simp add: stop_step_def split: if_splits)
    show ?thesis unfolding t using w by (rule wakes_main) (simp_all add: stop_flag_def)
  next
    case TTail
    then have t: "t = (notify_tail s)\<lparr>stopper := THead\<rparr>" using step by (simp add: stop_step_def)
    show ?thesis
      unfolding t using w
      by (rule wakes_main) (use TTail parts(4) in \<open>auto simp: stop_flag_def notify_tail_def split: if_splits\<close>)
  next
    case THead
    then have t: "t = (notify_head s)\<lparr>stopper := TDone\<rparr>" using step by (simp add: stop_step_def)
    have "lock_wakes t" using parts(1) by (simp add: t lock_wakes_def notify_head_def)
    moreover have "head_wakes t" by (simp add: t head_wakes_def notify_head_def)
    moreover have "tail_wakes t" using parts(3) by (elim tail_wakesI) (simp_all add: t notify_head_def)
    moreover have "stop_flag t" using parts(4) THead by (simp add: t stop_flag_def notify_head_def)
    ultimately show ?thesis by (simp add: wakes_def)
  next
    case TDone
    with step show ?thesis by (simp add: stop_step_def)
  qed
qed

lemma start_wakes:
  assumes w: "wakes s" and i: "senders s i = SIdle"
  shows "wakes (go i (SLock m) s)"
proof -
  have parts: "lock_wakes s" "head_wakes s" "tail_wakes s" "stop_flag s" using w by (simp_all add: wakes_def)
  have "lock_wakes (go i (SLock m) s)" using parts(1) i by (intro lock_wakes_go) simp_all
  moreover have "head_wakes (go i (SLock m) s)" using parts(2) by (elim head_wakesI) (auto split: if_splits)
  moreover have "tail_wakes (go i (SLock m) s)" using parts(3) by (elim tail_wakesI) (use i in auto)
  moreover have "stop_flag (go i (SLock m) s)" using parts(4) by (auto simp: stop_flag_def)
  ultimately show ?thesis by (simp add: wakes_def)
qed

lemma queue_step_wakes: "queue_step s t \<Longrightarrow> queue_inv s \<Longrightarrow> wakes s \<Longrightarrow> wakes t"
proof (induction rule: queue_step.induct)
  case (send_step i s s')
  have parts: "lock_wakes s" "head_wakes s" "tail_wakes s" "stop_flag s" using send_step(3) by (simp_all add: wakes_def)
  show ?case
    using lock_wakes_step [OF send_step(2) parts(1) send_step(1)] head_wakes_step [OF send_step(2) parts(2) send_step(1)]
      tail_wakes_step [OF parts(3) send_step(1)] stop_flag_step [OF parts(4) send_step(1)]
    by (simp add: wakes_def)
next
  case (start_receive s)
  have "stop_flag (to RDrain s)" using start_receive(4) by (simp add: wakes_def stop_flag_def)
  from start_receive(4) _ _ _ _ _ _ this show ?case by (rule wakes_main) (simp_all add: start_receive(1))
qed (auto intro: start_wakes receiver_wakes stop_wakes)

lemma queue_reachable_wakes: "queue_reachable s \<Longrightarrow> wakes s"
proof (induction rule: queue_reachable.induct)
  case queue_new
  then show ?case
    by (simp add: wakes_def lock_wakes_def head_wakes_def tail_wakes_def stop_flag_def create_native_queue_def)
qed (auto intro: queue_step_wakes queue_reachable_inv)

subsection \<open>Runs\<close>

text \<open>A queue_run as a list of moves, to have states to speak of.\<close>

datatype queue_move = MSend nat msg | MSender nat | MStart | MReceive bool | MStop

definition queue_act :: "queue_move \<Rightarrow> nqueue \<Rightarrow> nqueue option" where
  "queue_act mv s =
     (case mv of
        MSend i m \<Rightarrow> if senders s i = SIdle then Some (go i (SLock m) s) else None
      | MSender i \<Rightarrow> sender_step i s
      | MStart \<Rightarrow> if receiver s = ROff \<and> \<not> main_busy s then Some (to RDrain s) else None
      | MReceive throws \<Rightarrow> if main_busy s then None else receiver_step throws s
      | MStop \<Rightarrow> stop_step s)"

fun queue_run :: "queue_move list \<Rightarrow> nqueue \<Rightarrow> nqueue option" where
  "queue_run [] s = Some s"
| "queue_run (mv # mvs) s = (case queue_act mv s of None \<Rightarrow> None | Some t \<Rightarrow> queue_run mvs t)"

lemma queue_act_step: "queue_act mv s = Some t \<Longrightarrow> queue_step s t"
  by (auto simp: queue_act_def intro: queue_step.intros split: queue_move.splits if_splits)

lemma queue_run_reachable: "queue_run mvs s = Some t \<Longrightarrow> queue_reachable s \<Longrightarrow> queue_reachable t"
proof (induction mvs arbitrary: s)
  case (Cons mv mvs)
  then obtain u where "queue_act mv s = Some u" "queue_run mvs u = Some t" by (auto split: option.splits)
  with Cons.IH [of u] Cons.prems(2) show ?case by (auto intro: queue_next queue_act_step)
qed simp

lemma queue_run_append: "queue_run (ms @ ns) s = (case queue_run ms s of None \<Rightarrow> None | Some t \<Rightarrow> queue_run ns t)"
  by (induction ms arbitrary: s) (auto split: option.split)

definition queue_ran :: "queue_move list \<Rightarrow> nqueue" where
  "queue_ran mvs = the (queue_run mvs create_native_queue)"

lemma queue_ran_reachable: "queue_run mvs create_native_queue \<noteq> None \<Longrightarrow> queue_reachable (queue_ran mvs)"
  using queue_run_reachable [OF _ queue_new] by (auto simp: queue_ran_def)

text \<open>Two threads send, the second asleep on the lock meanwhile, and the receiver takes one message.\<close>

definition two_sends :: "queue_move list" where
  "two_sends = [MSend 0 (7, 8), MSend 1 (9, 10), MSender 0, MSender 1, MSender 1] @ replicate 9 (MSender 0) @
     replicate 9 (MSender 1) @ [MStart] @ replicate 8 (MReceive False)"

subsection \<open>Properties\<close>

text \<open>C7: At every interleaving, the messages taken out and then those in the queue, read from its words, are
  exactly the sent ones in their order, whatever the wrapping counters are: none is lost, doubled or
  torn, there are never more than 1024, and the callback has been given all that were taken out but at
  most the last.\<close>

theorem native_queue_fifo:
  assumes "queue_reachable s"
  shows "sent s = taken_out s @ queued s \<and> length (queued s) \<le> slots \<and>
    (taken_out s = received s \<or> (\<exists>m. taken_out s = received s @ [m]))"
proof -
  have inv: "queue_inv s" using assms by (rule queue_reachable_inv)
  note w = words_invD [OF queue_invD(2) [OF inv]]
  have len: "unat (words s at_tail - words s at_head) = length (sent s) - length (taken_out s)"
    unfolding w(1,2) using w(3,4) by (rule counter_difference(1))
  have size: "length (queued s) = length (sent s) - length (taken_out s)"
    unfolding queued_def len by simp
  have "queued s = drop (length (taken_out s)) (sent s)"
  proof (rule nth_equalityI)
    show "length (queued s) = length (drop (length (taken_out s)) (sent s))" by (simp add: size)
    fix i assume "i < length (queued s)"
    then have i: "i < length (sent s) - length (taken_out s)" by (simp add: size)
    have "words s at_head + of_nat i = (of_nat (length (taken_out s) + i) :: 32 word)" unfolding w(1) by simp
    then have "queued s ! i = (words s (slot_of (of_nat (length (taken_out s) + i))), words s (Suc (slot_of (of_nat (length (taken_out s) + i)))))"
      using i unfolding queued_def len by (simp add: Let_def)
    also have "\<dots> = sent s ! (length (taken_out s) + i)"
      using w(6) [of "length (taken_out s) + i"] i by (simp add: slot_holds_def)
    finally show "queued s ! i = drop (length (taken_out s)) (sent s) ! i" using i by simp
  qed
  then have "sent s = taken_out s @ queued s" using w(5) by (metis append_take_drop_id)
  moreover have "length (queued s) \<le> slots" using size w(4) by simp
  moreover have "taken_out s = received s \<or> (\<exists>m. taken_out s = received s @ [m])"
    using queue_invD(4) [OF inv] by (cases "receiver s") auto
  ultimately show ?thesis by blast
qed

lemma native_queue_fifo_witness:
  "sent (queue_ran two_sends) = [(7, 8), (9, 10)] \<and> taken_out (queue_ran two_sends) = [(7, 8)] \<and>
   queued (queue_ran two_sends) = [(9, 10)]"
proof -
  have "queue_run two_sends create_native_queue \<noteq> None" by code_simp
  then have "queue_reachable (queue_ran two_sends)" by (rule queue_ran_reachable)
  then have "sent (queue_ran two_sends) = taken_out (queue_ran two_sends) @ queued (queue_ran two_sends)"
    using native_queue_fifo by blast
  moreover have "sent (queue_ran two_sends) = [(7, 8), (9, 10)]" "taken_out (queue_ran two_sends) = [(7, 8)]" by code_simp+
  ultimately show ?thesis by simp
qed

text \<open>C8: As long as nobody stops the queue it does not hang: in every state where a send is under way or a
  message is queued, and the receiver was started, some thread is awake and can make its next step.  Nobody
  sleeps through the lock's release, the room or the message it waits for.\<close>

theorem native_queue_moves:
  assumes "queue_reachable s" and "stopper s = TIdle" and "receiver s \<noteq> ROff"
    and "senders s i \<noteq> SIdle \<or> queued s \<noteq> []"
  shows "(\<exists>j t. sender_step j s = Some t) \<or> (\<exists>t. receiver_step False s = Some t)"
proof (rule ccontr)
  assume stuck: "\<not> ?thesis"
  have inv: "queue_inv s" and w: "wakes s"
    using assms(1) by (rule queue_reachable_inv, rule queue_reachable_wakes)
  note wi = words_invD [OF queue_invD(2) [OF inv]]
  have parts: "lock_wakes s" "head_wakes s" "tail_wakes s" "stop_flag s" using w by (simp_all add: wakes_def)
  have "receiver s \<noteq> RDone" using parts(4) assms(2) by (auto simp: stop_flag_def)
  moreover have "receiver_step False s = None" using stuck by (cases "receiver_step False s") auto
  ultimately have asleep: "receiver s = RAsleep"
    using assms(3) by (cases "receiver s") (simp_all add: receiver_step_def)
  have none: "sender_step j s = None" for j using stuck by (cases "sender_step j s") auto
  then have pcs: "senders s j = SIdle \<or> lock_asleep (senders s j) \<or> head_asleep (senders s j)" for j
    using none [of j] by (cases "senders s j") (simp_all add: sender_step_def)
  have "senders s j \<noteq> SNotify" for j
  proof
    assume "senders s j = SNotify"
    with pcs [of j] show False by simp
  qed
  then have empty: "length (taken_out s) = length (sent s)" using parts(3) asleep by (auto simp: tail_wakes_def)
  have no_head: "\<not> head_asleep (senders s j)" for j
    using parts(2) asleep empty by (auto simp: head_wakes_def)
  have no_lock: "\<not> lock_asleep (senders s j)" for j
  proof
    assume "lock_asleep (senders s j)"
    then have "lock_waiters s \<noteq> []" using parts(1) by (auto simp: lock_wakes_def)
    then obtain k where "contends (senders s k)" using parts(1) by (auto simp: lock_wakes_def)
    with pcs [of k] no_head [of k] show False by (cases "senders s k") simp_all
  qed
  have "queued s = []" using wi(1,2) empty by (simp add: queued_def)
  with assms(4) pcs [of i] no_head [of i] no_lock [of i] show False by simp
qed

lemma native_queue_moves_witness:
  "(\<exists>j t. sender_step j (queue_ran two_sends) = Some t) \<or> (\<exists>t. receiver_step False (queue_ran two_sends) = Some t)"
proof (rule native_queue_moves [where i = 1])
  have "queue_run two_sends create_native_queue \<noteq> None" by code_simp
  then show "queue_reachable (queue_ran two_sends)" by (rule queue_ran_reachable)
  show "stopper (queue_ran two_sends) = TIdle" "receiver (queue_ran two_sends) \<noteq> ROff" by code_simp+
  show "senders (queue_ran two_sends) 1 \<noteq> SIdle \<or> queued (queue_ran two_sends) \<noteq> []" by code_simp
qed

subsection \<open>A send that never returns\<close>

text \<open>
  \<open>stopNative\<close> wakes the writer that sleeps on a full queue; one that has looked at the stop
  word and is about to sleep is not woken, since the word it sleeps on does not change.
\<close>

definition stranded :: "nat \<Rightarrow> nqueue \<Rightarrow> bool" where
  "stranded i s \<longleftrightarrow>
     head_asleep (senders s i) \<and> stopper s = TDone \<and> words s at_stop \<noteq> 0 \<and>
     (\<forall>h. receiver s \<noteq> RCallback h) \<and> (\<forall>h cb. receiver s \<noteq> RData h cb) \<and>
     (\<forall>h m. receiver s \<noteq> RAdvance h m) \<and> (\<forall>m. receiver s \<noteq> RNotify m)"

lemma wake_lock_asleep: "head_asleep pc \<Longrightarrow> wake_lock pc = pc"
  by (cases pc) simp_all

lemma stranded_senders:
  assumes "stranded i s" and "sender_step j s = Some t"
  shows "stranded i t"
proof -
  have "j \<noteq> i" using assms by (cases "senders s i") (auto simp: stranded_def sender_step_def)
  with assms show ?thesis
    by (auto simp: sender_step_def stranded_def notify_tail_def notify_lock_def wake_lock_asleep
        split: sender.splits if_splits list.splits)
qed

lemma stranded_receiver: "stranded i s \<Longrightarrow> receiver_step throws s = Some t \<Longrightarrow> stranded i t"
  by (auto simp: receiver_step_def stranded_def split: receiver.splits if_splits)

lemma stranded_stays: "queue_step s t \<Longrightarrow> stranded i s \<Longrightarrow> stranded i t"
proof (induction rule: queue_step.induct)
  case (start_send s j m)
  then have "j \<noteq> i" by (auto simp: stranded_def)
  with start_send show ?case by (auto simp: stranded_def)
next
  case (send_step j s t)
  then show ?case by (rule stranded_senders [rotated])
next
  case (start_receive s)
  then show ?case by (simp add: stranded_def)
next
  case (receive_step throws s t)
  then show ?case using stranded_receiver by blast
next
  case (stopping s t)
  then show ?case by (simp add: stranded_def stop_step_def)
qed

text \<open>The queue filled by one thread while the main thread is busy elsewhere.\<close>

definition send_moves :: "queue_move list" where
  "send_moves = MSend 0 (1, 2) # replicate 10 (MSender 0)"

definition filling :: "nat \<Rightarrow> nqueue \<Rightarrow> bool" where
  "filling k s \<longleftrightarrow>
     queue_reachable s \<and> senders s = (\<lambda>_. SIdle) \<and> lock_waiters s = [] \<and> stopper s = TIdle \<and>
     receiver s \<in> {RAsleep, RDrain} \<and> taken_out s = [] \<and> length (sent s) = k"

lemma filling_facts:
  assumes "filling k s"
  shows "words s at_lock = 0" "words s at_stop = 0" "words s at_head = 0" "words s at_tail = of_nat k"
proof -
  have r: "queue_reachable s" using assms by (simp add: filling_def)
  note w = words_invD [OF queue_invD(2) [OF queue_reachable_inv [OF r]]]
  show "words s at_lock = 0"
    using queue_invD(1) [OF queue_reachable_inv [OF r]] assms by (simp add: lock_inv_def filling_def)
  show "words s at_stop = 0" using queue_reachable_wakes [OF r] assms by (simp add: wakes_def stop_flag_def filling_def)
  show "words s at_head = 0" "words s at_tail = of_nat k" using w(1,2) assms by (simp_all add: filling_def)
qed

lemma chain: "queue_reachable s \<Longrightarrow> sender_step i s = Some t \<Longrightarrow> queue_reachable t"
  by (rule queue_next) (auto intro: send_step)

lemma filling_more:
  assumes f: "filling k s" and k: "k < slots"
  shows "\<exists>t. filling (Suc k) t"
proof -
  note words = filling_facts [OF f] filling_facts(4) [OF f, unfolded One_nat_def]
  have s: "queue_reachable s" "senders s = (\<lambda>_. SIdle)" "lock_waiters s = []" "stopper s = TIdle"
    "receiver s \<in> {RAsleep, RDrain}" "taken_out s = []" "length (sent s) = k"
    using f by (simp_all add: filling_def)
  have "sint (of_nat k :: 32 word) = int k"
    using counter_difference(2) [of 0 k] k by simp
  then have room: "room_check (1, 2) 0 (of_nat k) = SStop (1, 2) (of_nat k)"
    using k by (simp add: room_check_def)
  let ?s1 = "go 0 (SLock (1, 2)) s"
  let ?s2 = "go 0 (SHead (1, 2)) (store_word at_lock 1 ?s1)"
  let ?s3 = "go 0 (STail (1, 2) 0) ?s2"
  let ?s4 = "go 0 (SStop (1, 2) (of_nat k)) ?s3"
  let ?s5 = "go 0 (SCallback (1, 2) (of_nat k)) ?s4"
  let ?s6 = "go 0 (SData (1, 2) (of_nat k)) (store_word (slot_of (of_nat k)) 1 ?s5)"
  let ?s7 = "go 0 (SPublish (1, 2) (of_nat k)) (store_word (slot_of (of_nat k) + 1) 2 ?s6)"
  let ?s8 = "go 0 SNotify ((store_word at_tail (of_nat k + 1) ?s7)\<lparr>sent := sent ?s7 @ [(1, 2)]\<rparr>)"
  let ?s9 = "go 0 SUnlock (notify_tail ?s8)"
  let ?s10 = "go 0 SNotifyLock (store_word at_lock 0 ?s9)"
  let ?s11 = "go 0 SIdle ?s10"
  have "queue_reachable ?s1" using s(1) by (rule queue_next) (auto intro: start_send simp: s(2))
  then have "queue_reachable ?s2" by (rule chain [where i = 0]) (simp add: sender_step_def words)
  then have "queue_reachable ?s3" by (rule chain [where i = 0]) (simp add: sender_step_def words)
  then have "queue_reachable ?s4" by (rule chain [where i = 0]) (simp add: sender_step_def words room)
  then have "queue_reachable ?s5" by (rule chain [where i = 0]) (simp add: sender_step_def words)
  then have "queue_reachable ?s6" by (rule chain [where i = 0]) (simp add: sender_step_def)
  then have "queue_reachable ?s7" by (rule chain [where i = 0]) (simp add: sender_step_def)
  then have "queue_reachable ?s8" by (rule chain [where i = 0]) (simp add: sender_step_def)
  then have "queue_reachable ?s9" by (rule chain [where i = 0]) (simp add: sender_step_def)
  then have "queue_reachable ?s10" by (rule chain [where i = 0]) (simp add: sender_step_def)
  then have r: "queue_reachable (notify_lock ?s11)" by (rule chain [where i = 0]) (simp add: sender_step_def)
  have "lock_waiters ?s11 = []" using s(3) by (simp add: notify_tail_def)
  then have "notify_lock ?s11 = ?s11" by (simp add: notify_lock_def)
  with r have "filling (Suc k) ?s11"
    using s by (auto simp: filling_def notify_tail_def)
  then show ?thesis by blast
qed

lemma filling_all: "k \<le> slots \<Longrightarrow> \<exists>s. filling k s"
proof (induction k)
  case 0
  let ?s = "queue_ran (MStart # replicate 6 (MReceive False))"
  have "queue_run (MStart # replicate 6 (MReceive False)) create_native_queue \<noteq> None" by code_simp
  then have "queue_reachable ?s" by (rule queue_ran_reachable)
  moreover have "receiver ?s = RAsleep" "stopper ?s = TIdle" "lock_waiters ?s = []" "taken_out ?s = []" "sent ?s = []"
    by code_simp+
  moreover have "senders ?s = (\<lambda>_. SIdle)" by (simp add: queue_ran_def numeral_eq_Suc queue_act_def receiver_step_def main_busy_def create_native_queue_def)
  ultimately show ?case by (auto simp: filling_def)
next
  case (Suc k)
  then show ?case using filling_more by auto
qed

theorem stop_strands_sender:
  "\<exists>s. queue_reachable s \<and> stopper s = TDone \<and> (\<forall>t. queue_step\<^sup>*\<^sup>* s t \<longrightarrow> head_asleep (senders t 0))"
proof -
  obtain s where f: "filling slots s" using filling_all [of slots] by auto
  note words = filling_facts [OF f] filling_facts(4) [OF f, unfolded One_nat_def]
  have s: "queue_reachable s" "senders s = (\<lambda>_. SIdle)" "stopper s = TIdle" "receiver s \<in> {RAsleep, RDrain}"
    using f by (simp_all add: filling_def)
  have full: "room_check (1, 2) 0 1024 = SFullStop (1, 2) 0 1024"
    by (simp add: room_check_def)
  let ?s1 = "go 0 (SLock (1, 2)) s"
  let ?s2 = "go 0 (SHead (1, 2)) (store_word at_lock 1 ?s1)"
  let ?s3 = "go 0 (STail (1, 2) 0) ?s2"
  let ?s4 = "go 0 (SFullStop (1, 2) 0 (of_nat slots)) ?s3"
  let ?s5 = "go 0 (SWaitHead (1, 2) 0 (of_nat slots)) ?s4"
  let ?t1 = "(store_word at_stop 1 ?s5)\<lparr>stopper := TTail\<rparr>"
  let ?t2 = "(notify_tail ?t1)\<lparr>stopper := THead\<rparr>"
  let ?t3 = "(notify_head ?t2)\<lparr>stopper := TDone\<rparr>"
  let ?s6 = "go 0 (SHeadAsleep (1, 2) (of_nat slots)) ?t3"
  have "queue_reachable ?s1" using s(1) by (rule queue_next) (auto intro: start_send simp: s(2))
  then have "queue_reachable ?s2" by (rule chain [where i = 0]) (simp add: sender_step_def words)
  then have "queue_reachable ?s3" by (rule chain [where i = 0]) (simp add: sender_step_def words)
  then have "queue_reachable ?s4" by (rule chain [where i = 0]) (simp add: sender_step_def words full)
  then have "queue_reachable ?s5" by (rule chain [where i = 0]) (simp add: sender_step_def words)
  then have "queue_reachable ?t1"
    by (rule queue_next) (use s in \<open>auto intro!: stopping simp: stop_step_def\<close>)
  then have "queue_reachable ?t2" by (rule queue_next) (auto intro!: stopping simp: stop_step_def)
  then have "queue_reachable ?t3" by (rule queue_next) (auto intro!: stopping simp: stop_step_def)
  then have "queue_reachable ?s6"
    by (rule chain [where i = 0]) (simp add: sender_step_def words notify_head_def)
  moreover have st: "stranded 0 ?s6"
  proof (cases "receiver s = RAsleep")
    case True
    then show ?thesis unfolding stranded_def by (simp add: notify_tail_def notify_head_def)
  next
    case False
    with s(4) have "receiver s = RDrain" by simp
    then show ?thesis unfolding stranded_def by (simp add: notify_tail_def notify_head_def)
  qed
  moreover have "stranded 0 t" if "queue_step\<^sup>*\<^sup>* ?s6 t" for t
    using that
  proof (induction rule: rtranclp_induct)
    case base
    show ?case by (rule st)
  next
    case (step u t)
    from step(2,3) show ?case by (rule stranded_stays)
  qed
  ultimately show ?thesis unfolding stranded_def by blast
qed

end
