(* ===== verification/NativeTasks.thy ===== *)
theory NativeTasks
  imports Prelude
begin

text \<open>
  \<open>src/native-fs-tasks.ts\<close>: completions of file system requests, each a task of the host's
  loop.  One message channel carries the numbers of the queued tasks; its ports hold the
  loop only while one is pending.
\<close>

text \<open>
  The module's state: the last number given, the pending tasks, whether the channel was
  made, the numbers posted and not yet delivered, whether the ports hold the loop, and
  whether a task is running; then what was run, for the statements.
\<close>

record 'a fs_tasks =
  sequence :: nat
  pending :: "(nat \<times> 'a) list"
  channel_made :: bool
  posted :: "nat list"
  holding :: bool
  in_task :: bool
  ran_tasks :: "(nat \<times> 'a) list"

definition no_tasks :: "'a fs_tasks" where
  "no_tasks = \<lparr>sequence = 0, pending = [], channel_made = False, posted = [], holding = False,
     in_task = False, ran_tasks = []\<rparr>"

definition task_channel :: "'a fs_tasks \<Rightarrow> 'a fs_tasks" where
  "task_channel s = (if channel_made s then s else s\<lparr>channel_made := True, holding := False\<rparr>)"

text \<open>The end of a task and of a cancellation: with nothing pending the ports let the loop go.\<close>

definition let_go :: "'a fs_tasks \<Rightarrow> 'a fs_tasks" where
  "let_go s = (if pending s = [] then s\<lparr>holding := False\<rparr> else s)"

definition cancel_task :: "nat \<Rightarrow> 'a fs_tasks \<Rightarrow> 'a fs_tasks" where
  "cancel_task n s = let_go (s\<lparr>pending := AList.delete n (pending s)\<rparr>)"

text \<open>
  \<open>queueNativeFsTask\<close>: the number by which the task is cancelled, or None where the post
  throws, which \<open>fails\<close> says.
\<close>

definition queue_native_fs_task :: "bool \<Rightarrow> 'a \<Rightarrow> 'a fs_tasks \<Rightarrow> nat option \<times> 'a fs_tasks" where
  "queue_native_fs_task fails run s =
     (let s = task_channel s; n = Suc (sequence s);
          s = s\<lparr>sequence := n, pending := AList.update n run (pending s), holding := True\<rparr>
      in if fails then (None, cancel_task n s) else (Some n, s\<lparr>posted := posted s @ [n]\<rparr>))"

text \<open>The message listener up to the call of the task, and after it.\<close>

definition deliver_task :: "'a fs_tasks \<Rightarrow> 'a fs_tasks" where
  "deliver_task s =
     (case posted s of
        [] \<Rightarrow> s
      | n # ns \<Rightarrow>
          s\<lparr>posted := ns, pending := AList.delete n (pending s), in_task := True,
            ran_tasks := (case map_of (pending s) n of None \<Rightarrow> ran_tasks s | Some r \<Rightarrow> ran_tasks s @ [(n, r)])\<rparr>)"

definition end_task :: "'a fs_tasks \<Rightarrow> 'a fs_tasks" where
  "end_task s = let_go (s\<lparr>in_task := False\<rparr>)"

text \<open>Tasks are queued and cancelled at any time, by a running one too; one message is handled at a time.\<close>

inductive tasks_step :: "'a fs_tasks \<Rightarrow> 'a fs_tasks \<Rightarrow> bool" where
  step_queue: "tasks_step s (snd (queue_native_fs_task fails run s))"
| step_cancel: "tasks_step s (cancel_task n s)"
| step_deliver: "posted s \<noteq> [] \<Longrightarrow> \<not> in_task s \<Longrightarrow> tasks_step s (deliver_task s)"
| step_end: "in_task s \<Longrightarrow> tasks_step s (end_task s)"

inductive tasks_reachable :: "'a fs_tasks \<Rightarrow> bool" where
  tasks_new: "tasks_reachable no_tasks"
| tasks_next: "tasks_reachable s \<Longrightarrow> tasks_step s s' \<Longrightarrow> tasks_reachable s'"

definition tasks_inv :: "'a fs_tasks \<Rightarrow> bool" where
  "tasks_inv s \<longleftrightarrow>
     (pending s \<noteq> [] \<longrightarrow> holding s \<and> channel_made s) \<and> (holding s \<longrightarrow> pending s \<noteq> [] \<or> in_task s) \<and>
     fst ` set (pending s) \<subseteq> set (posted s) \<and>
     sorted_wrt (<) (map fst (ran_tasks s) @ posted s) \<and>
     (\<forall>n \<in> set (map fst (ran_tasks s) @ posted s). n \<le> sequence s)"

lemma tasks_invD:
  assumes "tasks_inv s"
  shows "pending s \<noteq> [] \<Longrightarrow> holding s" "pending s \<noteq> [] \<Longrightarrow> channel_made s" "holding s \<Longrightarrow> pending s \<noteq> [] \<or> in_task s"
    "fst ` set (pending s) \<subseteq> set (posted s)" "sorted_wrt (<) (map fst (ran_tasks s) @ posted s)"
    "n \<in> set (map fst (ran_tasks s) @ posted s) \<Longrightarrow> n \<le> sequence s"
  using assms unfolding tasks_inv_def by blast+

lemma deleted_names: "fst ` set (AList.delete n xs) = fst ` set xs - {n}"
  using arg_cong [OF AList.delete_keys [of n xs], of set] by simp

lemma cancel_inv: "tasks_inv s \<Longrightarrow> tasks_inv (cancel_task n s)"
  using deleted_names [of n "pending s"] by (auto simp: tasks_inv_def cancel_task_def let_go_def)

lemma queue_inv_tasks:
  assumes inv: "tasks_inv s"
  shows "tasks_inv (snd (queue_native_fs_task fails run s))"
proof -
  let ?n = "Suc (sequence s)"
  note f = tasks_invD [OF inv]
  have new: "?n \<notin> set (posted s)" "?n \<notin> fst ` set (pending s)" using f(4) f(6) [of ?n] by auto
  then have "AList.delete ?n (pending s) = pending s" by (simp add: AList.delete_id)
  moreover have "AList.delete k (AList.update k run xs) = AList.delete k xs" for k :: nat and xs
    by (induction xs) auto
  ultimately have undone: "AList.delete ?n (AList.update ?n run (pending s)) = pending s" by simp
  have names: "fst ` set (AList.update ?n run (pending s)) = insert ?n (fst ` set (pending s))"
    by (simp add: dom_update [symmetric] dom_map_of_conv_image_fst [symmetric] update_conv')
  have "AList.update ?n run (pending s) \<noteq> []" by (cases "pending s") auto
  moreover have "sorted_wrt (<) (map fst (ran_tasks s) @ posted s @ [?n])"
    using f(5) f(6) by (auto simp: sorted_wrt_append less_Suc_eq_le)
  ultimately show ?thesis
    using inv undone names new
    by (auto simp: queue_native_fs_task_def task_channel_def cancel_task_def let_go_def Let_def tasks_inv_def
        less_Suc_eq_le le_SucI)
qed

lemma deliver_inv:
  assumes inv: "tasks_inv s" and "posted s \<noteq> []"
  shows "tasks_inv (deliver_task s)"
proof -
  obtain n ns where p: "posted s = n # ns" using assms(2) by (cases "posted s") auto
  note f = tasks_invD [OF inv]
  have "fst ` set (AList.delete n (pending s)) \<subseteq> set ns" using f(4) p by (auto simp: deleted_names)
  moreover have "sorted_wrt (<) (map fst (ran_tasks s) @ ns)"
    using f(5) p by (auto simp: sorted_wrt_append)
  moreover have "AList.delete n (pending s) \<noteq> [] \<Longrightarrow> pending s \<noteq> []" by auto
  ultimately show ?thesis
    using f p by (auto simp: deliver_task_def tasks_inv_def split: option.split)
qed

lemma tasks_reachable_inv: "tasks_reachable s \<Longrightarrow> tasks_inv s"
proof (induction rule: tasks_reachable.induct)
  case tasks_new
  then show ?case by (simp add: tasks_inv_def no_tasks_def)
next
  case (tasks_next s s')
  from tasks_next(2) show ?case
  proof cases
    case (step_end)
    then show ?thesis using tasks_next(3) by (auto simp: tasks_inv_def end_task_def let_go_def)
  qed (use tasks_next(3) in \<open>auto intro: queue_inv_tasks cancel_inv deliver_inv\<close>)
qed

text \<open>
  Tasks run in the order they were queued, none twice; between two tasks the ports hold the
  loop exactly while one is pending.
\<close>

theorem tasks_in_order:
  assumes "tasks_reachable s"
  shows "sorted_wrt (<) (map fst (ran_tasks s))" and "\<not> in_task s \<Longrightarrow> holding s \<longleftrightarrow> pending s \<noteq> []"
    and "fst ` set (pending s) \<subseteq> set (posted s)"
  using tasks_invD [OF tasks_reachable_inv [OF assms]] by (auto simp: sorted_wrt_append)

text \<open>A task cancelled before it ran never runs: its number is not given again.\<close>

definition cancelled :: "nat \<Rightarrow> 'a fs_tasks \<Rightarrow> bool" where
  "cancelled n s \<longleftrightarrow> n \<le> sequence s \<and> n \<notin> fst ` set (pending s) \<and> n \<notin> fst ` set (ran_tasks s)"

lemma cancel_cancels: "n \<le> sequence s \<Longrightarrow> n \<notin> fst ` set (ran_tasks s) \<Longrightarrow> cancelled n (cancel_task n s)"
  by (simp add: cancelled_def cancel_task_def let_go_def deleted_names)

theorem cancelled_never_runs: "tasks_step s t \<Longrightarrow> cancelled n s \<Longrightarrow> cancelled n t"
proof (induction rule: tasks_step.induct)
  case (step_queue s fails run)
  have "fst ` set (AList.update k run (pending s)) = insert k (fst ` set (pending s))" for k
    by (simp add: dom_update [symmetric] dom_map_of_conv_image_fst [symmetric] update_conv')
  with step_queue show ?case
    by (auto simp: cancelled_def queue_native_fs_task_def task_channel_def cancel_task_def let_go_def Let_def deleted_names)
next
  case (step_cancel s m)
  then show ?case by (auto simp: cancelled_def cancel_task_def let_go_def deleted_names)
next
  case (step_deliver s)
  then show ?case
    by (auto simp: cancelled_def deliver_task_def deleted_names dest: map_of_SomeD split: list.split option.split)
      (force dest: map_of_SomeD)
next
  case (step_end s)
  then show ?case by (simp add: cancelled_def end_task_def let_go_def)
qed

end
