(* ===== verification/Spec2Isabelle.thy ===== *)
theory Spec2Isabelle
  imports VfsFindings VfsSnapshotProps StdinRing StringDecoderProps ProcessRegistryProps SemverProps SocketsProps Locks NodeResolutionProps TarballProps DependenciesProps NativeQueueProps NativeTasks
begin

text \<open>
  A model in HOL of the engine under \<open>src/src/\<close>, which runs Node programs in a
  browser: a file system in memory, Node's buffers and decoders over typed arrays, a byte
  ring between threads, processes and their numbers, module resolution, and the install of
  packages.  Each definition is a translation of the code its theory's opening text names;
  the theorems that carry a number are the properties of that code.

  How the parts meet.  The file system is under everything: the installer
  (\<open>npm/tarball.ts\<close>) unpacks archives into it, the module resolution
  (\<open>node-resolution.ts\<close>) reads it through probes it is given, and a guest's \<open>fs\<close> module
  calls it.  Its paths are resolved by its own \<open>normalizePath\<close>, those of the installer by
  Node's \<open>path.join\<close>, which the development shows to be the same resolution.  A child's
  standard input is a ring shared by two threads; what is read there is decoded by the
  string decoder, whose text comes from the buffer binding.  The process registry
  names the processes that signals and groups reach, and the lock manager orders what their
  pages share.

  \<^item> \<open>Prelude\<close>, \<open>Strings\<close>, \<open>TypedArrays\<close>, \<open>Encodings\<close>: the JavaScript the sources use.  A
    \<open>Map\<close> is an association list in insertion order (locale \<open>js_map\<close>), a \<open>Uint8Array\<close> a view
    of an addressed buffer, since two arrays may share one, a string a list of characters
    or of 16-bit units where surrogates matter, and \<open>TextEncoder\<close> and \<open>TextDecoder\<close> follow the
    Encoding Standard.
  \<^item> \<open>Paths\<close>, \<open>VfsState\<close>, \<open>VfsOps\<close>, \<open>VfsTree\<close>: class \<open>VirtualFS\<close> of \<open>virtual-fs.ts\<close>.  The
    state \<open>fs\<close> is its nodes by address, with the store of the arrays they hold, watchers
    and the clock.  An operation maps a state to a result, an error or a value, and a state.
    \<open>VfsInv\<close>, \<open>VfsPreserve\<close> and \<open>VfsReach\<close> prove the tree invariant of every reachable state;
    \<open>VfsBytes\<close>, \<open>VfsBuffers\<close> and \<open>VfsInPlace\<close> that a write in place is a write of bytes and
    never changes an array handed out; \<open>VfsFiles\<close>, \<open>VfsReadWrite\<close> and \<open>VfsPromises\<close> what each
    operation promises its caller; \<open>VfsFindings\<close> where it differs from the systems it follows.
  \<^item> \<open>VfsSnapshot\<close>, \<open>VfsSnapshotProps\<close>: \<open>toSnapshot\<close> and \<open>fromSnapshot\<close>, with the base64 of
    \<open>utils/binary-encoding.ts\<close>.  The tree is read as a map from lists of names to items
    (\<open>look\<close>), each operation of the restore is an update of that map, and so the round trip
    carries the map.
  \<^item> \<open>StdinRing\<close>: \<open>stdin-ring.ts\<close>, one step per atomic access of the shared words, with the
    writer and the reader interleaved at will.  It refines a byte queue, loses no wakeup and
    does not deadlock, but for a blocking read of no bytes, which may sleep for good.
  \<^item> \<open>BufferBinding\<close>, \<open>BufferLaws\<close>, \<open>BufferProps\<close>: \<open>node-lib/binding/buffer.ts\<close>, with the
    encodings as interpretations of the locale \<open>text_form\<close>.
  \<^item> \<open>StringDecoder\<close>, \<open>StringDecoderLaws\<close>, \<open>StringDecoderProps\<close>: \<open>shims/string_decoder.ts\<close>.
    The locale \<open>incremental\<close> is the contract of a decoder that holds bytes back; however a
    stream is cut, the text is that of the whole.
  \<^item> \<open>ProcessRegistry\<close>, \<open>ProcessRegistryInv\<close>, \<open>ProcessRegistryProps\<close>: \<open>process-registry.ts\<close>, its
    invariant over every history, and what allocation and signals promise.
  \<^item> \<open>Locks\<close>: \<open>node-lib/internals/locks.ts\<close>; exclusion in every reachable state, and that a
    request is granted once what blocks it is released.
  \<^item> \<open>Sockets\<close>, \<open>SocketsProps\<close>: the byte formats of \<open>host-sockets.ts\<close> with their round trips.
  \<^item> \<open>NodeResolution\<close>, \<open>NodeResolutionProps\<close>: \<open>node-resolution.ts\<close> in the state monad over what a
    resolution keeps.  The locale \<open>trusted_memory\<close> is interpreted on the memories that fit
    a tree: what is kept changes no answer.
  \<^item> \<open>Semver\<close>, \<open>SemverProps\<close>: the versions and ranges of \<open>npm/resolver.ts\<close>, with what each range
    means over triples of numbers.
  \<^item> \<open>Registry\<close>, \<open>Dependencies\<close>, \<open>DependenciesSteps\<close>, \<open>DependenciesProps\<close>: the registry client of
    \<open>npm/registry.ts\<close> and the walk of \<open>npm/resolver.ts\<close> that resolves a tree.  A call in
    progress is a \<open>task\<close>, its code after an await a \<open>frame\<close>, and a run a list of paths that
    say which await is over next; the invariant of a walk gives the closed tree it ends in.
  \<^item> \<open>NodePath\<close>: the POSIX functions of \<open>node-lib/path.js\<close> that the engine's own code calls.
  \<^item> \<open>Tarball\<close>, \<open>TarballProps\<close>: \<open>npm/tarball.ts\<close>; an archive written as the formats say
    (ustar, pax, GNU long names) is read back, and the install pool gives every package to one lane.
  \<^item> \<open>NativeQueue\<close>, \<open>NativeQueueProps\<close>: \<open>native-queue.ts\<close>, by which a native addon's threads call
    its process's main thread: any number of senders under a lock, one receiver, the stop, one
    step per access, wait or notify.  Order and wakeups are shown for every interleaving; a run
    shows a send that the stop never wakes.
  \<^item> \<open>NativeTasks\<close>: \<open>native-fs-tasks.ts\<close>, completions of the file system as tasks of the loop, in
    order, with what cancelling one promises.

  Parameters stand for what is not in the repository, or is the realm's: \<open>localeCompare\<close> in
  \<open>Semver\<close>, \<open>JSON.parse\<close>, the package \<open>resolve.exports\<close> and the host's file probes in
  \<open>NodeResolution\<close>, \<open>TextDecoder\<close> and pako's \<open>inflate\<close> in \<open>Tarball\<close>, the interface addresses in
  \<open>Sockets\<close>, the network's replies in \<open>Registry\<close>, an
  installed allocator in \<open>ProcessRegistry\<close>.  What a theorem asks of one is a
  named hypothesis, and its witness meets it with a concrete function.

  Bounds and fuel.  The file system's lookups stop after forty links, the code's own limit, and
  are total by it; the two recursions the code does not bound (\<open>ensureDirectory\<close> and the
  listing or serializing of a subtree) stop at the field \<open>stack_depth\<close>, any number, with the outcome
  \<open>StackOverflow\<close>: theorems that promise an answer ask for a depth of one call at least,
  since on the paths they speak of, reached without links, neither recursion goes deeper; the
  snapshot's asks for a call per node, and no path is longer than that.  \<open>resolve_cached\<close> of \<open>NodeResolution\<close> takes fuel
  for the recursion through import maps; when it is used up the answer is \<open>Endless\<close>, a value
  no resolution of the code returns.  \<open>satisfies\<close> of \<open>Semver\<close> is a \<open>partial_function\<close> into
  options, \<open>None\<close> being no return, and so is \<open>enter\<close> of
  \<open>Dependencies\<close>, whose step then fails with \<open>StackFailure\<close>.  Words are kept at the width of the code's typed arrays;
  numbers that are exact integers in a double are \<open>int\<close> or \<open>nat\<close>.

  Not modelled.  The runtime itself (\<open>runtime.ts\<close>), which compiles and evaluates module text by
  the host's own evaluator; the source transforms, which rewrite the syntax trees of
  third-party parsers; the network (the requests of the registry client, DNS, TLS, servers over service
  workers); WebCrypto and the libraries behind \<open>crypto\<close>; the shell, which is a third-party
  package; native handles and the loading of native code, which are the host's; and Node's own library files under
  \<open>node-lib\<close>, which are vendored as they are.  Of the modelled files, left out are
  the callback forms of \<open>VirtualFS\<close>, the discovery of a process's own kernel
  objects in \<open>host-sockets.ts\<close>, and progress messages.
\<close>

end
